(* ===== verification/Prelude.thy ===== *)
theory Prelude
  imports Main "HOL-Library.Word" "HOL-Library.Signed_Division"
begin

unbundle bit_operations_syntax

text \<open>
  Shared vocabulary of the development: the C integer types the sources use, memory as a
  function from offsets to bytes, and the generic lemmas about words and lists that several
  components need.
\<close>

section \<open>Types\<close>

text \<open>
  \<open>u8\<close>, \<open>u16\<close>, \<open>u32\<close>, \<open>u64\<close> are the unsigned types of sqliteInt.h: words, whose arithmetic
  wraps as C's does. The signed types \<open>int\<close> and \<open>i64\<close> are mathematical integers, because
  signed overflow is undefined in C: where it matters, the theorems show that the values stay
  in range.
\<close>

type_synonym u8 = "8 word"
type_synonym u16 = "16 word"
type_synonym u32 = "32 word"
type_synonym u64 = "64 word"
type_synonym cint = int
type_synonym i64 = int

definition LARGEST_INT64 :: i64 where "LARGEST_INT64 = 0x7fffffffffffffff"
definition SMALLEST_INT64 :: i64 where "SMALLEST_INT64 = -1 - LARGEST_INT64"

definition is_i64 :: "int \<Rightarrow> bool" where
  "is_i64 x \<longleftrightarrow> SMALLEST_INT64 \<le> x \<and> x \<le> LARGEST_INT64"

definition is_i32 :: "int \<Rightarrow> bool" where
  "is_i32 x \<longleftrightarrow> - 0x80000000 \<le> x \<and> x \<le> 0x7fffffff"

lemmas i64_defs = is_i64_def SMALLEST_INT64_def LARGEST_INT64_def

text \<open>A pointer into readable memory: the byte at each offset from it.\<close>

type_synonym mem = "nat \<Rightarrow> u8"

definition mem_at :: "mem \<Rightarrow> nat \<Rightarrow> u8 list \<Rightarrow> bool" where
  "mem_at m i xs \<longleftrightarrow> (\<forall>k < length xs. m (i + k) = xs ! k)"

definition mem_of :: "u8 list \<Rightarrow> mem" where
  "mem_of xs i = (if i < length xs then xs ! i else 0)"

lemma mem_at_Nil [simp]: "mem_at m i []"
  by (simp add: mem_at_def)

lemma mem_at_Cons [simp]: "mem_at m i (x # xs) \<longleftrightarrow> m i = x \<and> mem_at m (Suc i) xs"
  by (auto simp: mem_at_def nth_Cons split: nat.splits)

lemma mem_at_append [simp]:
  "mem_at m i (xs @ ys) \<longleftrightarrow> mem_at m i xs \<and> mem_at m (i + length xs) ys"
  by (induction xs arbitrary: i) auto

lemma mem_at_mem_of: "mem_at (mem_of (xs @ ys)) 0 xs"
  by (simp add: mem_at_def mem_of_def nth_append)

section \<open>Words\<close>

text \<open>A shift to the right by a positive amount makes a non-zero word smaller.\<close>

lemma unat_drop_bit_less:
  fixes v :: "'a::len word"
  assumes "v \<noteq> 0" "0 < n"
  shows "unat (drop_bit n v) < unat v"
proof -
  have "0 < unat v" using assms(1) by (simp add: unat_gt_0)
  moreover have "(2::nat) \<le> 2 ^ n" using assms(2) by (cases n) auto
  ultimately have "unat v div 2 ^ n < unat v" by (simp add: div_less_dividend)
  then show ?thesis unfolding unat_drop_bit_eq by (simp add: drop_bit_eq_div)
qed


lemma bit_u8_high: "8 \<le> n \<Longrightarrow> \<not> bit (x::u8) n"
  using bit_imp_le_length by fastforce

text \<open>The bits of the masks the sources use.\<close>

lemma bit_0x7f_int: "bit (0x7f :: int) n \<longleftrightarrow> n < 7"
  using bit_mask_iff [where 'a = int, of 7 n] by (simp add: mask_numeral)

lemma bit_0xff_int: "bit (0xff :: int) n \<longleftrightarrow> n < 8"
  using bit_mask_iff [where 'a = int, of 8 n] by (simp add: mask_numeral)

lemma bit_0x80_int: "bit (0x80 :: int) n \<longleftrightarrow> n = 7"
  using bit_exp_iff [where 'a = int, of 7 n] by simp

lemmas mask_bits = bit_0x7f_int bit_0xff_int bit_0x80_int

lemma u8_less_0x80: "x < 0x80 \<longleftrightarrow> \<not> bit (x::u8) 7"
proof -
  have *: "k < 128 \<longleftrightarrow> even (k div 128)" if "0 \<le> k" "k < 256" for k :: int
  proof (cases "k < 128")
    case False
    then have "k div 128 = 1" using that by simp
    with False show ?thesis by simp
  qed (use that in simp)
  have "bit x 7 \<longleftrightarrow> odd (uint x div 128)"
    using bit_uint_iff [of x 7] bit_iff_odd [of "uint x" 7] by simp
  then show ?thesis
    using * [of "uint x"] uint_lt2p [of x] by (simp add: word_less_def)
qed

text \<open>Equality of 64-bit words, one bit at a time: the list evaluates by \<open>simp\<close>.\<close>

lemma u64_eq_bitwise:
  "list_all (\<lambda>n. bit (x::u64) n = bit y n)
     [0, 1, 2, 3, 4, 5, 6, 7, 8, 9, 10, 11, 12, 13, 14, 15, 16, 17, 18, 19, 20, 21, 22,
      23, 24, 25, 26, 27, 28, 29, 30, 31, 32, 33, 34, 35, 36, 37, 38, 39, 40, 41, 42, 43,
      44, 45, 46, 47, 48, 49, 50, 51, 52, 53, 54, 55, 56, 57, 58, 59, 60, 61, 62, 63]
      \<Longrightarrow> x = y"
proof (rule bit_word_eqI)
  fix n
  assume "list_all (\<lambda>n. bit x n = bit y n)
     [0, 1, 2, 3, 4, 5, 6, 7, 8, 9, 10, 11, 12, 13, 14, 15, 16, 17, 18, 19, 20, 21, 22,
      23, 24, 25, 26, 27, 28, 29, 30, 31, 32, 33, 34, 35, 36, 37, 38, 39, 40, 41, 42, 43,
      44, 45, 46, 47, 48, 49, 50, 51, 52, 53, 54, 55, 56, 57, 58, 59, 60, 61, 62, 63]" and
      "n < LENGTH(64)"
  moreover have "[0..<64] = [0, 1, 2, 3, 4, 5, 6, 7, 8, 9, 10, 11, 12, 13, 14, 15, 16, 17, 18, 19, 20, 21, 22,
      23, 24, 25, 26, 27, 28, 29, 30, 31, 32, 33, 34, 35, 36, 37, 38, 39, 40, 41, 42, 43,
      44, 45, 46, 47, 48, 49, 50, 51, 52, 53, 54, 55, 56, 57, 58, 59, 60, 61, 62, 63]"
    by code_simp
  ultimately have "list_all (\<lambda>n. bit x n = bit y n) [0..<64]" and "n < 64" by simp_all
  then show "bit x n = bit y n" by (simp add: list_all_iff)
qed

lemma drop_bit_eq_0_iff: "drop_bit n (v::'a::len word) = 0 \<longleftrightarrow> unat v < 2 ^ n"
proof -
  have "drop_bit n v = 0 \<longleftrightarrow> unat v div 2 ^ n = 0"
    unfolding word_unat_eq_iff unat_drop_bit_eq by (simp add: drop_bit_eq_div)
  then show ?thesis by (simp add: div_eq_0_iff)
qed

end
