(* ===== verification/Varint.thy ===== *)
theory Varint
  imports Prelude
begin

text \<open>
  The variable-length integers of the file format (util.c): \<open>sqlite3PutVarint\<close>,
  \<open>sqlite3GetVarint\<close> and their 32-bit and length companions, with the byte-wise reference
  decoder they are compared to.
\<close>

section \<open>Writing\<close>

text \<open>The 9-byte case: bytes 7 down to 0 take seven bits each, with the flag bit.\<close>

primrec putVarint64_hi :: "nat \<Rightarrow> u64 \<Rightarrow> u8 list \<Rightarrow> u8 list" where
  "putVarint64_hi 0 v p = p"
| "putVarint64_hi (Suc i) v p =
     putVarint64_hi i (drop_bit 7 v) (ucast ((v AND 0x7f) OR 0x80) # p)"

text \<open>The \<open>do \<dots> while( v!=0 )\<close> loop that fills \<open>buf\<close>, least significant group first.\<close>

function putVarint64_buf :: "u64 \<Rightarrow> u8 list" where
  "putVarint64_buf v =
     ucast ((v AND 0x7f) OR 0x80) #
       (let v' = drop_bit 7 v in if v' \<noteq> 0 then putVarint64_buf v' else [])"
  by pat_completeness auto
termination
  by (relation "measure unat") (auto intro!: unat_drop_bit_less)

declare putVarint64_buf.simps [simp del]

definition putVarint64 :: "u64 \<Rightarrow> u8 list" where
  "putVarint64 v =
     (if v AND push_bit 32 0xff000000 \<noteq> 0
      then putVarint64_hi 8 (drop_bit 8 v) [ucast v]
      else (case putVarint64_buf v of [] \<Rightarrow> [] | b0 # bs \<Rightarrow> rev ((b0 AND 0x7f) # bs)))"

definition sqlite3PutVarint :: "u64 \<Rightarrow> u8 list" where
  "sqlite3PutVarint v =
     (if v \<le> 0x7f then [ucast (v AND 0x7f)]
      else if v \<le> 0x3fff
      then [ucast ((drop_bit 7 v AND 0x7f) OR 0x80), ucast (v AND 0x7f)]
      else putVarint64 v)"

section \<open>Reading\<close>

text \<open>
  \<open>sqlite3GetVarint\<close> reads at most nine bytes from \<open>p\<close> and keeps three 32-bit accumulators
  \<open>a\<close>, \<open>b\<close> (alternate groups, partly unmasked) and \<open>s\<close> (the groups that end up in the high
  half). The result is the pair of \<open>*v\<close> and the number of bytes read.
\<close>

definition SLOT_2_0 :: u32 where "SLOT_2_0 = 0x001fc07f"
definition SLOT_4_2_0 :: u32 where "SLOT_4_2_0 = 0xf01fc07f"

definition varint_join :: "u32 \<Rightarrow> u32 \<Rightarrow> u64" where
  "varint_join s a = push_bit 32 (ucast s) OR ucast a"

definition sqlite3GetVarint :: "mem \<Rightarrow> u64 \<times> nat" where
  "sqlite3GetVarint p =
     (let a = (ucast (p 0) :: u32) in
      if a AND 0x80 = 0 then (ucast a, 1) else
      let b = (ucast (p 1) :: u32) in
      if b AND 0x80 = 0 then
        (let a = a AND 0x7f; a = push_bit 7 a; a = a OR b in (ucast a, 2)) else
      let a = push_bit 14 a; a = a OR ucast (p 2) in
      if a AND 0x80 = 0 then
        (let a = a AND SLOT_2_0; b = b AND 0x7f; b = push_bit 7 b; a = a OR b in (ucast a, 3)) else
      let a = a AND SLOT_2_0; b = push_bit 14 b; b = b OR ucast (p 3) in
      if b AND 0x80 = 0 then
        (let b = b AND SLOT_2_0; a = push_bit 7 a; a = a OR b in (ucast a, 4)) else
      let b = b AND SLOT_2_0; s = a; a = push_bit 14 a; a = a OR ucast (p 4) in
      if a AND 0x80 = 0 then
        (let b = push_bit 7 b; a = a OR b; s = drop_bit 18 s in (varint_join s a, 5)) else
      let s = push_bit 7 s; s = s OR b; b = push_bit 14 b; b = b OR ucast (p 5) in
      if b AND 0x80 = 0 then
        (let a = a AND SLOT_2_0; a = push_bit 7 a; a = a OR b; s = drop_bit 18 s
         in (varint_join s a, 6)) else
      let a = push_bit 14 a; a = a OR ucast (p 6) in
      if a AND 0x80 = 0 then
        (let a = a AND SLOT_4_2_0; b = b AND SLOT_2_0; b = push_bit 7 b; a = a OR b;
             s = drop_bit 11 s in (varint_join s a, 7)) else
      let a = a AND SLOT_2_0; b = push_bit 14 b; b = b OR ucast (p 7) in
      if b AND 0x80 = 0 then
        (let b = b AND SLOT_4_2_0; a = push_bit 7 a; a = a OR b; s = drop_bit 4 s
         in (varint_join s a, 8)) else
      let a = push_bit 15 a; a = a OR ucast (p 8); b = b AND SLOT_2_0; b = push_bit 8 b;
          a = a OR b; s = push_bit 4 s; b = ucast (p 4); b = b AND 0x7f; b = drop_bit 3 b;
          s = s OR b
      in (varint_join s a, 9))"

text \<open>The format as the key comment of util.c gives it: seven bits a byte, eight in the ninth.\<close>

fun varint_ref :: "nat \<Rightarrow> mem \<Rightarrow> nat \<Rightarrow> u64 \<Rightarrow> u64 \<times> nat" where
  "varint_ref 0 p i acc = (push_bit 8 acc OR ucast (p i), i + 1)"
| "varint_ref (Suc left) p i acc =
     (let acc' = push_bit 7 acc OR ucast (p i AND 0x7f)
      in if bit (p i) 7 then varint_ref left p (i + 1) acc' else (acc', i + 1))"

definition varint_decode :: "mem \<Rightarrow> u64 \<times> nat" where
  "varint_decode p = varint_ref 8 p 0 0"


text \<open>
  \<open>sqlite3GetVarint32\<close> reads a varint whose first byte the macro \<open>getVarint32\<close> has already
  found to have its flag bit set; values above 32 bits are clamped.
\<close>

definition sqlite3GetVarint32 :: "mem \<Rightarrow> u32 \<times> nat" where
  "sqlite3GetVarint32 p =
     (let a = (ucast (p 0) :: u32); b = (ucast (p 1) :: u32) in
      if b AND 0x80 = 0 then
        (let a = a AND 0x7f; a = push_bit 7 a in (a OR b, 2)) else
      let a = push_bit 14 a; a = a OR ucast (p 2) in
      if a AND 0x80 = 0 then
        (let a = a AND (push_bit 14 0x7f OR 0x7f); b = b AND 0x7f; b = push_bit 7 b
         in (a OR b, 3)) else
      let (v64, n) = sqlite3GetVarint p in
      if v64 AND 0xffffffff \<noteq> v64 then (0xffffffff, n) else (ucast v64, n))"

definition getVarint32 :: "mem \<Rightarrow> u32 \<times> nat" where
  "getVarint32 p = (if p 0 < 0x80 then (ucast (p 0), 1) else sqlite3GetVarint32 p)"

text \<open>\<open>for(i=1; (v >>= 7)!=0; i++)\<close>\<close>

function varintLen_loop :: "u64 \<Rightarrow> nat \<Rightarrow> nat" where
  "varintLen_loop v i = (let v' = drop_bit 7 v in if v' \<noteq> 0 then varintLen_loop v' (Suc i) else i)"
  by pat_completeness auto
termination
  by (relation "measure (unat \<circ> fst)") (auto intro!: unat_drop_bit_less)

declare varintLen_loop.simps [simp del]

definition sqlite3VarintLen :: "u64 \<Rightarrow> nat" where
  "sqlite3VarintLen v = varintLen_loop v 1"

text \<open>Big-endian 32-bit values (the portable branch of each routine).\<close>

definition sqlite3Get4byte :: "mem \<Rightarrow> u32" where
  "sqlite3Get4byte p =
     push_bit 24 (ucast (p 0)) OR push_bit 16 (ucast (p 1)) OR push_bit 8 (ucast (p 2))
       OR ucast (p 3)"

definition sqlite3Put4byte :: "u32 \<Rightarrow> u8 list" where
  "sqlite3Put4byte v =
     [ucast (drop_bit 24 v), ucast (drop_bit 16 v), ucast (drop_bit 8 v), ucast v]"

section \<open>The unrolled reader agrees with the format\<close>

lemma u32_and_0x80: "x AND 0x80 = 0 \<longleftrightarrow> \<not> bit (x::u32) 7"
proof -
  have "(0x80::u32) = 2 ^ 7" by simp
  then show ?thesis by (simp only: and_exp_eq_0_iff_not_bit)
qed

lemma if_flag: "(if a AND 0x80 = 0 then x else y) = (if bit (a::u32) 7 then y else x)"
  by (simp add: u32_and_0x80)

lemma flag_bit:
  "bit (a OR b :: u32) 7 \<longleftrightarrow> bit a 7 \<or> bit b 7"
  "bit (a AND b :: u32) 7 \<longleftrightarrow> bit a 7 \<and> bit b 7"
  "bit (ucast (x::u8) :: u32) 7 = bit x 7"
  "bit (push_bit 14 a :: u32) 7 = False"
  "bit (push_bit 21 a :: u32) 7 = False"
  "bit (push_bit 28 a :: u32) 7 = False"
  by (simp_all add: bit_simps)

lemma varint_ref_numeral: "varint_ref (numeral k) p i acc =
  (let acc' = push_bit 7 acc OR ucast (p i AND 0x7f)
   in if bit (p i) 7 then varint_ref (pred_numeral k) p (i + 1) acc' else (acc', i + 1))"
  by (simp add: numeral_eq_Suc)

lemma varint_ref_one: "varint_ref 1 p i acc =
  (let acc' = push_bit 7 acc OR ucast (p i AND 0x7f)
   in if bit (p i) 7 then varint_ref 0 p (i + 1) acc' else (acc', i + 1))"
  by simp

lemmas varint_unfold = sqlite3GetVarint_def varint_decode_def Let_def varint_ref_numeral
  varint_ref_one varint_ref.simps(1) if_flag flag_bit pred_numeral_simps

lemmas varint_bits = bit_simps SLOT_2_0_def SLOT_4_2_0_def varint_join_def bit_u8_high

lemma getVarint_eq_1:
  "\<lbrakk>\<not> bit (p 0) 7\<rbrakk>
   \<Longrightarrow> sqlite3GetVarint p = varint_decode p"
  by (simp add: varint_unfold del: One_nat_def,
      rule u64_eq_bitwise, simp add: varint_bits)

lemma getVarint_eq_2:
  "\<lbrakk>bit (p 0) 7; \<not> bit (p 1) 7\<rbrakk>
   \<Longrightarrow> sqlite3GetVarint p = varint_decode p"
  by (simp add: varint_unfold del: One_nat_def,
      rule u64_eq_bitwise, simp add: varint_bits)

lemma getVarint_eq_3:
  "\<lbrakk>bit (p 0) 7; bit (p 1) 7; \<not> bit (p 2) 7\<rbrakk>
   \<Longrightarrow> sqlite3GetVarint p = varint_decode p"
  by (simp add: varint_unfold del: One_nat_def,
      rule u64_eq_bitwise, simp add: varint_bits)

lemma getVarint_eq_4:
  "\<lbrakk>bit (p 0) 7; bit (p 1) 7; bit (p 2) 7; \<not> bit (p 3) 7\<rbrakk>
   \<Longrightarrow> sqlite3GetVarint p = varint_decode p"
  by (simp add: varint_unfold del: One_nat_def,
      rule u64_eq_bitwise, simp add: varint_bits)

lemma getVarint_eq_5:
  "\<lbrakk>bit (p 0) 7; bit (p 1) 7; bit (p 2) 7; bit (p 3) 7; \<not> bit (p 4) 7\<rbrakk>
   \<Longrightarrow> sqlite3GetVarint p = varint_decode p"
  by (simp add: varint_unfold del: One_nat_def,
      rule u64_eq_bitwise, simp add: varint_bits)

lemma getVarint_eq_6:
  "\<lbrakk>bit (p 0) 7; bit (p 1) 7; bit (p 2) 7; bit (p 3) 7; bit (p 4) 7; \<not> bit (p
     5) 7\<rbrakk>
   \<Longrightarrow> sqlite3GetVarint p = varint_decode p"
  by (simp add: varint_unfold del: One_nat_def,
      rule u64_eq_bitwise, simp add: varint_bits)

lemma getVarint_eq_7:
  "\<lbrakk>bit (p 0) 7; bit (p 1) 7; bit (p 2) 7; bit (p 3) 7; bit (p 4) 7; bit (p 5) 7;
     \<not> bit (p 6) 7\<rbrakk>
   \<Longrightarrow> sqlite3GetVarint p = varint_decode p"
  by (simp add: varint_unfold del: One_nat_def,
      rule u64_eq_bitwise, simp add: varint_bits)

lemma getVarint_eq_8:
  "\<lbrakk>bit (p 0) 7; bit (p 1) 7; bit (p 2) 7; bit (p 3) 7; bit (p 4) 7; bit (p 5) 7;
     bit (p 6) 7; \<not> bit (p 7) 7\<rbrakk>
   \<Longrightarrow> sqlite3GetVarint p = varint_decode p"
  by (simp add: varint_unfold del: One_nat_def,
      rule u64_eq_bitwise, simp add: varint_bits)

lemma getVarint_eq_9:
  "\<lbrakk>bit (p 0) 7; bit (p 1) 7; bit (p 2) 7; bit (p 3) 7; bit (p 4) 7; bit (p 5) 7;
     bit (p 6) 7; bit (p 7) 7\<rbrakk>
   \<Longrightarrow> sqlite3GetVarint p = varint_decode p"
  by (simp add: varint_unfold del: One_nat_def,
      rule u64_eq_bitwise, simp add: varint_bits)

lemma getVarint_eq_decode: "sqlite3GetVarint p = varint_decode p"
  by (metis getVarint_eq_1 getVarint_eq_2 getVarint_eq_3 getVarint_eq_4 getVarint_eq_5 getVarint_eq_6 getVarint_eq_7 getVarint_eq_8 getVarint_eq_9)


section \<open>Round trip\<close>

text \<open>The value of a run of seven-bit groups appended to \<open>acc\<close>.\<close>

definition fold7 :: "u8 list \<Rightarrow> u64 \<Rightarrow> u64" where
  "fold7 bs acc = fold (\<lambda>b a. push_bit 7 a OR ucast (b AND 0x7f)) bs acc"

abbreviation flagged :: "u64 \<Rightarrow> u8" where
  "flagged v \<equiv> ucast ((v AND 0x7f) OR 0x80)"

lemma varint_ref_flagged:
  assumes "mem_at p i hs" "\<forall>h \<in> set hs. bit h 7"
  shows "varint_ref (length hs + r) p i acc = varint_ref r p (i + length hs) (fold7 hs acc)"
  using assms by (induction hs arbitrary: i acc) (auto simp: fold7_def)

lemma flagged_bit [simp]: "bit (flagged v) 7"
  by (simp add: bit_simps)
lemma flagged_low: "ucast (flagged v AND 0x7f) = v AND (0x7f :: u64)"
  by (rule bit_word_eqI) (auto simp: bit_simps mask_bits bit_u8_high)

lemma fold7_snoc: "fold7 (bs @ [b]) acc = push_bit 7 (fold7 bs acc) OR ucast (b AND 0x7f)"
  by (simp add: fold7_def)

lemma split7: "push_bit 7 (drop_bit 7 v) OR (v AND 0x7f) = (v :: u64)"
  by (rule bit_word_eqI) (auto simp: bit_simps mask_bits)

lemma hi_append: "putVarint64_hi i v p = putVarint64_hi i v [] @ p"
proof (induction i arbitrary: v p)
  case (Suc i)
  from Suc[of "drop_bit 7 v" "flagged v # p"] Suc[of "drop_bit 7 v" "[flagged v]"] show ?case by simp
qed simp

lemma fold7_hi: "fold7 (putVarint64_hi i v []) acc = push_bit (7 * i) acc OR take_bit (7 * i) v"
proof (induction i arbitrary: v)
  case 0 then show ?case by (simp add: fold7_def)
next
  case (Suc i)
  have "take_bit (7 * Suc i) v = push_bit 7 (take_bit (7 * i) (drop_bit 7 v)) OR (v AND 0x7f)"
    by (rule bit_word_eqI) (auto simp: bit_simps mask_bits)
  then show ?case
    by (simp add: hi_append[of i "drop_bit 7 v" "[flagged v]"] fold7_snoc flagged_low Suc push_bit_or or.assoc)
qed
lemma fold7_buf: "fold7 (rev (putVarint64_buf v)) acc = push_bit (7 * length (putVarint64_buf v)) acc OR v"
proof (induction v arbitrary: acc rule: putVarint64_buf.induct)
  case (1 v)
  show ?case
  proof (cases "drop_bit 7 v = 0")
    case True
    then have "v AND 0x7f = v" using split7[of v] by simp
    then have "ucast (flagged v AND 0x7f) = v" using flagged_low[of v] by simp
    then show ?thesis using True by (simp add: putVarint64_buf.simps[of v] fold7_def)
  next
    case False
    let ?b = "putVarint64_buf (drop_bit 7 v)"
    have "fold7 (rev (putVarint64_buf v)) acc = push_bit 7 (push_bit (7 * length ?b) acc OR drop_bit 7 v) OR (v AND 0x7f)"
      using False 1[OF refl False] by (simp add: putVarint64_buf.simps[of v] fold7_snoc flagged_low)
    also have "\<dots> = push_bit (7 * length (putVarint64_buf v)) acc OR (push_bit 7 (drop_bit 7 v) OR (v AND 0x7f))"
      using False by (simp add: putVarint64_buf.simps[of v] push_bit_or or.assoc algebra_simps)
    finally show ?thesis by (simp only: split7)
  qed
qed
lemma varint_decode_short:
  assumes "mem_at p 0 (hs @ [l])" "\<forall>h \<in> set hs. bit h 7" "\<not> bit l 7" "length hs < 8"
  shows "varint_decode p = (fold7 (hs @ [l]) 0, length hs + 1)"
proof -
  have "8 = length hs + Suc (7 - length hs)" using assms(4) by simp
  then have "varint_decode p = varint_ref (length hs + Suc (7 - length hs)) p 0 0"
    unfolding varint_decode_def by presburger
  also have "\<dots> = varint_ref (Suc (7 - length hs)) p (length hs) (fold7 hs 0)"
    using assms varint_ref_flagged[of p 0 hs] by (simp only: mem_at_append add_0)
  finally show ?thesis using assms by (simp add: fold7_snoc Let_def)
qed

lemma varint_decode_9:
  assumes "mem_at p 0 (hs @ [l])" "\<forall>h \<in> set hs. bit h 7" "length hs = 8"
  shows "varint_decode p = (push_bit 8 (fold7 hs 0) OR ucast l, 9)"
  using assms varint_ref_flagged[of p 0 hs 0 0] by (simp add: varint_decode_def)

lemma hi_flagged: "\<forall>h \<in> set (putVarint64_hi i v []). bit h 7"
  by (induction i arbitrary: v) (auto simp: hi_append[of _ _ "[_]"] simp del: putVarint64_hi.simps(2) simp: putVarint64_hi.simps(2)[of _ _ "[]"])

lemma hi_length: "length (putVarint64_hi i v p) = i + length p"
  by (induction i arbitrary: v p) auto

lemma buf_flagged: "\<forall>h \<in> set (putVarint64_buf v). bit h 7"
proof (induction v rule: putVarint64_buf.induct)
  case (1 v)
  then show ?case by (subst putVarint64_buf.simps) (auto simp: Let_def)
qed

lemma buf_ne [simp]: "putVarint64_buf v \<noteq> []"
  by (subst putVarint64_buf.simps) simp

lemma buf_length_le: "drop_bit (7 * k) v = 0 \<Longrightarrow> 0 < k \<Longrightarrow> length (putVarint64_buf v) \<le> k"
proof (induction k arbitrary: v)
  case (Suc k)
  show ?case
  proof (cases "drop_bit 7 v = 0")
    case False
    then have "0 < k" using Suc.prems by (cases k) auto
    moreover have "drop_bit (7 * k) (drop_bit 7 v) = 0"
      using Suc.prems by (simp add: add.commute)
    ultimately have "length (putVarint64_buf (drop_bit 7 v)) \<le> k" using Suc.IH by blast
    with False show ?thesis by (subst putVarint64_buf.simps) simp
  qed (subst putVarint64_buf.simps, simp)
qed simp

lemma buf_length_ge: "drop_bit (7 * k) v \<noteq> 0 \<Longrightarrow> k < length (putVarint64_buf v)"
proof (induction k arbitrary: v)
  case (Suc k)
  then have "drop_bit (7 * k) (drop_bit 7 v) \<noteq> 0" by (simp add: add.commute)
  moreover from this have "drop_bit 7 v \<noteq> 0" by (metis drop_bit_of_0)
  ultimately
  show ?case using Suc.IH[of "drop_bit 7 v"] by (subst putVarint64_buf.simps) simp
qed simp

lemma hi_mask: "v AND 0xff00000000000000 = 0 \<longleftrightarrow> drop_bit 56 (v::u64) = 0"
proof -
  have "0xff00000000000000 = push_bit 56 (mask 8 :: u64)" by (simp add: mask_numeral)
  moreover have "v AND push_bit 56 (mask 8) = push_bit 56 (drop_bit 56 v)"
    by (rule bit_word_eqI) (auto simp: bit_simps mask_bits)
  moreover have "push_bit 56 (drop_bit 56 v) = 0 \<longleftrightarrow> drop_bit 56 v = 0"
  proof
    assume "push_bit 56 (drop_bit 56 v) = 0"
    then have "drop_bit 56 (push_bit 56 (drop_bit 56 v)) = 0" by simp
    moreover have "drop_bit 56 (push_bit 56 (drop_bit 56 v)) = drop_bit 56 v"
      by (rule bit_word_eqI) (auto simp: bit_simps dest: bit_imp_le_length)
    ultimately show "drop_bit 56 v = 0" by simp
  qed simp
  ultimately show ?thesis by simp
qed
lemma clear_low: "\<not> bit (b AND 0x7f :: u8) 7" "(b AND 0x7f) AND 0x7f = (b AND 0x7f::u8)" 
  by (auto simp: bit_simps mask_bits and.assoc)

lemma le_drop: "v \<le> 0x7f \<longleftrightarrow> drop_bit 7 (v::u64) = 0" "v \<le> 0x3fff \<longleftrightarrow> drop_bit 14 (v::u64) = 0"
  by (auto simp: drop_bit_eq_0_iff word_le_nat_alt)

lemma putVarint64_shape:
  assumes "drop_bit 56 v = 0"
  obtains hs l where "putVarint64 v = hs @ [l]" "\<forall>h \<in> set hs. bit h 7" "\<not> bit l 7" "length hs + 1 = length (putVarint64_buf v)" "fold7 (hs @ [l]) 0 = v" "length hs < 8"
proof -
  obtain b bs where b: "putVarint64_buf v = b # bs" by (cases "putVarint64_buf v") auto
  have "fold7 (rev bs @ [b AND 0x7f]) 0 = fold7 (rev (putVarint64_buf v)) 0"
    by (simp add: b fold7_snoc clear_low)
  also have "\<dots> = v" by (simp add: fold7_buf)
  finally have "fold7 (rev bs @ [b AND 0x7f]) 0 = v" .
  moreover have "length (putVarint64_buf v) \<le> 8" using buf_length_le[of 8 v] assms by simp
  ultimately show ?thesis
    using that[of "rev bs" "b AND 0x7f"] assms buf_flagged[of v]
    by (simp add: putVarint64_def hi_mask b clear_low)
qed

lemma putVarint64_9:
  assumes "drop_bit 56 v \<noteq> 0" "mem_at p 0 (putVarint64 v)"
  shows "varint_decode p = (v, 9)" "length (putVarint64 v) = 9"
proof -
  let ?hs = "putVarint64_hi 8 (drop_bit 8 v) []"
  have e: "putVarint64 v = ?hs @ [ucast v]"
    using assms(1) hi_append[of 8 "drop_bit 8 v" "[ucast v]"] by (simp add: putVarint64_def hi_mask)
  then show "length (putVarint64 v) = 9" by (simp add: hi_length)
  have "push_bit 8 (take_bit 56 (drop_bit 8 v)) OR ucast (ucast v :: u8) = v"
    by (rule bit_word_eqI) (auto simp: bit_simps)
  moreover have "fold7 ?hs 0 = take_bit 56 (drop_bit 8 v)" by (simp add: fold7_hi)
  ultimately show "varint_decode p = (v, 9)"
    using varint_decode_9[of p ?hs "ucast v"] assms(2) e hi_flagged[of 8 "drop_bit 8 v"]
    by (simp add: hi_length)
qed

lemma flagged_clear: "flagged v AND 0x7f = (ucast (v AND 0x7f) :: u8)"
  by (rule bit_word_eqI) (auto simp: bit_simps mask_bits)

text \<open>The one- and two-byte fast paths write what the general routine writes.\<close>

lemma sqlite3PutVarint_eq: "sqlite3PutVarint v = putVarint64 v"
proof -
  have h: "v AND 0xff00000000000000 = 0" if "v \<le> 0x3fff"
    using that by (simp add: hi_mask drop_bit_eq_0_iff word_le_nat_alt)
  consider "v \<le> 0x7f" | "\<not> v \<le> 0x7f" "v \<le> 0x3fff" | "\<not> v \<le> 0x7f" "\<not> v \<le> 0x3fff" by blast
  then show ?thesis
  proof cases
    case 1
    then have "v \<le> 0x3fff" by (simp add: word_le_nat_alt)
    with 1 h show ?thesis
      by (simp add: sqlite3PutVarint_def putVarint64_def putVarint64_buf.simps[of v] le_drop flagged_clear)
  next
    case 2
    then have "drop_bit 7 (drop_bit 7 v) = 0" "drop_bit 7 v \<noteq> 0" by (simp_all add: le_drop)
    with 2 h show ?thesis
      by (simp add: sqlite3PutVarint_def putVarint64_def putVarint64_buf.simps[of v]
          putVarint64_buf.simps[of "drop_bit 7 v"] flagged_clear)
  next
    case 3
    then show ?thesis by (simp add: sqlite3PutVarint_def)
  qed
qed

lemma varint_decode_put:
  assumes "mem_at p 0 (sqlite3PutVarint v)"
  shows "varint_decode p = (v, length (sqlite3PutVarint v))"
proof (cases "drop_bit 56 v = 0")
  case True
  then obtain hs l where "putVarint64 v = hs @ [l]" "\<forall>h \<in> set hs. bit h 7" "\<not> bit l 7"
    "fold7 (hs @ [l]) 0 = v" "length hs < 8"
    by (rule putVarint64_shape)
  then show ?thesis
    using varint_decode_short[of p hs l] assms by (simp add: sqlite3PutVarint_eq)
next
  case False
  then show ?thesis using putVarint64_9[of v p] assms by (simp add: sqlite3PutVarint_eq)
qed

lemma varintLen_loop_eq: "varintLen_loop v i = i + length (putVarint64_buf v) - 1"
proof (induction v i rule: varintLen_loop.induct)
  case (1 v i)
  then show ?case
    by (subst varintLen_loop.simps, subst putVarint64_buf.simps) (simp add: Let_def)
qed

lemma sqlite3VarintLen_eq: "sqlite3VarintLen v = length (putVarint64_buf v)"
  by (simp add: sqlite3VarintLen_def varintLen_loop_eq)

lemma sqlite3PutVarint_length:
  "length (sqlite3PutVarint v) = (if drop_bit 56 v = 0 then length (putVarint64_buf v) else 9)"
proof (cases "drop_bit 56 v = 0")
  case True
  then obtain hs l where "putVarint64 v = hs @ [l]" "length hs + 1 = length (putVarint64_buf v)"
    by (rule putVarint64_shape)
  with True show ?thesis by (simp add: sqlite3PutVarint_eq)
next
  case False
  then show ?thesis
    using putVarint64_9(2)[of v "mem_of (putVarint64 v)"] mem_at_mem_of[of "putVarint64 v" "[]"]
    by (simp add: sqlite3PutVarint_eq)
qed

lemma sqlite3VarintLen_put:
  "sqlite3VarintLen v = (if v < 0x8000000000000000 then length (sqlite3PutVarint v) else 10)"
proof -
  have hi: "v < 0x8000000000000000 \<longleftrightarrow> drop_bit 63 v = 0"
    by (simp add: drop_bit_eq_0_iff word_less_nat_alt)
  show ?thesis
  proof (cases "drop_bit 56 v = 0")
    case True
    then have "drop_bit 63 v = 0" by (simp add: drop_bit_eq_0_iff)
    with True show ?thesis by (simp add: sqlite3VarintLen_eq sqlite3PutVarint_length hi)
  next
    case False
    then have "8 < length (putVarint64_buf v)" using buf_length_ge[of 8 v] by simp
    moreover have "length (putVarint64_buf v) \<le> 9 \<longleftrightarrow> drop_bit 63 v = 0"
      using buf_length_le[of 9 v] buf_length_ge[of 9 v] by (cases "drop_bit 63 v = 0") simp_all
    moreover have "length (putVarint64_buf v) \<le> 10"
      using unsigned_less[of v] by (intro buf_length_le) (simp_all add: drop_bit_eq_0_iff)
    ultimately show ?thesis using False by (auto simp: sqlite3VarintLen_eq sqlite3PutVarint_length hi)
  qed
qed

lemma u64_and_u32_mask: "v AND 0xffffffff = v \<longleftrightarrow> (v::u64) \<le> 0xffffffff"
proof -
  have "v AND 0xffffffff = take_bit 32 v" by (simp add: take_bit_eq_mask mask_numeral)
  also have "\<dots> = v \<longleftrightarrow> unat v < 2 ^ 32"
    by (simp add: word_unat_eq_iff unsigned_take_bit_eq take_bit_nat_eq_self_iff)
  finally show ?thesis by (auto simp: word_le_nat_alt)
qed

lemma join2: "\<lbrakk>bit (p 0) 7; \<not> bit (p 1) 7\<rbrakk> \<Longrightarrow>
   varint_decode p = (ucast (push_bit 7 (ucast (p 0) AND 0x7f) OR ucast (p 1) :: u32), 2)"
  by (simp add: varint_unfold del: One_nat_def, rule u64_eq_bitwise, simp add: varint_bits)

lemma join3: "\<lbrakk>bit (p 0) 7; bit (p 1) 7; \<not> bit (p 2) 7\<rbrakk> \<Longrightarrow>
   varint_decode p = (ucast ((push_bit 14 (ucast (p 0)) OR ucast (p 2)) AND (push_bit 14 0x7f OR 0x7f) OR push_bit 7 (ucast (p 1) AND 0x7f) :: u32), 3)"
  by (simp add: varint_unfold del: One_nat_def, rule u64_eq_bitwise, simp add: varint_bits)

lemma ucast_u32_le: "(ucast (x::u32) :: u64) \<le> 0xffffffff"
proof -
  have "take_bit 32 (ucast x :: u64) = ucast x"
    by (rule bit_word_eqI) (auto simp: bit_simps dest: bit_imp_le_length)
  then show ?thesis
    by (simp add: word_le_nat_alt word_unat_eq_iff unsigned_take_bit_eq take_bit_nat_eq_self_iff)
qed
lemma getVarint32_eq:
  "getVarint32 p = (let (v, n) = varint_decode p in (if v \<le> 0xffffffff then ucast v else 0xffffffff, n))"
proof -
  have down: "(ucast (ucast x :: u64) :: u32) = x" for x :: u32
    by (rule bit_word_eqI) (auto simp: bit_simps)
  consider "\<not> bit (p 0) 7" | "bit (p 0) 7" "\<not> bit (p 1) 7" | "bit (p 0) 7" "bit (p 1) 7" "\<not> bit (p 2) 7"
    | "bit (p 0) 7" "bit (p 1) 7" "bit (p 2) 7" by blast
  then show ?thesis
  proof cases
    case 1 then show ?thesis 
      using ucast_u32_le[of "ucast (p 0)"] getVarint_eq_decode[of p, symmetric] 
      by (simp add: getVarint32_def u8_less_0x80 sqlite3GetVarint_def if_flag flag_bit Let_def down)
  next
    case 2 then show ?thesis unfolding join2[OF 2] 
      by (simp add: getVarint32_def u8_less_0x80 sqlite3GetVarint32_def if_flag flag_bit Let_def ucast_u32_le down)
  next
    case 3 then show ?thesis unfolding join3[OF 3] 
      by (simp add: getVarint32_def u8_less_0x80 sqlite3GetVarint32_def if_flag flag_bit Let_def ucast_u32_le down)
  next
    case 4 then show ?thesis
      by (simp add: getVarint32_def u8_less_0x80 sqlite3GetVarint32_def if_flag flag_bit Let_def getVarint_eq_decode u64_and_u32_mask split: prod.splits)
  qed
qed

lemma get4byte_put4byte:
  assumes "mem_at p 0 (sqlite3Put4byte v)"
  shows "sqlite3Get4byte p = v"
proof -
  have p: "p 0 = ucast (drop_bit 24 v)" "p 1 = ucast (drop_bit 16 v)"
    "p 2 = ucast (drop_bit 8 v)" "p 3 = ucast v"
    using assms by (simp_all add: sqlite3Put4byte_def eval_nat_numeral)
  show ?thesis unfolding sqlite3Get4byte_def p
  proof (rule bit_word_eqI)
    fix n assume "n < LENGTH(32)"
    then show "bit (push_bit 24 (ucast (ucast (drop_bit 24 v) :: u8)) OR
        push_bit 16 (ucast (ucast (drop_bit 16 v) :: u8)) OR
        push_bit 8 (ucast (ucast (drop_bit 8 v) :: u8)) OR ucast (ucast v :: u8) :: u32) n = bit v n"
      by (cases "n < 8"; cases "n < 16"; cases "n < 24") (auto simp: bit_simps)
  qed
qed

section \<open>Properties\<close>

text \<open>
  C5: round trip. Whatever memory holds the bytes that \<open>sqlite3PutVarint\<close> wrote for a 64-bit
  value, \<open>sqlite3GetVarint\<close> returns that value and the number of bytes written, which is
  between 1 and 9; the bytes after the encoding are irrelevant.
\<close>

theorem varint_roundtrip:
  "mem_at p 0 (sqlite3PutVarint v) \<Longrightarrow>
     sqlite3GetVarint p = (v, length (sqlite3PutVarint v)) \<and>
     1 \<le> length (sqlite3PutVarint v) \<and> length (sqlite3PutVarint v) \<le> 9"
  using buf_length_le [of 8 v] buf_ne [of v]
  by (auto simp: getVarint_eq_decode varint_decode_put sqlite3PutVarint_length Suc_le_eq)

theorem varint_roundtrip_witness:
  "sqlite3GetVarint (mem_of (sqlite3PutVarint 0x1234 @ [0xff])) =
     (0x1234, length (sqlite3PutVarint 0x1234))"
  using varint_roundtrip [OF mem_at_mem_of] by blast

text \<open>
  C16: on every byte sequence, well-formed or not, the unrolled readers return what the
  byte-at-a-time format definition gives: \<open>sqlite3GetVarint\<close> its value and length,
  \<open>getVarint32\<close> the same length and the value clamped to 0xffffffff.
\<close>

theorem getVarint_reference:
  "sqlite3GetVarint p = varint_decode p \<and>
   getVarint32 p =
     (let (v, n) = varint_decode p in (if v \<le> 0xffffffff then ucast v else 0xffffffff, n))"
  by (simp only: getVarint_eq_decode getVarint32_eq simp_thms)

text \<open>
  C32: \<open>sqlite3VarintLen\<close> is the number of bytes \<open>sqlite3PutVarint\<close> writes exactly for the
  values below 2^63; for every larger value it answers 10, although 9 bytes are written.
\<close>

theorem varintLen_exact:
  "sqlite3VarintLen v = (if v < 0x8000000000000000 then length (sqlite3PutVarint v) else 10) \<and>
   (sqlite3VarintLen v = length (sqlite3PutVarint v) \<longleftrightarrow> v < 0x8000000000000000)"
proof -
  have "length (sqlite3PutVarint v) \<le> 9"
    using buf_length_le [of 8 v] by (auto simp: sqlite3PutVarint_length)
  then show ?thesis by (auto simp: sqlite3VarintLen_put)
qed

end
