(* ===== verification/Numeric.thy ===== *)
theory Numeric
  imports Prelude
begin

text \<open>
  The arithmetic routines of util.c: overflow-checked 64-bit addition, subtraction and
  multiplication, the 32-bit absolute value, and the logarithmic cost estimates (\<open>LogEst\<close>) of
  the query planner.
\<close>

section \<open>Overflow-checked arithmetic\<close>

text \<open>
  Each routine takes \<open>*pA\<close> and \<open>iB\<close> and returns the new \<open>*pA\<close> and the return code. The
  model is of the portable branch. C's \<open>/\<close> truncates: \<open>sdiv\<close>.
\<close>

definition sqlite3AddInt64 :: "i64 \<Rightarrow> i64 \<Rightarrow> i64 \<times> cint" where
  "sqlite3AddInt64 iA iB =
     (if (if iB \<ge> 0 then iA > 0 \<and> LARGEST_INT64 - iA < iB
          else iA < 0 \<and> - (iA + LARGEST_INT64) > iB + 1)
      then (iA, 1) else (iA + iB, 0))"

definition sqlite3SubInt64 :: "i64 \<Rightarrow> i64 \<Rightarrow> i64 \<times> cint" where
  "sqlite3SubInt64 iA iB =
     (if iB = SMALLEST_INT64
      then (if iA \<ge> 0 then (iA, 1) else (iA - iB, 0))
      else sqlite3AddInt64 iA (- iB))"

definition sqlite3MulInt64 :: "i64 \<Rightarrow> i64 \<Rightarrow> i64 \<times> cint" where
  "sqlite3MulInt64 iA iB =
     (if (if iB > 0 then iA > LARGEST_INT64 sdiv iB \<or> iA < SMALLEST_INT64 sdiv iB
          else if iB < 0 then
            (if iA > 0 then iB < SMALLEST_INT64 sdiv iA
             else if iA < 0 then
               iB = SMALLEST_INT64 \<or> iA = SMALLEST_INT64 \<or> - iA > LARGEST_INT64 sdiv (- iB)
             else False)
          else False)
      then (iA, 1) else (iA * iB, 0))"

definition sqlite3AbsInt32 :: "cint \<Rightarrow> cint" where
  "sqlite3AbsInt32 x = (if x \<ge> 0 then x else if x = - 0x80000000 then 0x7fffffff else - x)"

lemma sqlite3AddInt64_eq: "is_i64 a \<Longrightarrow> is_i64 b \<Longrightarrow> sqlite3AddInt64 a b = (if is_i64 (a + b) then (a + b, 0) else (a, 1))"
  by (auto simp: sqlite3AddInt64_def i64_defs)
lemma sqlite3SubInt64_eq: "is_i64 a \<Longrightarrow> is_i64 b \<Longrightarrow> sqlite3SubInt64 a b = (if is_i64 (a - b) then (a - b, 0) else (a, 1))"
  by (auto simp: sqlite3SubInt64_def sqlite3AddInt64_def i64_defs)

lemma sdiv_pos: "0 \<le> a \<Longrightarrow> 0 < b \<Longrightarrow> (a::int) sdiv b = a div b"
  by (cases "a = 0") (auto simp: signed_divide_int_def sgn_if)
lemma sdiv_neg: "a < 0 \<Longrightarrow> 0 < b \<Longrightarrow> (a::int) sdiv b = - ((- a) div b)"
  by (auto simp: signed_divide_int_def sgn_if)

lemma int_div_less_iff: assumes b: "0 < b" shows "x > (n::int) div b \<longleftrightarrow> x * b > n"
proof
  assume "n div b < x"
  then have "(n div b + 1) * b \<le> x * b" using b by (intro mult_right_mono) auto
  moreover have "n < (n div b + 1) * b"
    using b pos_mod_bound [of b n] div_mult_mod_eq [of n b] distrib_right [of "n div b" 1 b] by linarith
  ultimately show "n < x * b" by simp
next
  assume "n < x * b"
  show "n div b < x"
  proof (rule ccontr)
    assume "\<not> n div b < x"
    then have "x * b \<le> (n div b) * b" using b by (intro mult_right_mono) auto
    also have "\<dots> \<le> n" using b pos_mod_sign [of b n] div_mult_mod_eq [of n b] by linarith
    finally show False using \<open>n < x * b\<close> by simp
  qed
qed
lemma sqlite3MulInt64_eq: "is_i64 a \<Longrightarrow> is_i64 b \<Longrightarrow> sqlite3MulInt64 a b = (if is_i64 (a * b) then (a * b, 0) else (a, 1))"
proof -
  assume a: "is_i64 a" "is_i64 b"
  let ?L = "LARGEST_INT64" and ?S = "SMALLEST_INT64"
  have S: "?S = - (?L + 1)" "0 < ?L" by (simp_all add: i64_defs)
  consider "b = 0 \<or> a = 0" | "0 < b" "0 < a" | "0 < b" "a < 0" | "b < 0" "0 < a" | "b < 0" "a < 0" by linarith
  then show ?thesis
  proof cases
    case 1 then show ?thesis by (auto simp: sqlite3MulInt64_def i64_defs signed_divide_int_def sgn_if pos_imp_zdiv_neg_iff)
  next
    case 2
    then have "a > ?L sdiv b \<longleftrightarrow> a * b > ?L" using S by (simp add: sdiv_pos int_div_less_iff)
    moreover have "\<not> a < ?S sdiv b" using 2 S sdiv_neg[of ?S b] pos_imp_zdiv_nonneg_iff[of b "- ?S"] by linarith
    moreover have "?S \<le> a * b" using 2 S mult_pos_pos [of a b] by linarith
    ultimately show ?thesis using 2 S by (auto simp: sqlite3MulInt64_def is_i64_def)
  next
    case 3
    then have "a < ?S sdiv b \<longleftrightarrow> - a > (- ?S) div b" using S sdiv_neg[of ?S b] by linarith
    also have "\<dots> \<longleftrightarrow> a * b < ?S" using 3 S by (simp add: int_div_less_iff)
    finally have "a < ?S sdiv b \<longleftrightarrow> a * b < ?S" .
    moreover have "\<not> a > ?L sdiv b" using 3 S sdiv_pos[of ?L b] pos_imp_zdiv_nonneg_iff[of b "?L"] by simp
    moreover have "a * b < 0" using 3 by (simp add: mult_neg_pos)
    ultimately show ?thesis using 3 S by (auto simp: sqlite3MulInt64_def is_i64_def)
  next
    case 4
    then have "b < ?S sdiv a \<longleftrightarrow> - b > (- ?S) div a" using S sdiv_neg[of ?S a] by linarith
    also have "\<dots> \<longleftrightarrow> a * b < ?S" using 4 S by (simp add: int_div_less_iff mult.commute)
    finally have "b < ?S sdiv a \<longleftrightarrow> a * b < ?S" .
    moreover have "a * b < 0" using 4 by (simp add: mult_pos_neg)
    ultimately show ?thesis using 4 S by (auto simp: sqlite3MulInt64_def is_i64_def)
  next
    case 5
    then have e: "?L sdiv (- b) = ?L div (- b)" using S by (intro sdiv_pos) auto
    have g: "?L div (- b) < - a \<longleftrightarrow> ?L < - a * - b" using 5 by (intro int_div_less_iff) simp
    have d: "- a > ?L sdiv (- b) \<longleftrightarrow> a * b > ?L" unfolding e g minus_mult_minus ..
    have p: "0 < a * b" using 5 by (simp add: mult_neg_neg)
    have "a * b \<ge> - ?S" if "b = ?S \<or> a = ?S"
      using that 5 S mult_mono[of 1 "-a" "-?S" "-b"] mult_mono[of 1 "-b" "-?S" "-a"] by (auto simp: mult.commute)
    then have "a * b > ?L" if "b = ?S \<or> a = ?S" using that S by auto
    with d p show ?thesis using 5 S by (auto simp: sqlite3MulInt64_def is_i64_def)
  qed
qed

section \<open>Logarithmic estimates\<close>

text \<open>
  \<open>sqlite3LogEst\<close> approximates \<open>10 * log2 x\<close>. The loops shift a copy of \<open>x\<close> into the range
  8..15 while \<open>y\<close> counts the shifts. (In the first loop \<open>x\<close> is at least 2, so the test for 0
  only serves the termination argument.)
\<close>

function logEst_up :: "u64 \<Rightarrow> int \<Rightarrow> u64 \<times> int" where
  "logEst_up x y = (if x < 8 \<and> x \<noteq> 0 then logEst_up (push_bit 1 x) (y - 10) else (x, y))"
  by pat_completeness auto
termination
proof (relation "measure (\<lambda>(x, y). 8 - unat x)")
  fix x :: u64 and y :: int
  assume "x < 8 \<and> x \<noteq> 0"
  then have "unat x < 8" "0 < unat x" by (simp_all add: word_less_nat_alt unat_gt_0)
  moreover from this have "unat (push_bit 1 x) = 2 * unat x"
    by (simp add: unat_word_ariths)
  ultimately show "((push_bit 1 x, y - 10), x, y) \<in> measure (\<lambda>(x, y). 8 - unat x)" by simp
qed simp

function logEst_down4 :: "u64 \<Rightarrow> int \<Rightarrow> u64 \<times> int" where
  "logEst_down4 x y = (if x > 255 then logEst_down4 (drop_bit 4 x) (y + 40) else (x, y))"
  by pat_completeness auto
termination
  by (relation "measure (unat \<circ> fst)") (auto intro!: unat_drop_bit_less)

function logEst_down1 :: "u64 \<Rightarrow> int \<Rightarrow> u64 \<times> int" where
  "logEst_down1 x y = (if x > 15 then logEst_down1 (drop_bit 1 x) (y + 10) else (x, y))"
  by pat_completeness auto
termination
  by (relation "measure (unat \<circ> fst)") (auto intro!: unat_drop_bit_less)

declare logEst_up.simps [simp del] logEst_down4.simps [simp del] logEst_down1.simps [simp del]

definition logEst_a :: "int list" where
  "logEst_a = [0, 2, 3, 5, 6, 7, 8, 9]"

definition sqlite3LogEst :: "u64 \<Rightarrow> int" where
  "sqlite3LogEst x =
     (if x < 8 \<and> x < 2 then 0
      else let (x, y) = (if x < 8 then logEst_up x 40
                         else let (x, y) = logEst_down4 x 40 in logEst_down1 x y)
           in logEst_a ! unat (x AND 7) + y - 10)"

definition logEstAdd_x :: "int list" where
  "logEstAdd_x =
     [10, 10, 9, 9, 8, 8, 7, 7, 7, 6, 6, 6, 5, 5, 5, 4, 4, 4, 4, 3, 3, 3, 3, 3, 3,
      2, 2, 2, 2, 2, 2, 2]"

definition sqlite3LogEstAdd :: "int \<Rightarrow> int \<Rightarrow> int" where
  "sqlite3LogEstAdd a b =
     (if a \<ge> b then
        (if a > b + 49 then a else if a > b + 31 then a + 1 else a + logEstAdd_x ! nat (a - b))
      else
        (if b > a + 49 then b else if b > a + 31 then b + 1 else b + logEstAdd_x ! nat (b - a)))"

section \<open>The estimate is close and monotone\<close>

lemma logEst_down1_eq:
  "\<exists>k x'. logEst_down1 x y = (x', y + 10 * int k) \<and> unat x' = unat x div 2 ^ k \<and> unat x' \<le> 15 \<and>
     (8 \<le> unat x \<longrightarrow> 8 \<le> unat x')"
proof (induction x y rule: logEst_down1.induct)
  case (1 x y)
  show ?case
  proof (cases "x > 15")
    case True
    have h: "unat (drop_bit 1 x) = unat x div 2" unfolding unat_drop_bit_eq by (simp add: drop_bit_eq_div)
    obtain k x' where k: "logEst_down1 (drop_bit 1 x) (y + 10) = (x', y + 10 + 10 * int k)"
      "unat x' = unat (drop_bit 1 x) div 2 ^ k" "unat x' \<le> 15" "8 \<le> unat (drop_bit 1 x) \<longrightarrow> 8 \<le> unat x'"
      using 1[OF True] by blast
    have "logEst_down1 x y = (x', y + 10 * int (Suc k))" "unat x' = unat x div 2 ^ Suc k" "8 \<le> unat x'"
      using True k h by (subst logEst_down1.simps, simp, simp add: div_mult2_eq, simp add: word_less_nat_alt)
    then show ?thesis using k(3) by blast
  next
    case False
    then have "logEst_down1 x y = (x, y + 10 * int 0)" "unat x = unat x div 2 ^ 0" "unat x \<le> 15"
      by (subst logEst_down1.simps, simp, simp, simp add: word_less_nat_alt)
    then show ?thesis by blast
  qed
qed

lemma logEst_down4_eq:
  "\<exists>k x'. logEst_down4 x y = (x', y + 10 * int k) \<and> unat x' = unat x div 2 ^ k \<and> 
     (8 \<le> unat x \<longrightarrow> 8 \<le> unat x')"
proof (induction x y rule: logEst_down4.induct)
  case (1 x y)
  show ?case
  proof (cases "x > 255")
    case True
    have h: "unat (drop_bit 4 x) = unat x div 16" unfolding unat_drop_bit_eq by (simp add: drop_bit_eq_div)
    obtain k x' where k: "logEst_down4 (drop_bit 4 x) (y + 40) = (x', y + 40 + 10 * int k)"
      "unat x' = unat (drop_bit 4 x) div 2 ^ k" "8 \<le> unat (drop_bit 4 x) \<longrightarrow> 8 \<le> unat x'"
      using 1[OF True] by blast
    have "logEst_down4 x y = (x', y + 10 * int (k + 4))" "unat x' = unat x div 2 ^ (k + 4)" "8 \<le> unat x'"
      using True k h
        by (subst logEst_down4.simps, simp, simp only: add.commute [of k 4] power_add div_mult2_eq, simp,
            simp add: word_less_nat_alt)
    then show ?thesis by blast
  next
    case False
    then have "logEst_down4 x y = (x, y + 10 * int 0)" "unat x = unat x div 2 ^ 0"
      by (subst logEst_down4.simps, simp, simp)
    then show ?thesis by blast
  qed
qed

lemma u64_cases8: "x < 8 \<Longrightarrow> (x::u64) \<in> {0,1,2,3,4,5,6,7}"
proof -
  assume "x < 8"
  then have "unat x \<in> {0,1,2,3,4,5,6,7}" by (auto simp: word_less_nat_alt)
  then show ?thesis by (auto simp: word_unat_eq_iff)
qed

lemma sqlite3LogEst_small:
  "sqlite3LogEst 0 = 0" "sqlite3LogEst 1 = 0" "sqlite3LogEst 2 = 10" "sqlite3LogEst 3 = 16"
  "sqlite3LogEst 4 = 20" "sqlite3LogEst 5 = 23" "sqlite3LogEst 6 = 26" "sqlite3LogEst 7 = 28"
  by (simp_all add: sqlite3LogEst_def logEst_up.simps logEst_a_def)

lemma sqlite3LogEst_big:
  assumes "8 \<le> x"
  obtains k m where "unat x div 2 ^ k = 8 + m" "m < 8" "sqlite3LogEst x = logEst_a ! m + 30 + 10 * int k"
proof -
  have x8: "8 \<le> unat x" using assms by (simp add: word_le_nat_alt)
  obtain k1 x1 where a: "logEst_down4 x 40 = (x1, 40 + 10 * int k1)" "unat x1 = unat x div 2 ^ k1" "8 \<le> unat x1"
    using logEst_down4_eq[of x 40] x8 by blast
  obtain k2 x2 where b: "logEst_down1 x1 (40 + 10 * int k1) = (x2, 40 + 10 * int k1 + 10 * int k2)"
     "unat x2 = unat x1 div 2 ^ k2" "unat x2 \<le> 15" "8 \<le> unat x2"
    using logEst_down1_eq[of x1 "40 + 10 * int k1"] a by blast
  define m where "m = unat x2 - 8"
  have "unat x2 = 8 + m" "m < 8" using b by (auto simp: m_def)
  moreover have "unat (x2 AND 7) = unat x2 mod 8"
    using take_bit_eq_mod[of 3 "unat x2"] by (simp add: unsigned_and_eq take_bit_eq_mask mask_numeral)
  ultimately have "sqlite3LogEst x = logEst_a ! m + 30 + 10 * int (k1 + k2)" "unat x div 2 ^ (k1 + k2) = 8 + m"
    using a b assms by (auto simp: sqlite3LogEst_def not_less[symmetric] power_add div_mult2_eq)
  then show ?thesis using that \<open>m < 8\<close> by blast
qed

lemma less8_cases: "m < (8::nat) \<Longrightarrow> m = 0 \<or> m = 1 \<or> m = 2 \<or> m = 3 \<or> m = 4 \<or> m = 5 \<or> m = 6 \<or> m = 7"
  by linarith

lemma logEst_a_bounds:
  "m < 8 \<Longrightarrow> 0 \<le> logEst_a ! m \<and> logEst_a ! m \<le> 9 \<and>
     2 ^ (nat (logEst_a ! m) + 30) \<le> 2 * (8 + m) ^ 10 \<and> (9 + m) ^ 10 \<le> 2 ^ (nat (logEst_a ! m) + 32)"
  by (drule less8_cases, elim disjE) (simp_all add: logEst_a_def)

lemma logEst_a_mono: "m \<le> m' \<Longrightarrow> m' < 8 \<Longrightarrow> logEst_a ! m \<le> logEst_a ! m'"
  by (drule less8_cases, elim disjE) (auto simp: logEst_a_def le_Suc_eq numeral_eq_Suc)

lemma LogEst_bounds_big:
  assumes "8 \<le> x"
  shows "0 \<le> sqlite3LogEst x \<and> 2 ^ nat (sqlite3LogEst x) \<le> 2 * unat x ^ 10 \<and> unat x ^ 10 < 2 ^ (nat (sqlite3LogEst x) + 2)"
proof -
  obtain k m where km: "unat x div 2 ^ k = 8 + m" "m < 8" "sqlite3LogEst x = logEst_a ! m + 30 + 10 * int k"
    using assms by (rule sqlite3LogEst_big)
  note B = logEst_a_bounds[OF km(2)]
  have n: "nat (sqlite3LogEst x) = nat (logEst_a ! m) + 30 + 10 * k" using km(3) B by (simp add: nat_add_distrib nat_mult_distrib)
  have lo: "(8 + m) * 2 ^ k \<le> unat x" using km(1) div_times_less_eq_dividend[of "unat x" "2 ^ k"] by simp
  have hi: "unat x < (9 + m) * 2 ^ k"
    using km(1) dividend_less_div_times[of "2 ^ k" "unat x"] by (simp add: algebra_simps)
  have p: "((c::nat) * 2 ^ k) ^ 10 = c ^ 10 * 2 ^ (10 * k)" for c by (simp add: power_mult_distrib power_mult[symmetric] mult.commute)
  have "2 ^ nat (sqlite3LogEst x) = 2 ^ (nat (logEst_a ! m) + 30) * (2::nat) ^ (10 * k)" unfolding n by (simp add: power_add)
  also have "\<dots> \<le> (2 * (8 + m) ^ 10) * 2 ^ (10 * k)" using B by (intro mult_right_mono) auto
  also have "\<dots> = 2 * ((8 + m) * 2 ^ k) ^ 10" by (simp only: p mult.assoc)
  also have "\<dots> \<le> 2 * unat x ^ 10" using lo by (intro mult_left_mono power_mono) auto
  finally have L: "2 ^ nat (sqlite3LogEst x) \<le> 2 * unat x ^ 10" .
  have "unat x ^ 10 < ((9 + m) * 2 ^ k) ^ 10" using hi by (intro power_strict_mono) auto
  also have "\<dots> = (9 + m) ^ 10 * 2 ^ (10 * k)" by (rule p)
  also have "\<dots> \<le> 2 ^ (nat (logEst_a ! m) + 32) * 2 ^ (10 * k)" using B by (intro mult_right_mono) auto
  also have "\<dots> = 2 ^ (nat (sqlite3LogEst x) + 2)" unfolding n by (simp add: power_add)
  finally show ?thesis using L km(3) B by simp
qed

lemma LogEst_small_mono: "x \<le> y \<Longrightarrow> y < 8 \<Longrightarrow> sqlite3LogEst x \<le> sqlite3LogEst y"
proof -
  assume "x \<le> y" "y < 8"
  then have "x < 8" by simp
  show ?thesis using u64_cases8[OF \<open>x < 8\<close>] u64_cases8[OF \<open>y < 8\<close>] \<open>x \<le> y\<close> by (auto simp: sqlite3LogEst_small word_le_nat_alt)
qed
lemma LogEst_mono: "x \<le> y \<Longrightarrow> sqlite3LogEst x \<le> sqlite3LogEst y"
proof -
  assume xy: "x \<le> y"
  consider "y < 8" | "x < 8" "8 \<le> y" | "8 \<le> x" using xy by fastforce
  then show ?thesis
  proof cases
    case 1 then show ?thesis using xy LogEst_small_mono by blast
  next
    case 2
    have "sqlite3LogEst x \<le> 30" using u64_cases8[OF 2(1)] by (auto simp: sqlite3LogEst_small)
    moreover obtain k m where km: "m < 8" "sqlite3LogEst y = logEst_a ! m + 30 + 10 * int k"
      using 2(2) by (rule sqlite3LogEst_big)
    then have "30 \<le> sqlite3LogEst y" using logEst_a_bounds [of m] by linarith
    ultimately show ?thesis by linarith
  next
    case 3
    then have y8: "8 \<le> y" using xy by simp
    obtain k m where km: "unat x div 2 ^ k = 8 + m" "m < 8" "sqlite3LogEst x = logEst_a ! m + 30 + 10 * int k"
      using 3 by (rule sqlite3LogEst_big)
    obtain k' m' where km': "unat y div 2 ^ k' = 8 + m'" "m' < 8" "sqlite3LogEst y = logEst_a ! m' + 30 + 10 * int k'"
      using y8 by (rule sqlite3LogEst_big)
    have un: "unat x \<le> unat y" using xy by (simp add: word_le_nat_alt)
    have "k \<le> k'"
    proof (rule ccontr)
      assume "\<not> k \<le> k'"
      then obtain d where d: "k = k' + Suc d" by (metis add_Suc_right less_imp_Suc_add not_le)
      have "unat y div 2 ^ k = unat y div 2 ^ k' div (2 * 2 ^ d)"
        unfolding d power_add by (simp only: div_mult2_eq power_Suc)
      then have "unat y div 2 ^ k = (8 + m') div (2 * 2 ^ d)" using km'(1) by simp
      also have "\<dots> \<le> (8 + m') div 2" by (intro div_le_mono2) auto
      also have "\<dots> < 8" using km'(2) by simp
      finally have "unat y div 2 ^ k < 8" .
      moreover have "unat x div 2 ^ k \<le> unat y div 2 ^ k" using un by (rule div_le_mono)
      ultimately show False using km(1) by simp
    qed
    then consider "k = k'" | "k + 1 \<le> k'" by linarith
    then show ?thesis
    proof cases
      case 1
      then have "8 + m \<le> 8 + m'" using km(1) km'(1) div_le_mono[OF un, of "2 ^ k"] by simp
      then show ?thesis using km km' 1 logEst_a_mono[of m m'] by simp
    next
      case 2
      then show ?thesis using km(3) km'(3) logEst_a_bounds[OF km(2)] logEst_a_bounds[OF km'(2)] by linarith
    qed
  qed
qed


lemma logEstAdd_x_bounds: "k < 32 \<Longrightarrow> 2 \<le> logEstAdd_x ! k \<and> logEstAdd_x ! k \<le> 10"
  using list_all_length [of "\<lambda>c. 2 \<le> c \<and> c \<le> 10" logEstAdd_x] by (simp add: logEstAdd_x_def)

lemma sqlite3LogEstAdd_max:
  "max a b \<le> sqlite3LogEstAdd a b \<and> sqlite3LogEstAdd a b \<le> max a b + 10"
proof -
  have "2 \<le> logEstAdd_x ! nat (a - b) \<and> logEstAdd_x ! nat (a - b) \<le> 10" if "\<not> a > b + 31"
    using that by (intro logEstAdd_x_bounds) auto
  moreover have "2 \<le> logEstAdd_x ! nat (b - a) \<and> logEstAdd_x ! nat (b - a) \<le> 10"
    if "\<not> b > a + 31"
    using that by (intro logEstAdd_x_bounds) auto
  ultimately show ?thesis unfolding sqlite3LogEstAdd_def by (smt (verit))
qed

lemma sqlite3LogEstAdd_commute: "sqlite3LogEstAdd a b = sqlite3LogEstAdd b a"
  by (auto simp: sqlite3LogEstAdd_def)

section \<open>Properties\<close>

text \<open>
  C25: the overflow-checked operations are exact. For 64-bit operands, addition, subtraction and
  multiplication store the mathematical result and return 0 whenever that result is a 64-bit
  value, and otherwise leave \<open>*pA\<close> unchanged and return 1.
\<close>

theorem int64_arith_exact:
  assumes "is_i64 a" "is_i64 b"
  shows "sqlite3AddInt64 a b = (if is_i64 (a + b) then (a + b, 0) else (a, 1)) \<and>
         sqlite3SubInt64 a b = (if is_i64 (a - b) then (a - b, 0) else (a, 1)) \<and>
         sqlite3MulInt64 a b = (if is_i64 (a * b) then (a * b, 0) else (a, 1))"
  using assms by (simp only: sqlite3AddInt64_eq sqlite3SubInt64_eq sqlite3MulInt64_eq simp_thms)

theorem int64_arith_exact_witness:
  "sqlite3MulInt64 LARGEST_INT64 (-1) = (- LARGEST_INT64, 0) \<and>
   sqlite3SubInt64 0 SMALLEST_INT64 = (0, 1)"
  using int64_arith_exact [of LARGEST_INT64 "-1"] int64_arith_exact [of 0 SMALLEST_INT64]
  by (simp add: i64_defs)



end
