(* ===== verification/Ctype.thy ===== *)
theory Ctype
  imports Prelude
begin

text \<open>
  The two 256-entry tables of global.c, \<open>sqlite3UpperToLower\<close> and \<open>sqlite3CtypeMap\<close>, the
  \<open>sqlite3Is\<dots>\<close> character-class macros of sqliteInt.h that read them, and the byte values each
  class really contains.
\<close>

section \<open>Tables\<close>

definition UpperToLower_table :: "u8 list" where
  "UpperToLower_table =
     [0, 1, 2, 3, 4, 5, 6, 7, 8, 9, 10, 11, 12, 13, 14, 15,
      16, 17, 18, 19, 20, 21, 22, 23, 24, 25, 26, 27, 28, 29, 30, 31,
      32, 33, 34, 35, 36, 37, 38, 39, 40, 41, 42, 43, 44, 45, 46, 47,
      48, 49, 50, 51, 52, 53, 54, 55, 56, 57, 58, 59, 60, 61, 62, 63,
      64, 97, 98, 99, 100, 101, 102, 103, 104, 105, 106, 107, 108, 109, 110, 111,
      112, 113, 114, 115, 116, 117, 118, 119, 120, 121, 122, 91, 92, 93, 94, 95,
      96, 97, 98, 99, 100, 101, 102, 103, 104, 105, 106, 107, 108, 109, 110, 111,
      112, 113, 114, 115, 116, 117, 118, 119, 120, 121, 122, 123, 124, 125, 126, 127,
      128, 129, 130, 131, 132, 133, 134, 135, 136, 137, 138, 139, 140, 141, 142, 143,
      144, 145, 146, 147, 148, 149, 150, 151, 152, 153, 154, 155, 156, 157, 158, 159,
      160, 161, 162, 163, 164, 165, 166, 167, 168, 169, 170, 171, 172, 173, 174, 175,
      176, 177, 178, 179, 180, 181, 182, 183, 184, 185, 186, 187, 188, 189, 190, 191,
      192, 193, 194, 195, 196, 197, 198, 199, 200, 201, 202, 203, 204, 205, 206, 207,
      208, 209, 210, 211, 212, 213, 214, 215, 216, 217, 218, 219, 220, 221, 222, 223,
      224, 225, 226, 227, 228, 229, 230, 231, 232, 233, 234, 235, 236, 237, 238, 239,
      240, 241, 242, 243, 244, 245, 246, 247, 248, 249, 250, 251, 252, 253, 254, 255]"

definition sqlite3UpperToLower :: "u8 \<Rightarrow> u8" where
  "sqlite3UpperToLower c = UpperToLower_table ! unat c"

definition CtypeMap_table :: "u8 list" where
  "CtypeMap_table =
     [0x00, 0x00, 0x00, 0x00, 0x00, 0x00, 0x00, 0x00, 0x00, 0x01, 0x01, 0x01,
      0x01, 0x01, 0x00, 0x00, 0x00, 0x00, 0x00, 0x00, 0x00, 0x00, 0x00, 0x00,
      0x00, 0x00, 0x00, 0x00, 0x00, 0x00, 0x00, 0x00, 0x01, 0x00, 0x80, 0x00,
      0x40, 0x00, 0x00, 0x80, 0x00, 0x00, 0x00, 0x00, 0x00, 0x00, 0x00, 0x00,
      0x0c, 0x0c, 0x0c, 0x0c, 0x0c, 0x0c, 0x0c, 0x0c, 0x0c, 0x0c, 0x00, 0x00,
      0x00, 0x00, 0x00, 0x00, 0x00, 0x0a, 0x0a, 0x0a, 0x0a, 0x0a, 0x0a, 0x02,
      0x02, 0x02, 0x02, 0x02, 0x02, 0x02, 0x02, 0x02, 0x02, 0x02, 0x02, 0x02,
      0x02, 0x02, 0x02, 0x02, 0x02, 0x02, 0x02, 0x80, 0x00, 0x00, 0x00, 0x40,
      0x80, 0x2a, 0x2a, 0x2a, 0x2a, 0x2a, 0x2a, 0x22, 0x22, 0x22, 0x22, 0x22,
      0x22, 0x22, 0x22, 0x22, 0x22, 0x22, 0x22, 0x22, 0x22, 0x22, 0x22, 0x22,
      0x22, 0x22, 0x22, 0x00, 0x00, 0x00, 0x00, 0x00, 0x40, 0x40, 0x40, 0x40,
      0x40, 0x40, 0x40, 0x40, 0x40, 0x40, 0x40, 0x40, 0x40, 0x40, 0x40, 0x40,
      0x40, 0x40, 0x40, 0x40, 0x40, 0x40, 0x40, 0x40, 0x40, 0x40, 0x40, 0x40,
      0x40, 0x40, 0x40, 0x40, 0x40, 0x40, 0x40, 0x40, 0x40, 0x40, 0x40, 0x40,
      0x40, 0x40, 0x40, 0x40, 0x40, 0x40, 0x40, 0x40, 0x40, 0x40, 0x40, 0x40,
      0x40, 0x40, 0x40, 0x40, 0x40, 0x40, 0x40, 0x40, 0x40, 0x40, 0x40, 0x40,
      0x40, 0x40, 0x40, 0x40, 0x40, 0x40, 0x40, 0x40, 0x40, 0x40, 0x40, 0x40,
      0x40, 0x40, 0x40, 0x40, 0x40, 0x40, 0x40, 0x40, 0x40, 0x40, 0x40, 0x40,
      0x40, 0x40, 0x40, 0x40, 0x40, 0x40, 0x40, 0x40, 0x40, 0x40, 0x40, 0x40,
      0x40, 0x40, 0x40, 0x40, 0x40, 0x40, 0x40, 0x40, 0x40, 0x40, 0x40, 0x40,
      0x40, 0x40, 0x40, 0x40, 0x40, 0x40, 0x40, 0x40, 0x40, 0x40, 0x40, 0x40,
      0x40, 0x40, 0x40, 0x40]"

definition sqlite3CtypeMap :: "u8 \<Rightarrow> u8" where
  "sqlite3CtypeMap c = CtypeMap_table ! unat c"

section \<open>Character classes\<close>

definition sqlite3Isspace :: "u8 \<Rightarrow> bool" where
  "sqlite3Isspace x \<longleftrightarrow> sqlite3CtypeMap x AND 0x01 \<noteq> 0"

definition sqlite3Isalnum :: "u8 \<Rightarrow> bool" where
  "sqlite3Isalnum x \<longleftrightarrow> sqlite3CtypeMap x AND 0x06 \<noteq> 0"

definition sqlite3Isalpha :: "u8 \<Rightarrow> bool" where
  "sqlite3Isalpha x \<longleftrightarrow> sqlite3CtypeMap x AND 0x02 \<noteq> 0"

definition sqlite3Isdigit :: "u8 \<Rightarrow> bool" where
  "sqlite3Isdigit x \<longleftrightarrow> sqlite3CtypeMap x AND 0x04 \<noteq> 0"

definition sqlite3Isxdigit :: "u8 \<Rightarrow> bool" where
  "sqlite3Isxdigit x \<longleftrightarrow> sqlite3CtypeMap x AND 0x08 \<noteq> 0"

definition sqlite3Isquote :: "u8 \<Rightarrow> bool" where
  "sqlite3Isquote x \<longleftrightarrow> sqlite3CtypeMap x AND 0x80 \<noteq> 0"

definition sqlite3Toupper :: "u8 \<Rightarrow> u8" where
  "sqlite3Toupper x = x AND NOT (sqlite3CtypeMap x AND 0x20)"

definition sqlite3Tolower :: "u8 \<Rightarrow> u8" where
  "sqlite3Tolower x = sqlite3UpperToLower x"

section \<open>What the classes contain\<close>

text \<open>A property of every entry of a 256-entry table, checked in one pass over it.\<close>

fun table_all :: "(u8 \<Rightarrow> u8 \<Rightarrow> bool) \<Rightarrow> u8 \<Rightarrow> u8 list \<Rightarrow> bool" where
  "table_all Q i [] = True"
| "table_all Q i (t # ts) = (Q i t \<and> table_all Q (i + 1) ts)"

lemma table_all_nth: "table_all Q i ts \<Longrightarrow> k < length ts \<Longrightarrow> Q (i + of_nat k) (ts ! k)"
proof (induction ts arbitrary: i k)
  case (Cons t ts)
  then show ?case by (cases k) (auto simp: add.assoc [symmetric])
qed simp

lemma table_allD: "table_all Q 0 ts \<Longrightarrow> length ts = 256 \<Longrightarrow> Q x (ts ! unat x)"
  using table_all_nth [of Q 0 ts "unat x"] unsigned_less [of x] by simp

lemma CtypeMap_all: "table_all Q 0 CtypeMap_table \<Longrightarrow> Q x (sqlite3CtypeMap x)"
  unfolding sqlite3CtypeMap_def by (rule table_allD) (simp_all add: CtypeMap_table_def)

lemma UpperToLower_all: "table_all Q 0 UpperToLower_table \<Longrightarrow> Q x (sqlite3UpperToLower x)"
  unfolding sqlite3UpperToLower_def by (rule table_allD) (simp_all add: UpperToLower_table_def)

lemma Isspace_iff: "sqlite3Isspace x \<longleftrightarrow> x = 32 \<or> 9 \<le> x \<and> x \<le> 13"
  unfolding sqlite3Isspace_def
  by (rule CtypeMap_all [where Q = "\<lambda>x t. t AND 0x01 \<noteq> 0 \<longleftrightarrow>
        x = 32 \<or> 9 \<le> x \<and> x \<le> 13"]) code_simp

lemma Isdigit_iff: "sqlite3Isdigit x \<longleftrightarrow> 48 \<le> x \<and> x \<le> 57"
  unfolding sqlite3Isdigit_def
  by (rule CtypeMap_all [where Q = "\<lambda>x t. t AND 0x04 \<noteq> 0 \<longleftrightarrow>
        48 \<le> x \<and> x \<le> 57"]) code_simp

lemma Isalpha_iff: "sqlite3Isalpha x \<longleftrightarrow> 65 \<le> x \<and> x \<le> 90 \<or> 97 \<le> x \<and> x \<le> 122"
  unfolding sqlite3Isalpha_def
  by (rule CtypeMap_all [where Q = "\<lambda>x t. t AND 0x02 \<noteq> 0 \<longleftrightarrow>
        65 \<le> x \<and> x \<le> 90 \<or> 97 \<le> x \<and> x \<le> 122"]) code_simp

lemma Isalnum_iff: "sqlite3Isalnum x \<longleftrightarrow> 48 \<le> x \<and> x \<le> 57 \<or> 65 \<le> x \<and> x \<le> 90 \<or> 97 \<le> x \<and> x \<le> 122"
  unfolding sqlite3Isalnum_def
  by (rule CtypeMap_all [where Q = "\<lambda>x t. t AND 0x06 \<noteq> 0 \<longleftrightarrow>
        48 \<le> x \<and> x \<le> 57 \<or> 65 \<le> x \<and> x \<le> 90 \<or> 97 \<le> x \<and> x \<le> 122"]) code_simp

lemma Isxdigit_iff: "sqlite3Isxdigit x \<longleftrightarrow> 48 \<le> x \<and> x \<le> 57 \<or> 65 \<le> x \<and> x \<le> 70 \<or> 97 \<le> x \<and> x \<le> 102"
  unfolding sqlite3Isxdigit_def
  by (rule CtypeMap_all [where Q = "\<lambda>x t. t AND 0x08 \<noteq> 0 \<longleftrightarrow>
        48 \<le> x \<and> x \<le> 57 \<or> 65 \<le> x \<and> x \<le> 70 \<or> 97 \<le> x \<and> x \<le> 102"]) code_simp

lemma Isquote_iff: "sqlite3Isquote x \<longleftrightarrow> x = 34 \<or> x = 39 \<or> x = 91 \<or> x = 96"
  unfolding sqlite3Isquote_def
  by (rule CtypeMap_all [where Q = "\<lambda>x t. t AND 0x80 \<noteq> 0 \<longleftrightarrow>
        x = 34 \<or> x = 39 \<or> x = 91 \<or> x = 96"]) code_simp

lemma UpperToLower_eq:
  "sqlite3UpperToLower x = (if 65 \<le> x \<and> x \<le> 90 then x + 32 else x)"
  by (rule UpperToLower_all [where Q = "\<lambda>x t. t = (if 65 \<le> x \<and> x \<le> 90 then x + 32 else x)"])
    code_simp

lemma Toupper_eq: "sqlite3Toupper x = (if 97 \<le> x \<and> x \<le> 122 then x - 32 else x)"
  unfolding sqlite3Toupper_def
  by (rule CtypeMap_all [where Q = "\<lambda>x t. x AND NOT (t AND 0x20) =
        (if 97 \<le> x \<and> x \<le> 122 then x - 32 else x)"]) code_simp

end
