(* ===== verification/TextInt.thy ===== *)
theory TextInt
  imports Ctype
begin

text \<open>
  The conversions of util.c from text to integers: \<open>sqlite3Atoi64\<close> in the three text encodings,
  \<open>sqlite3DecOrHexToI64\<close>, \<open>sqlite3GetInt32\<close>, \<open>sqlite3Atoi\<close>, and hexadecimal blobs. The
  reference is \<open>int_text\<close>: optional spaces, an optional sign, and decimal digits.
\<close>

section \<open>Text to 64-bit integer\<close>

datatype enc = UTF8 | UTF16LE | UTF16BE

fun enc_incr :: "enc \<Rightarrow> nat" where
  "enc_incr UTF8 = 1"
| "enc_incr UTF16LE = 2"
| "enc_incr UTF16BE = 2"

lemma enc_incr_pos [simp]: "0 < enc_incr e"
  by (cases e) auto

text \<open>\<open>while( z<zEnd && P(*z) ) z+=incr;\<close> on the offset \<open>pos\<close> of \<open>z\<close>.\<close>

function skip_while :: "(u8 \<Rightarrow> bool) \<Rightarrow> mem \<Rightarrow> enc \<Rightarrow> nat \<Rightarrow> nat \<Rightarrow> nat" where
  "skip_while P z e zEnd pos =
     (if pos < zEnd \<and> P (z pos) then skip_while P z e zEnd (pos + enc_incr e) else pos)"
  by pat_completeness auto
termination
  by (relation "measure (\<lambda>(P, z, e, zEnd, pos). zEnd - pos)")
     (use enc_incr_pos in \<open>auto intro!: diff_less_mono2\<close>)

declare skip_while.simps [simp del]

text \<open>\<open>for(i=3-enc; i<length && zNum[i]==0; i+=2){}\<close>\<close>

function utf16_scan :: "mem \<Rightarrow> nat \<Rightarrow> nat \<Rightarrow> nat" where
  "utf16_scan z len i = (if i < len \<and> z i = 0 then utf16_scan z len (i + 2) else i)"
  by pat_completeness auto
termination
  by (relation "measure (\<lambda>(z, len, i). len - i)") auto

declare utf16_scan.simps [simp del]

text \<open>\<open>for(i=0; &zNum[i]<zEnd && (c=zNum[i])>='0' && c<='9'; i+=incr) u = u*10 + c - '0';\<close>\<close>

function atoi64_digits :: "mem \<Rightarrow> enc \<Rightarrow> nat \<Rightarrow> nat \<Rightarrow> nat \<Rightarrow> u64 \<Rightarrow> nat \<times> u64" where
  "atoi64_digits z e zEnd pos i u =
     (if pos + i < zEnd \<and> 48 \<le> z (pos + i) \<and> z (pos + i) \<le> 57
      then atoi64_digits z e zEnd pos (i + enc_incr e) (u * 10 + ucast (z (pos + i)) - 48)
      else (i, u))"
  by pat_completeness auto
termination
  by (relation "measure (\<lambda>(z, e, zEnd, pos, i, u). zEnd - (pos + i))")
     (use enc_incr_pos in \<open>auto intro!: diff_less_mono2\<close>)

declare atoi64_digits.simps [simp del]

text \<open>\<open>compare2pow63\<close>: the digits of 2^63 but the last, then the last.\<close>

primrec compare2pow63_loop :: "mem \<Rightarrow> nat \<Rightarrow> nat \<Rightarrow> nat \<Rightarrow> cint list \<Rightarrow> cint" where
  "compare2pow63_loop z pos incr i [] = 0"
| "compare2pow63_loop z pos incr i (d # ds) =
     (let c = (uint (z (pos + i * incr)) - d) * 10
      in if c = 0 then compare2pow63_loop z pos incr (Suc i) ds else c)"

definition compare2pow63 :: "mem \<Rightarrow> nat \<Rightarrow> nat \<Rightarrow> cint" where
  "compare2pow63 z pos incr =
     (let c = compare2pow63_loop z pos incr 0
                [57,50,50,51,51,55,50,48,51,54,56,53,52,55,55,53,56,48]
      in if c = 0 then uint (z (pos + 18 * incr)) - 56 else c)"

text \<open>The result is \<open>*pNum\<close> and the return code.\<close>

definition sqlite3Atoi64 :: "mem \<Rightarrow> nat \<Rightarrow> enc \<Rightarrow> i64 \<times> cint" where
  "sqlite3Atoi64 z len e =
     (let incr = enc_incr e;
          (start, zEnd, nonNum) =
            (case e of
               UTF8 \<Rightarrow> (0, len, False)
             | UTF16LE \<Rightarrow> (let i = utf16_scan z len 1 in (0, i - 1, i < len))
             | UTF16BE \<Rightarrow> (let i = utf16_scan z len 0 in (1, i + 1, i < len)));
          pos = skip_while sqlite3Isspace z e zEnd start;
          (neg, pos) =
            (if pos < zEnd then
               if z pos = 45 then (True, pos + incr)
               else if z pos = 43 then (False, pos + incr) else (False, pos)
             else (False, pos));
          zStart = pos;
          pos = skip_while (\<lambda>c. c = 48) z e zEnd pos;
          (i, u) = atoi64_digits z e zEnd pos 0 0;
          num = (if u > 0x7fffffffffffffff
                 then (if neg then SMALLEST_INT64 else LARGEST_INT64)
                 else if neg then - uint u else uint u)
      in if pos + i < zEnd \<or> (i = 0 \<and> zStart = pos) \<or> i > 19 * incr \<or> nonNum then (num, 1)
         else if i < 19 * incr then (num, 0)
         else
           let c = compare2pow63 z pos incr
           in if c < 0 then (num, 0) else if c > 0 then (num, 1)
              else (num, if neg then 0 else 2))"

section \<open>Hexadecimal and 32-bit conversions\<close>

text \<open>
  A zero-terminated string is the list of its bytes before the terminator; reading at or past
  the end gives the terminator.
\<close>

definition cget :: "u8 list \<Rightarrow> nat \<Rightarrow> u8" where
  "cget z i = (if i < length z then z ! i else 0)"

text \<open>\<open>h += 9*(1&(h>>6)); return (u8)(h & 0xf);\<close>\<close>

definition sqlite3HexToInt :: "u8 \<Rightarrow> u8" where
  "sqlite3HexToInt c =
     (let h = (ucast c :: u32); h = h + 9 * (1 AND drop_bit 6 h) in ucast (h AND 0xf))"

fun sqlite3HexToBlob_loop :: "u8 list \<Rightarrow> u8 list" where
  "sqlite3HexToBlob_loop (a # b # z) =
     (push_bit 4 (sqlite3HexToInt a) OR sqlite3HexToInt b) # sqlite3HexToBlob_loop z"
| "sqlite3HexToBlob_loop z = []"

text \<open>The blob that the first \<open>n\<close> bytes of \<open>z\<close> describe; the buffer is zero-terminated.\<close>

definition sqlite3HexToBlob :: "u8 list \<Rightarrow> nat \<Rightarrow> u8 list" where
  "sqlite3HexToBlob z n = sqlite3HexToBlob_loop (take n z) @ [0]"

definition sqlite3Strlen30 :: "u8 list option \<Rightarrow> cint" where
  "sqlite3Strlen30 z = (case z of None \<Rightarrow> 0 | Some z \<Rightarrow> int (length z) mod 2 ^ 30)"

primrec hex_run64 :: "u8 list \<Rightarrow> nat \<Rightarrow> u64 \<Rightarrow> nat \<times> u64 \<times> u8 list" where
  "hex_run64 [] k u = (k, u, [])"
| "hex_run64 (c # z) k u =
     (if sqlite3Isxdigit c then hex_run64 z (Suc k) (u * 16 + ucast (sqlite3HexToInt c))
      else (k, u, c # z))"

definition sqlite3DecOrHexToI64 :: "u8 list \<Rightarrow> i64 \<times> cint" where
  "sqlite3DecOrHexToI64 z =
     (if cget z 0 = 48 \<and> (cget z 1 = 120 \<or> cget z 1 = 88)
      then let (k, u, rest) = hex_run64 (dropWhile (\<lambda>c. c = 48) (drop 2 z)) 0 0
           in (sint u, if cget rest 0 = 0 \<and> k \<le> 16 then 0 else 1)
      else sqlite3Atoi64 (mem_of z) (nat (sqlite3Strlen30 (Some z))) UTF8)"

primrec hex_run32 :: "u8 list \<Rightarrow> nat \<Rightarrow> u32 \<Rightarrow> u32 \<times> u8 list" where
  "hex_run32 [] left u = (u, [])"
| "hex_run32 (c # z) left u =
     (if sqlite3Isxdigit c \<and> 0 < left
      then hex_run32 z (left - 1) (u * 16 + ucast (sqlite3HexToInt c)) else (u, c # z))"

primrec dec_run :: "u8 list \<Rightarrow> nat \<Rightarrow> i64 \<Rightarrow> nat \<times> i64" where
  "dec_run [] i v = (i, v)"
| "dec_run (d # z) i v =
     (if i < 11 \<and> uint d - 48 \<ge> 0 \<and> uint d - 48 \<le> 9
      then dec_run z (Suc i) (v * 10 + (uint d - 48)) else (i, v))"

text \<open>
  The decimal part of \<open>sqlite3GetInt32\<close>, after the sign. \<open>None\<close> is a return of 0, \<open>Some v\<close> a
  return of 1 with \<open>*pValue = v\<close>.
\<close>

definition getInt32_dec :: "bool \<Rightarrow> u8 list \<Rightarrow> cint option" where
  "getInt32_dec neg zNum =
     (let (i, v) = dec_run (dropWhile (\<lambda>c. c = 48) zNum) 0 0
      in if i > 10 then None
         else if v - (if neg then 1 else 0) > 2147483647 then None
         else Some (if neg then - v else v))"

definition sqlite3GetInt32 :: "u8 list \<Rightarrow> cint option" where
  "sqlite3GetInt32 zNum =
     (if cget zNum 0 = 45 then getInt32_dec True (drop 1 zNum)
      else if cget zNum 0 = 43 then getInt32_dec False (drop 1 zNum)
      else if cget zNum 0 = 48 \<and> (cget zNum 1 = 120 \<or> cget zNum 1 = 88)
              \<and> sqlite3Isxdigit (cget zNum 2)
      then let (u, rest) = hex_run32 (dropWhile (\<lambda>c. c = 48) (drop 2 zNum)) 8 0
           in if u AND 0x80000000 = 0 \<and> \<not> sqlite3Isxdigit (cget rest 0)
              then Some (uint u) else None
      else getInt32_dec False zNum)"

definition sqlite3Atoi :: "u8 list option \<Rightarrow> cint" where
  "sqlite3Atoi z =
     (case z of None \<Rightarrow> 0
      | Some z \<Rightarrow> (case sqlite3GetInt32 z of None \<Rightarrow> 0 | Some v \<Rightarrow> v))"

section \<open>Reference: what a text means\<close>

definition is_digit :: "u8 \<Rightarrow> bool" where
  "is_digit c \<longleftrightarrow> 48 \<le> c \<and> c \<le> 57"

primrec dec :: "u8 list \<Rightarrow> nat" where
  "dec [] = 0"
| "dec (d # ds) = (unat d - 48) * 10 ^ length ds + dec ds"

definition sign_split :: "u8 list \<Rightarrow> bool \<times> u8 list" where
  "sign_split cs = (case cs of [] \<Rightarrow> (False, [])
     | c # r \<Rightarrow> if c = 45 then (True, r) else if c = 43 then (False, r) else (False, cs))"

definition int_text :: "u8 list \<Rightarrow> int option" where
  "int_text cs =
     (let (neg, ds) = sign_split (dropWhile sqlite3Isspace cs) in
      if ds \<noteq> [] \<and> list_all is_digit ds
      then Some (if neg then - int (dec ds) else int (dec ds)) else None)"

definition text_at :: "mem \<Rightarrow> enc \<Rightarrow> nat \<Rightarrow> u8 list \<Rightarrow> bool" where
  "text_at m e pos cs \<longleftrightarrow> (\<forall>k < length cs. m (pos + k * enc_incr e) = cs ! k)"

lemma text_at_Cons: "text_at m e pos (c # cs) \<longleftrightarrow> m pos = c \<and> text_at m e (pos + enc_incr e) cs"
  by (auto simp: text_at_def nth_Cons add.assoc split: nat.splits)

lemma skip_while_text:
  "text_at m e pos cs \<Longrightarrow> zEnd = pos + length cs * enc_incr e \<Longrightarrow>
   skip_while P m e zEnd pos = pos + length (takeWhile P cs) * enc_incr e \<and> 
   text_at m e (pos + length (takeWhile P cs) * enc_incr e) (dropWhile P cs)"
proof (induction cs arbitrary: pos)
  case Nil
  then show ?case by (subst skip_while.simps) (simp add: text_at_def)
next
  case (Cons c cs)
  then show ?case
    using Cons.IH[of "pos + enc_incr e"] 
    by (subst skip_while.simps) (auto simp: text_at_Cons algebra_simps)
qed

lemma atoi64_digits_text:
  "text_at m e (pos + i) cs \<Longrightarrow> zEnd = pos + i + length cs * enc_incr e \<Longrightarrow>
   atoi64_digits m e zEnd pos i u = (i + length (takeWhile is_digit cs) * enc_incr e,
     u * 10 ^ length (takeWhile is_digit cs) + of_nat (dec (takeWhile is_digit cs)))"
proof (induction cs arbitrary: i u)
  case Nil
  then show ?case by (subst atoi64_digits.simps) simp
next
  case (Cons c cs)
  show ?case
  proof (cases "is_digit c")
    case True
    then have c: "48 \<le> c" "c \<le> 57" by (simp_all add: is_digit_def)
    define n where "n = unat c - 48"
    have n: "unat c = n + 48" using c by (simp add: n_def word_le_nat_alt)
    have "(of_nat (unat c) :: u64) = of_nat n + 48" unfolding n by simp
    then have u: "(ucast c :: u64) = of_nat n + 48" by simp
    show ?thesis
      using True c n u Cons.prems Cons.IH [of "i + enc_incr e" "u * 10 + ucast c - 48"]
      by (subst atoi64_digits.simps) (auto simp: text_at_Cons algebra_simps)
  next
    case False
    then show ?thesis using Cons.prems by (subst atoi64_digits.simps) (auto simp: text_at_Cons is_digit_def)
  qed
qed

lemma dec_bound: "list_all is_digit ds \<Longrightarrow> dec ds < 10 ^ length ds"
proof (induction ds)
  case (Cons d ds)
  then have "unat d - 48 \<le> 9" by (auto simp: is_digit_def word_le_nat_alt)
  then have "(unat d - 48) * 10 ^ length ds \<le> 9 * 10 ^ length ds" by (intro mult_right_mono) auto
  moreover have "dec ds < 10 ^ length ds" using Cons by simp
  ultimately show ?case unfolding dec.simps list.size power_Suc add_Suc_right add_0_right by linarith
qed simp

lemma compare_loop:
  assumes "list_all is_digit ds" "list_all (\<lambda>p. 48 \<le> p \<and> p \<le> 57) ps" "length ds = length ps"
    and "\<forall>k < length ds. m (pos + (i + k) * incr) = ds ! k"
  shows "(compare2pow63_loop m pos incr i ps < 0 \<longleftrightarrow> dec ds < dec (map word_of_int ps)) \<and>
         (compare2pow63_loop m pos incr i ps = 0 \<longleftrightarrow> dec ds = dec (map word_of_int ps))"
  using assms
proof (induction ps arbitrary: ds i)
  case (Cons p ps)
  then obtain d ds' where ds: "ds = d # ds'" by (cases ds) auto
  have md: "m (pos + i * incr) = d" using Cons.prems(4) ds by force
  have nxt: "\<forall>k < length ds'. m (pos + (Suc i + k) * incr) = ds' ! k"
    using Cons.prems(4) ds by force
  have IH: "(compare2pow63_loop m pos incr (Suc i) ps < 0 \<longleftrightarrow> dec ds' < dec (map word_of_int ps)) \<and>
         (compare2pow63_loop m pos incr (Suc i) ps = 0 \<longleftrightarrow> dec ds' = dec (map word_of_int ps))"
    using Cons.prems ds nxt by (intro Cons.IH) auto
  have len: "length ds' = length ps" using Cons.prems ds by simp
  have pr: "48 \<le> p" "p \<le> 57" using Cons.prems by auto
  define dn pn where "dn = unat d - 48" and "pn = nat p - 48"
  have d: "48 \<le> unat d" "unat d \<le> 57" using Cons.prems ds by (auto simp: is_digit_def word_le_nat_alt)
  have u: "uint d = int dn + 48" "p = int pn + 48" "unat (word_of_int p :: u8) - 48 = pn"
    using d pr by (simp_all add: dn_def pn_def of_nat_diff unsigned_of_int take_bit_int_eq_self)
  have pd: "list_all is_digit (map word_of_int ps)"
    using Cons.prems(2) by (auto simp: list_all_iff is_digit_def word_le_def unsigned_of_int take_bit_int_eq_self)
  have b: "dec ds' < 10 ^ length ps" "dec (map word_of_int ps) < 10 ^ length ps"
    using dec_bound[of ds'] dec_bound[OF pd] Cons.prems ds len by simp_all
  have e: "dec ds = dn * 10 ^ length ps + dec ds'"
    "dec (map word_of_int (p # ps)) = pn * 10 ^ length ps + dec (map word_of_int ps)"
    using ds len u by (simp_all add: dn_def)
  show ?case
  proof (cases "dn = pn")
    case True
    then show ?thesis unfolding e using IH md u by (simp add: Let_def)
  next
    case False
    then consider "dn < pn" | "pn < dn" by linarith
    then show ?thesis
    proof cases
      case 1
      then have "(dn + 1) * 10 ^ length ps \<le> pn * 10 ^ length ps" by (intro mult_right_mono) auto
      then have "dec ds < dec (map word_of_int (p # ps))" unfolding e using b by simp
      with 1 show ?thesis using md u by (simp add: Let_def)
    next
      case 2
      then have "(pn + 1) * 10 ^ length ps \<le> dn * 10 ^ length ps" by (intro mult_right_mono) auto
      then have "dec (map word_of_int (p # ps)) < dec ds" unfolding e using b by simp
      with 2 show ?thesis using md u by (simp add: Let_def)
    qed
  qed
qed simp


lemma compare2pow63_eq:
  assumes "list_all is_digit ds" "length ds = 19" "text_at m e pos ds"
  shows "(compare2pow63 m pos (enc_incr e) < 0 \<longleftrightarrow> dec ds < 2 ^ 63) \<and>
         (compare2pow63 m pos (enc_incr e) = 0 \<longleftrightarrow> dec ds = 2 ^ 63)"
proof -
  let ?P = "[57,50,50,51,51,55,50,48,51,54,56,53,52,55,55,53,56,48] :: int list"
  let ?c = "compare2pow63_loop m pos (enc_incr e) 0 ?P"
  have len: "length (butlast ds) = 18" using assms by simp
  obtain d0 where ds: "ds = butlast ds @ [d0]" using assms(2) by (cases ds rule: rev_cases) auto
  have dg: "list_all is_digit (butlast ds)" "is_digit d0" using assms(1) ds by (metis list_all_append list.pred_inject(2))+
  have "ds ! 18 = d0" using ds len nth_append_length [of "butlast ds" d0 "[]"] by simp
  then have m: "\<forall>k < length (butlast ds). m (pos + (0 + k) * enc_incr e) = butlast ds ! k"
    "m (pos + 18 * enc_incr e) = d0"
    using assms(2,3) by (auto simp: text_at_def nth_butlast)
  have dp: "dec (map word_of_int ?P) = 922337203685477580" by (simp add: )
  have L: "(?c < 0 \<longleftrightarrow> dec (butlast ds) < 922337203685477580) \<and> (?c = 0 \<longleftrightarrow> dec (butlast ds) = 922337203685477580)"
    using compare_loop[of "butlast ds" ?P m pos 0 "enc_incr e"] dg m len unfolding dp by simp
  have app: "dec (xs @ [y]) = dec xs * 10 + (unat y - 48)" for xs y
    by (induction xs) (simp_all add: algebra_simps)
  have e: "dec ds = dec (butlast ds) * 10 + (unat d0 - 48)" using app[of "butlast ds" d0] ds by simp
  have d0: "48 \<le> unat d0" "unat d0 \<le> 57" "uint d0 = int (unat d0)" using dg by (auto simp: is_digit_def word_le_nat_alt)
  show ?thesis
  proof (cases "?c = 0")
    case True
    then have c: "compare2pow63 m pos (enc_incr e) = uint d0 - 56"
      using m by (simp only: compare2pow63_def Let_def if_True simp_thms)
    have "dec (butlast ds) = 922337203685477580" using L True by (simp only: simp_thms)
    then have "dec ds + 48 = 9223372036854775800 + unat d0" using d0 unfolding e by linarith
    moreover have "(2::nat) ^ 63 = 9223372036854775808" by simp
    ultimately show ?thesis unfolding c d0(3) using d0(1,2) by (intro conjI iffI) linarith+
  next
    case False
    then have c: "compare2pow63 m pos (enc_incr e) = ?c"
      by (simp only: compare2pow63_def Let_def if_False simp_thms)
    show ?thesis
    proof (cases "?c < 0")
      case True
      then have "dec (butlast ds) + 1 \<le> 922337203685477580" using L by (metis Suc_eq_plus1 Suc_leI)
      then have "dec ds < 9223372036854775808" using d0 unfolding e by linarith
      then show ?thesis unfolding c using True by (simp del: compare2pow63_loop.simps)
    next
      case c0: False
      then have "dec (butlast ds) > 922337203685477580" using L False by linarith
      then have "dec ds > 9223372036854775808" using d0 unfolding e by linarith
      then show ?thesis unfolding c using c0 False by (simp del: compare2pow63_loop.simps)
    qed
  qed
qed


lemma takeWhile_eq_all: "list_all P xs \<longleftrightarrow> takeWhile P xs = xs"
  by (induction xs) auto

text \<open>The result after sign and spaces, for a text of ASCII characters in any encoding.\<close>

lemma digits_part:
  assumes t: "text_at m e pos cs" and z: "zEnd = pos + length cs * enc_incr e"
    and p: "pos' = skip_while (\<lambda>c. c = 48) m e zEnd pos"
    and d: "(i, u) = atoi64_digits m e zEnd pos' 0 0"
  defines "zs \<equiv> takeWhile (\<lambda>c. c = 48) cs" and "r \<equiv> dropWhile (\<lambda>c. c = 48) cs"
  defines "ds \<equiv> takeWhile is_digit (dropWhile (\<lambda>c. c = 48) cs)"
  shows "pos' = pos + length zs * enc_incr e" "i = length ds * enc_incr e" "u = of_nat (dec ds)"
    "text_at m e pos' r" "zEnd = pos' + length r * enc_incr e" 
    "pos' + i < zEnd \<longleftrightarrow> ds \<noteq> r"
proof -
  note s = skip_while_text[OF t z, of "\<lambda>c. c = 48"]
  show p': "pos' = pos + length zs * enc_incr e" using s p by (simp add: zs_def)
  show tr: "text_at m e pos' r" using s p by (simp add: r_def)
  have "length cs = length zs + length r" unfolding zs_def r_def by (metis length_append takeWhile_dropWhile_id)
  then show z': "zEnd = pos' + length r * enc_incr e" using z p' by (simp add: algebra_simps)
  have dd: "atoi64_digits m e zEnd pos' 0 0 = (length ds * enc_incr e, of_nat (dec ds))"
    using atoi64_digits_text[of m e pos' 0 r zEnd 0] tr z' by (simp add: ds_def r_def)
  then show i: "i = length ds * enc_incr e" "u = of_nat (dec ds)" using d by simp_all
  have "r = ds @ dropWhile is_digit r" by (simp add: ds_def r_def)
  then have "ds \<noteq> r \<longleftrightarrow> length ds < length r" by (metis add.right_neutral append_self_conv length_0_conv length_append less_add_same_cancel1 neq0_conv)
  then show "pos' + i < zEnd \<longleftrightarrow> ds \<noteq> r" using i z' enc_incr_pos[of e] by simp
qed

lemma dec_ge: "list_all is_digit ds \<Longrightarrow> ds \<noteq> [] \<Longrightarrow> hd ds \<noteq> 48 \<Longrightarrow> 10 ^ (length ds - 1) \<le> dec ds"
proof (cases ds)
  case (Cons d r)
  assume "list_all is_digit ds" "hd ds \<noteq> 48"
  then have "1 \<le> unat d - 48" using Cons by (auto simp: is_digit_def word_le_nat_alt word_unat_eq_iff)
  then have "1 * 10 ^ length r \<le> (unat d - 48) * 10 ^ length r" by (rule mult_right_mono) simp
  then show ?thesis using Cons by (simp add: trans_le_add1)
qed simp

lemma dec_zeros: "dec (zs @ ds) = dec ds" if "\<forall>z \<in> set zs. z = 48"
  using that by (induction zs) auto

definition atoi64_spec :: "u8 list \<Rightarrow> i64 \<times> cint \<Rightarrow> bool" where
  "atoi64_spec cs r \<longleftrightarrow>
     (case int_text cs of
        None \<Rightarrow> snd r = 1
      | Some v \<Rightarrow> if is_i64 v then r = (v, 0)
                  else if v = 2 ^ 63 then r = (LARGEST_INT64, 2) else snd r = 1)"

lemma atoi64_final:
  assumes t: "text_at m e pos cs" and z: "zEnd = pos + length cs * enc_incr e"
    and p: "pos' = skip_while (\<lambda>c. c = 48) m e zEnd pos"
    and d: "(i, u) = atoi64_digits m e zEnd pos' 0 0"
    and num: "num = (if u > 0x7fffffffffffffff
                 then (if neg then SMALLEST_INT64 else LARGEST_INT64)
                 else if neg then - uint u else uint u)"
    and r: "r = (if pos' + i < zEnd \<or> (i = 0 \<and> pos = pos') \<or> i > 19 * enc_incr e then (num, 1)
         else if i < 19 * enc_incr e then (num, 0)
         else
           let c = compare2pow63 m pos' (enc_incr e)
           in if c < 0 then (num, 0) else if c > 0 then (num, 1)
              else (num, if neg then 0 else 2))"
  shows "if cs \<noteq> [] \<and> list_all is_digit cs
         then (let v = (if neg then - int (dec cs) else int (dec cs)) in
               if is_i64 v then r = (v, 0)
               else if v = 2 ^ 63 then r = (LARGEST_INT64, 2) else snd r = 1)
         else snd r = 1"
proof -
  define zs rs ds where "zs = takeWhile (\<lambda>c. c = 48) cs" and "rs = dropWhile (\<lambda>c. c = 48) cs"
    and "ds = takeWhile is_digit (dropWhile (\<lambda>c. c = 48) cs)"
  note P = digits_part[OF t z p d, folded zs_def rs_def ds_def]
  have dig: "list_all is_digit ds" unfolding ds_def list_all_iff by (auto dest: set_takeWhileD)
  have cs: "cs = zs @ rs" unfolding zs_def rs_def by simp
  have zd: "\<forall>c \<in> set zs. c = 48" unfolding zs_def by (auto dest: set_takeWhileD)
  then have zd': "list_all is_digit zs" by (auto simp: list_all_iff is_digit_def)
  have "ds = takeWhile is_digit rs" unfolding ds_def rs_def ..
  then have all: "list_all is_digit cs \<longleftrightarrow> ds = rs"
    using zd' unfolding cs by (simp add: takeWhile_eq_all)
  have i0: "i = 0 \<and> pos = pos' \<longleftrightarrow> ds = [] \<and> zs = []" using P(1,2) enc_incr_pos[of e] by (cases e) auto
  have i19: "i > 19 * enc_incr e \<longleftrightarrow> length ds > 19" "i < 19 * enc_incr e \<longleftrightarrow> length ds < 19"
    using P(2) enc_incr_pos[of e] by simp_all
  show ?thesis
  proof (cases "cs \<noteq> [] \<and> ds = rs")
    case False
    then have "pos' + i < zEnd \<or> (i = 0 \<and> pos = pos') \<or> i > 19 * enc_incr e"
      using P(6) i0 cs by auto
    then have "snd r = 1" unfolding r by (simp only: if_True snd_conv)
    then show ?thesis using False all by auto
  next
    case True
    then have dec: "dec cs = dec ds" unfolding cs using dec_zeros[OF zd] by simp
    have g: "\<not> (pos' + i < zEnd)" "\<not> (i = 0 \<and> pos = pos')" using True P(6) i0 cs by auto
    have hd: "ds \<noteq> [] \<Longrightarrow> hd ds \<noteq> 48" using True hd_dropWhile[of "\<lambda>c. c = 48" cs] unfolding rs_def[symmetric] by simp
    show ?thesis
    proof (cases "length ds \<le> 19")
      case l: False
      then have "10 ^ (length ds - 1) \<le> dec ds" using dec_ge[OF dig] hd by force
      moreover have "(10::nat) ^ 19 \<le> 10 ^ (length ds - 1)" using l by (intro power_increasing) auto
      ultimately have big: "10 ^ 19 \<le> dec cs" unfolding dec by linarith
      have "snd r = 1" unfolding r using l i19 by simp
      then show ?thesis using True all big by (simp add: i64_defs)
    next
      case l: True
      have b: "dec ds < 10 ^ length ds" by (rule dec_bound[OF dig])
      also have "\<dots> \<le> 10 ^ 19" using l by (intro power_increasing) auto
      finally have b19: "dec cs < 10 ^ 19" unfolding dec .
      then have u: "unat u = dec cs" using P(3) dec by (simp add: unat_of_nat)
      then have uu: "uint u = int (dec cs)" by (metis uint_nat)
      have num': "num = (if dec cs > 0x7fffffffffffffff
                 then (if neg then SMALLEST_INT64 else LARGEST_INT64)
                 else if neg then - int (dec cs) else int (dec cs))"
        unfolding num uu using u by (simp add: word_less_nat_alt)
      show ?thesis
      proof (cases "length ds < 19")
        case s: True
        then have "(10::nat) ^ length ds \<le> 10 ^ 18" by (intro power_increasing) auto
        then have "dec cs < 10 ^ 18" using b dec by linarith
        moreover have "r = (num, 0)" unfolding r using g i19 s by (auto simp del: neq0_conv)
        ultimately show ?thesis using True all num' by (simp add: i64_defs)
      next
        case s: False
        then have l19: "length ds = 19" using l by simp
        have t': "text_at m e pos' ds" using P(4) True by simp
        note c = compare2pow63_eq[OF dig l19 t', folded dec]
        have r': "r = (let c = compare2pow63 m pos' (enc_incr e)
           in if c < 0 then (num, 0) else if c > 0 then (num, 1)
              else (num, if neg then 0 else 2))" unfolding r using g i19 l19 by (auto simp del: neq0_conv)
        consider "dec cs < 2 ^ 63" | "dec cs = 2 ^ 63" | "dec cs > 2 ^ 63" by linarith
        then show ?thesis
        proof cases
          case 1 then show ?thesis using True all num' r' c by (simp add: i64_defs)
        next
          case 2 then show ?thesis using True all num' r' c by (simp add: i64_defs Let_def)
        next
          case 3 
          then have "compare2pow63 m pos' (enc_incr e) > 0" using c by linarith
          then have "snd r = 1" unfolding r' by simp
          then show ?thesis using 3 True all by (simp add: i64_defs Let_def)
        qed
      qed
    qed
  qed
qed


lemma utf16_scan_text:
  assumes "\<forall>k < n. z (i + 2 * k) = 0" "len \<le> i + 2 * n" "i + 2 * n < len + 2"
  shows "utf16_scan z len i = i + 2 * n"
  using assms
proof (induction n arbitrary: i)
  case 0
  then show ?case by (subst utf16_scan.simps) simp
next
  case (Suc n)
  then have "i < len" "z i = 0" by auto
  moreover have "\<forall>k < n. z (i + 2 + 2 * k) = 0" 
  proof (intro allI impI)
    fix k assume "k < n" 
    then show "z (i + 2 + 2 * k) = 0" using Suc.prems(1)[rule_format, of "Suc k"] by (simp add: algebra_simps)
  qed
  ultimately show ?case using Suc.IH[of "i + 2"] Suc.prems by (subst utf16_scan.simps) simp
qed

text \<open>An ASCII text \<open>cs\<close> stored at \<open>m\<close> in encoding \<open>e\<close>.\<close>

fun stored_text :: "enc \<Rightarrow> mem \<Rightarrow> u8 list \<Rightarrow> bool" where
  "stored_text UTF8 m cs \<longleftrightarrow> (\<forall>k < length cs. m k = cs ! k)"
| "stored_text UTF16LE m cs \<longleftrightarrow> (\<forall>k < length cs. m (2 * k) = cs ! k \<and> m (2 * k + 1) = 0)"
| "stored_text UTF16BE m cs \<longleftrightarrow> (\<forall>k < length cs. m (2 * k) = 0 \<and> m (2 * k + 1) = cs ! k)"

lemma atoi64_correct:
  assumes "stored_text e m cs"
  shows "atoi64_spec cs (sqlite3Atoi64 m (length cs * enc_incr e) e)"
proof -
  define len where "len = length cs * enc_incr e"
  obtain start zEnd where st:
    "(case e of UTF8 \<Rightarrow> (0, len, False)
             | UTF16LE \<Rightarrow> (let i = utf16_scan m len 1 in (0, i - 1, i < len))
             | UTF16BE \<Rightarrow> (let i = utf16_scan m len 0 in (1, i + 1, i < len))) = (start, zEnd, False)"
    and z: "zEnd = start + length cs * enc_incr e" and t: "text_at m e start cs"
  proof (cases e)
    case UTF8
    then show ?thesis using that[of 0 len] assms by (simp add: len_def text_at_def)
  next
    case UTF16LE
    have "utf16_scan m len 1 = 1 + 2 * length cs" using assms UTF16LE
      by (intro utf16_scan_text) (simp_all add: len_def algebra_simps)
    then show ?thesis using UTF16LE that[of 0 "2 * length cs"] assms by (simp add: len_def text_at_def mult.commute)
  next
    case UTF16BE
    have "utf16_scan m len 0 = 0 + 2 * length cs" using assms UTF16BE
      by (intro utf16_scan_text) (simp_all add: len_def algebra_simps)
    then show ?thesis using UTF16BE that[of 1 "2 * length cs + 1"] assms by (simp add: len_def text_at_def mult.commute)
  qed
  define pos1 where "pos1 = skip_while sqlite3Isspace m e zEnd start"
  define c1 where "c1 = dropWhile sqlite3Isspace cs"
  have t1: "text_at m e pos1 c1" using skip_while_text[OF t z, of sqlite3Isspace] by (simp add: pos1_def c1_def)
  have z1: "zEnd = pos1 + length c1 * enc_incr e" 
  proof -
    have "length cs = length (takeWhile sqlite3Isspace cs) + length c1" unfolding c1_def by (metis length_append takeWhile_dropWhile_id)
    then show ?thesis using skip_while_text[OF t z, of sqlite3Isspace] z by (simp add: pos1_def algebra_simps)
  qed
  obtain neg c2 where sg: "sign_split c1 = (neg, c2)" by force
  obtain neg' pos2 where ng: "(if pos1 < zEnd then
               if m pos1 = 45 then (True, pos1 + enc_incr e)
               else if m pos1 = 43 then (False, pos1 + enc_incr e) else (False, pos1)
             else (False, pos1)) = (neg', pos2)" by force
  have n: "neg' = neg" "text_at m e pos2 c2" "zEnd = pos2 + length c2 * enc_incr e"
    using sg ng t1 z1 by (auto simp: sign_split_def text_at_Cons split: list.splits if_splits)
  define pos3 where "pos3 = skip_while (\<lambda>c. c = 48) m e zEnd pos2"
  obtain i u where d: "(i, u) = atoi64_digits m e zEnd pos3 0 0" by (metis prod.exhaust)
  define r where "r = sqlite3Atoi64 m len e"
  have "if c2 \<noteq> [] \<and> list_all is_digit c2
         then (let v = (if neg then - int (dec c2) else int (dec c2)) in
               if is_i64 v then r = (v, 0)
               else if v = 2 ^ 63 then r = (LARGEST_INT64, 2) else snd r = 1)
         else snd r = 1"
    by (rule atoi64_final[OF n(2,3) pos3_def d refl])
       (simp only: r_def sqlite3Atoi64_def Let_def st [unfolded Let_def] ng prod.case n(1) simp_thms
          pos1_def [symmetric] pos3_def [symmetric] d [symmetric])
  then show ?thesis
    by (auto simp: atoi64_spec_def int_text_def c1_def[symmetric] sg r_def[symmetric] len_def[symmetric] Let_def split: if_splits)
qed


section \<open>32-bit conversion\<close>

lemma dec_run_digits:
  assumes "list_all is_digit ds" "rest = [] \<or> \<not> is_digit (hd rest)"
  shows "(i + length ds \<le> 11 \<longrightarrow>
            dec_run (ds @ rest) i v = (i + length ds, v * 10 ^ length ds + int (dec ds))) \<and>
         (11 < i + length ds \<longrightarrow> 11 \<le> fst (dec_run (ds @ rest) i v))"
  using assms(1)
proof (induction ds arbitrary: i v)
  case Nil
  then show ?case
    using assms(2) by (cases rest) (auto simp: is_digit_def word_le_def)
next
  case (Cons d ds)
  have "48 \<le> unat d" "unat d \<le> 57"
    using Cons.prems by (simp_all add: is_digit_def word_le_nat_alt)
  then obtain n where n: "unat d = n + 48" "n \<le> 9" by (intro that [of "unat d - 48"]) auto
  have d: "uint d = int n + 48" unfolding uint_nat n by simp
  show ?case using Cons n d by (auto simp: algebra_simps)
qed

lemma getInt32_dec_eq:
  assumes "list_all is_digit ds" "rest = [] \<or> \<not> is_digit (hd rest)"
  shows "getInt32_dec neg (ds @ rest) = (let w = if neg then - int (dec ds) else int (dec ds)
    in if is_i32 w then Some w else None)"
proof -
  obtain i v where r: "(i, v) = dec_run (dropWhile (\<lambda>c. c = 48) (ds @ rest)) 0 0"
    by (metis prod.exhaust)
  define zs ds' where "zs = takeWhile (\<lambda>c. c = 48) ds" and "ds' = dropWhile (\<lambda>c. c = 48) ds"
  have ds: "ds = zs @ ds'" "\<forall>z \<in> set zs. z = 48" by (auto simp: zs_def ds'_def dest: set_takeWhileD)
  have dd: "dec ds = dec ds'" using ds dec_zeros by metis
  have dg: "list_all is_digit ds'" using assms(1) ds by simp
  have z48: "is_digit 48" by (simp add: is_digit_def)
  have drop: "dropWhile (\<lambda>c. c = 48) (ds @ rest) = ds' @ rest"
  proof (cases "ds' = []")
    case True
    then have "\<forall>z \<in> set ds. z = 48" using ds by simp
    moreover have "dropWhile (\<lambda>c. c = 48) rest = rest" using assms(2) z48 by (cases rest) auto
    ultimately show ?thesis using True by (simp add: dropWhile_append)
  next
    case False
    then show ?thesis by (auto simp: ds'_def dropWhile_append)
  qed
  note R = dec_run_digits[OF dg assms(2), of 0 0]
  show ?thesis
  proof (cases "length ds' \<le> 10")
    case True
    then have "i = length ds'" "v = int (dec ds')" using R r unfolding drop by auto
    then show ?thesis using True r by (auto simp: dd is_i32_def getInt32_dec_def split: prod.splits)
  next
    case False
    then have i: "i > 10" using R r [symmetric] unfolding drop by (cases "length ds' \<le> 11") auto
    have ne: "ds' \<noteq> []" using False by auto
    then have "hd ds' \<noteq> 48" using hd_dropWhile[of "\<lambda>c. c = 48" ds] unfolding ds'_def by blast
    with ne have "10 ^ (length ds' - 1) \<le> dec ds'" by (rule dec_ge[OF dg])
    moreover have "(10::nat) ^ 10 \<le> 10 ^ (length ds' - 1)" using False by (intro power_increasing) auto
    ultimately have "10 ^ 10 \<le> dec ds" unfolding dd by linarith
    then show ?thesis using i r by (auto simp: is_i32_def getInt32_dec_def split: prod.splits)
  qed
qed

section \<open>Properties\<close>






end
