(* ===== verification/Strings.thy ===== *)
theory Strings
  imports TextInt
begin

text \<open>
  The string routines of util.c: case-independent comparison, removal of SQL quotes, and the
  \<open>VList\<close> array that maps the names of SQL variables to their numbers.
\<close>

section \<open>Case-independent comparison\<close>

text \<open>
  \<open>for(;;){ c = UpperToLower[*a] - UpperToLower[*b]; if( c || *a==0 ) break; a++; b++; }\<close> on
  zero-terminated strings: the end of the list is the terminator.
\<close>

fun sqlite3StrICmp :: "u8 list \<Rightarrow> u8 list \<Rightarrow> cint" where
  "sqlite3StrICmp [] b = uint (sqlite3UpperToLower 0) - uint (sqlite3UpperToLower (cget b 0))"
| "sqlite3StrICmp (x # a) [] = uint (sqlite3UpperToLower x) - uint (sqlite3UpperToLower 0)"
| "sqlite3StrICmp (x # a) (y # b) =
     (let c = uint (sqlite3UpperToLower x) - uint (sqlite3UpperToLower y)
      in if c \<noteq> 0 \<or> x = 0 then c else sqlite3StrICmp a b)"

definition sqlite3_stricmp :: "u8 list option \<Rightarrow> u8 list option \<Rightarrow> cint" where
  "sqlite3_stricmp zLeft zRight =
     (case (zLeft, zRight) of
        (None, None) \<Rightarrow> 0 | (None, Some _) \<Rightarrow> -1 | (Some _, None) \<Rightarrow> 1
      | (Some a, Some b) \<Rightarrow> sqlite3StrICmp a b)"

text \<open>
  \<open>while( N-- > 0 && *a!=0 && UpperToLower[*a]==UpperToLower[*b]){ a++; b++; }
  return N<0 ? 0 : UpperToLower[*a] - UpperToLower[*b];\<close>
\<close>

fun strnicmp_loop :: "u8 list \<Rightarrow> u8 list \<Rightarrow> nat \<Rightarrow> cint" where
  "strnicmp_loop a b 0 = 0"
| "strnicmp_loop a b (Suc n) =
     (if cget a 0 \<noteq> 0 \<and> sqlite3UpperToLower (cget a 0) = sqlite3UpperToLower (cget b 0)
      then strnicmp_loop (drop 1 a) (drop 1 b) n
      else uint (sqlite3UpperToLower (cget a 0)) - uint (sqlite3UpperToLower (cget b 0)))"

definition sqlite3_strnicmp :: "u8 list option \<Rightarrow> u8 list option \<Rightarrow> cint \<Rightarrow> cint" where
  "sqlite3_strnicmp zLeft zRight N =
     (case (zLeft, zRight) of
        (None, None) \<Rightarrow> 0 | (None, Some _) \<Rightarrow> -1 | (Some _, None) \<Rightarrow> 1
      | (Some a, Some b) \<Rightarrow> strnicmp_loop a b (nat N))"

section \<open>Removing quotes\<close>

text \<open>
  The loop of \<open>sqlite3Dequote\<close> from the byte after the opening quote: a doubled quote is one
  quote, a single one ends the text. \<open>None\<close> is the failure of \<open>assert( z[i] )\<close>: the text ends
  before its closing quote.
\<close>

fun dequote_loop :: "u8 \<Rightarrow> u8 list \<Rightarrow> u8 list option" where
  "dequote_loop q [] = None"
| "dequote_loop q (c # z) =
     (if c = q then
        (case z of
           [] \<Rightarrow> Some []
         | d # z' \<Rightarrow> if d = q then map_option (Cons q) (dequote_loop q z') else Some [])
      else map_option (Cons c) (dequote_loop q z))"

definition sqlite3Dequote :: "u8 list \<Rightarrow> u8 list option" where
  "sqlite3Dequote z =
     (case z of
        [] \<Rightarrow> Some []
      | quote # r \<Rightarrow>
          if \<not> sqlite3Isquote quote then Some z
          else dequote_loop (if quote = 91 then 93 else quote) r)"



definition cstring :: "u8 list \<Rightarrow> bool" where
  "cstring z \<longleftrightarrow> 0 \<notin> set z"

abbreviation fold_case :: "u8 list \<Rightarrow> u8 list" where
  "fold_case z \<equiv> map sqlite3UpperToLower z"

lemma cget_simps [simp]: "cget [] i = 0" "cget (c # z) 0 = c" "cget (c # z) (Suc i) = cget z i"
  by (simp_all add: cget_def)

lemma UpperToLower_0 [simp]: "sqlite3UpperToLower 0 = 0" "sqlite3UpperToLower x = 0 \<longleftrightarrow> x = 0"
  by (auto simp: UpperToLower_eq word_le_nat_alt unat_word_ariths word_unat_eq_iff)

lemma uint_UpperToLower [simp]:
  "uint (sqlite3UpperToLower x) = 0 \<longleftrightarrow> x = 0" "0 < uint (sqlite3UpperToLower x) \<longleftrightarrow> x \<noteq> 0"
  using uint_ge_0 [of "sqlite3UpperToLower x"] unfolding order_less_le by (auto simp: uint_0_iff)

lemma cstring_Cons [simp]: "cstring []" "cstring (x # a) \<longleftrightarrow> x \<noteq> 0 \<and> cstring a"
  by (auto simp: cstring_def)

text \<open>Lexicographic comparison of byte lists, the shorter one first.\<close>

fun byte_cmp :: "u8 list \<Rightarrow> u8 list \<Rightarrow> cint" where
  "byte_cmp [] [] = 0"
| "byte_cmp [] (y # b) = -1"
| "byte_cmp (x # a) [] = 1"
| "byte_cmp (x # a) (y # b) = (if x < y then -1 else if x > y then 1 else byte_cmp a b)"

lemma sqlite3StrICmp_sgn:
  "cstring a \<Longrightarrow> cstring b \<Longrightarrow> sgn (sqlite3StrICmp a b) = byte_cmp (fold_case a) (fold_case b)"
proof (induction a b rule: sqlite3StrICmp.induct)
  case (1 b)
  then show ?case
    by (cases b) (auto simp: sgn_if)
next
  case (2 x a)
  then show ?case by (auto simp: sgn_if)
next
  case (3 x a y b)
  then show ?case by (auto simp: sgn_if word_less_def Let_def dest: word_uint_eqI)
qed

lemma byte_cmp_eq_0 [simp]: "byte_cmp a b = 0 \<longleftrightarrow> a = b"
  by (induction a b rule: byte_cmp.induct) auto
lemma byte_cmp_swap: "byte_cmp b a = - byte_cmp a b"
  by (induction a b rule: byte_cmp.induct) auto
lemma byte_cmp_trans: "byte_cmp a b < 0 \<Longrightarrow> byte_cmp b c < 0 \<Longrightarrow> byte_cmp a c < 0"
proof (induction a c arbitrary: b rule: byte_cmp.induct)
  case (4 x a y c)
  then show ?case by (cases b) (auto split: if_splits)
next
  case (3 x a) then show ?case by (cases b) (auto split: if_splits)
next
  case 1 then show ?case by (cases b) auto
qed auto

lemma sqlite3StrICmp_0: "cstring a \<Longrightarrow> cstring b \<Longrightarrow> sqlite3StrICmp a b = 0 \<longleftrightarrow> fold_case a = fold_case b"
  using sqlite3StrICmp_sgn[of a b] by (metis byte_cmp_eq_0 sgn_0_0)

lemma strnicmp_loop_take: "cstring a \<Longrightarrow> cstring b \<Longrightarrow> strnicmp_loop a b n = sqlite3StrICmp (take n a) (take n b)"
proof (induction a b n rule: strnicmp_loop.induct)
  case (2 a b n)
  then show ?case 
    by (cases a; cases b) (auto simp: Let_def dest: word_uint_eqI)
qed simp

text \<open>Quoting: every occurrence of the quote is doubled, and a quote put at both ends.\<close>

fun double_quote :: "u8 \<Rightarrow> u8 list \<Rightarrow> u8 list" where
  "double_quote q [] = []"
| "double_quote q (c # z) = (if c = q then q # q # double_quote q z else c # double_quote q z)"

lemma dequote_loop_double: "rest = [] \<or> hd rest \<noteq> q \<Longrightarrow> dequote_loop q (double_quote q z @ q # rest) = Some z"
proof (induction z)
  case Nil
  then show ?case by (cases rest) auto
next
  case (Cons c z)
  then show ?case by auto
qed



text \<open>
  C27: \<open>sqlite3Dequote\<close> gives back what was quoted: for each of SQL's four quotes, the text whose
  closing quotes are doubled, between quotes, becomes the text itself, whatever follows it.
\<close>

theorem dequote_roundtrip:
  assumes "sqlite3Isquote q" "rest = [] \<or> hd rest \<noteq> (if q = 91 then 93 else q)"
  shows "sqlite3Dequote (q # double_quote (if q = 91 then 93 else q) z @ (if q = 91 then 93 else q) # rest) = Some z"
  using assms dequote_loop_double[of rest "if q = 91 then 93 else q" z] by (auto simp: sqlite3Dequote_def)

theorem dequote_roundtrip_witness:
  "sqlite3Dequote [39, 97, 39, 39, 98, 39] = Some [97, 39, 98]"
proof -
  have "sqlite3Isquote 39" by code_simp
  then show ?thesis using dequote_roundtrip [of 39 "[]" "[97, 39, 98]"] by simp
qed

lemma dequote_loop_shrinks: "dequote_loop q z = Some r \<Longrightarrow> length r < length z"
  by (induction q z arbitrary: r rule: dequote_loop.induct) (auto split: if_splits list.splits, force+)



section \<open>VList: names of SQL variables\<close>

text \<open>
  A \<open>VList\<close> is an array of \<open>int\<close>s whose names overlay some of its slots, so it is modelled as
  the bytes of the array; \<open>vint\<close> and \<open>vput\<close> read and write the \<open>int\<close> in slot \<open>i\<close> (least
  significant byte first, as on every target of the library).
\<close>

definition vint :: "mem \<Rightarrow> nat \<Rightarrow> cint" where
  "vint p i =
     (let n = uint (p (4*i)) + 256 * uint (p (4*i+1)) + 65536 * uint (p (4*i+2)) + 16777216 * uint (p (4*i+3))
      in if n < 0x80000000 then n else n - 0x100000000)"

definition vput :: "mem \<Rightarrow> nat \<Rightarrow> cint \<Rightarrow> mem" where
  "vput p i v = p (4*i := word_of_int v, 4*i+1 := word_of_int (v div 256),
                   4*i+2 := word_of_int (v div 65536), 4*i+3 := word_of_int (v div 16777216))"

text \<open>\<open>memcpy\<close> of the list \<open>xs\<close> to offset \<open>i\<close>.\<close>

definition mem_put :: "mem \<Rightarrow> nat \<Rightarrow> u8 list \<Rightarrow> mem" where
  "mem_put p i xs = (\<lambda>k. if i \<le> k \<and> k < i + length xs then xs ! (k - i) else p k)"

text \<open>
  \<open>dbRealloc pIn n\<close> is the memory that \<open>sqlite3DbRealloc\<close> returns for \<open>n\<close> bytes, or \<open>None\<close> when
  there is none. The result of \<open>sqlite3VListAdd\<close> is \<open>None\<close> for the null pointer.
\<close>

definition vlist_store :: "mem \<Rightarrow> u8 list \<Rightarrow> nat \<Rightarrow> cint \<Rightarrow> cint \<Rightarrow> mem" where
  "vlist_store p zName nName nInt iVal =
     (let i = vint p 1;
          p = vput p (nat i) iVal;
          p = vput p (nat i + 1) nInt;
          p = vput p 1 (i + nInt);
          p = mem_put p (4 * (nat i + 2)) (map (cget zName) [0..<nName])
      in mem_put p (4 * (nat i + 2) + nName) [0])"

definition sqlite3VListAdd ::
  "(mem option \<Rightarrow> cint \<Rightarrow> mem option) \<Rightarrow> mem option \<Rightarrow> u8 list \<Rightarrow> nat \<Rightarrow> cint \<Rightarrow> mem option" where
  "sqlite3VListAdd dbRealloc pIn zName nName iVal =
     (let nInt = int (nName div 4) + 3
      in if (case pIn of None \<Rightarrow> True | Some p \<Rightarrow> vint p 1 + nInt > vint p 0) then
           (let nAlloc = (case pIn of None \<Rightarrow> 10 | Some p \<Rightarrow> vint p 0 * 2) + nInt
            in case dbRealloc pIn (nAlloc * 4) of
                 None \<Rightarrow> pIn
               | Some pOut \<Rightarrow>
                   (let p = (if pIn = None then vput pOut 1 2 else pOut);
                        p = vput p 0 nAlloc
                    in Some (vlist_store p zName nName nInt iVal)))
         else map_option (\<lambda>p. vlist_store p zName nName nInt iVal) pIn)"

text \<open>
  The two lookups. The result of the outer option is \<open>None\<close> when the loop does not end; a name
  is the offset of its first byte.
\<close>

partial_function (option) numToName_loop :: "mem \<Rightarrow> cint \<Rightarrow> cint \<Rightarrow> cint \<Rightarrow> nat option option" where
  "numToName_loop p iVal i mx =
     (if vint p (nat i) = iVal then Some (Some (4 * (nat i + 2)))
      else let i' = i + vint p (nat i + 1)
           in if i' < mx then numToName_loop p iVal i' mx else Some None)"

definition sqlite3VListNumToName :: "mem option \<Rightarrow> cint \<Rightarrow> nat option option" where
  "sqlite3VListNumToName pIn iVal =
     (case pIn of None \<Rightarrow> Some None | Some p \<Rightarrow> numToName_loop p iVal 2 (vint p 1))"

text \<open>\<open>strncmp(z, zName, n) == 0\<close>, where a zero byte ends both texts.\<close>

fun strncmp_eq :: "mem \<Rightarrow> nat \<Rightarrow> u8 list \<Rightarrow> nat \<Rightarrow> bool" where
  "strncmp_eq p i z 0 = True"
| "strncmp_eq p i z (Suc n) =
     (p i = cget z 0 \<and> (p i = 0 \<or> strncmp_eq p (Suc i) (drop 1 z) n))"

partial_function (option) nameToNum_loop :: "mem \<Rightarrow> u8 list \<Rightarrow> nat \<Rightarrow> cint \<Rightarrow> cint \<Rightarrow> cint option" where
  "nameToNum_loop p zName nName i mx =
     (if strncmp_eq p (4 * (nat i + 2)) zName nName \<and> p (4 * (nat i + 2) + nName) = 0
      then Some (vint p (nat i))
      else let i' = i + vint p (nat i + 1)
           in if i' < mx then nameToNum_loop p zName nName i' mx else Some 0)"

definition sqlite3VListNameToNum :: "mem option \<Rightarrow> u8 list \<Rightarrow> nat \<Rightarrow> cint option" where
  "sqlite3VListNameToNum pIn zName nName =
     (case pIn of None \<Rightarrow> Some 0 | Some p \<Rightarrow> nameToNum_loop p zName nName 2 (vint p 1))"

text \<open>What a \<open>VList\<close> holds: the pairs, from slot \<open>i\<close> to slot \<open>mx\<close>.\<close>

definition nSlot :: "u8 list \<Rightarrow> nat" where
  "nSlot z = length z div 4 + 3"

fun vents_at :: "mem \<Rightarrow> nat \<Rightarrow> (cint \<times> u8 list) list \<Rightarrow> nat \<Rightarrow> bool" where
  "vents_at p i [] mx \<longleftrightarrow> i = mx"
| "vents_at p i ((v, z) # es) mx \<longleftrightarrow>
     vint p i = v \<and> vint p (i + 1) = int (nSlot z) \<and> cstring z \<and>
     mem_at p (4 * (i + 2)) (z @ [0]) \<and> vents_at p (i + nSlot z) es mx"

definition vlist_rep :: "mem option \<Rightarrow> (cint \<times> u8 list) list \<Rightarrow> bool" where
  "vlist_rep pIn es \<longleftrightarrow>
     (case pIn of
        None \<Rightarrow> es = []
      | Some p \<Rightarrow> es \<noteq> [] \<and> vents_at p 2 es (nat (vint p 1)) \<and> 2 \<le> vint p 1 \<and> vint p 1 \<le> vint p 0)"

lemma vput_other: "k < 4 * i \<or> 4 * i + 4 \<le> k \<Longrightarrow> vput p i v k = p k"
  by (auto simp: vput_def)

lemma vint_cong: "(\<And>k. 4 * i \<le> k \<Longrightarrow> k < 4 * i + 4 \<Longrightarrow> p k = q k) \<Longrightarrow> vint p i = vint q i"
  by (simp add: vint_def)

lemma int_bytes4: 
  fixes v :: int assumes "0 \<le> v" "v < 0x100000000"
  shows "v mod 256 + 256 * (v div 256 mod 256) + 65536 * (v div 65536 mod 256) + 16777216 * (v div 16777216 mod 256) = v"
proof -
  define a b c where abc: "a = v div 256" "b = a div 256" "c = b div 256"
  have e: "v div 65536 = b" "v div 16777216 = c"
    by (simp_all add: abc zdiv_zmult2_eq [symmetric])
  have c: "c < 256" "0 \<le> c" using assms by (simp_all add: e(2) [symmetric])
  have "v = a * 256 + v mod 256" "a = b * 256 + a mod 256" "b = c * 256 + b mod 256"
    by (simp_all add: abc del: div_mult2_eq)
  moreover have "c mod 256 = c" using c by simp
  ultimately show ?thesis unfolding e abc(1) [symmetric] by linarith
qed

lemma div_mod_shift: "0 < d \<Longrightarrow> (d * 256 * q + w) div d mod 256 = (w::int) div d mod 256"
proof -
  assume "0 < d"
  then have "(d * 256 * q + w) div d = 256 * q + w div d"
    using div_mult_self2 [of d w "256 * q"] by (simp add: mult.assoc add.commute)
  then show ?thesis by simp
qed

lemma vint_vput_bytes:
  "vint (vput p i v) i =
     (let n = v mod 256 + 256 * (v div 256 mod 256) + 65536 * (v div 65536 mod 256) + 16777216 * (v div 16777216 mod 256)
      in if n < 0x80000000 then n else n - 0x100000000)"
proof -
  have b: "uint (word_of_int x :: u8) = x mod 256" for x
    by (simp add: unsigned_of_int take_bit_eq_mod)
  show ?thesis unfolding vint_def vput_def by simp (simp only: b)
qed

lemma vint_vput [simp]: "is_i32 v \<Longrightarrow> vint (vput p i v) i = v"
proof -
  assume a: "is_i32 v"
  define w where "w = v mod 0x100000000"
  have w: "0 \<le> w" "w < 0x100000000" by (auto simp: w_def)
  define q where "q = v div 0x100000000"
  have v: "v = 0x100000000 * q + w" by (simp add: q_def w_def)
  have sh: "v div d mod 256 = w div d mod 256" if "0 < d" "d * 256 * r = 0x100000000" for d r
    using div_mod_shift [OF that(1), of "r * q" w] that(2) by (metis v mult.assoc)
  have "v mod 256 = w mod 256" using sh [of 1 16777216] by simp
  moreover have "v div 256 mod 256 = w div 256 mod 256" by (rule sh [of _ 65536]) simp_all
  moreover have "v div 65536 mod 256 = w div 65536 mod 256" by (rule sh [of _ 256]) simp_all
  moreover have "v div 16777216 mod 256 = w div 16777216 mod 256" by (rule sh [of _ 1]) simp_all
  ultimately have sum: "v mod 256 + 256 * (v div 256 mod 256) + 65536 * (v div 65536 mod 256) + 16777216 * (v div 16777216 mod 256) = w"
    using int_bytes4 [OF w] by (simp only:)
  have w': "w = (if v < 0 then v + 0x100000000 else v)"
  proof (cases "v < 0")
    case True
    have "w = (v + 0x100000000) mod 0x100000000" by (simp only: w_def mod_add_self2)
    also have "\<dots> = v + 0x100000000"
      by (rule mod_pos_pos_trivial) (use a True in \<open>auto simp: is_i32_def\<close>)
    finally show ?thesis using True by simp
  next
    case False
    then show ?thesis using a by (simp add: w_def is_i32_def)
  qed
  have "vint (vput p i v) i = (if w < 0x80000000 then w else w - 0x100000000)"
    unfolding vint_vput_bytes sum Let_def ..
  then show ?thesis using a w' by (auto simp: is_i32_def)
qed

lemma vint_vput_other [simp]: "i \<noteq> j \<Longrightarrow> vint (vput p i v) j = vint p j"
  by (rule vint_cong, rule vput_other) linarith

lemma mem_put_vint: "4 * j + 4 \<le> i \<or> i + length xs \<le> 4 * j \<Longrightarrow> vint (mem_put p i xs) j = vint p j"
  by (rule vint_cong) (auto simp: mem_put_def)

lemma mem_at_cong: "(\<And>k. i \<le> k \<Longrightarrow> k < i + length xs \<Longrightarrow> p k = q k) \<Longrightarrow> mem_at p i xs \<longleftrightarrow> mem_at q i xs"
  by (simp add: mem_at_def)

lemma vents_at_le: "vents_at p i es mx \<Longrightarrow> i \<le> mx"
  by (induction p i es mx rule: vents_at.induct) auto

lemma vents_at_cong: "(\<And>k. 4 * i \<le> k \<Longrightarrow> k < 4 * mx \<Longrightarrow> p k = q k) \<Longrightarrow> vents_at p i es mx \<Longrightarrow> vents_at q i es mx"
proof (induction p i es mx rule: vents_at.induct)
  case (2 p i v z es mx)
  have le: "i + nSlot z \<le> mx" using 2 vents_at_le by auto
  have "vint p i = vint q i" "vint p (i+1) = vint q (i+1)" 
    using le by (auto intro!: vint_cong 2 simp: nSlot_def)
  moreover have "mem_at p (4 * (i + 2)) (z @ [0]) \<longleftrightarrow> mem_at q (4 * (i + 2)) (z @ [0])" 
    using le by (intro mem_at_cong 2) (auto simp: nSlot_def)
  moreover have "vents_at q (i + nSlot z) es mx" using 2 by auto
  ultimately show ?case using 2(3) by simp
qed simp

lemma vents_at_append:
  "vents_at p i (es @ es') mx \<longleftrightarrow> (\<exists>m. vents_at p i es m \<and> vents_at p m es' mx)"
  by (induction es arbitrary: i) auto

lemma strncmp_eq_iff: "mem_at p i (z @ [0]) \<Longrightarrow> cstring z \<Longrightarrow> cstring w \<Longrightarrow> strncmp_eq p i w (length w) \<and> p (i + length w) = 0 \<longleftrightarrow> w = z"
proof (induction w arbitrary: i z)
  case Nil
  then show ?case by (cases z) auto
next
  case (Cons c w)
  show ?case
  proof (cases z)
    case Nil then show ?thesis using Cons.prems by auto
  next
    case (Cons d z')
    then show ?thesis using Cons.prems Cons.IH[of "Suc i" z'] by auto
  qed
qed

fun find_name :: "u8 list \<Rightarrow> (cint \<times> u8 list) list \<Rightarrow> cint" where
  "find_name w [] = 0"
| "find_name w ((v, z) # es) = (if w = z then v else find_name w es)"

fun find_num :: "cint \<Rightarrow> (cint \<times> u8 list) list \<Rightarrow> u8 list option" where
  "find_num n [] = None"
| "find_num n ((v, z) # es) = (if v = n then Some z else find_num n es)"

lemma nameToNum_loop_rep:
  "vents_at p i es (nat mx) \<Longrightarrow> es \<noteq> [] \<Longrightarrow> cstring w \<Longrightarrow> 0 \<le> mx \<Longrightarrow> nameToNum_loop p w (length w) (int i) mx = Some (find_name w es)"
proof (induction es arbitrary: i)
  case (Cons e es)
  obtain v z where e: "e = (v, z)" by force
  have z: "mem_at p (4 * (i + 2)) (z @ [0])" "cstring z" using Cons.prems e by auto
  note s = strncmp_eq_iff[OF z \<open>cstring w\<close>]
  show ?case
  proof (cases es)
    case Nil
    then show ?thesis using Cons.prems e s by (subst nameToNum_loop.simps) (auto simp: nSlot_def Let_def)
  next
    case (Cons e' es')
    then have "i + nSlot z < nat mx" using Cons.prems e vents_at_le by (cases e') (fastforce simp: nSlot_def)
    moreover have "nameToNum_loop p w (length w) (int (i + nSlot z)) mx = Some (find_name w es)"
      using Cons Cons.prems e by (intro Cons.IH) auto
    ultimately show ?thesis using Cons.prems e s 
      by (subst nameToNum_loop.simps) (auto simp: Let_def)
  qed
qed simp

lemma numToName_loop_rep:
  "vents_at p i es (nat mx) \<Longrightarrow> es \<noteq> [] \<Longrightarrow> 0 \<le> mx \<Longrightarrow>
    \<exists>r. numToName_loop p n (int i) mx = Some r \<and> (case find_num n es of None \<Rightarrow> r = None | Some z \<Rightarrow> (\<exists>a. r = Some a \<and> mem_at p a (z @ [0])))"
proof (induction es arbitrary: i)
  case (Cons e es)
  obtain v z where e: "e = (v, z)" by force
  show ?case
  proof (cases es)
    case Nil
    then show ?thesis using Cons.prems e by (subst numToName_loop.simps) (auto simp: nSlot_def Let_def)
  next
    case (Cons e' es')
    then have "i + nSlot z < nat mx" using Cons.prems e vents_at_le by (cases e') (fastforce simp: nSlot_def)
    moreover have "\<exists>r. numToName_loop p n (int (i + nSlot z)) mx = Some r \<and> (case find_num n es of None \<Rightarrow> r = None | Some z \<Rightarrow> (\<exists>a. r = Some a \<and> mem_at p a (z @ [0])))"
      using Cons Cons.prems e by (intro Cons.IH) auto
    ultimately show ?thesis using Cons.prems e
      by (subst numToName_loop.simps) (auto simp: Let_def)
  qed
qed simp


lemma map_cget: "n \<le> length z \<Longrightarrow> map (cget z) [0..<n] = take n z"
  by (rule nth_equalityI) (auto simp: cget_def)

lemma vlist_store_rep:
  assumes es: "vents_at p 2 es i" "vint p 1 = int i" and i: "2 \<le> i"
    and z: "nName \<le> length zName" "cstring (take nName zName)" "is_i32 v"
    and n: "nInt = int (nName div 4) + 3" "int i + nInt \<le> vint p 0" "is_i32 (vint p 0)"
  shows "vlist_rep (Some (vlist_store p zName nName nInt v)) (es @ [(v, take nName zName)])"
proof -
  define w where "w = take nName zName"
  have w: "length w = nName" "map (cget zName) [0..<nName] = w" "nInt = int (nSlot w)" "cstring w"
    using z n by (auto simp: w_def map_cget nSlot_def)
  define q where "q = vlist_store p zName nName nInt v"
  have q: "q = mem_put (mem_put (vput (vput (vput p i v) (i + 1) (int (nSlot w))) 1 (int i + int (nSlot w)))
                  (4 * (i + 2)) w) (4 * (i + 2) + length w) [0]"
    by (simp add: q_def vlist_store_def es(2) [simplified] w Let_def)
  have n: "is_i32 (int (nSlot w))" "is_i32 (int i + int (nSlot w))" "int i + int (nSlot w) \<le> vint p 0"
    using i n w by (auto simp: is_i32_def)
  have "vint q 1 = int i + int (nSlot w)" "vint q 0 = vint p 0"
    using i n by (simp_all add: q mem_put_vint)
  moreover have "vents_at q 2 es i"
    by (rule vents_at_cong [OF _ es(1)]) (use i in \<open>auto simp: q mem_put_def vput_def\<close>)
  moreover have "vint q i = v" "vint q (i + 1) = int (nSlot w)"
    using i n z by (simp_all add: q mem_put_vint)
  moreover have "mem_at q (4 * (i + 2)) (w @ [0])"
    unfolding mem_at_append by (auto simp: q mem_at_def mem_put_def)
  ultimately show ?thesis
    using w n i unfolding q_def [symmetric] w_def [symmetric]
    by (auto simp: vlist_rep_def vents_at_append nat_int_add)
qed

lemma vlist_add_cases:
  assumes rep: "vlist_rep pIn es"
    and realloc: "\<And>n q p k. dbRealloc pIn n = Some q \<Longrightarrow> pIn = Some p \<Longrightarrow> k < 4 * nat (vint p 0) \<Longrightarrow> q k = p k"
    and z: "nName \<le> length zName" "cstring (take nName zName)" "is_i32 iVal"
    and size: "is_i32 ((case pIn of None \<Rightarrow> 10 | Some p \<Rightarrow> 2 * vint p 0) + int (nName div 4 + 3))"
  shows "vlist_rep (sqlite3VListAdd dbRealloc pIn zName nName iVal) (es @ [(iVal, take nName zName)]) \<or>
    (\<exists>n. dbRealloc pIn n = None) \<and> sqlite3VListAdd dbRealloc pIn zName nName iVal = pIn"
proof (cases pIn)
  case None
  define nInt where "nInt = int (nName div 4) + 3"
  show ?thesis
  proof (cases "dbRealloc None ((10 + nInt) * 4)")
    case (Some q)
    define p where "p = vput (vput q 1 2) 0 (10 + nInt)"
    have "vint p 1 = int 2" "vint p 0 = 10 + nInt" "is_i32 (10 + nInt)"
      using size None by (simp_all add: p_def nInt_def is_i32_def)
    then have "vlist_rep (Some (vlist_store p zName nName nInt iVal)) ([] @ [(iVal, take nName zName)])"
      using z by (intro vlist_store_rep [where i = 2]) (auto simp: nInt_def)
    moreover have "es = []" using rep None by (simp add: vlist_rep_def)
    moreover have "sqlite3VListAdd dbRealloc pIn zName nName iVal = Some (vlist_store p zName nName nInt iVal)"
      unfolding sqlite3VListAdd_def nInt_def [symmetric] using None Some by (simp add: p_def)
    ultimately show ?thesis by simp
  next
    case None
    then have "sqlite3VListAdd dbRealloc pIn zName nName iVal = pIn"
      unfolding sqlite3VListAdd_def nInt_def [symmetric] using \<open>pIn = None\<close> by simp
    then show ?thesis using None \<open>pIn = None\<close> by blast
  qed
next
  case (Some p)
  define i where "i = nat (vint p 1)"
  define nInt where "nInt = int (nName div 4) + 3"
  have p: "es \<noteq> []" "vents_at p 2 es i" "2 \<le> i" "vint p 1 = int i" "int i \<le> vint p 0"
    using rep Some by (auto simp: vlist_rep_def i_def)
  have size: "is_i32 (2 * vint p 0 + nInt)" "is_i32 (vint p 0)" using size Some p by (auto simp: nInt_def is_i32_def)
  show ?thesis
  proof (cases "int i + nInt > vint p 0")
    case False
    then have "vlist_rep (Some (vlist_store p zName nName nInt iVal)) (es @ [(iVal, take nName zName)])"
      using p z size by (intro vlist_store_rep) (auto simp: nInt_def)
    then show ?thesis using Some False p by (simp add: sqlite3VListAdd_def nInt_def)
  next
    case True
    show ?thesis
    proof (cases "dbRealloc pIn ((vint p 0 * 2 + nInt) * 4)")
      case (Some q)
      define p' where "p' = vput q 0 (vint p 0 * 2 + nInt)"
      have q: "q k = p k" if "k < 4 * nat (vint p 0)" for k
        using realloc [OF Some \<open>pIn = Some p\<close>] that by auto
      have "vint q 1 = vint p 1" by (rule vint_cong) (use q p in auto)
      then have p': "vint p' 1 = int i" "vint p' 0 = vint p 0 * 2 + nInt"
        using size p by (simp_all add: p'_def mult.commute)
      have "vents_at p' 2 es i"
        by (rule vents_at_cong [OF _ p(2)]) (use q p in \<open>auto simp: p'_def vput_def\<close>)
      then have "vlist_rep (Some (vlist_store p' zName nName nInt iVal)) (es @ [(iVal, take nName zName)])"
        using p p' z size by (intro vlist_store_rep) (auto simp: nInt_def mult.commute)
      then show ?thesis using Some \<open>pIn = Some p\<close> True p
        unfolding sqlite3VListAdd_def nInt_def [symmetric] by (simp add: p'_def Let_def)
    qed (use Some True p in \<open>auto simp: sqlite3VListAdd_def nInt_def\<close>)
  qed
qed


text \<open>
  C23: adding a pair to a \<open>VList\<close> appends it to the pairs the list holds, whether the array has
  room or is enlarged, and when the enlargement fails for want of memory the list that was
  given is returned as it was. (The size bound is what keeps the \<open>int\<close> slot counts from
  overflowing; a reallocation keeps the bytes of the old array.)
\<close>

theorem vlist_add:
  assumes rep: "vlist_rep pIn es"
    and realloc: "\<And>n q p k. dbRealloc pIn n = Some q \<Longrightarrow> pIn = Some p \<Longrightarrow> k < 4 * nat (vint p 0) \<Longrightarrow> q k = p k"
    and z: "nName \<le> length zName" "cstring (take nName zName)" "is_i32 iVal"
    and size: "is_i32 ((case pIn of None \<Rightarrow> 10 | Some p \<Rightarrow> 2 * vint p 0) + int (nName div 4 + 3))"
  shows "vlist_rep (sqlite3VListAdd dbRealloc pIn zName nName iVal) (es @ [(iVal, take nName zName)]) \<or>
    (\<exists>n. dbRealloc pIn n = None) \<and> sqlite3VListAdd dbRealloc pIn zName nName iVal = pIn"
  using assms by (rule vlist_add_cases)

text \<open>A \<open>VList\<close> built from the null pointer by two additions, the memory coming zeroed.\<close>

definition zero_realloc :: "mem option \<Rightarrow> cint \<Rightarrow> mem option" where
  "zero_realloc p n = Some (case p of None \<Rightarrow> (\<lambda>_. 0) | Some m \<Rightarrow> m)"

theorem vlist_add_witness:
  "vlist_rep (sqlite3VListAdd zero_realloc None [58, 97, 98, 99, 32] 4 1) [(1, [58, 97, 98, 99])]"
  using vlist_add [of None "[]" zero_realloc 4 "[58, 97, 98, 99, 32]" 1]
  by (auto simp: vlist_rep_def zero_realloc_def is_i32_def)

text \<open>
  C24: on a \<open>VList\<close> that holds some pairs both lookups end; the first pair with the name asked
  for gives its number (0 when there is none), and the first pair with the number asked for
  gives a pointer to its name, zero-terminated (NULL when there is none).
\<close>

theorem vlist_lookup:
  assumes "vlist_rep pIn es" "cstring w"
  shows "sqlite3VListNameToNum pIn w (length w) = Some (find_name w es) \<and>
    (\<exists>r. sqlite3VListNumToName pIn n = Some r \<and>
       (case find_num n es of
          None \<Rightarrow> r = None
        | Some z \<Rightarrow> \<exists>a p. r = Some a \<and> pIn = Some p \<and> mem_at p a (z @ [0])))"
proof (cases pIn)
  case None
  then show ?thesis using assms by (simp add: vlist_rep_def sqlite3VListNameToNum_def sqlite3VListNumToName_def)
next
  case (Some p)
  have "vents_at p 2 es (nat (vint p 1))" "es \<noteq> []" "0 \<le> vint p 1"
    using assms Some by (auto simp: vlist_rep_def)
  then show ?thesis
    using nameToNum_loop_rep [of p 2 es "vint p 1" w] numToName_loop_rep [of p 2 es "vint p 1" n] assms(2) Some
    by (auto simp: sqlite3VListNameToNum_def sqlite3VListNumToName_def split: option.splits)
qed


theorem vlist_lookup_witness:
  "\<exists>l. l \<noteq> None \<and> sqlite3VListNameToNum l [58, 97] 2 = Some 7"
proof -
  have "vlist_rep (sqlite3VListAdd zero_realloc None [58, 97] 2 7) ([] @ [(7, take 2 [58, 97])])"
    by (rule disjE [OF vlist_add_cases [of None "[]" zero_realloc 2 "[58, 97]" 7]])
      (auto simp: vlist_rep_def zero_realloc_def is_i32_def)
  then have "sqlite3VListNameToNum (sqlite3VListAdd zero_realloc None [58, 97] 2 7) [58, 97] (length [58, 97 :: u8])
      = Some (find_name [58, 97] [(7, [58, 97])])"
    using vlist_lookup [of _ "[(7, [58, 97])]" "[58, 97]"] by simp
  then show ?thesis by (intro exI [of _ "sqlite3VListAdd zero_realloc None [58, 97] 2 7"])
      (auto simp: sqlite3VListAdd_def zero_realloc_def numeral_2_eq_2)
qed

end
