(* ===== verification/HashTable.thy ===== *)
theory HashTable
  imports Strings
begin

text \<open>
  The generic hash table of hash.c, which holds the schema: one doubly linked list of all the
  elements, in which the elements of a bucket are neighbours, and an array of buckets made once
  the table has ten elements. Elements are cells of an explicit heap, because the operations
  work by changing the pointers of their neighbours.
\<close>

section \<open>State\<close>

type_synonym addr = nat

record 'd HashElem =
  nxt :: "addr option"
  prv :: "addr option"
  data :: 'd
  pKey :: "u8 list"

record bucket =
  bcount :: cint
  chain :: "addr option"

text \<open>
  \<open>struct Hash\<close>, with the heap of its elements. The null pointer is \<open>None\<close>; the data of an
  element is never null.
\<close>

record 'd Hash =
  htsize :: nat
  hcount :: nat
  first :: "addr option"
  ht :: "bucket list option"
  heap :: "addr \<Rightarrow> 'd HashElem option"

definition upd_elem :: "'d Hash \<Rightarrow> addr \<Rightarrow> ('d HashElem \<Rightarrow> 'd HashElem) \<Rightarrow> 'd Hash" where
  "upd_elem p a f = p\<lparr>heap := (heap p)(a := map_option f (heap p a))\<rparr>"

abbreviation elem_at :: "'d Hash \<Rightarrow> addr \<Rightarrow> 'd HashElem" where
  "elem_at p a \<equiv> the (heap p a)"

section \<open>Operations\<close>

definition sqlite3HashInit :: "'d Hash" where
  "sqlite3HashInit = \<lparr>htsize = 0, hcount = 0, first = None, ht = None, heap = (\<lambda>_. None)\<rparr>"

text \<open>The loop of \<open>sqlite3HashClear\<close>, which frees the elements along the list.\<close>

partial_function (option) clear_loop :: "(addr \<Rightarrow> 'd HashElem option) \<Rightarrow> addr option \<Rightarrow> (addr \<Rightarrow> 'd HashElem option) option" where
  "clear_loop H elem =
     (case elem of
        None \<Rightarrow> Some H
      | Some a \<Rightarrow> (let next_elem = nxt (the (H a)) in clear_loop (H(a := None)) next_elem))"

definition sqlite3HashClear :: "'d Hash \<Rightarrow> 'd Hash option" where
  "sqlite3HashClear pH =
     map_option (\<lambda>H. pH\<lparr>first := None, ht := None, htsize := 0, heap := H, hcount := 0\<rparr>)
       (clear_loop (heap pH) (first pH))"

text \<open>\<open>h += sqlite3UpperToLower[c]; h *= 0x9e3779b1;\<close> for each byte, modulo $2^{32}$.\<close>

fun strHash_loop :: "u32 \<Rightarrow> u8 list \<Rightarrow> u32" where
  "strHash_loop h [] = h"
| "strHash_loop h (c # z) =
     (if c = 0 then h else strHash_loop ((h + ucast (sqlite3UpperToLower c)) * 0x9e3779b1) z)"

definition strHash :: "u8 list \<Rightarrow> u32" where
  "strHash z = strHash_loop 0 z"

text \<open>\<open>pEntry\<close> is the index of the bucket, \<open>None\<close> when there is no bucket array.\<close>

definition insertElement :: "'d Hash \<Rightarrow> nat option \<Rightarrow> addr \<Rightarrow> 'd Hash" where
  "insertElement pH pEntry pNew =
     (let pHead = (case pEntry of
                     None \<Rightarrow> None
                   | Some h \<Rightarrow> (if bcount (the (ht pH) ! h) \<noteq> 0 then chain (the (ht pH) ! h) else None));
          pH = (case pEntry of
                  None \<Rightarrow> pH
                | Some h \<Rightarrow>
                    pH\<lparr>ht := map_option
                        (\<lambda>t. t[h := \<lparr>bcount = bcount (t ! h) + 1, chain = Some pNew\<rparr>]) (ht pH)\<rparr>)
      in case pHead of
           Some q \<Rightarrow>
             (let pH = upd_elem pH pNew (\<lambda>e. e\<lparr>nxt := Some q, prv := prv (elem_at pH q)\<rparr>);
                  pH = (case prv (elem_at pH q) of
                          Some b \<Rightarrow> upd_elem pH b (\<lambda>e. e\<lparr>nxt := Some pNew\<rparr>)
                        | None \<Rightarrow> pH\<lparr>first := Some pNew\<rparr>)
              in upd_elem pH q (\<lambda>e. e\<lparr>prv := Some pNew\<rparr>))
         | None \<Rightarrow>
             (let pH = upd_elem pH pNew (\<lambda>e. e\<lparr>nxt := first pH\<rparr>);
                  pH = (case first pH of
                          Some a \<Rightarrow> upd_elem pH a (\<lambda>e. e\<lparr>prv := Some pNew\<rparr>)
                        | None \<Rightarrow> pH);
                  pH = upd_elem pH pNew (\<lambda>e. e\<lparr>prv := None\<rparr>)
              in pH\<lparr>first := Some pNew\<rparr>))"

text \<open>
  Rehashing. \<open>sz\<close> is \<open>sizeof(struct _ht)\<close> and \<open>mallocSize n\<close> the usable size of the block that
  \<open>sqlite3Malloc(n)\<close> returns, \<open>None\<close> when it fails; both depend on the platform. The soft limit
  is the default of \<open>SQLITE_MALLOC_SOFT_LIMIT\<close>. The result is \<open>None\<close> if the loop does not end.
\<close>

definition MALLOC_SOFT_LIMIT :: nat where "MALLOC_SOFT_LIMIT = 1024"

definition bucket_index :: "'d Hash \<Rightarrow> u8 list \<Rightarrow> nat" where
  "bucket_index pH key = unat (strHash key) mod htsize pH"

partial_function (option) rehash_loop :: "'d Hash \<Rightarrow> addr option \<Rightarrow> 'd Hash option" where
  "rehash_loop pH elem =
     (case elem of
        None \<Rightarrow> Some pH
      | Some a \<Rightarrow>
          (let h = bucket_index pH (pKey (elem_at pH a));
               next_elem = nxt (elem_at pH a)
           in rehash_loop (insertElement pH (Some h) a) next_elem))"

definition rehash :: "nat \<Rightarrow> (nat \<Rightarrow> nat option) \<Rightarrow> 'd Hash \<Rightarrow> nat \<Rightarrow> (bool \<times> 'd Hash) option" where
  "rehash sz mallocSize pH new_size =
     (let new_size = (if new_size * sz > MALLOC_SOFT_LIMIT then MALLOC_SOFT_LIMIT div sz else new_size)
      in if new_size = htsize pH then Some (False, pH)
         else case mallocSize (new_size * sz) of
                None \<Rightarrow> Some (False, pH)
              | Some usable \<Rightarrow>
                  (let n = usable div sz;
                       new_ht = replicate n \<lparr>bcount = 0, chain = None\<rparr>
                   in map_option (Pair True)
                        (rehash_loop (pH\<lparr>ht := Some new_ht, htsize := n, first := None\<rparr>) (first pH))))"

text \<open>\<open>while( count-- )\<close> along the chain; \<open>count\<close> is never negative.\<close>

primrec find_loop :: "'d Hash \<Rightarrow> u8 list \<Rightarrow> nat \<Rightarrow> addr option \<Rightarrow> addr option" where
  "find_loop pH key 0 elem = None"
| "find_loop pH key (Suc count) elem =
     (case elem of
        None \<Rightarrow> None
      | Some a \<Rightarrow>
          (if sqlite3StrICmp (pKey (elem_at pH a)) key = 0 then Some a
           else find_loop pH key count (nxt (elem_at pH a))))"

definition findElementWithHash :: "'d Hash \<Rightarrow> u8 list \<Rightarrow> addr option \<times> nat" where
  "findElementWithHash pH key =
     (case ht pH of
        Some t \<Rightarrow>
          (let h = bucket_index pH key
           in (find_loop pH key (nat (bcount (t ! h))) (chain (t ! h)), h))
      | None \<Rightarrow> (find_loop pH key (hcount pH) (first pH), 0))"

definition removeElementGivenHash :: "'d Hash \<Rightarrow> addr \<Rightarrow> nat \<Rightarrow> 'd Hash option" where
  "removeElementGivenHash pH elem h =
     (let e = elem_at pH elem;
          pH = (case prv e of
                  Some b \<Rightarrow> upd_elem pH b (\<lambda>b. b\<lparr>nxt := nxt e\<rparr>)
                | None \<Rightarrow> pH\<lparr>first := nxt e\<rparr>);
          pH = (case nxt e of
                  Some c \<Rightarrow> upd_elem pH c (\<lambda>c. c\<lparr>prv := prv e\<rparr>)
                | None \<Rightarrow> pH);
          pH = pH\<lparr>ht := map_option
                  (\<lambda>t. t[h := \<lparr>bcount = bcount (t ! h) - 1,
                               chain = (if chain (t ! h) = Some elem then nxt e else chain (t ! h))\<rparr>])
                  (ht pH)\<rparr>;
          pH = pH\<lparr>heap := (heap pH)(elem := None), hcount := hcount pH - 1\<rparr>
      in if hcount pH = 0 then sqlite3HashClear pH else Some pH)"

definition sqlite3HashFind :: "'d Hash \<Rightarrow> u8 list \<Rightarrow> 'd option" where
  "sqlite3HashFind pH key = map_option (\<lambda>a. data (elem_at pH a)) (fst (findElementWithHash pH key))"

text \<open>
  \<open>fresh\<close> is the address of the element that \<open>sqlite3Malloc\<close> gives, \<open>None\<close> when it fails. The
  result is the pointer returned and the table, \<open>None\<close> if a loop does not end.
\<close>

definition sqlite3HashInsert ::
  "nat \<Rightarrow> (nat \<Rightarrow> nat option) \<Rightarrow> addr option \<Rightarrow> 'd Hash \<Rightarrow> u8 list \<Rightarrow> 'd option \<Rightarrow> ('d option \<times> 'd Hash) option" where
  "sqlite3HashInsert sz mallocSize fresh pH key dat =
     (let (elem, h) = findElementWithHash pH key
      in case elem of
           Some a \<Rightarrow>
             (let old_data = data (elem_at pH a)
              in case dat of
                   None \<Rightarrow> map_option (Pair (Some old_data)) (removeElementGivenHash pH a h)
                 | Some d \<Rightarrow> Some (Some old_data, upd_elem pH a (\<lambda>e. e\<lparr>data := d, pKey := key\<rparr>)))
         | None \<Rightarrow>
             (case dat of
                None \<Rightarrow> Some (None, pH)
              | Some d \<Rightarrow>
                  (case fresh of
                     None \<Rightarrow> Some (Some d, pH)
                   | Some a \<Rightarrow>
                       (let pH = pH\<lparr>heap := (heap pH)(a \<mapsto> \<lparr>nxt = None, prv = None, data = d, pKey = key\<rparr>),
                                    hcount := hcount pH + 1\<rparr>
                        in map_option (\<lambda>pH. (None, pH))
                             (if hcount pH \<ge> 10 \<and> hcount pH > 2 * htsize pH then
                                map_option
                                  (\<lambda>(done, pH).
                                     let h = (if done then bucket_index pH key else h)
                                     in insertElement pH (if ht pH = None then None else Some h) a)
                                  (rehash sz mallocSize pH (hcount pH * 2))
                              else Some (insertElement pH (if ht pH = None then None else Some h) a))))))"

text \<open>The elements in the order of \<open>sqliteHashFirst\<close> and \<open>sqliteHashNext\<close>.\<close>

partial_function (option) hash_iter :: "'d Hash \<Rightarrow> addr option \<Rightarrow> (u8 list \<times> 'd) list option" where
  "hash_iter pH elem =
     (case elem of
        None \<Rightarrow> Some []
      | Some a \<Rightarrow>
          Option.bind (hash_iter pH (nxt (elem_at pH a)))
            (\<lambda>r. Some ((pKey (elem_at pH a), data (elem_at pH a)) # r)))"

section \<open>The linked list\<close>

fun dlseg :: "(addr \<Rightarrow> 'd HashElem option) \<Rightarrow> addr option \<Rightarrow> addr option \<Rightarrow> addr list \<Rightarrow> addr option \<Rightarrow> bool" where
  "dlseg H pv f [] e \<longleftrightarrow> f = e"
| "dlseg H pv f (x # xs) e \<longleftrightarrow>
     f = Some x \<and> (\<exists>el. H x = Some el \<and> prv el = pv \<and> dlseg H (Some x) (nxt el) xs e)"

lemma dlseg_append:
  "dlseg H pv f (us @ vs) e \<longleftrightarrow>
     (\<exists>m. dlseg H pv f us m \<and> dlseg H (if us = [] then pv else Some (last us)) m vs e)"
  by (induction us arbitrary: pv f) auto

lemma dlseg_cong: "(\<And>a. a \<in> set xs \<Longrightarrow> H a = H' a) \<Longrightarrow> dlseg H pv f xs e \<longleftrightarrow> dlseg H' pv f xs e"
  by (induction xs arbitrary: pv f) auto

lemma dlseg_dom: "dlseg H pv f xs e \<Longrightarrow> a \<in> set xs \<Longrightarrow> \<exists>el. H a = Some el"
  by (induction xs arbitrary: pv f) auto

text \<open>The elements that satisfy \<open>P\<close> are neighbours.\<close>

fun contig :: "('a \<Rightarrow> bool) \<Rightarrow> 'a list \<Rightarrow> bool" where
  "contig P [] = True"
| "contig P (x # xs) = (if P x then filter P (dropWhile P xs) = [] else contig P xs)"

lemma contig_split: "contig P xs \<Longrightarrow> \<exists>us ws. xs = us @ filter P xs @ ws"
proof (induction xs)
  case (Cons x xs)
  show ?case
  proof (cases "P x")
    case True
    with Cons.prems have d: "filter P (dropWhile P xs) = []" by simp
    have "filter P xs = filter P (takeWhile P xs) @ filter P (dropWhile P xs)"
      by (simp only: filter_append [symmetric] takeWhile_dropWhile_id)
    also have "\<dots> = takeWhile P xs"
      unfolding d by (auto simp: filter_id_conv dest: set_takeWhileD)
    finally have "x # xs = [] @ filter P (x # xs) @ dropWhile P xs" using True by simp
    then show ?thesis by blast
  next
    case False
    then obtain us ws where "xs = us @ filter P xs @ ws" using Cons by auto
    then have "x # xs = (x # us) @ filter P (x # xs) @ ws" using False by simp
    then show ?thesis by blast
  qed
qed simp

lemma contig_none: "filter P xs = [] \<Longrightarrow> contig P xs"
  by (induction xs) (auto split: if_splits)

fun ins_before :: "'a \<Rightarrow> 'a \<Rightarrow> 'a list \<Rightarrow> 'a list" where
  "ins_before q x [] = [x]"
| "ins_before q x (y # ys) = (if y = q then x # y # ys else y # ins_before q x ys)"

lemma set_ins_before [simp]: "set (ins_before q x ys) = insert x (set ys)"
  by (induction ys) auto

lemma distinct_ins_before [simp]: "x \<notin> set ys \<Longrightarrow> distinct (ins_before q x ys) = distinct ys"
  by (induction ys) auto

lemma ins_before_split: "q \<notin> set us \<Longrightarrow> ins_before q x (us @ q # ws) = us @ x # q # ws"
  by (induction us) auto

lemma filter_ins_before_other: "\<not> P x \<Longrightarrow> filter P (ins_before q x ys) = filter P ys"
  by (induction ys) auto

lemma dropWhile_ins_before:
  "\<not> P x \<Longrightarrow> \<not> P q \<Longrightarrow> filter P (dropWhile P (ins_before q x ys)) = filter P (dropWhile P ys)"
  by (induction ys) (auto simp: filter_ins_before_other)

lemma contig_ins_before_other: "\<not> P x \<Longrightarrow> \<not> P q \<Longrightarrow> contig P ys \<Longrightarrow> contig P (ins_before q x ys)"
  by (induction ys) (auto simp: filter_ins_before_other dropWhile_ins_before)

lemma ins_before_same:
  assumes "P x" "filter P ys \<noteq> []" "contig P ys"
  shows "filter P (ins_before (hd (filter P ys)) x ys) = x # filter P ys \<and>
    contig P (ins_before (hd (filter P ys)) x ys)"
  using assms(2,3)
proof (induction ys)
  case (Cons y ys)
  then show ?case using assms(1) by (cases "P y") (auto dest!: hd_in_set)
qed simp

lemma contig_dropWhile: "filter P (dropWhile P xs) = [] \<Longrightarrow> contig P xs"
  by (induction xs) (auto intro: contig_none split: if_splits)

lemma filter_dropWhile_remove1:
  "filter P (dropWhile P xs) = [] \<Longrightarrow> filter P (dropWhile P (remove1 a xs)) = []"
proof (induction xs)
  case (Cons x xs)
  show ?case
  proof (cases "P x")
    case False
    then have "\<forall>y \<in> set xs. \<not> P y" using Cons.prems by (simp add: filter_empty_conv)
    then show ?thesis using False
      by (auto simp: filter_empty_conv dest: set_dropWhileD notin_set_remove1)
  qed (use Cons in auto)
qed simp

lemma contig_remove1: "contig P xs \<Longrightarrow> contig P (remove1 a xs)"
  by (induction xs) (auto simp: filter_dropWhile_remove1 intro: contig_dropWhile split: if_splits)

section \<open>The invariant\<close>

definition in_bucket :: "'d Hash \<Rightarrow> nat \<Rightarrow> addr \<Rightarrow> bool" where
  "in_bucket p h a \<longleftrightarrow> bucket_index p (pKey (elem_at p a)) = h"

definition bucket_ok :: "'d Hash \<Rightarrow> addr list \<Rightarrow> nat \<Rightarrow> bucket \<Rightarrow> bool" where
  "bucket_ok p xs h b \<longleftrightarrow>
     contig (in_bucket p h) xs \<and> bcount b = int (length (filter (in_bucket p h) xs)) \<and>
     (filter (in_bucket p h) xs \<noteq> [] \<longrightarrow> chain b = Some (hd (filter (in_bucket p h) xs)))"

definition buckets_ok :: "'d Hash \<Rightarrow> addr list \<Rightarrow> bool" where
  "buckets_ok p xs \<longleftrightarrow>
     (case ht p of
        None \<Rightarrow> htsize p = 0
      | Some t \<Rightarrow> length t = htsize p \<and> 0 < htsize p \<and> (\<forall>h < htsize p. bucket_ok p xs h (t ! h)))"

definition list_ok :: "'d Hash \<Rightarrow> addr list \<Rightarrow> bool" where
  "list_ok p xs \<longleftrightarrow> dlseg (heap p) None (first p) xs None \<and> distinct xs \<and> buckets_ok p xs"

text \<open>What an element means to the client: its key and its data.\<close>

definition cell :: "'d Hash \<Rightarrow> addr \<Rightarrow> (u8 list \<times> 'd) option" where
  "cell p a = map_option (\<lambda>e. (pKey e, data e)) (heap p a)"

lemma cell_upd_elem [simp]:
  "(\<And>e. pKey (f e) = pKey e) \<Longrightarrow> (\<And>e. data (f e) = data e) \<Longrightarrow> cell (upd_elem p a f) = cell p"
  by (auto simp: cell_def upd_elem_def fun_eq_iff option.map_comp o_def)

lemma cell_simps [simp]:
  "cell (p\<lparr>ht := t\<rparr>) = cell p" "cell (p\<lparr>first := q\<rparr>) = cell p" "cell (p\<lparr>htsize := n\<rparr>) = cell p"
  "cell (p\<lparr>hcount := n\<rparr>) = cell p"
  by (auto simp: cell_def)

lemma upd_elem_simps [simp]:
  "ht (upd_elem p a f) = ht p" "htsize (upd_elem p a f) = htsize p" "hcount (upd_elem p a f) = hcount p"
  "first (upd_elem p a f) = first p" "heap (upd_elem p a f) = (heap p)(a := map_option f (heap p a))"
  by (simp_all add: upd_elem_def)

lemma in_bucket_cong:
  "cell p a = cell q a \<Longrightarrow> heap p a \<noteq> None \<Longrightarrow> htsize p = htsize q \<Longrightarrow> in_bucket p h a = in_bucket q h a"
  by (cases "heap q a") (auto simp: in_bucket_def bucket_index_def cell_def)

lemma insertElement_fields:
  "cell (insertElement p pE x) = cell p" "htsize (insertElement p pE x) = htsize p"
  "hcount (insertElement p pE x) = hcount p"
  by (simp_all add: insertElement_def Let_def split: option.split)

lemma insertElement_ht:
  "ht (insertElement p pE x) =
     (case pE of
        None \<Rightarrow> ht p
      | Some h \<Rightarrow> map_option (\<lambda>t. t[h := \<lparr>bcount = bcount (t ! h) + 1, chain = Some x\<rparr>]) (ht p))"
  by (simp add: insertElement_def Let_def split: option.split)

lemma insertElement_push:
  assumes l: "dlseg (heap p) None (first p) xs None" "distinct xs" "x \<notin> set xs" "heap p x = Some e"
    and "pE = None \<or> (\<exists>h t. pE = Some h \<and> ht p = Some t \<and> bcount (t ! h) = 0)"
  shows "dlseg (heap (insertElement p pE x)) None (first (insertElement p pE x)) (x # xs) None \<and>
    (\<forall>a. a \<notin> insert x (set xs) \<longrightarrow> heap (insertElement p pE x) a = heap p a)"
proof -
  define p' where "p' = insertElement p pE x"
  have p': "heap p' = (case first p of
        None \<Rightarrow> (heap p)(x \<mapsto> e\<lparr>nxt := None, prv := None\<rparr>)
      | Some y \<Rightarrow> (heap p)(x \<mapsto> e\<lparr>nxt := Some y, prv := None\<rparr>, y := map_option (\<lambda>e. e\<lparr>prv := Some x\<rparr>) (heap p y)))"
      "first p' = Some x" if "\<And>y. first p = Some y \<Longrightarrow> x \<noteq> y"
    using assms(5) l(4) that
    by (auto simp: p'_def insertElement_def Let_def fun_upd_twist split: option.split)
  show ?thesis unfolding p'_def [symmetric]
  proof (cases xs)
    case Nil
    then have "first p = None" using l(1) by simp
    with Nil p' show "dlseg (heap p') None (first p') (x # xs) None \<and>
        (\<forall>a. a \<notin> insert x (set xs) \<longrightarrow> heap p' a = heap p a)" by simp
  next
    case (Cons y ys)
    then obtain ey where y: "first p = Some y" "heap p y = Some ey" "dlseg (heap p) (Some y) (nxt ey) ys None"
      using l(1) by auto
    then have p': "heap p' = (heap p)(x \<mapsto> e\<lparr>nxt := Some y, prv := None\<rparr>, y \<mapsto> ey\<lparr>prv := Some x\<rparr>)" "first p' = Some x"
      using p' l(3) Cons by auto
    have "dlseg (heap p') (Some y) (nxt ey) ys None"
      using y(3) by (rule dlseg_cong [THEN iffD1, rotated]) (use l Cons in \<open>auto simp: p'\<close>)
    then show "dlseg (heap p') None (first p') (x # xs) None \<and>
        (\<forall>a. a \<notin> insert x (set xs) \<longrightarrow> heap p' a = heap p a)"
      using l(3) Cons by (auto simp: p')
  qed
qed

lemma insertElement_before:
  assumes l: "dlseg (heap p) None (first p) (us @ q # ws) None" "distinct (us @ q # ws)"
    and x: "x \<notin> set (us @ q # ws)" "heap p x = Some e"
    and h: "ht p = Some t" "bcount (t ! h) \<noteq> 0" "chain (t ! h) = Some q"
  shows "dlseg (heap (insertElement p (Some h) x)) None (first (insertElement p (Some h) x)) (us @ x # q # ws) None \<and>
    (\<forall>a. a \<notin> insert x (set (us @ q # ws)) \<longrightarrow> heap (insertElement p (Some h) x) a = heap p a)"
proof -
  define p' where "p' = insertElement p (Some h) x"
  obtain eq where q: "heap p q = Some eq" "prv eq = (if us = [] then None else Some (last us))"
    "dlseg (heap p) (Some q) (nxt eq) ws None" "dlseg (heap p) None (first p) us (Some q)"
    using l(1) by (auto simp: dlseg_append)
  show ?thesis unfolding p'_def [symmetric]
  proof (cases us rule: rev_cases)
    case Nil
    have p': "heap p' = (heap p)(x \<mapsto> e\<lparr>nxt := Some q, prv := None\<rparr>, q \<mapsto> eq\<lparr>prv := Some x\<rparr>)" "first p' = Some x"
      using h q x Nil by (auto simp: p'_def insertElement_def Let_def)
    have "dlseg (heap p') (Some q) (nxt eq) ws None"
      using q(3) by (rule dlseg_cong [THEN iffD1, rotated]) (use l x Nil in \<open>auto simp: p'\<close>)
    then show "dlseg (heap p') None (first p') (us @ x # q # ws) None \<and>
        (\<forall>a. a \<notin> insert x (set (us @ q # ws)) \<longrightarrow> heap p' a = heap p a)"
      using Nil x by (auto simp: p')
  next
    case (snoc us' b)
    obtain eb where b: "heap p b = Some eb" "prv eb = (if us' = [] then None else Some (last us'))"
      "nxt eb = Some q" "dlseg (heap p) None (first p) us' (Some b)"
      using q(4) snoc by (auto simp: dlseg_append)
    have p': "heap p' = (heap p)(x \<mapsto> e\<lparr>nxt := Some q, prv := Some b\<rparr>, b \<mapsto> eb\<lparr>nxt := Some x\<rparr>,
        q \<mapsto> eq\<lparr>prv := Some x\<rparr>)" "first p' = first p"
      using h q b x l snoc by (auto simp: p'_def insertElement_def Let_def fun_upd_twist)
    have "dlseg (heap p') (Some q) (nxt eq) ws None"
      using q(3) by (rule dlseg_cong [THEN iffD1, rotated]) (use l x snoc in \<open>auto simp: p'\<close>)
    moreover have "dlseg (heap p') None (first p) us' (Some b)"
      using b(4) by (rule dlseg_cong [THEN iffD1, rotated]) (use l x snoc in \<open>auto simp: p'\<close>)
    ultimately show "dlseg (heap p') None (first p') (us @ x # q # ws) None \<and>
        (\<forall>a. a \<notin> insert x (set (us @ q # ws)) \<longrightarrow> heap p' a = heap p a)"
      using snoc x b q l by (auto simp: p' dlseg_append)
  qed
qed

lemma contig_cong: "(\<And>a. a \<in> set xs \<Longrightarrow> P a = Q a) \<Longrightarrow> contig P xs = contig Q xs"
proof (induction xs)
  case (Cons x xs)
  then have "dropWhile P xs = dropWhile Q xs" by (intro dropWhile_cong) auto
  moreover have "filter P (dropWhile Q xs) = filter Q (dropWhile Q xs)"
    using Cons.prems by (intro filter_cong) (auto dest: set_dropWhileD)
  ultimately show ?case using Cons by simp
qed simp

lemma bucket_ok_cong:
  "(\<And>a. a \<in> set xs \<Longrightarrow> in_bucket p h a = in_bucket q h a) \<Longrightarrow> bucket_ok p xs h b = bucket_ok q xs h b"
  using contig_cong [of xs "in_bucket p h" "in_bucket q h"] filter_cong [of xs xs "in_bucket p h" "in_bucket q h"]
  by (simp add: bucket_ok_def)

lemma buckets_push:
  assumes "bucket_ok p xs h' b" "filter (in_bucket p h) xs = []" "in_bucket p h' x \<longleftrightarrow> h' = h" "bcount b = 0 \<or> h' \<noteq> h"
  shows "bucket_ok p (x # xs) h' (if h' = h then \<lparr>bcount = bcount b + 1, chain = Some x\<rparr> else b)"
  using assms by (auto simp: bucket_ok_def filter_empty_conv dest: set_dropWhileD)

lemma buckets_before:
  assumes "bucket_ok p xs h' b" "in_bucket p h' x \<longleftrightarrow> h' = h"
    and "filter (in_bucket p h) xs \<noteq> []" "q = hd (filter (in_bucket p h) xs)"
  shows "bucket_ok p (ins_before q x xs) h' (if h' = h then \<lparr>bcount = bcount b + 1, chain = Some x\<rparr> else b)"
proof (cases "h' = h")
  case True
  then show ?thesis using assms ins_before_same [of "in_bucket p h" x xs] by (simp add: bucket_ok_def)
next
  case False
  have "q \<in> set (filter (in_bucket p h) xs)" using hd_in_set [OF assms(3)] assms(4) by simp
  then have "\<not> in_bucket p h' q" using False by (simp add: in_bucket_def)
  then show ?thesis using assms False
    by (simp add: bucket_ok_def filter_ins_before_other contig_ins_before_other)
qed

lemma insertElement_ok:
  assumes l: "list_ok p xs" "x \<notin> set xs" "heap p x = Some e"
    and pE: "pE = (if ht p = None then None else Some (bucket_index p (pKey e)))"
  shows "\<exists>xs'. list_ok (insertElement p pE x) xs' \<and> set xs' = insert x (set xs) \<and>
    (\<forall>a. a \<notin> set xs' \<longrightarrow> heap (insertElement p pE x) a = heap p a)"
proof -
  define p' where "p' = insertElement p pE x"
  have ib: "in_bucket p' h a = in_bucket p h a" if "a \<in> insert x (set xs)" for a h
    using that l dlseg_dom [of "heap p"] unfolding p'_def list_ok_def
    by (intro in_bucket_cong [symmetric]) (auto simp: insertElement_fields)
  have d: "dlseg (heap p) None (first p) xs None" "distinct xs" "buckets_ok p xs"
    using l by (auto simp: list_ok_def)
  show ?thesis
  proof (cases "ht p")
    case None
    then have "buckets_ok p' (x # xs)"
      using d(3) by (simp add: buckets_ok_def p'_def insertElement_ht insertElement_fields pE)
    then show ?thesis
      using insertElement_push [OF d(1,2) l(2,3), of pE] None pE l(2) d(2)
      by (intro exI [of _ "x # xs"]) (auto simp: list_ok_def p'_def)
  next
    case (Some t)
    define h where "h = bucket_index p (pKey e)"
    have t: "length t = htsize p" "0 < htsize p" and ok: "\<And>h. h < htsize p \<Longrightarrow> bucket_ok p xs h (t ! h)"
      using d(3) Some by (auto simp: buckets_ok_def)
    have h: "h < htsize p" "pE = Some h" "\<And>h'. in_bucket p h' x \<longleftrightarrow> h' = h"
      using t Some pE l(3) by (auto simp: h_def bucket_index_def in_bucket_def)
    have ht': "ht p' = Some (t[h := \<lparr>bcount = bcount (t ! h) + 1, chain = Some x\<rparr>])" "htsize p' = htsize p"
      using Some h by (simp_all add: p'_def insertElement_ht insertElement_fields)
    have bo: "buckets_ok p' xs'"
      if xs': "set xs' = insert x (set xs)" and
        ok': "\<And>h'. h' < htsize p \<Longrightarrow> bucket_ok p xs' h' (if h' = h then \<lparr>bcount = bcount (t ! h') + 1, chain = Some x\<rparr> else t ! h')" for xs'
    proof -
      have "bucket_ok p' xs' h' (t[h := \<lparr>bcount = bcount (t ! h) + 1, chain = Some x\<rparr>] ! h')" if "h' < htsize p" for h'
        using ok' [OF that] bucket_ok_cong [of xs' p' h' p] ib xs' t h
        by (auto simp: nth_list_update split: if_splits)
      then show ?thesis using t by (simp add: buckets_ok_def ht')
    qed
    show ?thesis
    proof (cases "filter (in_bucket p h) xs = []")
      case True
      then have "bcount (t ! h) = 0" using ok [OF h(1)] by (simp add: bucket_ok_def)
      moreover have "buckets_ok p' (x # xs)"
        by (rule bo, simp, rule buckets_push [OF ok True]) (use h(3) \<open>bcount (t ! h) = 0\<close> in auto)
      ultimately show ?thesis
        using insertElement_push [OF d(1,2) l(2,3), of pE] Some h(2) l(2) d(2)
        by (intro exI [of _ "x # xs"]) (auto simp: list_ok_def p'_def)
    next
      case False
      define q where "q = hd (filter (in_bucket p h) xs)"
      have "q \<in> set xs" using False hd_in_set [OF False] by (auto simp: q_def)
      then obtain us ws where xs: "xs = us @ q # ws" "q \<notin> set us" by (meson split_list_first)
      have "bcount (t ! h) \<noteq> 0" "chain (t ! h) = Some q"
        using ok [OF h(1)] False by (auto simp: bucket_ok_def q_def)
      moreover have "buckets_ok p' (ins_before q x xs)"
        by (rule bo, simp, rule buckets_before [OF ok _ False]) (use h(3) in \<open>auto simp: q_def\<close>)
      ultimately show ?thesis
        using insertElement_before [of p us q ws x e t h] d xs Some h(2) l(2,3)
        by (intro exI [of _ "ins_before q x xs"]) (auto simp: list_ok_def p'_def ins_before_split)
    qed
  qed
qed

section \<open>Rehashing\<close>

lemma rehash_loop_ok:
  assumes "list_ok p ds" "dlseg (heap p) pv f rs None" "distinct rs" "set rs \<inter> set ds = {}" "ht p \<noteq> None"
  shows "\<exists>p' xs. rehash_loop p f = Some p' \<and> list_ok p' xs \<and> set xs = set ds \<union> set rs \<and> cell p' = cell p \<and>
    hcount p' = hcount p \<and> ht p' \<noteq> None \<and> (\<forall>a. a \<notin> set xs \<longrightarrow> heap p' a = heap p a)"
  using assms
proof (induction rs arbitrary: p ds pv f)
  case Nil
  then show ?case by (subst rehash_loop.simps) auto
next
  case (Cons x rs)
  then obtain e where e: "f = Some x" "heap p x = Some e" "dlseg (heap p) (Some x) (nxt e) rs None" by auto
  define p' where "p' = insertElement p (Some (bucket_index p (pKey e))) x"
  obtain ds' where ds': "list_ok p' ds'" "set ds' = insert x (set ds)" "\<And>a. a \<notin> set ds' \<Longrightarrow> heap p' a = heap p a"
    using insertElement_ok [OF Cons.prems(1) _ e(2), of "Some (bucket_index p (pKey e))"] Cons.prems
    by (auto simp: p'_def)
  have "set rs \<inter> set ds' = {}" using ds'(2) Cons.prems by auto
  then have "heap p a = heap p' a" if "a \<in> set rs" for a using that ds'(3) [of a] by (metis disjoint_iff)
  then have "dlseg (heap p') (Some x) (nxt e) rs None"
    using e(3) dlseg_cong [of rs "heap p" "heap p'"] by blast
  moreover have "ht p' \<noteq> None" using Cons.prems(5) by (auto simp: p'_def insertElement_ht)
  ultimately obtain q xs where q: "rehash_loop p' (nxt e) = Some q" "list_ok q xs" "set xs = set ds' \<union> set rs"
    "cell q = cell p'" "hcount q = hcount p'" "ht q \<noteq> None" "\<And>a. a \<notin> set xs \<Longrightarrow> heap q a = heap p' a"
    using Cons.IH [OF ds'(1), of "Some x" "nxt e"] ds'(2) Cons.prems by auto
  have "rehash_loop p f = rehash_loop p' (nxt e)"
    by (subst rehash_loop.simps) (simp add: e p'_def Let_def)
  then show ?case using q ds' by (intro exI [of _ q] exI [of _ xs]) (auto simp: p'_def insertElement_fields)
qed

lemma rehash_ok:
  assumes l: "list_ok p xs" and sz: "0 < sz" "sz \<le> MALLOC_SOFT_LIMIT" "0 < new_size"
    and m: "\<And>n u. mallocSize n = Some u \<Longrightarrow> n \<le> u"
  shows "\<exists>b p' xs'. rehash sz mallocSize p new_size = Some (b, p') \<and> list_ok p' xs' \<and> set xs' = set xs \<and>
    cell p' = cell p \<and> hcount p' = hcount p \<and> (\<not> b \<longrightarrow> p' = p) \<and> (\<forall>a. a \<notin> set xs \<longrightarrow> heap p' a = heap p a)"
proof -
  define n where "n = (if new_size * sz > MALLOC_SOFT_LIMIT then MALLOC_SOFT_LIMIT div sz else new_size)"
  have "0 < n" using sz by (auto simp: n_def div_greater_zero_iff)
  show ?thesis
  proof (cases "n = htsize p \<or> mallocSize (n * sz) = None")
    case True
    then have "rehash sz mallocSize p new_size = Some (False, p)"
      by (auto simp: rehash_def n_def [symmetric])
    then show ?thesis using l by (intro exI [of _ False] exI [of _ p] exI [of _ xs]) simp
  next
    case False
    then obtain u where u: "mallocSize (n * sz) = Some u" by auto
    define k where "k = u div sz"
    have "0 < k" using m [OF u] sz \<open>0 < n\<close> by (auto simp: k_def div_greater_zero_iff intro: order_trans [rotated])
    define p0 where "p0 = p\<lparr>ht := Some (replicate k \<lparr>bcount = 0, chain = None\<rparr>), htsize := k, first := None\<rparr>"
    have p0: "list_ok p0 []" "dlseg (heap p0) None (first p) xs None" "ht p0 \<noteq> None"
      using \<open>0 < k\<close> l by (auto simp: p0_def list_ok_def buckets_ok_def bucket_ok_def)
    have "distinct xs" using l by (simp add: list_ok_def)
    then obtain q xs' where "rehash_loop p0 (first p) = Some q" "list_ok q xs'" "set xs' = set xs" "cell q = cell p0"
      "hcount q = hcount p0" "\<And>a. a \<notin> set xs' \<Longrightarrow> heap q a = heap p0 a"
      using rehash_loop_ok [OF p0(1,2) _ _ p0(3)] by auto
    moreover have "rehash sz mallocSize p new_size = map_option (Pair True) (rehash_loop p0 (first p))"
      using False u by (simp add: rehash_def n_def [symmetric] Let_def p0_def k_def)
    ultimately show ?thesis by (intro exI [of _ True] exI [of _ q] exI [of _ xs']) (auto simp: p0_def)
  qed
qed

section \<open>Finding\<close>

definition ikey :: "'d Hash \<Rightarrow> addr \<Rightarrow> u8 list" where
  "ikey p a = fold_case (pKey (elem_at p a))"

definition hash_ok :: "'d Hash \<Rightarrow> addr list \<Rightarrow> bool" where
  "hash_ok p xs \<longleftrightarrow>
     list_ok p xs \<and> dom (heap p) = set xs \<and> hcount p = length xs \<and> (xs = [] \<longrightarrow> ht p = None) \<and>
     (\<forall>a \<in> set xs. cstring (pKey (elem_at p a))) \<and> inj_on (ikey p) (set xs)"

lemma strHash_loop_fold:
  "cstring a \<Longrightarrow> cstring b \<Longrightarrow> fold_case a = fold_case b \<Longrightarrow> strHash_loop h a = strHash_loop h b"
proof (induction h a arbitrary: b rule: strHash_loop.induct)
  case (2 h c z)
  then obtain d b' where b: "b = d # b'" by (cases b) auto
  have "sqlite3UpperToLower c = sqlite3UpperToLower d" "fold_case z = fold_case b'" "c \<noteq> 0" "d \<noteq> 0" "cstring z" "cstring b'"
    using 2(2-4) b by simp_all
  moreover from this have "strHash_loop x z = strHash_loop x b'"
    if "x = (h + ucast (sqlite3UpperToLower c)) * 0x9e3779b1" for x
    using 2(1) [of b'] that by simp
  ultimately show ?case by (simp add: b)
qed simp

lemma bucket_index_fold:
  "cstring a \<Longrightarrow> cstring b \<Longrightarrow> fold_case a = fold_case b \<Longrightarrow> bucket_index p a = bucket_index p b"
  using strHash_loop_fold [of a b 0] by (simp only: bucket_index_def strHash_def)

lemma find_loop_eq:
  "dlseg (heap p) pv f (vs @ ws) None \<Longrightarrow>
    find_loop p key (length vs) f = List.find (\<lambda>a. sqlite3StrICmp (pKey (elem_at p a)) key = 0) vs"
  by (induction vs arbitrary: pv f) auto

lemma find_Some_unique:
  "inj_on f (set xs) \<Longrightarrow> (\<And>a. a \<in> set xs \<Longrightarrow> P a \<longleftrightarrow> f a = k) \<Longrightarrow>
    List.find P xs = Some a \<longleftrightarrow> a \<in> set xs \<and> f a = k"
proof (induction xs)
  case (Cons x xs)
  have "List.find P xs = Some a \<longleftrightarrow> a \<in> set xs \<and> f a = k"
    using Cons by (auto simp: inj_on_def)
  moreover have "P x \<longleftrightarrow> f x = k" using Cons.prems by simp
  moreover have "x = a" if "f x = k" "f a = k" "a \<in> set (x # xs)"
    using that Cons.prems(1) by (auto simp: inj_on_def)
  ultimately show ?case by auto
qed simp

lemma findElement_ok:
  assumes ok: "hash_ok p xs" and key: "cstring key"
  shows "fst (findElementWithHash p key) = Some a \<longleftrightarrow> a \<in> set xs \<and> ikey p a = fold_case key"
    and "ht p \<noteq> None \<Longrightarrow> snd (findElementWithHash p key) = bucket_index p key"
proof -
  have d: "dlseg (heap p) None (first p) xs None" "buckets_ok p xs" and inj: "inj_on (ikey p) (set xs)"
    and k: "\<And>a. a \<in> set xs \<Longrightarrow> cstring (pKey (elem_at p a))" and c: "hcount p = length xs"
    using ok by (auto simp: hash_ok_def list_ok_def)
  have eq: "sqlite3StrICmp (pKey (elem_at p a)) key = 0 \<longleftrightarrow> ikey p a = fold_case key" if "a \<in> set xs" for a
    using sqlite3StrICmp_0 [OF k [OF that] key] by (simp add: ikey_def)
  show "ht p \<noteq> None \<Longrightarrow> snd (findElementWithHash p key) = bucket_index p key"
    by (auto simp: findElementWithHash_def Let_def)
  show "fst (findElementWithHash p key) = Some a \<longleftrightarrow> a \<in> set xs \<and> ikey p a = fold_case key"
  proof (cases "ht p")
    case None
    then show ?thesis
      using find_loop_eq [of p None "first p" xs "[]" key] d(1) find_Some_unique [OF inj eq]
      by (simp add: findElementWithHash_def c)
  next
    case (Some t)
    define h where "h = bucket_index p key"
    define vs where "vs = filter (in_bucket p h) xs"
    have h: "h < htsize p" "bucket_ok p xs h (t ! h)"
      using d(2) Some by (auto simp: buckets_ok_def h_def bucket_index_def)
    then have "contig (in_bucket p h) xs" by (simp add: bucket_ok_def)
    then obtain us ws where xs: "xs = us @ vs @ ws" unfolding vs_def using contig_split by blast
    have "find_loop p key (length vs) (chain (t ! h)) = List.find (\<lambda>a. sqlite3StrICmp (pKey (elem_at p a)) key = 0) vs"
    proof (cases vs)
      case (Cons v vs')
      then have "chain (t ! h) = Some v" using h(2) by (simp add: bucket_ok_def vs_def)
      moreover obtain m pv where "dlseg (heap p) pv m (vs @ ws) None" using d(1) xs dlseg_append by fast
      ultimately show ?thesis using Cons find_loop_eq by auto
    qed simp
    moreover have "List.find (\<lambda>a. sqlite3StrICmp (pKey (elem_at p a)) key = 0) vs = Some a \<longleftrightarrow> a \<in> set vs \<and> ikey p a = fold_case key"
      using inj xs by (intro find_Some_unique) (auto simp: eq inj_on_Un)
    moreover have "a \<in> set vs" if "a \<in> set xs" "ikey p a = fold_case key"
      using that bucket_index_fold [OF k [OF that(1)] key]
      by (auto simp: vs_def in_bucket_def h_def ikey_def)
    moreover have "nat (bcount (t ! h)) = length vs" using h(2) by (simp add: bucket_ok_def vs_def)
    then have "fst (findElementWithHash p key) = find_loop p key (length vs) (chain (t ! h))"
      using Some by (simp add: findElementWithHash_def Let_def h_def)
    moreover have "set vs \<subseteq> set xs" by (auto simp: vs_def)
    ultimately show ?thesis by auto
  qed
qed

lemma findElement_None:
  "hash_ok p xs \<Longrightarrow> cstring key \<Longrightarrow>
    fst (findElementWithHash p key) = None \<longleftrightarrow> (\<forall>a \<in> set xs. ikey p a \<noteq> fold_case key)"
  using findElement_ok(1) [of p xs key] by (metis option.exhaust option.distinct(1))

section \<open>Removing\<close>

lemma clear_loop_ok:
  "dlseg H pv f xs None \<Longrightarrow> distinct xs \<Longrightarrow> clear_loop H f = Some (\<lambda>a. if a \<in> set xs then None else H a)"
proof (induction xs arbitrary: H pv f)
  case Nil
  then show ?case by (subst clear_loop.simps) simp
next
  case (Cons x xs)
  then obtain e where e: "f = Some x" "H x = Some e" "dlseg H (Some x) (nxt e) xs None" by auto
  have "dlseg (H(x := None)) (Some x) (nxt e) xs None"
    using e(3) by (rule dlseg_cong [THEN iffD1, rotated]) (use Cons.prems in auto)
  then have "clear_loop (H(x := None)) (nxt e) = Some (\<lambda>a. if a \<in> set xs then None else (H(x := None)) a)"
    using Cons by auto
  then show ?case using e by (subst clear_loop.simps) (auto simp: fun_eq_iff)
qed

lemma HashClear_ok:
  assumes "dlseg (heap p) None (first p) xs None" "distinct xs" "dom (heap p) = set xs"
  shows "sqlite3HashClear (p :: 'd Hash) = Some sqlite3HashInit"
proof -
  have "(\<lambda>a. if a \<in> set xs then None else heap p a) = (\<lambda>_. None)"
    using assms(3) by (auto simp: fun_eq_iff dom_def)
  then show ?thesis using clear_loop_ok [OF assms(1,2)]
    by (cases p) (simp add: sqlite3HashClear_def sqlite3HashInit_def)
qed

lemma HashInit_ok [simp]: "hash_ok sqlite3HashInit []"
  by (simp add: hash_ok_def list_ok_def buckets_ok_def sqlite3HashInit_def)

text \<open>The element leaves the list: what remains of \<open>removeElementGivenHash\<close> once it is freed.\<close>

definition unlink :: "'d Hash \<Rightarrow> addr \<Rightarrow> nat \<Rightarrow> 'd Hash" where
  "unlink pH elem h =
     (let e = elem_at pH elem;
          pH = (case prv e of
                  Some b \<Rightarrow> upd_elem pH b (\<lambda>b. b\<lparr>nxt := nxt e\<rparr>)
                | None \<Rightarrow> pH\<lparr>first := nxt e\<rparr>);
          pH = (case nxt e of
                  Some c \<Rightarrow> upd_elem pH c (\<lambda>c. c\<lparr>prv := prv e\<rparr>)
                | None \<Rightarrow> pH);
          pH = pH\<lparr>ht := map_option
                  (\<lambda>t. t[h := \<lparr>bcount = bcount (t ! h) - 1,
                               chain = (if chain (t ! h) = Some elem then nxt e else chain (t ! h))\<rparr>])
                  (ht pH)\<rparr>
      in pH\<lparr>heap := (heap pH)(elem := None), hcount := hcount pH - 1\<rparr>)"

lemma removeElement_unlink:
  "removeElementGivenHash p a h =
     (if hcount (unlink p a h) = 0 then sqlite3HashClear (unlink p a h) else Some (unlink p a h))"
  by (simp add: removeElementGivenHash_def unlink_def Let_def)

lemma unlink_fields:
  "b \<noteq> a \<Longrightarrow> cell (unlink p a h) b = cell p b" "heap (unlink p a h) a = None" "htsize (unlink p a h) = htsize p"
  "hcount (unlink p a h) = hcount p - 1"
  by (auto simp: unlink_def Let_def cell_def option.map_comp o_def split: option.split)

lemma unlink_ht:
  "ht (unlink p a h) = map_option
     (\<lambda>t. t[h := \<lparr>bcount = bcount (t ! h) - 1,
                  chain = (if chain (t ! h) = Some a then nxt (elem_at p a) else chain (t ! h))\<rparr>]) (ht p)"
  by (simp add: unlink_def Let_def split: option.split)

lemma dlseg_unlink:
  assumes l: "dlseg (heap p) None (first p) (us @ a # ws) None" "distinct (us @ a # ws)"
  shows "dlseg (heap (unlink p a h)) None (first (unlink p a h)) (us @ ws) None"
proof -
  define p' where "p' = unlink p a h"
  obtain ea where a: "heap p a = Some ea" "prv ea = (if us = [] then None else Some (last us))"
    "dlseg (heap p) (Some a) (nxt ea) ws None" "dlseg (heap p) None (first p) us (Some a)"
    using l(1) by (auto simp: dlseg_append)
  have H: "heap p' b = (if b = a then None
      else map_option (\<lambda>e. e\<lparr>nxt := (if prv ea = Some b then nxt ea else nxt e),
                             prv := (if nxt ea = Some b then prv ea else prv e)\<rparr>) (heap p b))" for b
    by (auto simp: p'_def unlink_def Let_def a(1) option.map_comp o_def option.map_ident split: option.split)
  have H_other: "heap p' b = heap p b" if "b \<noteq> a" "prv ea \<noteq> Some b" "nxt ea \<noteq> Some b" for b
    using that by (simp add: H option.map_ident)
  have first: "first p' = (if us = [] then nxt ea else first p)"
    using a(2) by (auto simp: p'_def unlink_def Let_def a(1) split: option.split)
  have w: "nxt ea = (case ws of [] \<Rightarrow> None | c # _ \<Rightarrow> Some c)"
    using a(3) by (cases ws) auto
  have lw: "last us \<notin> set ws" if "us \<noteq> []"
    using l(2) last_in_set [OF that] by (auto simp: disjoint_iff)
  have ws: "dlseg (heap p') (prv ea) (nxt ea) ws None"
  proof (cases ws)
    case (Cons c ws')
    obtain ec where c: "heap p c = Some ec" "dlseg (heap p) (Some c) (nxt ec) ws' None"
      using a(3) Cons by auto
    have "dlseg (heap p') (Some c) (nxt ec) ws' None"
      using c(2) by (rule dlseg_cong [THEN iffD1, rotated], intro H_other [symmetric])
        (use l(2) Cons a(2) w lw in \<open>auto split: if_splits\<close>)
    moreover have "heap p' c = Some (ec\<lparr>prv := prv ea\<rparr>)"
      using l(2) Cons a(2) w c(1) by (auto simp: H)
    ultimately show ?thesis using w Cons by simp
  qed (use w in simp)
  have us: "dlseg (heap p') None (first p') us (nxt ea)"
  proof (cases us rule: rev_cases)
    case (snoc us' b)
    obtain eb where b: "heap p b = Some eb" "prv eb = (if us' = [] then None else Some (last us'))"
      "dlseg (heap p) None (first p) us' (Some b)"
      using a(4) snoc by (auto simp: dlseg_append)
    have "dlseg (heap p') None (first p) us' (Some b)"
      using b(3) by (rule dlseg_cong [THEN iffD1, rotated], intro H_other [symmetric])
        (use l(2) snoc a(2) w in \<open>auto split: list.splits\<close>)
    moreover have "heap p' b = Some (eb\<lparr>nxt := nxt ea\<rparr>)"
      using l(2) snoc a(2) w b(1) by (auto simp: H split: list.splits)
    ultimately show ?thesis using first snoc b(2) by (auto simp: dlseg_append)
  qed (use first in simp)
  show ?thesis unfolding p'_def [symmetric] using us ws a(2) by (auto simp: dlseg_append)
qed

lemma remove1_split: "distinct (us @ a # ws) \<Longrightarrow> remove1 a (us @ a # ws) = us @ ws"
  by (induction us) auto

lemma bucket_unlink:
  assumes d: "dlseg (heap p) None (first p) xs None" "distinct xs" "a \<in> set xs"
    and b: "bucket_ok p xs h' b" "in_bucket p h' a \<longleftrightarrow> h' = h"
  shows "bucket_ok p (remove1 a xs) h'
     (if h' = h then \<lparr>bcount = bcount b - 1, chain = (if chain b = Some a then nxt (elem_at p a) else chain b)\<rparr> else b)"
proof (cases "h' = h")
  case False
  then have "a \<notin> set (filter (in_bucket p h') xs)" using b(2) by simp
  then have "filter (in_bucket p h') (remove1 a xs) = filter (in_bucket p h') xs"
    by (simp add: filter_remove1 remove1_idem)
  then show ?thesis using b(1) False by (simp add: bucket_ok_def contig_remove1)
next
  case True
  define P where "P = in_bucket p h"
  have P: "P a" "contig P xs" "bcount b = int (length (filter P xs))" "chain b = Some (hd (filter P xs))"
    using b d(3) True by (auto simp: bucket_ok_def P_def filter_empty_conv)
  have mem: "a \<in> set (filter P xs)" using P(1) d(3) by simp
  then have len: "bcount b - 1 = int (length (filter P (remove1 a xs)))"
    using P(3) mem by (cases "filter P xs")
      (auto simp: filter_remove1 length_remove1 simp del: filter_eq_Cons_iff dest: length_pos_if_in_set)
  have "(if chain b = Some a then nxt (elem_at p a) else chain b) = Some (hd (filter P (remove1 a xs)))"
    if ne: "filter P (remove1 a xs) \<noteq> []"
  proof (cases "filter P xs")
    case (Cons f fs)
    show ?thesis
    proof (cases "f = a")
      case False
      then show ?thesis using P(4) Cons by (simp add: filter_remove1)
    next
      case True
      obtain us ws where xs: "xs = us @ filter P xs @ ws" using contig_split [OF P(2)] by blast
      have fs: "fs \<noteq> []" "filter P (remove1 a xs) = fs" using ne Cons True by (auto simp: filter_remove1)
      have "dlseg (heap p) None (first p) (us @ a # (fs @ ws)) None" using d(1) xs Cons True by simp
      then have "nxt (elem_at p a) = Some (hd fs)" using fs by (cases fs) (auto simp: dlseg_append)
      then show ?thesis using P(4) Cons True fs by simp
    qed
  qed (use mem in simp)
  then show ?thesis using True P len contig_remove1 [OF P(2)]
    by (simp add: bucket_ok_def P_def [symmetric])
qed

lemma unlink_ok:
  assumes ok: "hash_ok p xs" and a: "a \<in> set xs" and h: "ht p \<noteq> None \<Longrightarrow> h = bucket_index p (pKey (elem_at p a))"
  shows "list_ok (unlink p a h) (remove1 a xs)"
proof -
  define p' where "p' = unlink p a h"
  have d: "dlseg (heap p) None (first p) xs None" "distinct xs" "buckets_ok p xs"
    using ok by (auto simp: hash_ok_def list_ok_def)
  obtain us ws where xs: "xs = us @ a # ws" by (meson a split_list)
  have "dlseg (heap p') None (first p') (remove1 a xs) None"
    using dlseg_unlink [of p us a ws h] d remove1_split [of us a ws] by (simp add: xs p'_def)
  moreover have ib: "in_bucket p' h' b = in_bucket p h' b" if "b \<in> set (remove1 a xs)" for b h'
    using that d(1,2) dlseg_dom [of "heap p"] unfolding p'_def
    by (intro in_bucket_cong [symmetric]) (auto simp: unlink_fields)
  have "buckets_ok p' (remove1 a xs)"
  proof (cases "ht p")
    case None
    then show ?thesis using d(3) by (simp add: buckets_ok_def p'_def unlink_ht unlink_fields)
  next
    case (Some t)
    define b where "b = (\<lambda>h'. if h' = h then \<lparr>bcount = bcount (t ! h') - 1,
        chain = (if chain (t ! h') = Some a then nxt (elem_at p a) else chain (t ! h'))\<rparr> else t ! h')"
    have t: "length t = htsize p" "0 < htsize p" and ok: "\<And>h. h < htsize p \<Longrightarrow> bucket_ok p xs h (t ! h)"
      using d(3) Some by (auto simp: buckets_ok_def)
    have "in_bucket p h' a \<longleftrightarrow> h' = h" for h' using h Some by (auto simp: in_bucket_def)
    then have "bucket_ok p' (remove1 a xs) h' (b h')" if "h' < htsize p" for h'
      using bucket_unlink [OF d(1,2) a ok [OF that]] bucket_ok_cong [of "remove1 a xs" p' h' p] ib by (simp add: b_def)
    moreover have "h < htsize p" using h Some t(2) by (simp add: bucket_index_def)
    then have "t[h := \<lparr>bcount = bcount (t ! h) - 1,
        chain = (if chain (t ! h) = Some a then nxt (elem_at p a) else chain (t ! h))\<rparr>] ! h' = b h'" if "h' < htsize p" for h'
      using that t(1) by (simp add: b_def nth_list_update)
    ultimately show ?thesis using t by (simp add: buckets_ok_def p'_def unlink_ht unlink_fields Some)
  qed
  ultimately show ?thesis using d(2) by (simp add: list_ok_def p'_def)
qed

lemma ikey_cell: "cell p a = cell q a \<Longrightarrow> heap p a \<noteq> None \<Longrightarrow> ikey p a = ikey q a \<and> pKey (elem_at p a) = pKey (elem_at q a) \<and> data (elem_at p a) = data (elem_at q a)"
  by (cases "heap q a") (auto simp: ikey_def cell_def)

lemma cell_None: "cell p a = None \<longleftrightarrow> heap p a = None"
  by (simp add: cell_def)

lemma remove_ok:
  assumes ok: "hash_ok p xs" and a: "a \<in> set xs" and h: "ht p \<noteq> None \<Longrightarrow> h = bucket_index p (pKey (elem_at p a))"
  shows "\<exists>p'. removeElementGivenHash p a h = Some p' \<and> hash_ok p' (remove1 a xs) \<and>
    (\<forall>b \<in> set xs - {a}. cell p' b = cell p b)"
proof -
  define p' where "p' = unlink p a h"
  have dist: "distinct xs" and dom: "dom (heap p) = set xs" using ok by (auto simp: hash_ok_def list_ok_def)
  have c: "cell p' b = cell p b" if "b \<noteq> a" for b using that by (simp add: p'_def unlink_fields)
  have l: "list_ok p' (remove1 a xs)" unfolding p'_def by (rule unlink_ok [OF ok a h])
  have "b \<in> dom (heap p') \<longleftrightarrow> b \<in> set (remove1 a xs)" for b
  proof (cases "b = a")
    case False
    then have "b \<in> dom (heap p') \<longleftrightarrow> b \<in> dom (heap p)" using c [of b] cell_None by (metis domIff)
    then show ?thesis using False dist dom by auto
  qed (use dist in \<open>auto simp: p'_def unlink_fields\<close>)
  then have dom': "dom (heap p') = set (remove1 a xs)" by blast
  have hc: "hcount p' = length (remove1 a xs)"
    using ok a by (simp add: p'_def unlink_fields hash_ok_def length_remove1)
  show ?thesis
  proof (cases "remove1 a xs = []")
    case True
    then have "removeElementGivenHash p a h = Some sqlite3HashInit"
      using HashClear_ok [of p' "[]"] l dom' hc by (simp add: removeElement_unlink list_ok_def p'_def)
    moreover have "set xs - {a} = {}" using True dist by (metis set_remove1_eq set_empty2 empty_set)
    ultimately show ?thesis using True by (intro exI [of _ sqlite3HashInit]) auto
  next
    case False
    have keys: "ikey p' b = ikey p b \<and> pKey (elem_at p' b) = pKey (elem_at p b)" if "b \<in> set xs" "b \<noteq> a" for b
      using that c [of b] ikey_cell [of p b p'] dom by (metis domIff)
    have "inj_on (ikey p') (set (remove1 a xs))"
      using ok keys dist by (auto simp: hash_ok_def inj_on_def)
    then have "hash_ok p' (remove1 a xs)"
      using l dom' hc False keys ok dist by (simp add: hash_ok_def)
    then show ?thesis using False hc c by (intro exI [of _ p']) (auto simp: removeElement_unlink p'_def)
  qed
qed

section \<open>Inserting\<close>

lemma option_eq_Some: "(\<And>d. x = Some d \<longleftrightarrow> y = Some d) \<Longrightarrow> x = y"
  by (cases x; cases y) auto

lemma HashFind_iff:
  assumes "hash_ok p xs" "cstring k"
  shows "sqlite3HashFind p k = Some d \<longleftrightarrow> (\<exists>a \<in> set xs. ikey p a = fold_case k \<and> data (elem_at p a) = d)"
  using findElement_ok(1) [OF assms] by (auto simp: sqlite3HashFind_def)

text \<open>The bindings of a table that differs from another one by the binding of one key.\<close>

lemma HashFind_update:
  assumes "hash_ok p xs" "hash_ok p' xs'" "cstring k" "cstring key"
    and "\<And>a. a \<in> set xs' \<Longrightarrow> ikey p' a = fold_case key \<Longrightarrow> dat = Some (data (elem_at p' a))"
    and "\<And>d. dat = Some d \<Longrightarrow> \<exists>a \<in> set xs'. ikey p' a = fold_case key"
    and "\<And>a. ikey p' a \<noteq> fold_case key \<Longrightarrow> a \<in> set xs' \<Longrightarrow> a \<in> set xs \<and> cell p' a = cell p a"
    and "\<And>a. ikey p a \<noteq> fold_case key \<Longrightarrow> a \<in> set xs \<Longrightarrow> a \<in> set xs' \<and> cell p' a = cell p a"
  shows "sqlite3HashFind p' k = (if fold_case k = fold_case key then dat else sqlite3HashFind p k)"
proof (cases "fold_case k = fold_case key")
  case True
  show ?thesis
    using True HashFind_iff [OF assms(2,3)] assms(5,6) by (intro option_eq_Some) (metis option.inject)
next
  case False
  have same: "ikey p a = ikey p' a \<and> data (elem_at p a) = data (elem_at p' a)"
    if "cell p' a = cell p a" "a \<in> set xs \<or> a \<in> set xs'" for a
  proof -
    have "heap p a \<noteq> None \<or> heap p' a \<noteq> None" using that(2) assms(1,2) by (auto simp: hash_ok_def dom_def)
    then show ?thesis using ikey_cell [of p a p'] ikey_cell [of p' a p] that(1) by auto
  qed
  have "(\<exists>a \<in> set xs'. ikey p' a = fold_case k \<and> data (elem_at p' a) = d) \<longleftrightarrow>
      (\<exists>a \<in> set xs. ikey p a = fold_case k \<and> data (elem_at p a) = d)" for d
    using same assms(7,8) False by (metis (no_types, lifting))
  then show ?thesis
    using False HashFind_iff [OF assms(1,3)] HashFind_iff [OF assms(2,3)]
    by (simp del: not_None_eq) (intro option_eq_Some, simp)
qed

lemma cell_key: "cell r a = Some (key, d) \<Longrightarrow> ikey r a = fold_case key \<and> data (elem_at r a) = d \<and> pKey (elem_at r a) = key"
  by (auto simp: ikey_def cell_def)

lemma link_new_ok:
  assumes ok: "hash_ok p xs" and a: "a \<notin> set xs" "cstring key" "\<forall>b \<in> set xs. ikey p b \<noteq> fold_case key"
    and q: "list_ok q ys" "set ys = set xs" "cell q = (cell p)(a \<mapsto> (key, d))" "hcount q = hcount p + 1"
      "\<And>b. b \<notin> set xs \<Longrightarrow> b \<noteq> a \<Longrightarrow> heap q b = None"
    and r: "r = insertElement q (if ht q = None then None else Some (bucket_index q key)) a"
  shows "\<exists>zs. hash_ok r zs \<and> set zs = insert a (set xs) \<and> cell r = (cell p)(a \<mapsto> (key, d))"
proof -
  have "cell q a = Some (key, d)" using q(3) by simp
  then obtain e where e: "heap q a = Some e" "pKey e = key" "data e = d" by (auto simp: cell_def)
  obtain zs where zs: "list_ok r zs" "set zs = insert a (set xs)" "\<And>b. b \<notin> set zs \<Longrightarrow> heap r b = heap q b"
    using insertElement_ok [OF q(1) _ e(1)] a(1) q(2) e(2) r by auto
  have cell: "cell r = (cell p)(a \<mapsto> (key, d))" by (simp add: r insertElement_fields q(3))
  have len: "length zs = Suc (length xs)"
    using zs ok a(1) distinct_card [of zs] distinct_card [of xs] by (simp add: hash_ok_def list_ok_def)
  have dom: "dom (heap p) = set xs" using ok by (simp add: hash_ok_def)
  have "b \<in> dom (heap r) \<longleftrightarrow> b \<in> set zs" for b
  proof (cases "b \<in> insert a (set xs)")
    case True
    have "heap p b \<noteq> None" if "b \<in> set xs" using dom that by (metis domIff)
    then have "cell r b \<noteq> None" using True cell cell_None [of p b] by auto
    then show ?thesis using True zs(2) cell_None [of r b] by (simp add: domIff)
  next
    case False
    then show ?thesis using zs(2,3) q(5) by auto
  qed
  then have dom': "dom (heap r) = set zs" by blast
  have old: "ikey r b = ikey p b \<and> pKey (elem_at r b) = pKey (elem_at p b)" if "b \<in> set xs" for b
    using that a(1) cell ikey_cell [of p b r] dom by (metis domIff fun_upd_other)
  have new: "ikey r a = fold_case key" "pKey (elem_at r a) = key"
    using cell_key [of r a key d] by (simp_all add: cell)
  have "inj_on (ikey r) (set xs)" using ok old by (auto simp: hash_ok_def inj_on_def)
  then have "inj_on (ikey r) (set zs)" using zs(2) a old new by auto
  then have "hash_ok r zs"
    using zs dom' len ok old new a(2) by (auto simp: hash_ok_def r insertElement_fields q(4))
  then show ?thesis using zs(2) cell by blast
qed

definition platform_ok :: "nat \<Rightarrow> (nat \<Rightarrow> nat option) \<Rightarrow> bool" where
  "platform_ok sz mallocSize \<longleftrightarrow>
     0 < sz \<and> sz \<le> MALLOC_SOFT_LIMIT \<and> (\<forall>n u. mallocSize n = Some u \<longrightarrow> n \<le> u)"

lemma insert_new_ok:
  assumes ok: "hash_ok p xs" and key: "cstring key" "\<forall>b \<in> set xs. ikey p b \<noteq> fold_case key"
    and a: "heap p a = None" and pf: "platform_ok sz mallocSize"
  shows "\<exists>r zs. sqlite3HashInsert sz mallocSize (Some a) p key (Some d) = Some (None, r) \<and>
    hash_ok r zs \<and> set zs = insert a (set xs) \<and> cell r = (cell p)(a \<mapsto> (key, d))"
proof -
  have a': "a \<notin> set xs" using ok a by (auto simp: hash_ok_def)
  have f: "fst (findElementWithHash p key) = None" using findElement_None [OF ok key(1)] key(2) by simp
  define h where "h = snd (findElementWithHash p key)"
  have h: "ht p \<noteq> None \<Longrightarrow> h = bucket_index p key" using findElement_ok(2) [OF ok key(1)] by (simp add: h_def)
  define q where "q = p\<lparr>heap := (heap p)(a \<mapsto> \<lparr>nxt = None, prv = None, data = d, pKey = key\<rparr>), hcount := hcount p + 1\<rparr>"
  have qb: "bucket_index q = bucket_index p" by (simp add: q_def bucket_index_def fun_eq_iff)
  have q: "list_ok q xs" "cell q = (cell p)(a \<mapsto> (key, d))" "hcount q = hcount p + 1" "ht q = ht p"
    "\<And>b. b \<notin> set xs \<Longrightarrow> b \<noteq> a \<Longrightarrow> heap q b = None"
  proof -
    have l: "dlseg (heap p) None (first p) xs None" "distinct xs" "buckets_ok p xs"
      using ok by (auto simp: hash_ok_def list_ok_def)
    have "heap p b = heap q b" if "b \<in> set xs" for b using that a' by (auto simp: q_def)
    then have "dlseg (heap q) None (first q) xs None"
      using l(1) dlseg_cong [of xs "heap p" "heap q"] by (simp add: q_def)
    moreover have "in_bucket q k b = in_bucket p k b" if "b \<in> set xs" for k b
      using that a' by (auto simp: in_bucket_def qb) (auto simp: q_def)
    then have "bucket_ok q xs k b = bucket_ok p xs k b" for k b by (rule bucket_ok_cong)
    then have "buckets_ok q xs" using l(3) by (auto simp: buckets_ok_def q_def split: option.splits)
    ultimately show "list_ok q xs" using l(2) by (simp add: list_ok_def)
    show "b \<notin> set xs \<Longrightarrow> b \<noteq> a \<Longrightarrow> heap q b = None" for b
      using ok by (auto simp: q_def hash_ok_def)
  qed (auto simp: q_def cell_def fun_eq_iff)
  have ins: "sqlite3HashInsert sz mallocSize (Some a) p key (Some d) =
      map_option (Pair None)
        (if hcount q \<ge> 10 \<and> hcount q > 2 * htsize q then
           map_option (\<lambda>(done, r). insertElement r
               (if ht r = None then None else Some (if done then bucket_index r key else h)) a)
             (rehash sz mallocSize q (hcount q * 2))
         else Some (insertElement q (if ht q = None then None else Some h) a))"
  proof -
    have "findElementWithHash p key = (None, h)" using f by (simp add: h_def prod_eq_iff)
    then show ?thesis
      unfolding q_def by (simp add: sqlite3HashInsert_def Let_def option.map_comp o_def case_prod_beta)
  qed
  show ?thesis
  proof (cases "hcount q \<ge> 10 \<and> hcount q > 2 * htsize q")
    case True
    then obtain b r ys where r: "rehash sz mallocSize q (hcount q * 2) = Some (b, r)" "list_ok r ys" "set ys = set xs"
      "cell r = cell q" "hcount r = hcount q" "\<not> b \<longrightarrow> r = q" "\<And>x. x \<notin> set xs \<Longrightarrow> heap r x = heap q x"
      using rehash_ok [OF q(1), of sz "hcount q * 2" mallocSize] pf by (auto simp: platform_ok_def)
    have ix: "(if ht r = None then None else Some (if b then bucket_index r key else h)) =
        (if ht r = None then None else Some (bucket_index r key))"
      using r(6) h q(4) qb by auto
    have "\<exists>zs. hash_ok s zs \<and> set zs = insert a (set xs) \<and> cell s = (cell p)(a \<mapsto> (key, d))"
      if "s = insertElement r (if ht r = None then None else Some (bucket_index r key)) a" for s
      by (rule link_new_ok [OF ok a' key r(2,3) _ _ _ that]) (use r q in auto)
    then show ?thesis using True r(1) ix by (auto simp: ins)
  next
    case False
    have ix: "(if ht q = None then None else Some h) = (if ht q = None then None else Some (bucket_index q key))"
      using h q(4) qb by auto
    have "\<exists>zs. hash_ok s zs \<and> set zs = insert a (set xs) \<and> cell s = (cell p)(a \<mapsto> (key, d))"
      if "s = insertElement q (if ht q = None then None else Some (bucket_index q key)) a" for s
      by (rule link_new_ok [OF ok a' key q(1) refl _ _ _ that]) (use q in auto)
    then show ?thesis using False ix by (auto simp: ins)
  qed
qed

lemma insert_replace_ok:
  assumes ok: "hash_ok p xs" and key: "cstring key" and a: "a \<in> set xs" "ikey p a = fold_case key"
  shows "\<exists>r. sqlite3HashInsert sz mallocSize fresh p key (Some d) = Some (Some (data (elem_at p a)), r) \<and>
    hash_ok r xs \<and> cell r = (cell p)(a \<mapsto> (key, d))"
proof -
  define r where "r = upd_elem p a (\<lambda>e. e\<lparr>data := d, pKey := key\<rparr>)"
  have f: "fst (findElementWithHash p key) = Some a" using findElement_ok(1) [OF ok key] a by blast
  have l: "dlseg (heap p) None (first p) xs None" "distinct xs" "buckets_ok p xs" and dom: "dom (heap p) = set xs"
    and cs: "\<forall>a \<in> set xs. cstring (pKey (elem_at p a))"
    using ok by (auto simp: hash_ok_def list_ok_def)
  obtain e where e: "heap p a = Some e" using dom a(1) by blast
  have cell: "cell r = (cell p)(a \<mapsto> (key, d))" by (auto simp: r_def cell_def fun_eq_iff e)
  have ik: "ikey r b = ikey p b" for b
    using a(2) by (auto simp: ikey_def r_def e)
  have "dlseg (heap r) pv g ys None = dlseg (heap p) pv g ys None" for pv g ys
    by (induction ys arbitrary: pv g) (auto simp: r_def e)
  then have "dlseg (heap r) None (first r) xs None" using l(1) by (simp add: r_def)
  moreover have "in_bucket r k b = in_bucket p k b" if "b \<in> set xs" for k b
    using that bucket_index_fold [of "pKey e" key p] a(2) key cs e
    by (auto simp: in_bucket_def r_def bucket_index_def ikey_def)
  then have "bucket_ok r xs k b = bucket_ok p xs k b" for k b by (rule bucket_ok_cong)
  then have "buckets_ok r xs" using l(3) by (auto simp: buckets_ok_def r_def split: option.splits)
  moreover have "inj_on (ikey r) (set xs)" using ok ik by (simp add: hash_ok_def inj_on_def)
  ultimately have "hash_ok r xs"
    using ok l(2) key e by (auto simp: hash_ok_def list_ok_def r_def)
  moreover have "sqlite3HashInsert sz mallocSize fresh p key (Some d) = Some (Some (data (elem_at p a)), r)"
    using f by (cases "findElementWithHash p key") (simp add: sqlite3HashInsert_def r_def)
  ultimately show ?thesis using cell by blast
qed

definition hash_wf :: "'d Hash \<Rightarrow> bool" where
  "hash_wf p \<longleftrightarrow> (\<exists>xs. hash_ok p xs)"

definition updated :: "'d Hash \<Rightarrow> u8 list \<Rightarrow> 'd option \<Rightarrow> 'd Hash \<Rightarrow> bool" where
  "updated p key dat p' \<longleftrightarrow>
     (\<forall>k. cstring k \<longrightarrow> sqlite3HashFind p' k = (if fold_case k = fold_case key then dat else sqlite3HashFind p k))"

lemma ok_dom: "hash_ok p xs \<Longrightarrow> b \<in> set xs \<Longrightarrow> heap p b \<noteq> None"
  unfolding hash_ok_def by (metis domIff)

lemma ikey_same: "hash_ok p xs \<Longrightarrow> b \<in> set xs \<Longrightarrow> cell r b = cell p b \<Longrightarrow> ikey r b = ikey p b"
  using ikey_cell [of p b r] ok_dom by metis

lemma HashInsert_delete:
  assumes ok: "hash_ok p xs" and key: "cstring key" and a: "a \<in> set xs" "ikey p a = fold_case key"
  shows "\<exists>p'. sqlite3HashInsert sz mallocSize fresh p key None = Some (Some (data (elem_at p a)), p') \<and>
    hash_wf p' \<and> updated p key None p'"
proof -
  have uniq: "b = a" if "b \<in> set xs" "ikey p b = fold_case key" for b
    using ok a that by (auto simp: hash_ok_def inj_on_def)
  have f: "fst (findElementWithHash p key) = Some a" using findElement_ok(1) [OF ok key] a by blast
  have "cstring (pKey (elem_at p a))" using ok a(1) by (simp add: hash_ok_def)
  then have "snd (findElementWithHash p key) = bucket_index p (pKey (elem_at p a))" if "ht p \<noteq> None"
    using findElement_ok(2) [OF ok key that] bucket_index_fold [of "pKey (elem_at p a)" key p] a(2) key
    by (simp add: ikey_def)
  then obtain p' where p': "removeElementGivenHash p a (snd (findElementWithHash p key)) = Some p'"
    "hash_ok p' (remove1 a xs)" "\<forall>b \<in> set xs - {a}. cell p' b = cell p b"
    using remove_ok [OF ok a(1)] by blast
  have xs': "set (remove1 a xs) = set xs - {a}" using ok by (simp add: hash_ok_def list_ok_def)
  have ik: "ikey p' b = ikey p b" if "b \<in> set xs - {a}" for b
    using p'(3) that ikey_same [OF ok] by blast
  have "updated p key None p'" unfolding updated_def
  proof (intro allI impI HashFind_update [OF ok p'(2) _ key])
    show "None = Some (data (elem_at p' b))" if "b \<in> set (remove1 a xs)" "ikey p' b = fold_case key" for b
      using that ik uniq xs' by auto
    show "b \<in> set xs \<and> cell p' b = cell p b" if "b \<in> set (remove1 a xs)" for b
      using that p'(3) xs' by auto
    show "b \<in> set (remove1 a xs) \<and> cell p' b = cell p b" if "ikey p b \<noteq> fold_case key" "b \<in> set xs" for b
      using that p'(3) xs' a(2) by auto
  qed auto
  moreover have "sqlite3HashInsert sz mallocSize fresh p key None = Some (Some (data (elem_at p a)), p')"
    using f p'(1) by (cases "findElementWithHash p key") (simp add: sqlite3HashInsert_def)
  ultimately show ?thesis using p'(2) by (auto simp: hash_wf_def)
qed

lemma updated_cell:
  assumes ok: "hash_ok p xs" "hash_ok r zs" and key: "cstring key"
    and zs: "set zs = insert a (set xs)" "cell r = (cell p)(a \<mapsto> (key, d))"
    and a: "\<And>b. b \<in> set xs \<Longrightarrow> ikey p b = fold_case key \<longleftrightarrow> b = a"
  shows "updated p key (Some d) r"
  unfolding updated_def
proof (intro allI impI HashFind_update [OF ok _ key])
  have ra: "ikey r a = fold_case key" "data (elem_at r a) = d" using cell_key [of r a key d] zs(2) by simp_all
  have cr: "cell r b = cell p b" if "b \<noteq> a" for b using that zs(2) by simp
  have ik: "ikey r b = ikey p b" if "b \<in> set xs" "b \<noteq> a" for b
    using that cr ikey_same [OF ok(1)] by blast
  show "Some d = Some (data (elem_at r b))" if "b \<in> set zs" "ikey r b = fold_case key" for b
  proof (cases "b = a")
    case False
    then have "b \<in> set xs" using that(1) zs(1) by simp
    moreover from this have "ikey p b = fold_case key" using ik [OF _ False] that(2) by simp
    ultimately show ?thesis using a False by blast
  qed (use ra in simp)
  show "\<exists>b \<in> set zs. ikey r b = fold_case key" if "Some d = Some d'" for d' using ra zs(1) by blast
  show "b \<in> set xs \<and> cell r b = cell p b" if "ikey r b \<noteq> fold_case key" "b \<in> set zs" for b
  proof -
    have "b \<noteq> a" using that(1) ra(1) by blast
    then show ?thesis using that(2) cr zs(1) by simp
  qed
  show "b \<in> set zs \<and> cell r b = cell p b" if "ikey p b \<noteq> fold_case key" "b \<in> set xs" for b
  proof -
    have "b \<noteq> a" using that a by blast
    then show ?thesis using that(2) cr zs(1) by simp
  qed
qed

lemma HashInsert_ok:
  assumes wf: "hash_wf p" and key: "cstring key" and pf: "platform_ok sz mallocSize"
    and fresh: "\<And>a. fresh = Some a \<Longrightarrow> heap p a = None"
  shows "\<exists>r p'. sqlite3HashInsert sz mallocSize fresh p key dat = Some (r, p') \<and> hash_wf p' \<and>
     (if fresh = None \<and> dat \<noteq> None \<and> sqlite3HashFind p key = None then r = dat \<and> p' = p
      else r = sqlite3HashFind p key \<and> updated p key dat p')"
proof -
  obtain xs where ok: "hash_ok p xs" using wf by (auto simp: hash_wf_def)
  note find = HashFind_iff [OF ok key]
  show ?thesis
  proof (cases "\<exists>a \<in> set xs. ikey p a = fold_case key")
    case True
    then obtain a where a: "a \<in> set xs" "ikey p a = fold_case key" by blast
    then have uniq: "ikey p b = fold_case key \<longleftrightarrow> b = a" if "b \<in> set xs" for b
      using ok that by (auto simp: hash_ok_def inj_on_def)
    have F: "sqlite3HashFind p key = Some (data (elem_at p a))" using find a by blast
    show ?thesis
    proof (cases dat)
      case None
      then show ?thesis using HashInsert_delete [OF ok key a, of sz mallocSize fresh] F by auto
    next
      case (Some d)
      obtain r where r: "sqlite3HashInsert sz mallocSize fresh p key dat = Some (Some (data (elem_at p a)), r)"
        "hash_ok r xs" "cell r = (cell p)(a \<mapsto> (key, d))"
        using insert_replace_ok [OF ok key a] Some by blast
      have "updated p key (Some d) r"
        by (rule updated_cell [OF ok r(2) key _ r(3) uniq]) (use a in auto)
      then show ?thesis using F r Some by (auto simp: hash_wf_def)
    qed
  next
    case False
    then have F: "sqlite3HashFind p key = None" using find by (metis option.exhaust)
    have f: "fst (findElementWithHash p key) = None" using findElement_None [OF ok key] False by blast
    show ?thesis
    proof (cases dat)
      case None
      have "sqlite3HashInsert sz mallocSize fresh p key dat = Some (None, p)"
        using f None by (cases "findElementWithHash p key") (simp add: sqlite3HashInsert_def)
      moreover have "sqlite3HashFind p k = None" if "cstring k" "fold_case k = fold_case key" for k
        using HashFind_iff [OF ok that(1)] that(2) False by (metis option.exhaust)
      ultimately show ?thesis using F None wf by (auto simp: updated_def)
    next
      case (Some d)
      show ?thesis
      proof (cases fresh)
        case None
        have "sqlite3HashInsert sz mallocSize fresh p key dat = Some (dat, p)"
          using f None Some by (cases "findElementWithHash p key") (simp add: sqlite3HashInsert_def)
        then show ?thesis using F None Some wf by auto
      next
        case fr: (Some a)
        have a: "heap p a = None" using fresh fr by blast
        obtain r zs where r: "sqlite3HashInsert sz mallocSize fresh p key dat = Some (None, r)"
          "hash_ok r zs" "set zs = insert a (set xs)" "cell r = (cell p)(a \<mapsto> (key, d))"
          using insert_new_ok [OF ok key _ a pf] False Some fr by blast
        have "updated p key (Some d) r"
          by (rule updated_cell [OF ok r(2) key r(3,4)]) (use False ok_dom [OF ok, of a] a in auto)
        then show ?thesis using F r fr Some by (auto simp: hash_wf_def)
      qed
    qed
  qed
qed

section \<open>Iterating\<close>

lemma hash_iter_ok:
  "dlseg (heap p) pv f xs None \<Longrightarrow> hash_iter p f = Some (map (\<lambda>a. (pKey (elem_at p a), data (elem_at p a))) xs)"
proof (induction xs arbitrary: pv f)
  case Nil
  then show ?case by (subst hash_iter.simps) simp
next
  case (Cons x xs)
  then show ?case by (subst hash_iter.simps) auto
qed

section \<open>The interface: a map from strings to data\<close>

text \<open>
  What the users of a table of names rely on, whatever its representation: every operation
  keeps the invariant; after an insertion a look-up gives the new data for the names that are
  equal to the key but for case, and what it gave before for the others; the value returned is
  the old data; and when there is no memory for a new entry the new data itself is returned
  and nothing changes.
\<close>

locale string_map =
  fixes inv :: "'m \<Rightarrow> bool"
    and lookup :: "'m \<Rightarrow> u8 list \<Rightarrow> 'd option"
    and ins :: "'e \<Rightarrow> 'm \<Rightarrow> u8 list \<Rightarrow> 'd option \<Rightarrow> ('d option \<times> 'm) option"
    and env_ok :: "'e \<Rightarrow> 'm \<Rightarrow> bool"
    and oom :: "'e \<Rightarrow> bool"
  assumes ins_law: "\<lbrakk>inv m; cstring key; env_ok e m\<rbrakk> \<Longrightarrow>
      \<exists>r m'. ins e m key d = Some (r, m') \<and> inv m' \<and>
        (if oom e \<and> d \<noteq> None \<and> lookup m key = None then r = d \<and> m' = m
         else r = lookup m key \<and>
           (\<forall>k. cstring k \<longrightarrow> lookup m' k = (if fold_case k = fold_case key then d else lookup m k)))"
    and lookup_fold: "\<lbrakk>inv m; cstring j; cstring k; fold_case j = fold_case k\<rbrakk> \<Longrightarrow> lookup m j = lookup m k"
begin

lemma ins_total: "\<lbrakk>inv m; cstring key; env_ok e m\<rbrakk> \<Longrightarrow> \<exists>r m'. ins e m key d = Some (r, m') \<and> inv m'"
  using ins_law by blast

lemma ins_success:
  "\<lbrakk>inv m; cstring key; env_ok e m; ins e m key d = Some (r, m'); \<not> oom e \<or> d = None \<or> lookup m key \<noteq> None\<rbrakk> \<Longrightarrow>
    inv m' \<and> r = lookup m key \<and>
    (\<forall>k. cstring k \<longrightarrow> lookup m' k = (if fold_case k = fold_case key then d else lookup m k))"
  using ins_law [of m key e d] by auto

lemma ins_oom:
  "\<lbrakk>inv m; cstring key; env_ok e m; oom e; lookup m key = None\<rbrakk> \<Longrightarrow> ins e m key (Some d) = Some (Some d, m)"
  using ins_law [of m key e "Some d"] by auto

text \<open>The new data comes back exactly when a new entry found no memory.\<close>

lemma ins_returns_new:
  "\<lbrakk>inv m; cstring key; env_ok e m; lookup m key = None; ins e m key (Some d) = Some (r, m')\<rbrakk> \<Longrightarrow>
    (r = None \<longrightarrow> lookup m' key = Some d) \<and> (r \<noteq> None \<longrightarrow> oom e \<and> r = Some d \<and> m' = m)"
  using ins_law [of m key e "Some d"] by (cases "oom e") (auto split: if_splits)

lemma delete_then_lookup:
  "\<lbrakk>inv m; cstring key; env_ok e m; ins e m key None = Some (r, m')\<rbrakk> \<Longrightarrow> lookup m' key = None \<and> r = lookup m key"
  using ins_law [of m key e None] by auto

lemma ins_then_delete:
  assumes "inv m" "cstring key" "env_ok e m" "env_ok e' m'" "lookup m key = None"
    and "ins e m key (Some d) = Some (None, m')" "ins e' m' key None = Some (r, m'')"
  shows "r = Some d \<and> (\<forall>k. cstring k \<longrightarrow> lookup m'' k = lookup m k)"
proof -
  have m': "inv m'" "\<And>k. cstring k \<Longrightarrow> lookup m' k = (if fold_case k = fold_case key then Some d else lookup m k)"
    using ins_law [OF assms(1-3), of "Some d"] assms(5,6) by (cases "oom e"; auto)+
  have m'': "r = lookup m' key" "\<And>k. cstring k \<Longrightarrow> lookup m'' k = (if fold_case k = fold_case key then None else lookup m' k)"
    using ins_law [OF m'(1) assms(2,4), of None] assms(7) by auto
  have "lookup m k = None" if "cstring k" "fold_case k = fold_case key" for k
    using lookup_fold [OF assms(1) that(1) assms(2) that(2)] assms(5) by simp
  then show ?thesis using m'(2) m'' assms(2) by auto
qed

end

type_synonym hash_env = "nat \<times> (nat \<Rightarrow> nat option) \<times> addr option"

definition hash_ins :: "hash_env \<Rightarrow> 'd Hash \<Rightarrow> u8 list \<Rightarrow> 'd option \<Rightarrow> ('d option \<times> 'd Hash) option" where
  "hash_ins e p key d = (case e of (sz, mallocSize, fresh) \<Rightarrow> sqlite3HashInsert sz mallocSize fresh p key d)"

text \<open>
  What the table asks of the platform: the bucket size is positive and fits the soft limit, a
  block is at least as large as what was asked for, and a new element has a new address.
\<close>

definition hash_env_ok :: "hash_env \<Rightarrow> 'd Hash \<Rightarrow> bool" where
  "hash_env_ok e p \<longleftrightarrow>
     (case e of (sz, mallocSize, fresh) \<Rightarrow>
        platform_ok sz mallocSize \<and> (\<forall>a. fresh = Some a \<longrightarrow> heap p a = None))"

definition hash_oom :: "hash_env \<Rightarrow> bool" where
  "hash_oom e \<longleftrightarrow> snd (snd e) = None"

lemma HashFind_fold:
  assumes "hash_wf p" "cstring j" "cstring k" "fold_case j = fold_case k"
  shows "sqlite3HashFind p j = sqlite3HashFind p k"
proof -
  obtain xs where ok: "hash_ok p xs" using assms(1) by (auto simp: hash_wf_def)
  then show ?thesis
    using HashFind_iff [OF ok assms(2)] HashFind_iff [OF ok assms(3)] assms(4) by (intro option_eq_Some) simp
qed

interpretation hash: string_map "hash_wf :: 'd Hash \<Rightarrow> bool" sqlite3HashFind hash_ins hash_env_ok hash_oom
proof
  show "\<exists>r m'. hash_ins e m key d = Some (r, m') \<and> hash_wf m' \<and>
      (if hash_oom e \<and> d \<noteq> None \<and> sqlite3HashFind m key = None then r = d \<and> m' = m
       else r = sqlite3HashFind m key \<and>
         (\<forall>k. cstring k \<longrightarrow> sqlite3HashFind m' k = (if fold_case k = fold_case key then d else sqlite3HashFind m k)))"
    if "hash_wf m" "cstring key" "hash_env_ok e m" for m :: "'d Hash" and key e d
  proof -
    obtain sz ms fresh where e: "e = (sz, ms, fresh)" by (cases e)
    have env: "platform_ok sz ms" "\<And>a. fresh = Some a \<Longrightarrow> heap m a = None" using that(3) by (simp_all add: hash_env_ok_def e)
    show ?thesis
      using HashInsert_ok [of m key sz ms fresh d, OF that(1,2) env(1)] env(2)
      unfolding hash_ins_def hash_oom_def e prod.case snd_conv updated_def by blast
  qed
qed (rule HashFind_fold)

lemma HashInit_wf [simp]: "hash_wf sqlite3HashInit"
  unfolding hash_wf_def using HashInit_ok by blast

lemma HashInit_heap [simp]: "heap sqlite3HashInit = (\<lambda>_. None)"
  by (simp add: sqlite3HashInit_def)

lemma HashInit_find [simp]: "sqlite3HashFind sqlite3HashInit k = None"
  by (simp add: sqlite3HashFind_def findElementWithHash_def sqlite3HashInit_def)

section \<open>Properties\<close>

text \<open>
  C4: the hash table is a map. On a well-formed table an insertion always ends (rehashing
  included) and keeps the table well formed; it returns the old data of the key; afterwards a
  look-up of any name gives the new data if the name is the key but for case (nothing, when
  the new data is NULL) and its old data otherwise. Only when a new element finds no memory
  is the new data returned, and then the table is as it was. A failure to get memory for the
  bucket array is harmless.
\<close>

theorem hash_insert_find:
  assumes "hash_wf p" "cstring key" "platform_ok sz mallocSize"
    and "\<And>a. fresh = Some a \<Longrightarrow> heap p a = None"
  shows "\<exists>r p'. sqlite3HashInsert sz mallocSize fresh p key dat = Some (r, p') \<and> hash_wf p' \<and>
     (if fresh = None \<and> dat \<noteq> None \<and> sqlite3HashFind p key = None then r = dat \<and> p' = p
      else r = sqlite3HashFind p key \<and>
        (\<forall>k. cstring k \<longrightarrow>
           sqlite3HashFind p' k = (if fold_case k = fold_case key then dat else sqlite3HashFind p k)))"
  using HashInsert_ok [OF assms] unfolding updated_def by blast

theorem hash_insert_find_witness:
  "\<exists>p'. sqlite3HashInsert 16 Some (Some 7) sqlite3HashInit [84, 97] (Some (5 :: nat)) = Some (None, p') \<and>
     sqlite3HashFind p' [116, 65] = Some 5"
proof -
  have "fold_case [84, 97] = fold_case [116, 65 :: u8]" by (simp add: UpperToLower_eq)
  moreover have "platform_ok 16 Some" by (simp add: platform_ok_def MALLOC_SOFT_LIMIT_def)
  moreover have "heap (sqlite3HashInit :: nat Hash) 7 = None" by (simp add: sqlite3HashInit_def)
  ultimately show ?thesis
    using hash_insert_find [of sqlite3HashInit "[84, 97]" 16 Some "Some 7" "Some (5 :: nat)"] by auto
qed

lemma one_entry: "\<exists>p. hash_wf p \<and> sqlite3HashFind p [116] = Some (5 :: nat)"
proof -
  have "platform_ok 16 Some" by (simp add: platform_ok_def MALLOC_SOFT_LIMIT_def)
  then show ?thesis
    using HashInsert_ok [of sqlite3HashInit "[116]" 16 Some "Some 7" "Some (5 :: nat)"]
    by (auto simp: updated_def)
qed

text \<open>
  C19: iterating over a well-formed table ends and visits each entry once. The names visited
  differ by more than case, the look-up of a name gives the data with which it was visited,
  the \<open>count\<close> field is the number of entries, and the elements visited are all the elements
  that are allocated, so none is leaked; in a table without entries the bucket array has been
  freed as well.
\<close>

theorem hash_iterates:
  assumes "hash_wf p"
  shows "\<exists>kvs. hash_iter p (first p) = Some kvs \<and> distinct (map (fold_case \<circ> fst) kvs) \<and>
    (\<forall>k d. cstring k \<longrightarrow> sqlite3HashFind p k = Some d \<longleftrightarrow> (\<exists>j. (j, d) \<in> set kvs \<and> fold_case j = fold_case k)) \<and>
    hcount p = length kvs \<and> card (dom (heap p)) = length kvs \<and> (kvs = [] \<longrightarrow> ht p = None)"
proof -
  obtain xs where ok: "hash_ok p xs" using assms by (auto simp: hash_wf_def)
  define kvs where "kvs = map (\<lambda>a. (pKey (elem_at p a), data (elem_at p a))) xs"
  have "hash_iter p (first p) = Some kvs"
    using ok hash_iter_ok unfolding kvs_def by (auto simp: hash_ok_def list_ok_def)
  moreover have "distinct (map (fold_case \<circ> fst) kvs)"
    using ok by (simp add: kvs_def hash_ok_def list_ok_def distinct_map o_def ikey_def [abs_def])
  moreover have "sqlite3HashFind p k = Some d \<longleftrightarrow> (\<exists>j. (j, d) \<in> set kvs \<and> fold_case j = fold_case k)"
    if "cstring k" for k d
    using HashFind_iff [OF ok that] by (auto simp: kvs_def ikey_def)
  moreover have "hcount p = length kvs" "card (dom (heap p)) = length kvs" "kvs = [] \<longrightarrow> ht p = None"
    using ok distinct_card [of xs] by (auto simp: hash_ok_def list_ok_def kvs_def)
  ultimately show ?thesis by blast
qed

theorem hash_iterates_witness:
  "\<exists>p kvs j. hash_iter p (first p) = Some kvs \<and> (j, 5 :: nat) \<in> set kvs"
proof -
  obtain p :: "nat Hash" where p: "hash_wf p" "sqlite3HashFind p [116] = Some 5" using one_entry by blast
  have "cstring [116]" by simp
  with hash_iterates [OF p(1)] p(2) show ?thesis by blast
qed

text \<open>
  \<open>sqlite3HashClear\<close> ends and leaves a well-formed table as \<open>sqlite3HashInit\<close> makes it, with
  every element freed.
\<close>

theorem hash_clear:
  assumes "hash_wf p"
  shows "sqlite3HashClear p = Some sqlite3HashInit"
  using assms HashClear_ok by (auto simp: hash_wf_def hash_ok_def list_ok_def)

theorem hash_clear_witness:
  "\<exists>p. sqlite3HashFind p [116] = Some (5 :: nat) \<and> sqlite3HashClear p = Some sqlite3HashInit"
  using one_entry hash_clear by blast

end
