(* ===== verification/Bitvec.thy ===== *)
theory Bitvec
  imports Prelude
begin

text \<open>
  The bit vectors of bitvec.c, which the pager uses for sets of page numbers: a bitmap while the
  numbers are few, an open-addressing hash table for a large sparse set, and an array of
  sub-vectors once the hash table fills up.
\<close>

section \<open>Sizes\<close>

text \<open>
  The sizes follow from the 512 bytes of a \<open>struct Bitvec\<close> and the size \<open>ps\<close> of a pointer,
  which is 4 or 8: 125 hash slots, 125 pointers and 4000 bits, or 124, 62 and 3968.
\<close>

definition BITVEC_SZ :: nat where "BITVEC_SZ = 512"
definition BITVEC_USIZE :: "nat \<Rightarrow> nat" where "BITVEC_USIZE ps = ((BITVEC_SZ - 3 * 4) div ps) * ps"
definition BITVEC_NELEM :: "nat \<Rightarrow> nat" where "BITVEC_NELEM ps = BITVEC_USIZE ps"
definition BITVEC_NBIT :: "nat \<Rightarrow> nat" where "BITVEC_NBIT ps = BITVEC_NELEM ps * 8"
definition BITVEC_NINT :: "nat \<Rightarrow> nat" where "BITVEC_NINT ps = BITVEC_USIZE ps div 4"
definition BITVEC_MXHASH :: "nat \<Rightarrow> nat" where "BITVEC_MXHASH ps = BITVEC_NINT ps div 2"
definition BITVEC_NPTR :: "nat \<Rightarrow> nat" where "BITVEC_NPTR ps = BITVEC_USIZE ps div ps"

definition pointer_size :: "nat \<Rightarrow> bool" where
  "pointer_size ps \<longleftrightarrow> ps = 4 \<or> ps = 8"

lemmas bitvec_sizes = BITVEC_SZ_def BITVEC_USIZE_def BITVEC_NELEM_def BITVEC_NBIT_def BITVEC_NINT_def
  BITVEC_MXHASH_def BITVEC_NPTR_def pointer_size_def

section \<open>State\<close>

text \<open>
  \<open>struct Bitvec\<close>: which member of the union is in use is determined by \<open>iSize\<close> and
  \<open>iDivisor\<close>, so each case is a constructor. The \<open>u32\<close> fields are natural numbers, with the
  arithmetic modulo $2^{32}$ written out. Sub-vectors have one owner, so they are values.
\<close>

datatype bitvec =
  Bitmap (iSize: nat) "u8 list"
| HashSet (iSize: nat) nat "nat list"
| Sub (iSize: nat) nat "bitvec option list"

definition BITVEC_HASH :: "nat \<Rightarrow> nat \<Rightarrow> nat" where
  "BITVEC_HASH ps x = (x * 1) mod BITVEC_NINT ps"

text \<open>The contents of \<open>sqlite3BitvecCreate\<close>'s zeroed block.\<close>

definition bitvec_new :: "nat \<Rightarrow> nat \<Rightarrow> bitvec" where
  "bitvec_new ps n =
     (if n \<le> BITVEC_NBIT ps then Bitmap n (replicate (BITVEC_NELEM ps) 0)
      else HashSet n 0 (replicate (BITVEC_NINT ps) 0))"

text \<open>
  \<open>am k\<close> tells whether the \<open>k\<close>-th allocation succeeds; operations that allocate take the
  number of allocations made so far and return the new one.
\<close>

definition sqlite3BitvecCreate :: "nat \<Rightarrow> (nat \<Rightarrow> bool) \<Rightarrow> nat \<Rightarrow> nat \<Rightarrow> bitvec option \<times> nat" where
  "sqlite3BitvecCreate ps am k n = ((if am k then Some (bitvec_new ps n) else None), k + 1)"

section \<open>Operations\<close>

text \<open>
  The probe loops walk the slots from \<open>h\<close> on, cyclically, until a slot is empty or holds \<open>v\<close>.
  The result is \<open>Inl\<close> the empty slot or \<open>Inr\<close> the slot that holds \<open>v\<close>; \<open>None\<close> when the walk has
  passed all the slots, which is when the loop does not end.
\<close>

primrec probe :: "nat list \<Rightarrow> nat \<Rightarrow> nat \<Rightarrow> nat \<Rightarrow> (nat + nat) option" where
  "probe t v h 0 = None"
| "probe t v h (Suc n) =
     (if t ! h = 0 then Some (Inl h)
      else if t ! h = v then Some (Inr h)
      else probe t v (if h + 1 \<ge> length t then 0 else h + 1) n)"

primrec bitvecTest :: "nat \<Rightarrow> bitvec \<Rightarrow> nat \<Rightarrow> bool" where
  "bitvecTest ps (Bitmap n bs) i = (bs ! (i div 8) AND push_bit (i mod 8) 1 \<noteq> 0)"
| "bitvecTest ps (HashSet n nSet t) i =
     (case probe t (i + 1) (BITVEC_HASH ps i) (length t) of Some (Inr _) \<Rightarrow> True | _ \<Rightarrow> False)"
| "bitvecTest ps (Sub n d subs) i =
     (case map (map_option (bitvecTest ps)) subs ! (i div d) of
        None \<Rightarrow> False | Some test \<Rightarrow> test (i mod d))"

definition sqlite3BitvecTestNotNull :: "nat \<Rightarrow> bitvec \<Rightarrow> nat \<Rightarrow> bool" where
  "sqlite3BitvecTestNotNull ps p i =
     (let i = (i + (2 ^ 32 - 1)) mod 2 ^ 32
      in if i \<ge> iSize p then False else bitvecTest ps p i)"

definition sqlite3BitvecTest :: "nat \<Rightarrow> bitvec option \<Rightarrow> nat \<Rightarrow> bool" where
  "sqlite3BitvecTest ps p i = (case p of None \<Rightarrow> False | Some p \<Rightarrow> sqlite3BitvecTestNotNull ps p i)"

datatype rc = SQLITE_OK | SQLITE_NOMEM

fun rc_or :: "rc \<Rightarrow> rc \<Rightarrow> rc" where
  "rc_or SQLITE_OK r = r"
| "rc_or SQLITE_NOMEM r = SQLITE_NOMEM"

text \<open>
  \<open>sqlite3BitvecSet\<close> after \<open>i--\<close>. The first argument bounds the depth of the recursion: the
  result is \<open>None\<close> if it does not suffice. The loop over \<open>aiValues\<close> in a rehash is a fold.
\<close>

fun set_all ::
  "(nat \<Rightarrow> bitvec \<Rightarrow> nat \<Rightarrow> (rc \<times> nat \<times> bitvec) option) \<Rightarrow> nat list \<Rightarrow> rc \<times> nat \<times> bitvec \<Rightarrow> (rc \<times> nat \<times> bitvec) option" where
  "set_all f [] r = Some r"
| "set_all f (v # vs) (rc, k, p) =
     (if v = 0 then set_all f vs (rc, k, p)
      else case f k p (v - 1) of
             None \<Rightarrow> None
           | Some (rc', k', p') \<Rightarrow> set_all f vs (rc_or rc rc', k', p'))"

primrec bitvecSet :: "nat \<Rightarrow> nat \<Rightarrow> (nat \<Rightarrow> bool) \<Rightarrow> nat \<Rightarrow> bitvec \<Rightarrow> nat \<Rightarrow> (rc \<times> nat \<times> bitvec) option" where
  "bitvecSet 0 ps am k p i = None"
| "bitvecSet (Suc fuel) ps am k p i =
     (case p of
        Sub n d subs \<Rightarrow>
          (let bin = i div d; i = i mod d
           in case subs ! bin of
                None \<Rightarrow>
                  (case sqlite3BitvecCreate ps am k d of
                     (None, k) \<Rightarrow> Some (SQLITE_NOMEM, k, p)
                   | (Some q, k) \<Rightarrow>
                       map_option (\<lambda>(rc, k, q). (rc, k, Sub n d (subs[bin := Some q])))
                         (bitvecSet fuel ps am k q i))
              | Some q \<Rightarrow>
                  map_option (\<lambda>(rc, k, q). (rc, k, Sub n d (subs[bin := Some q])))
                    (bitvecSet fuel ps am k q i))
      | Bitmap n bs \<Rightarrow>
          Some (SQLITE_OK, k, Bitmap n (bs[i div 8 := bs ! (i div 8) OR push_bit (i mod 8) 1]))
      | HashSet n nSet t \<Rightarrow>
          (let h = BITVEC_HASH ps i; i = i + 1;
               set_end = (\<lambda>h. Some (SQLITE_OK, k, HashSet n (nSet + 1) (t[h := i])));
               rehash = (\<lambda>h.
                 if nSet \<ge> BITVEC_MXHASH ps then
                   (if \<not> am k then Some (SQLITE_NOMEM, k + 1, p)
                    else
                      let d = ((n + BITVEC_NPTR ps - 1) mod 2 ^ 32) div BITVEC_NPTR ps;
                          p = Sub n d (replicate (BITVEC_NPTR ps) None)
                      in case bitvecSet fuel ps am (k + 1) p (i - 1) of
                           None \<Rightarrow> None
                         | Some r \<Rightarrow> set_all (bitvecSet fuel ps am) t r)
                 else set_end h)
           in if t ! h = 0 then (if nSet < BITVEC_NINT ps - 1 then set_end h else rehash h)
              else case probe t i h (length t) of
                     None \<Rightarrow> None
                   | Some (Inr _) \<Rightarrow> Some (SQLITE_OK, k, p)
                   | Some (Inl h) \<Rightarrow> rehash h))"

text \<open>The depth is at most twice the number of levels, which \<open>2 * iSize + 2\<close> exceeds.\<close>

definition sqlite3BitvecSet ::
  "nat \<Rightarrow> (nat \<Rightarrow> bool) \<Rightarrow> nat \<Rightarrow> bitvec option \<Rightarrow> nat \<Rightarrow> (rc \<times> nat \<times> bitvec option) option" where
  "sqlite3BitvecSet ps am k p i =
     (case p of
        None \<Rightarrow> Some (SQLITE_OK, k, None)
      | Some p \<Rightarrow>
          map_option (\<lambda>(rc, k, p). (rc, k, Some p)) (bitvecSet (2 * iSize p + 2) ps am k p (i - 1)))"

text \<open>
  The loop of \<open>sqlite3BitvecClear\<close> that puts the values other than \<open>v\<close> into an empty table;
  \<open>find_free\<close> is its inner loop.
\<close>

primrec find_free :: "nat list \<Rightarrow> nat \<Rightarrow> nat \<Rightarrow> nat option" where
  "find_free t h 0 = None"
| "find_free t h (Suc n) =
     (if t ! h = 0 then Some h else find_free t (if h + 1 \<ge> length t then 0 else h + 1) n)"

fun clear_rebuild :: "nat \<Rightarrow> nat \<Rightarrow> nat list \<Rightarrow> nat \<times> nat list \<Rightarrow> (nat \<times> nat list) option" where
  "clear_rebuild ps v [] (nSet, t) = Some (nSet, t)"
| "clear_rebuild ps v (a # as) (nSet, t) =
     (if a \<noteq> 0 \<and> a \<noteq> v then
        (case find_free t (BITVEC_HASH ps (a - 1)) (length t) of
           None \<Rightarrow> None
         | Some h \<Rightarrow> clear_rebuild ps v as (nSet + 1, t[h := a]))
      else clear_rebuild ps v as (nSet, t))"

primrec bitvecClear :: "nat \<Rightarrow> bitvec \<Rightarrow> nat \<Rightarrow> bitvec option" where
  "bitvecClear ps (Bitmap n bs) i =
     Some (Bitmap n (bs[i div 8 := bs ! (i div 8) AND NOT (push_bit (i mod 8) 1)]))"
| "bitvecClear ps (HashSet n nSet t) i =
     map_option (\<lambda>(nSet, t). HashSet n nSet t) (clear_rebuild ps (i + 1) t (0, replicate (length t) 0))"
| "bitvecClear ps (Sub n d subs) i =
     (case map (map_option (bitvecClear ps)) subs ! (i div d) of
        None \<Rightarrow> Some (Sub n d subs)
      | Some clear \<Rightarrow> map_option (\<lambda>q. Sub n d (subs[i div d := Some q])) (clear (i mod d)))"

definition sqlite3BitvecClear :: "nat \<Rightarrow> bitvec option \<Rightarrow> nat \<Rightarrow> bitvec option option" where
  "sqlite3BitvecClear ps p i =
     (case p of None \<Rightarrow> Some None | Some p \<Rightarrow> map_option Some (bitvecClear ps p (i - 1)))"

definition sqlite3BitvecSize :: "bitvec \<Rightarrow> nat" where
  "sqlite3BitvecSize p = iSize p"


section \<open>Linear probing\<close>

definition home :: "nat list \<Rightarrow> nat \<Rightarrow> nat" where
  "home t v = (v - 1) mod length t"

text \<open>Between its home slot and the slot that holds it, a value meets no empty slot.\<close>

definition probing :: "nat list \<Rightarrow> bool" where
  "probing t \<longleftrightarrow>
     (\<forall>k < length t. \<forall>v. v \<noteq> 0 \<longrightarrow> t ! ((home t v + k) mod length t) = v \<longrightarrow>
        (\<forall>j < k. t ! ((home t v + j) mod length t) \<noteq> 0))"

lemma mod_lt: "x < n \<Longrightarrow> k mod n < (n :: nat)"
  by (rule mod_less_divisor) linarith

lemma probe_at:
  "\<lbrakk>h < length t; \<forall>k < m. t ! ((h + k) mod length t) \<noteq> 0 \<and> t ! ((h + k) mod length t) \<noteq> v; m < n;
    x = (h + m) mod length t; t ! x = 0 \<or> t ! x = v\<rbrakk> \<Longrightarrow>
   probe t v h n = Some (if t ! x = 0 then Inl x else Inr x)"
proof (induction m arbitrary: h n)
  case 0
  then show ?case by (cases n) auto
next
  case (Suc m)
  then obtain n' where n: "n = Suc n'" by (cases n) auto
  define h' where "h' = (h + 1) mod length t"
  have h: "(if h + 1 \<ge> length t then 0 else h + 1) = h'" using Suc.prems(1) by (cases "Suc h = length t") (auto simp: h'_def)
  have shift: "(h' + k) mod length t = (h + Suc k) mod length t" for k
    by (simp add: h'_def mod_add_left_eq)
  have "t ! h \<noteq> 0" "t ! h \<noteq> v" using Suc.prems(1,2) by force+
  moreover have "probe t v h' n' = Some (if t ! x = 0 then Inl x else Inr x)"
  proof (rule Suc.IH)
    show "\<forall>k < m. t ! ((h' + k) mod length t) \<noteq> 0 \<and> t ! ((h' + k) mod length t) \<noteq> v"
      using Suc.prems(2) by (simp only: shift) auto
    show "x = (h' + m) mod length t" using Suc.prems(4) by (simp only: shift)
  qed (use Suc.prems n in \<open>auto simp: h'_def mod_lt\<close>)
  ultimately show ?case using h by (simp add: n)
qed

lemma mod_offset_exists: "x < N \<Longrightarrow> h < N \<Longrightarrow> \<exists>k < N. (h + k) mod N = (x::nat)"
proof -
  assume a: "x < N" "h < N"
  show ?thesis
  proof (cases "h \<le> x")
    case True
    then show ?thesis using a by (intro exI [of _ "x - h"]) auto
  next
    case False
    then have "(h + (N - h + x)) mod N = x" "N - h + x < N" using a by auto
    then show ?thesis by blast
  qed
qed

lemma mod_offset_unique:
  assumes "j < N" "k < N" "(h + j) mod N = (h + k) mod N"
  shows "j = (k :: nat)"
proof -
  have "b = a" if "a \<le> b" "b < N" "(h + a) mod N = (h + b) mod N" for a b :: nat
  proof -
    have "N dvd (b - a)" using that mod_eq_dvd_iff_nat [of "h + a" "h + b" N] by simp
    then show "b = a" using that by (metis diff_diff_cancel diff_less dvd_imp_le le_zero_eq less_imp_diff_less
      linorder_not_less minus_nat.diff_0 not_gr_zero)
  qed
  then show ?thesis using assms by (metis nat_le_linear)
qed

text \<open>From the home slot of \<open>v\<close>, the walk finds \<open>v\<close> or the first empty slot.\<close>

lemma probe_ok:
  assumes p: "probing t" and e: "x < length t" "t ! x = 0" and v: "v \<noteq> 0"
  obtains (found) y where "probe t v (home t v) (length t) = Some (Inr y)" "v \<in> set t"
  | (free) m y where "probe t v (home t v) (length t) = Some (Inl y)" "v \<notin> set t" "t ! y = 0" "m < length t"
      "y = (home t v + m) mod length t" "\<And>j. j < m \<Longrightarrow> t ! ((home t v + j) mod length t) \<noteq> 0"
proof -
  define at where "at k = t ! ((home t v + k) mod length t)" for k
  have h: "home t v < length t" using mod_lt [OF e(1)] by (simp add: home_def)
  obtain k0 where k0: "k0 < length t" "at k0 = 0" using mod_offset_exists [OF e(1) h] e(2) by (auto simp: at_def)
  define m where "m = (LEAST k. at k = 0 \<or> at k = v)"
  have m: "at m = 0 \<or> at m = v" unfolding m_def by (rule LeastI [of _ k0]) (use k0 in simp)
  have lt: "at j \<noteq> 0 \<and> at j \<noteq> v" if "j < m" for j
    using not_less_Least [of j "\<lambda>k. at k = 0 \<or> at k = v"] that by (simp add: m_def)
  have "\<not> k0 < m" using lt [of k0] k0(2) by blast
  then have mN: "m < length t" using k0(1) by linarith
  define y where "y = (home t v + m) mod length t"
  have pr: "probe t v (home t v) (length t) = Some (if t ! y = 0 then Inl y else Inr y)"
  proof (rule probe_at [OF h _ mN y_def])
    show "\<forall>k < m. t ! ((home t v + k) mod length t) \<noteq> 0 \<and> t ! ((home t v + k) mod length t) \<noteq> v"
      using lt by (simp add: at_def)
    show "t ! y = 0 \<or> t ! y = v" using m by (simp add: at_def y_def)
  qed
  have yN: "y < length t" using mod_lt [OF e(1)] by (simp add: y_def)
  show ?thesis
  proof (cases "at m = 0")
    case False
    then have "t ! y = v" using m by (auto simp: at_def y_def)
    then show ?thesis using found pr v yN nth_mem by auto
  next
    case True
    have "v \<notin> set t"
    proof
      assume "v \<in> set t"
      then obtain z where z: "z < length t" "t ! z = v" by (auto simp: in_set_conv_nth)
      obtain k where k: "k < length t" "at k = v" using mod_offset_exists [OF z(1) h] z(2) by (auto simp: at_def)
      then have "\<forall>j < k. at j \<noteq> 0" using p v unfolding probing_def at_def by blast
      moreover have "m \<le> k" using lt [of k] k(2) by (cases "k < m") auto
      ultimately show False using True k(2) v by (metis le_neq_implies_less)
    qed
    then show ?thesis using free [of y m] pr True mN lt by (auto simp: at_def y_def)
  qed
qed

definition used :: "nat list \<Rightarrow> nat" where
  "used t = length (filter (\<lambda>v. v \<noteq> 0) t)"

lemma used_put: "x < length t \<Longrightarrow> t ! x = 0 \<Longrightarrow> v \<noteq> 0 \<Longrightarrow> used (t[x := v]) = Suc (used t)"
proof (induction t arbitrary: x)
  case (Cons a t)
  then show ?case by (cases x) (auto simp: used_def)
qed simp

lemma used_less_empty: "used t < length t \<Longrightarrow> \<exists>x < length t. t ! x = 0"
proof -
  assume a: "used t < length t"
  have "\<exists>v \<in> set t. v = 0"
  proof (rule ccontr)
    assume "\<not> ?thesis"
    then have "filter (\<lambda>v. v \<noteq> 0) t = t" by (auto simp: filter_id_conv intro: gr0I)
    then show False using a by (simp add: used_def)
  qed
  then show ?thesis by (auto simp: in_set_conv_nth)
qed

lemma set_put_empty: "x < length t \<Longrightarrow> t ! x = 0 \<Longrightarrow> v \<noteq> 0 \<Longrightarrow> w \<noteq> 0 \<Longrightarrow> w \<in> set (t[x := v]) \<longleftrightarrow> w = v \<or> w \<in> set t"
proof -
  assume a: "x < length t" "t ! x = 0" "v \<noteq> 0" "w \<noteq> 0"
  have "w \<in> set t \<longleftrightarrow> (\<exists>i < length t. i \<noteq> x \<and> t ! i = w)" using a by (auto simp: in_set_conv_nth)
  then show ?thesis using a by (auto simp: in_set_conv_nth nth_list_update)
qed

lemma probing_put:
  assumes p: "probing t" and x: "x < length t" "t ! x = 0" and v: "v \<noteq> 0" and m: "m < length t" "x = (home t v + m) mod length t"
    "\<And>j. j < m \<Longrightarrow> t ! ((home t v + j) mod length t) \<noteq> 0"
  shows "probing (t[x := v])"
  unfolding probing_def
proof (intro allI impI)
  fix k w j
  assume k: "k < length (t[x := v])" and w: "w \<noteq> 0" "t[x := v] ! ((home (t[x := v]) w + k) mod length (t[x := v])) = w" and j: "j < k"
  have N: "length (t[x := v]) = length t" "home (t[x := v]) u = home t u" for u by (simp_all add: home_def)
  have pos: "(home t w + i) mod length t < length t" for i using mod_lt [OF x(1)] .
  show "t[x := v] ! ((home (t[x := v]) w + j) mod length (t[x := v])) \<noteq> 0"
  proof (cases "(home t w + k) mod length t = x")
    case True
    then have "w = v" using w(2) x by (simp add: N)
    then have "k = m" using mod_offset_unique [of k "length t" m "home t v"] k m True by simp
    then show ?thesis using m(3) [of j] j \<open>w = v\<close> v x(1) pos by (simp add: N nth_list_update)
  next
    case False
    then have "t ! ((home t w + k) mod length t) = w" using w(2) pos x(1) by (simp add: N nth_list_update)
    then have "t ! ((home t w + j) mod length t) \<noteq> 0" using p k w(1) j unfolding probing_def N by blast
    then show ?thesis using v pos x(1) by (simp add: N nth_list_update)
  qed
qed

lemma find_free_probe: "find_free t h n = (case probe t 0 h n of Some (Inl x) \<Rightarrow> Some x | _ \<Rightarrow> None)"
  by (induction n arbitrary: h) auto

text \<open>Rebuilding puts every value but one into the new table.\<close>

lemma find_free_ok:
  assumes "x < length t" "t ! x = 0"
  obtains m y where "find_free t (home t v) (length t) = Some y" "y < length t" "t ! y = 0" "m < length t"
      "y = (home t v + m) mod length t" "\<And>j. j < m \<Longrightarrow> t ! ((home t v + j) mod length t) \<noteq> 0"
proof -
  define at where "at k = t ! ((home t v + k) mod length t)" for k
  have h: "home t v < length t" using mod_lt [OF assms(1)] by (simp add: home_def)
  obtain k0 where k0: "k0 < length t" "at k0 = 0" using mod_offset_exists [OF assms(1) h] assms(2) by (auto simp: at_def)
  define m where "m = (LEAST k. at k = 0)"
  have m: "at m = 0" unfolding m_def by (rule LeastI [of _ k0]) (use k0 in simp)
  have lt: "at j \<noteq> 0" if "j < m" for j
    using not_less_Least [of j "\<lambda>k. at k = 0"] that by (simp add: m_def)
  have "\<not> k0 < m" using lt [of k0] k0(2) by blast
  then have mN: "m < length t" using k0(1) by linarith
  define y where "y = (home t v + m) mod length t"
  have "probe t 0 (home t v) (length t) = Some (if t ! y = 0 then Inl y else Inr y)"
  proof (rule probe_at [OF h _ mN y_def])
    show "\<forall>k < m. t ! ((home t v + k) mod length t) \<noteq> 0 \<and> t ! ((home t v + k) mod length t) \<noteq> 0"
      using lt by (simp add: at_def)
    show "t ! y = 0 \<or> t ! y = 0" using m by (simp add: at_def y_def)
  qed
  moreover have "t ! y = 0" using m by (simp add: at_def y_def)
  ultimately show ?thesis using that [of y m] mN lt mod_lt [OF assms(1)] by (auto simp: find_free_probe at_def y_def)
qed

lemma clear_rebuild_ok:
  assumes "length t = BITVEC_NINT ps" "probing t" "used t + used as < length t"
  shows "\<exists>t'. clear_rebuild ps v as (used t, t) = Some (used t', t') \<and> length t' = length t \<and> probing t' \<and>
    used t' \<le> used t + used as \<and> (\<forall>w. w \<noteq> 0 \<longrightarrow> w \<in> set t' \<longleftrightarrow> w \<in> set t \<or> (w \<in> set as \<and> w \<noteq> v))"
  using assms
proof (induction as arbitrary: t)
  case (Cons a as)
  show ?case
  proof (cases "a \<noteq> 0 \<and> a \<noteq> v")
    case True
    have u: "used (a # as) = Suc (used as)" using True by (simp add: used_def)
    obtain x where x: "x < length t" "t ! x = 0" using used_less_empty [of t] Cons.prems(3) by auto
    obtain m y where y: "find_free t (home t a) (length t) = Some y" "y < length t" "t ! y = 0" "m < length t"
      "y = (home t a + m) mod length t" "\<And>j. j < m \<Longrightarrow> t ! ((home t a + j) mod length t) \<noteq> 0"
      using find_free_ok [OF x] by blast
    have p': "probing (t[y := a])" using probing_put [OF Cons.prems(2) y(2,3) _ y(4,5,6)] True by blast
    have u': "used (t[y := a]) = Suc (used t)" using used_put y True by blast
    have "clear_rebuild ps v (a # as) (used t, t) = clear_rebuild ps v as (used (t[y := a]), t[y := a])"
      using True y(1) Cons.prems(1) by (simp add: BITVEC_HASH_def home_def u')
    moreover obtain t' where "clear_rebuild ps v as (used (t[y := a]), t[y := a]) = Some (used t', t')" "length t' = length t"
      "probing t'" "used t' \<le> used (t[y := a]) + used as"
      "\<forall>w. w \<noteq> 0 \<longrightarrow> w \<in> set t' \<longleftrightarrow> w \<in> set (t[y := a]) \<or> (w \<in> set as \<and> w \<noteq> v)"
      using Cons.IH [of "t[y := a]"] Cons.prems p' u u' by auto
    ultimately show ?thesis using u u' set_put_empty [OF y(2,3)] True by (intro exI [of _ t']) auto
  next
    case False
    have u: "used as \<le> used (a # as)" by (simp add: used_def)
    obtain t' where "clear_rebuild ps v as (used t, t) = Some (used t', t')" "length t' = length t" "probing t'"
      "used t' \<le> used t + used as" "\<forall>w. w \<noteq> 0 \<longrightarrow> w \<in> set t' \<longleftrightarrow> w \<in> set t \<or> (w \<in> set as \<and> w \<noteq> v)"
      using Cons.IH [of t] Cons.prems u by auto
    then show ?thesis using False u by (intro exI [of _ t']) auto
  qed
qed simp


section \<open>The invariant\<close>

text \<open>
  The fields agree with one another: the bitmap has its full length; the hash table has an
  empty slot, \<open>nSet\<close> counts its values, and they are in range; a divided vector has exactly
  the divisor its size asks for, and its sub-vectors are well formed and of that size. The
  bound on the size keeps \<open>iSize + BITVEC_NPTR - 1\<close> from overflowing.
\<close>

inductive bv_ok :: "nat \<Rightarrow> bitvec \<Rightarrow> bool" for ps where
  Bitmap_ok: "\<lbrakk>n \<le> BITVEC_NBIT ps; length bs = BITVEC_NELEM ps\<rbrakk> \<Longrightarrow> bv_ok ps (Bitmap n bs)"
| HashSet_ok: "\<lbrakk>BITVEC_NBIT ps < n; n + BITVEC_NPTR ps \<le> 2 ^ 32; length t = BITVEC_NINT ps; probing t;
    k = used t; k < length t; \<forall>v \<in> set t. v \<le> n\<rbrakk> \<Longrightarrow> bv_ok ps (HashSet n k t)"
| Sub_ok: "\<lbrakk>BITVEC_NBIT ps < n; n + BITVEC_NPTR ps \<le> 2 ^ 32; d = (n + BITVEC_NPTR ps - 1) div BITVEC_NPTR ps;
    length subs = BITVEC_NPTR ps; \<forall>q. Some q \<in> set subs \<longrightarrow> bv_ok ps q \<and> iSize q = d\<rbrakk> \<Longrightarrow> bv_ok ps (Sub n d subs)"

inductive_simps bv_ok_simps [simp]: "bv_ok ps (Bitmap n bs)" "bv_ok ps (HashSet n k t)" "bv_ok ps (Sub n d subs)"

lemma size_facts:
  assumes "pointer_size ps"
  shows "0 < BITVEC_NPTR ps" "2 < BITVEC_NINT ps" "BITVEC_NPTR ps \<le> BITVEC_NBIT ps" "0 < BITVEC_MXHASH ps"
    "BITVEC_MXHASH ps < BITVEC_NINT ps - 1" "BITVEC_NBIT ps = 8 * BITVEC_NELEM ps" "0 < BITVEC_NBIT ps"
  using assms by (auto simp: bitvec_sizes)

lemma divisor_facts:
  assumes "pointer_size ps" "BITVEC_NBIT ps < n" "d = (n + BITVEC_NPTR ps - 1) div BITVEC_NPTR ps"
  shows "0 < d" "d < n" "i < n \<Longrightarrow> i div d < BITVEC_NPTR ps"
proof -
  define N where "N = BITVEC_NPTR ps"
  have N: "N = 125 \<or> N = 62" "62 < n" using assms by (auto simp: N_def bitvec_sizes)
  have d: "d = (n + N - 1) div N" using assms(3) by (simp add: N_def)
  show "0 < d" using N d by (auto simp: div_greater_zero_iff)
  have "n + N - 1 < n * N" using N by auto
  then show "d < n" unfolding d using N by (simp add: less_mult_imp_div_less)
  have "n \<le> d * N" using div_mult_mod_eq [of "n + N - 1" N] mod_less_divisor [of N "n + N - 1"] N unfolding d by linarith
  then show "i div d < BITVEC_NPTR ps" if "i < n"
    using that by (simp add: N_def [symmetric] less_mult_imp_div_less mult.commute)
qed

lemma bv_ok_new:
  assumes "pointer_size ps" "n + BITVEC_NPTR ps \<le> 2 ^ 32"
  shows "bv_ok ps (bitvec_new ps n)" "iSize (bitvec_new ps n) = n"
  using assms size_facts(2) [OF assms(1)]
  by (auto simp: bitvec_new_def probing_def used_def mod_lt)

lemma bit_test_iff: "(b :: u8) AND push_bit k 1 \<noteq> 0 \<longleftrightarrow> bit b k" if "k < 8"
proof -
  have "b AND push_bit k 1 = (if bit b k then push_bit k 1 else 0)"
    using that by (intro bit_word_eqI) (auto simp: bit_simps)
  then show ?thesis using that by simp
qed

lemma bitvecTest_new:
  assumes "pointer_size ps" "i < n"
  shows "\<not> bitvecTest ps (bitvec_new ps n) i"
proof (cases "n \<le> BITVEC_NBIT ps")
  case True
  then have "i div 8 < BITVEC_NELEM ps" using assms size_facts(6) by (simp add: less_mult_imp_div_less)
  then show ?thesis using True by (simp add: bitvec_new_def)
next
  case False
  have "BITVEC_NINT ps \<noteq> 0" using size_facts(2) [OF assms(1)] by simp
  moreover have "BITVEC_HASH ps i < BITVEC_NINT ps" using size_facts(2) [OF assms(1)] by (simp add: BITVEC_HASH_def)
  ultimately show ?thesis using False by (cases "BITVEC_NINT ps") (auto simp: bitvec_new_def nth_append nth_Cons split: nat.splits)
qed

lemma bitvecTest_Sub:
  assumes "i div d < length subs"
  shows "bitvecTest ps (Sub n d subs) i = (case subs ! (i div d) of None \<Rightarrow> False | Some q \<Rightarrow> bitvecTest ps q (i mod d))"
  using assms by (simp split: option.splits)

lemma bitvecTest_HashSet:
  assumes "bv_ok ps (HashSet n k t)"
  shows "bitvecTest ps (HashSet n k t) i \<longleftrightarrow> i + 1 \<in> set t"
proof -
  have t: "length t = BITVEC_NINT ps" "probing t" "used t < length t" using assms by auto
  obtain x where x: "x < length t" "t ! x = 0" using used_less_empty t(3) by blast
  have h: "BITVEC_HASH ps i = home t (i + 1)" by (simp add: BITVEC_HASH_def home_def t)
  show ?thesis unfolding bitvecTest.simps h
    by (rule probe_ok [OF t(2) x, of "i + 1"]) auto
qed


section \<open>Setting a bit\<close>

text \<open>What a successful or failing \<open>sqlite3BitvecSet\<close> guarantees for the bits below \<open>iSize\<close>.\<close>

definition set_spec ::
  "nat \<Rightarrow> (nat \<Rightarrow> bool) \<Rightarrow> nat \<Rightarrow> bitvec \<Rightarrow> nat set \<Rightarrow> rc \<times> nat \<times> bitvec \<Rightarrow> bool" where
  "set_spec ps am k p new r \<longleftrightarrow>
     (case r of (rc, k', p') \<Rightarrow>
        bv_ok ps p' \<and> iSize p' = iSize p \<and> k \<le> k' \<and>
        (\<forall>j < iSize p. bitvecTest ps p' j \<longrightarrow> j \<in> new \<or> bitvecTest ps p j) \<and>
        (rc = SQLITE_OK \<longrightarrow> (\<forall>j < iSize p. bitvecTest ps p' j \<longleftrightarrow> j \<in> new \<or> bitvecTest ps p j)) \<and>
        (rc \<noteq> SQLITE_OK \<longrightarrow> (\<exists>m. k \<le> m \<and> m < k' \<and> \<not> am m)))"

fun is_Sub :: "bitvec \<Rightarrow> bool" where
  "is_Sub (Sub _ _ _) = True"
| "is_Sub _ = False"

lemma rc_or_OK [simp]: "rc_or r s = SQLITE_OK \<longleftrightarrow> r = SQLITE_OK \<and> s = SQLITE_OK"
  by (cases r) auto

lemma set_spec_trans:
  assumes "set_spec ps am k p A (rc, k1, p1)" "set_spec ps am k1 p1 B (rc', k2, p2)"
  shows "set_spec ps am k p (A \<union> B) (rc_or rc rc', k2, p2)"
proof -
  note s = assms [unfolded set_spec_def prod.case]
  have "\<exists>m. k \<le> m \<and> m < k2 \<and> \<not> am m" if "rc_or rc rc' \<noteq> SQLITE_OK"
  proof (cases "rc = SQLITE_OK")
    case True
    then have "rc' \<noteq> SQLITE_OK" using that by simp
    then obtain m where "k1 \<le> m" "m < k2" "\<not> am m" using s(2) by blast
    then show ?thesis using s(1) by (meson le_trans)
  next
    case False
    then obtain m where "k \<le> m" "m < k1" "\<not> am m" using s(1) by blast
    then show ?thesis using s(2) by (meson less_le_trans)
  qed
  then show ?thesis using s unfolding set_spec_def prod.case by (auto dest: le_trans)
qed

lemma set_all_ok:
  assumes f: "\<And>k p i. P p \<Longrightarrow> i < iSize p \<Longrightarrow> iSize p = n \<Longrightarrow>
      \<exists>rc k' p'. f k p i = Some (rc, k', p') \<and> set_spec ps am k p {i} (rc, k', p') \<and> P p'"
    and vs: "\<forall>v \<in> set vs. v \<le> n"
    and r: "set_spec ps am k0 p0 A (rc, k, p)" "P p" "iSize p0 = n"
  shows "\<exists>rc' k' p'. set_all f vs (rc, k, p) = Some (rc', k', p') \<and>
    set_spec ps am k0 p0 (A \<union> {i. i + 1 \<in> set vs}) (rc', k', p') \<and> P p'"
  using vs r
proof (induction vs arbitrary: rc k p A)
  case (Cons v vs)
  show ?case
  proof (cases "v = 0")
    case True
    then show ?thesis using Cons by auto
  next
    case False
    have sz: "iSize p = n" using Cons.prems(2,4) by (simp add: set_spec_def)
    have lt: "v - 1 < iSize p" using sz False Cons.prems(1) by auto
    obtain rc1 k1 p1 where 1: "f k p (v - 1) = Some (rc1, k1, p1)" "set_spec ps am k p {v - 1} (rc1, k1, p1)" "P p1"
      using f [OF Cons.prems(3) lt sz] by blast
    have "set_spec ps am k0 p0 (A \<union> {v - 1}) (rc_or rc rc1, k1, p1)"
      by (rule set_spec_trans [OF Cons.prems(2) 1(2)])
    moreover have "A \<union> {v - 1} \<union> {i. i + 1 \<in> set vs} = A \<union> {i. i + 1 \<in> set (v # vs)}" using False by auto
    ultimately show ?thesis
      using Cons.IH [of "A \<union> {v - 1}" "rc_or rc rc1" k1 p1] Cons.prems False 1 by auto
  qed
qed simp

lemma bitvecTest_Bitmap: "bitvecTest ps (Bitmap n bs) i = bit (bs ! (i div 8)) (i mod 8)"
  unfolding bitvecTest.simps by (rule bit_test_iff) simp

lemma set_bitmap:
  assumes "pointer_size ps" "bv_ok ps (Bitmap n bs)" "i < n" "j < n"
  shows "bitvecTest ps (Bitmap n (bs[i div 8 := bs ! (i div 8) OR push_bit (i mod 8) 1])) j \<longleftrightarrow>
    j = i \<or> bitvecTest ps (Bitmap n bs) j"
    and "bitvecTest ps (Bitmap n (bs[i div 8 := bs ! (i div 8) AND NOT (push_bit (i mod 8) 1)])) j \<longleftrightarrow>
    j \<noteq> i \<and> bitvecTest ps (Bitmap n bs) j"
proof -
  have len: "i div 8 < length bs" "j div 8 < length bs"
    using assms size_facts(6) [OF assms(1)] by (auto simp: less_mult_imp_div_less)
  have eq: "j = i \<longleftrightarrow> i div 8 = j div 8 \<and> i mod 8 = j mod 8" by (metis div_mult_mod_eq)
  show "bitvecTest ps (Bitmap n (bs[i div 8 := bs ! (i div 8) OR push_bit (i mod 8) 1])) j \<longleftrightarrow>
      j = i \<or> bitvecTest ps (Bitmap n bs) j"
    using len unfolding bitvecTest_Bitmap by (auto simp: nth_list_update bit_simps eq)
  show "bitvecTest ps (Bitmap n (bs[i div 8 := bs ! (i div 8) AND NOT (push_bit (i mod 8) 1)])) j \<longleftrightarrow>
      j \<noteq> i \<and> bitvecTest ps (Bitmap n bs) j"
    using len unfolding bitvecTest_Bitmap by (auto simp: nth_list_update bit_simps eq)
qed

lemma set_hash_put:
  assumes ok: "bv_ok ps (HashSet n k t)" and i: "i < n" and k: "Suc k < length t"
    and m: "m < length t" "y = (home t (i + 1) + m) mod length t" "t ! y = 0"
      "\<And>j. j < m \<Longrightarrow> t ! ((home t (i + 1) + j) mod length t) \<noteq> 0"
  shows "set_spec ps am c (HashSet n k t) {i} (SQLITE_OK, c, HashSet n (k + 1) (t[y := i + 1]))"
proof -
  have y: "y < length t" using mod_lt [OF m(1)] m(2) by simp
  have "used (t[y := i + 1]) = Suc k" using ok used_put [OF y m(3), of "i + 1"] by simp
  moreover have "probing (t[y := i + 1])" using ok probing_put [OF _ y m(3) _ m(1,2,4)] by simp
  moreover have "\<forall>v \<in> set (t[y := i + 1]). v \<le> n" using ok i by (auto dest!: subsetD [OF set_update_subset_insert])
  ultimately have ok': "bv_ok ps (HashSet n (k + 1) (t[y := i + 1]))" using ok k by simp
  show ?thesis
    using bitvecTest_HashSet [OF ok] bitvecTest_HashSet [OF ok'] set_put_empty [OF y m(3), of "i + 1"] ok'
    by (simp add: set_spec_def del: bv_ok_simps bitvecTest.simps)
qed

lemma set_sub_put:
  assumes ps: "pointer_size ps" and ok: "bv_ok ps (Sub n d subs)" and i: "i < n"
    and q: "set_spec ps am k1 q {i mod d} (rc, k', q')" "iSize q = d" "k \<le> k1"
      "\<And>j. j < d \<Longrightarrow> bitvecTest ps q j = (case subs ! (i div d) of None \<Rightarrow> False | Some q \<Rightarrow> bitvecTest ps q j)"
  shows "set_spec ps am k (Sub n d subs) {i} (rc, k', Sub n d (subs[i div d := Some q']))"
proof -
  have d: "0 < d" "d < n" "\<And>j. j < n \<Longrightarrow> j div d < length subs"
    using divisor_facts [OF ps, of n d] ok by auto
  have ok': "bv_ok ps (Sub n d (subs[i div d := Some q']))"
    using ok q(1,2) by (auto simp: set_spec_def dest!: subsetD [OF set_update_subset_insert])
  have T: "bitvecTest ps (Sub n d (subs[i div d := Some q'])) j =
      (if j div d = i div d then bitvecTest ps q' (j mod d) else bitvecTest ps (Sub n d subs) j)"
    "j div d = i div d \<Longrightarrow> bitvecTest ps (Sub n d subs) j = bitvecTest ps q (j mod d)" if "j < n" for j
    using d that i q(4) [of "j mod d"] by (auto simp: bitvecTest_Sub nth_list_update split: option.splits simp del: bitvecTest.simps)
  have eq: "j = i \<longleftrightarrow> j div d = i div d \<and> j mod d = i mod d" for j by (metis div_mult_mod_eq)
  have md: "j mod d < iSize q" for j using d(1) q(2) by simp
  note s = q(1) [unfolded set_spec_def prod.case]
  show ?thesis unfolding set_spec_def prod.case
  proof (intro conjI ok')
    show "\<forall>j < iSize (Sub n d subs). bitvecTest ps (Sub n d (subs[i div d := Some q'])) j \<longrightarrow>
        j \<in> {i} \<or> bitvecTest ps (Sub n d subs) j"
      using s T md eq by (simp del: bitvecTest.simps)
    show "rc = SQLITE_OK \<longrightarrow> (\<forall>j < iSize (Sub n d subs). bitvecTest ps (Sub n d (subs[i div d := Some q'])) j \<longleftrightarrow>
        j \<in> {i} \<or> bitvecTest ps (Sub n d subs) j)"
      using s T md eq by (simp del: bitvecTest.simps)
    show "rc \<noteq> SQLITE_OK \<longrightarrow> (\<exists>m. k \<le> m \<and> m < k' \<and> \<not> am m)" using s q(3) by (meson le_trans)
  qed (use s q(3) in auto)
qed


text \<open>\<open>need p\<close> is how deep the recursion gets at most on a vector of this size and shape.\<close>

fun need :: "bitvec \<Rightarrow> nat" where
  "need (Sub n _ _) = 2 * n"
| "need p = 2 * iSize p + 1"

lemma need_le: "need p \<le> 2 * iSize p + 1"
  by (cases p) auto

lemma set_spec_same: "bv_ok ps p \<Longrightarrow> (\<forall>i \<in> A. bitvecTest ps p i) \<Longrightarrow> set_spec ps am k p A (SQLITE_OK, k, p)"
  by (auto simp: set_spec_def)

lemma set_spec_nomem: "bv_ok ps p \<Longrightarrow> \<not> am k \<Longrightarrow> set_spec ps am k p A (SQLITE_NOMEM, k + 1, p)"
  by (auto simp: set_spec_def)

lemma bitvecSet_ok:
  assumes ps: "pointer_size ps"
  shows "\<lbrakk>bv_ok ps p; i < iSize p; need p \<le> fuel\<rbrakk> \<Longrightarrow>
    \<exists>rc k' p'. bitvecSet fuel ps am k p i = Some (rc, k', p') \<and> set_spec ps am k p {i} (rc, k', p') \<and>
      (is_Sub p \<longrightarrow> is_Sub p')"
proof (induction fuel arbitrary: p i k)
  case 0
  then show ?case by (cases p) auto
next
  case (Suc fuel)
  show ?case
  proof (cases p)
    case (Bitmap n bs)
    have "i div 8 < length bs" using Suc.prems Bitmap size_facts(6) [OF ps] by (auto simp: less_mult_imp_div_less)
    then have "set_spec ps am k p {i} (SQLITE_OK, k, Bitmap n (bs[i div 8 := bs ! (i div 8) OR push_bit (i mod 8) 1]))"
      using Suc.prems Bitmap set_bitmap(1) [OF ps, of n bs i] unfolding set_spec_def prod.case
      by (simp del: bitvecTest.simps)
    then show ?thesis using Bitmap by simp
  next
    case (Sub n d subs)
    have d: "0 < d" "d < n" "i div d < length subs" "i mod d < d"
      using divisor_facts [OF ps, of n d] Suc.prems Sub by auto
    have nd: "d + BITVEC_NPTR ps \<le> 2 ^ 32" using Suc.prems Sub d(2) by auto
    have ok: "bv_ok ps (Sub n d subs)" "i < n" using Suc.prems Sub by auto
    show ?thesis
    proof (cases "subs ! (i div d)")
      case None
      show ?thesis
      proof (cases "am k")
        case True
        define q where "q = bitvec_new ps d"
        have q: "bv_ok ps q" "iSize q = d" "\<And>j. j < d \<Longrightarrow> \<not> bitvecTest ps q j"
          using bv_ok_new [OF ps nd] bitvecTest_new [OF ps] by (auto simp: q_def)
        obtain rc k' q' where r: "bitvecSet fuel ps am (k + 1) q (i mod d) = Some (rc, k', q')"
          "set_spec ps am (k + 1) q {i mod d} (rc, k', q')"
          using Suc.IH [OF q(1), of "i mod d" "k + 1"] need_le [of q] q(2) d Suc.prems(3) Sub by auto
        have "set_spec ps am k (Sub n d subs) {i} (rc, k', Sub n d (subs[i div d := Some q']))"
          by (rule set_sub_put [OF ps ok r(2) q(2)]) (use q(3) None in auto)
        then show ?thesis using Sub None True r(1) by (simp add: sqlite3BitvecCreate_def q_def [symmetric])
      next
        case False
        then show ?thesis using Sub None set_spec_nomem [where am = am and k = k, OF ok(1) False] by (simp add: sqlite3BitvecCreate_def)
      qed
    next
      case (Some q)
      have "Some q \<in> set subs" using Some d(3) by (metis nth_mem)
      then have q: "bv_ok ps q" "iSize q = d" using ok(1) by auto
      obtain rc k' q' where r: "bitvecSet fuel ps am k q (i mod d) = Some (rc, k', q')"
        "set_spec ps am k q {i mod d} (rc, k', q')"
        using Suc.IH [OF q(1), of "i mod d" k] need_le [of q] q(2) d Suc.prems(3) Sub by auto
      have "set_spec ps am k (Sub n d subs) {i} (rc, k', Sub n d (subs[i div d := Some q']))"
        by (rule set_sub_put [OF ps ok r(2) q(2)]) (use Some in auto)
      then show ?thesis using Sub Some r(1) by simp
    qed
  next
    case (HashSet n c t)
    have ok: "bv_ok ps (HashSet n c t)" "i < n" using Suc.prems HashSet by auto
    have t: "length t = BITVEC_NINT ps" "probing t" "c < length t" "c = used t" "\<forall>v \<in> set t. v \<le> n" using ok by auto
    have h: "BITVEC_HASH ps i = home t (i + 1)" by (simp add: BITVEC_HASH_def home_def t)
    define put where "put = (\<lambda>y. Some (SQLITE_OK, k, HashSet n (c + 1) (t[y := i + 1])))"
    define re where "re = (\<lambda>y. if c \<ge> BITVEC_MXHASH ps then
        (if \<not> am k then Some (SQLITE_NOMEM, k + 1, p)
         else let d = ((n + BITVEC_NPTR ps - 1) mod 2 ^ 32) div BITVEC_NPTR ps;
                  p = Sub n d (replicate (BITVEC_NPTR ps) None)
              in case bitvecSet fuel ps am (k + 1) p i of
                   None \<Rightarrow> None | Some r \<Rightarrow> set_all (bitvecSet fuel ps am) t r)
        else put y)"
    define good where "good = (\<lambda>x. \<exists>rc k' p'. x = Some (rc, k', p') \<and> set_spec ps am k p {i} (rc, k', p'))"
    have step: "bitvecSet (Suc fuel) ps am k p i =
        (if t ! home t (i + 1) = 0 then (if c < BITVEC_NINT ps - 1 then put (home t (i + 1)) else re (home t (i + 1)))
         else case probe t (i + 1) (home t (i + 1)) (length t) of
                None \<Rightarrow> None | Some (Inr _) \<Rightarrow> Some (SQLITE_OK, k, p) | Some (Inl y) \<Rightarrow> re y)"
      by (auto simp: HashSet h put_def re_def Let_def split: option.split sum.split)
    obtain x where x: "x < length t" "t ! x = 0" using used_less_empty t by blast
    have put_good: "good (put y)" if "m < length t" "y = (home t (i + 1) + m) mod length t" "t ! y = 0"
        "\<And>j. j < m \<Longrightarrow> t ! ((home t (i + 1) + j) mod length t) \<noteq> 0" "Suc c < length t" for m y
      using set_hash_put [OF ok that(5,1-4), of am k] HashSet unfolding good_def put_def by blast
    have rehash_good: "good (re y)" if "c \<ge> BITVEC_MXHASH ps" for y
    proof (cases "am k")
      case False
      then show ?thesis using that set_spec_nomem [where am = am and k = k, OF Suc.prems(1) False] by (auto simp: good_def re_def)
    next
      case True
      define d where "d = (n + BITVEC_NPTR ps - 1) div BITVEC_NPTR ps"
      define s where "s = Sub n d (replicate (BITVEC_NPTR ps) None)"
      have s: "bv_ok ps s" "iSize s = n" "is_Sub s" using ok by (auto simp: s_def d_def)
      have Ts: "\<not> bitvecTest ps s j" if "j < n" for j
        using divisor_facts(3) [OF ps _ d_def that] ok(1) by (simp add: s_def)
      have sub_spec: "\<exists>rc k' p'. bitvecSet fuel ps am k p i = Some (rc, k', p') \<and> set_spec ps am k p {i} (rc, k', p') \<and>
          (is_Sub p' \<and> bv_ok ps p')" if "is_Sub p \<and> bv_ok ps p" "i < iSize p" "iSize p = n" for k p i
      proof -
        have "need p \<le> fuel" using that Suc.prems(3) HashSet by (cases p) auto
        then show ?thesis using Suc.IH [of p i k] that by (fastforce simp: set_spec_def)
      qed
      obtain rc1 k1 p1 where 1: "bitvecSet fuel ps am (k + 1) s i = Some (rc1, k1, p1)"
        "set_spec ps am (k + 1) s {i} (rc1, k1, p1)" "is_Sub p1 \<and> bv_ok ps p1"
        using sub_spec [of s i "k + 1"] s ok(2) by blast
      obtain rc2 k2 p2 where 2: "set_all (bitvecSet fuel ps am) t (rc1, k1, p1) = Some (rc2, k2, p2)"
        "set_spec ps am (k + 1) s ({i} \<union> {j. j + 1 \<in> set t}) (rc2, k2, p2)"
        using set_all_ok [where f = "bitvecSet fuel ps am" and P = "\<lambda>p. is_Sub p \<and> bv_ok ps p", OF sub_spec t(5) 1(2,3) s(2)] by blast
      have "set_spec ps am k p {i} (rc2, k2, p2)"
        using 2(2) Ts s(2) bitvecTest_HashSet [OF ok(1)] HashSet unfolding set_spec_def prod.case
        by (auto simp del: bv_ok_simps bitvecTest.simps intro: Suc_leD)
      moreover have "re y = set_all (bitvecSet fuel ps am) t (rc1, k1, p1)"
      proof -
        have "(n + BITVEC_NPTR ps - 1) mod 2 ^ 32 = n + BITVEC_NPTR ps - 1"
          using ok(1) size_facts(1) [OF ps] by (intro mod_less) auto
        then show ?thesis using that True 1(1) by (simp add: re_def Let_def s_def d_def)
      qed
      ultimately show ?thesis using 2(1) unfolding good_def by auto
    qed
    have re_good: "good (re y)" if "m < length t" "y = (home t (i + 1) + m) mod length t" "t ! y = 0"
        "\<And>j. j < m \<Longrightarrow> t ! ((home t (i + 1) + j) mod length t) \<noteq> 0" for m y
    proof (cases "c \<ge> BITVEC_MXHASH ps")
      case False
      then have "Suc c < length t" using size_facts(5) [OF ps] t(1) by linarith
      then show ?thesis using put_good [OF that] False by (simp add: re_def)
    qed (rule rehash_good)
    have "good (bitvecSet (Suc fuel) ps am k p i)"
    proof (cases "t ! home t (i + 1) = 0")
      case True
      have m: "0 < length t" "home t (i + 1) = (home t (i + 1) + 0) mod length t" using x by (auto simp: home_def mod_lt)
      show ?thesis
      proof (cases "c < BITVEC_NINT ps - 1")
        case c: True
        then show ?thesis using put_good [OF m True] step True t(1) by simp
      next
        case False
        then show ?thesis using re_good [OF m True] step True by simp
      qed
    next
      case False
      show ?thesis
      proof (rule probe_ok [OF t(2) x, of "i + 1"])
        fix y assume "probe t (i + 1) (home t (i + 1)) (length t) = Some (Inr y)" "i + 1 \<in> set t"
        moreover from this have "set_spec ps am k p {i} (SQLITE_OK, k, p)"
          using bitvecTest_HashSet [OF ok(1)] HashSet Suc.prems(1) by (intro set_spec_same) (simp_all del: bitvecTest.simps)
        ultimately show ?thesis using step False by (simp add: good_def)
      next
        fix m y assume "probe t (i + 1) (home t (i + 1)) (length t) = Some (Inl y)" "t ! y = 0" "m < length t"
          "y = (home t (i + 1) + m) mod length t" "\<And>j. j < m \<Longrightarrow> t ! ((home t (i + 1) + j) mod length t) \<noteq> 0"
        then show ?thesis using re_good [of m y] step False by simp
      qed simp
    qed
    then show ?thesis using HashSet unfolding good_def by auto
  qed
qed


section \<open>Clearing a bit\<close>

definition clear_spec :: "nat \<Rightarrow> bitvec \<Rightarrow> nat \<Rightarrow> bitvec \<Rightarrow> bool" where
  "clear_spec ps p i p' \<longleftrightarrow>
     bv_ok ps p' \<and> iSize p' = iSize p \<and>
     (\<forall>j < iSize p. bitvecTest ps p' j \<longleftrightarrow> j \<noteq> i \<and> bitvecTest ps p j)"

lemma bitvecClear_Sub:
  assumes "i div d < length subs"
  shows "bitvecClear ps (Sub n d subs) i =
    (case subs ! (i div d) of
       None \<Rightarrow> Some (Sub n d subs)
     | Some q \<Rightarrow> map_option (\<lambda>q. Sub n d (subs[i div d := Some q])) (bitvecClear ps q (i mod d)))"
  using assms by (simp split: option.splits)

lemma bitvecClear_ok:
  assumes ps: "pointer_size ps" and "bv_ok ps p" "i < iSize p"
  shows "\<exists>p'. bitvecClear ps p i = Some p' \<and> clear_spec ps p i p'"
  using assms(2,3)
proof (induction arbitrary: i)
  case (Bitmap_ok n bs)
  then show ?case using set_bitmap(2) [OF ps, of n bs i] by (simp add: clear_spec_def del: bitvecTest.simps)
next
  case (HashSet_ok n t k)
  have ok: "bv_ok ps (HashSet n k t)" using HashSet_ok by simp
  have e: "used (replicate (length t) 0) = 0" "probing (replicate (length t) (0 :: nat))"
    by (auto simp: used_def probing_def mod_lt)
  obtain t' where t': "clear_rebuild ps (i + 1) t (0, replicate (length t) 0) = Some (used t', t')" "length t' = length t"
    "probing t'" "used t' \<le> used t" "\<And>w. w \<noteq> 0 \<Longrightarrow> w \<in> set t' \<longleftrightarrow> w \<in> set t \<and> w \<noteq> i + 1"
    using clear_rebuild_ok [of "replicate (length t) 0" ps t "i + 1"] HashSet_ok.hyps e by auto
  have "bv_ok ps (HashSet n (used t') t')"
    using HashSet_ok.hyps t' by (auto, metis le0 neq0_conv)
  moreover from this have "bitvecTest ps (HashSet n (used t') t') j \<longleftrightarrow> j \<noteq> i \<and> bitvecTest ps (HashSet n k t) j" for j
    using bitvecTest_HashSet [OF ok] bitvecTest_HashSet t'(5) by (auto simp del: bitvecTest.simps bv_ok_simps)
  ultimately show ?case using t'(1) by (simp add: clear_spec_def del: bitvecTest.simps bv_ok_simps)
next
  case (Sub_ok n d subs)
  have ok: "bv_ok ps (Sub n d subs)" using Sub_ok by simp
  have d: "0 < d" "d < n" "\<And>j. j < n \<Longrightarrow> j div d < length subs"
    using divisor_facts [OF ps, of n d] ok by auto
  have i: "i < n" "i div d < length subs" using Sub_ok.prems d(3) by auto
  show ?case
  proof (cases "subs ! (i div d)")
    case None
    have "\<not> bitvecTest ps (Sub n d subs) i" using None i by simp
    then show ?thesis using None i ok unfolding bitvecClear_Sub [OF i(2)]
      by (auto simp: clear_spec_def simp del: bitvecTest.simps)
  next
    case (Some q)
    have mem: "Some q \<in> set subs" using Some i(2) by (metis nth_mem)
    then have "iSize q = d" using Sub_ok by blast
    then obtain q' where q': "bitvecClear ps q (i mod d) = Some q'" "clear_spec ps q (i mod d) q'"
    proof -
      have "i mod d < iSize q" using d(1) \<open>iSize q = d\<close> by simp
      then show ?thesis using Sub_ok mem that by blast
    qed
    have ok': "bv_ok ps (Sub n d (subs[i div d := Some q']))"
      using ok q'(2) \<open>iSize q = d\<close> by (auto simp: clear_spec_def dest!: subsetD [OF set_update_subset_insert])
    have "bitvecTest ps (Sub n d (subs[i div d := Some q'])) j \<longleftrightarrow> j \<noteq> i \<and> bitvecTest ps (Sub n d subs) j" if "j < n" for j
    proof -
      have "j = i \<longleftrightarrow> j div d = i div d \<and> j mod d = i mod d" by (metis div_mult_mod_eq)
      moreover have "bitvecTest ps q' (j mod d) \<longleftrightarrow> j mod d \<noteq> i mod d \<and> bitvecTest ps q (j mod d)"
        using q'(2) d(1) \<open>iSize q = d\<close> by (simp add: clear_spec_def)
      ultimately show ?thesis using d that i Some by (auto simp: bitvecTest_Sub nth_list_update simp del: bitvecTest.simps)
    qed
    then show ?thesis using ok' Some q'(1) unfolding bitvecClear_Sub [OF i(2)]
      by (simp add: clear_spec_def del: bitvecTest.simps)
  qed
qed


section \<open>The interface: a set of numbers\<close>

text \<open>
  What the pager relies on: a set of the numbers from 1 to \<open>bound\<close>, into which an element goes
  unless there is no memory. \<open>put\<close> gives \<open>None\<close> for the code \<open>SQLITE_NOMEM\<close>.
\<close>

locale number_set =
  fixes inv :: "'m \<Rightarrow> bool"
    and bound :: "'m \<Rightarrow> nat"
    and test :: "'m \<Rightarrow> nat \<Rightarrow> bool"
    and put :: "(nat \<Rightarrow> bool) \<Rightarrow> nat \<Rightarrow> 'm \<Rightarrow> nat \<Rightarrow> (rc \<times> nat \<times> 'm) option"
    and clear :: "'m \<Rightarrow> nat \<Rightarrow> 'm option"
  assumes test_range: "\<lbrakk>inv m; test m j; j < 2 ^ 32\<rbrakk> \<Longrightarrow> 1 \<le> j \<and> j \<le> bound m"
    and put_law: "\<lbrakk>inv m; 1 \<le> i; i \<le> bound m\<rbrakk> \<Longrightarrow>
      \<exists>r k' m'. put am k m i = Some (r, k', m') \<and> inv m' \<and> bound m' = bound m \<and>
        (\<forall>j < 2 ^ 32. test m' j \<longrightarrow> j = i \<or> test m j) \<and>
        (r = SQLITE_OK \<longrightarrow> (\<forall>j < 2 ^ 32. test m' j \<longleftrightarrow> j = i \<or> test m j)) \<and>
        (r \<noteq> SQLITE_OK \<longrightarrow> (\<exists>c. \<not> am c))"
    and clear_law: "\<lbrakk>inv m; 1 \<le> i; i \<le> bound m\<rbrakk> \<Longrightarrow>
      \<exists>m'. clear m i = Some m' \<and> inv m' \<and> bound m' = bound m \<and> (\<forall>j < 2 ^ 32. test m' j \<longleftrightarrow> j \<noteq> i \<and> test m j)"
begin

lemma put_no_failure:
  assumes "inv m" "1 \<le> i" "i \<le> bound m" "\<forall>c. am c"
  obtains k' m' where "put am k m i = Some (SQLITE_OK, k', m')" "inv m'" "bound m' = bound m"
    "\<And>j. j < 2 ^ 32 \<Longrightarrow> test m' j \<longleftrightarrow> j = i \<or> test m j"
  using put_law [OF assms(1-3), of am k] assms(4) by blast

lemma clear_removes:
  assumes "inv m" "1 \<le> i" "i \<le> bound m"
  obtains m' where "clear m i = Some m'" "inv m'" "bound m' = bound m"
    "\<And>j. j < 2 ^ 32 \<Longrightarrow> test m' j \<longleftrightarrow> j \<noteq> i \<and> test m j"
  using clear_law [OF assms] by blast

text \<open>Setting a number and clearing it restores the set without the number.\<close>

lemma put_clear:
  assumes "inv m" "1 \<le> i" "i \<le> bound m" "\<forall>c. am c" "i < 2 ^ 32"
  shows "\<exists>k' m' m''. put am k m i = Some (SQLITE_OK, k', m') \<and> clear m' i = Some m'' \<and>
    (\<forall>j < 2 ^ 32. test m'' j \<longleftrightarrow> j \<noteq> i \<and> test m j)"
proof -
  obtain k' m' where 1: "put am k m i = Some (SQLITE_OK, k', m')" "inv m'" "bound m' = bound m"
    "\<And>j. j < 2 ^ 32 \<Longrightarrow> test m' j \<longleftrightarrow> j = i \<or> test m j"
    by (rule put_no_failure [OF assms(1-4), where k = k]) (rule that)
  obtain m'' where "clear m' i = Some m''" "\<And>j. j < 2 ^ 32 \<Longrightarrow> test m'' j \<longleftrightarrow> j \<noteq> i \<and> test m' j"
  proof -
    have "i \<le> bound m'" using 1(3) assms(3) by simp
    from clear_removes [OF 1(2) assms(2) this] that show ?thesis by metis
  qed
  then show ?thesis using 1 by blast
qed

end

text \<open>
  The invariant of a vector in use: it is well formed for the pointer size, and its size leaves
  room below $2^{32}$.
\<close>

definition bitvec_inv :: "nat \<Rightarrow> bitvec \<Rightarrow> bool" where
  "bitvec_inv ps p \<longleftrightarrow> pointer_size ps \<and> bv_ok ps p \<and> iSize p < 2 ^ 32"

definition bitvec_put :: "nat \<Rightarrow> (nat \<Rightarrow> bool) \<Rightarrow> nat \<Rightarrow> bitvec \<Rightarrow> nat \<Rightarrow> (rc \<times> nat \<times> bitvec) option" where
  "bitvec_put ps am k p i = map_option (\<lambda>(rc, k, p). (rc, k, the p)) (sqlite3BitvecSet ps am k (Some p) i)"

definition bitvec_clear :: "nat \<Rightarrow> bitvec \<Rightarrow> nat \<Rightarrow> bitvec option" where
  "bitvec_clear ps p i = map_option the (sqlite3BitvecClear ps (Some p) i)"

lemma test_not_null:
  assumes "iSize p < 2 ^ 32" "j < 2 ^ 32"
  shows "sqlite3BitvecTestNotNull ps p j \<longleftrightarrow> 1 \<le> j \<and> j \<le> iSize p \<and> bitvecTest ps p (j - 1)"
proof (cases j)
  case (Suc i)
  then have "(j + (2 ^ 32 - 1)) mod 2 ^ 32 = i" using assms(2) by simp
  then show ?thesis using Suc by (auto simp: sqlite3BitvecTestNotNull_def)
next
  case 0
  then show ?thesis using assms(1) by (simp add: sqlite3BitvecTestNotNull_def)
qed

lemma bitvecSet_set:
  assumes inv: "bitvec_inv ps p" and i: "1 \<le> i" "i \<le> iSize p"
  shows "\<exists>rc k' p'. sqlite3BitvecSet ps am k (Some p) i = Some (rc, k', Some p') \<and> bitvec_inv ps p' \<and> iSize p' = iSize p \<and>
    (\<forall>j < 2 ^ 32. sqlite3BitvecTestNotNull ps p' j \<longrightarrow> j = i \<or> sqlite3BitvecTestNotNull ps p j) \<and>
    (rc = SQLITE_OK \<longrightarrow> (\<forall>j < 2 ^ 32. sqlite3BitvecTestNotNull ps p' j \<longleftrightarrow> j = i \<or> sqlite3BitvecTestNotNull ps p j)) \<and>
    (rc \<noteq> SQLITE_OK \<longrightarrow> (\<exists>c. k \<le> c \<and> c < k' \<and> \<not> am c))"
proof -
  have ps: "pointer_size ps" and ok: "bv_ok ps p" and n: "iSize p < 2 ^ 32" using inv by (auto simp: bitvec_inv_def)
  obtain rc k' p' where r: "bitvecSet (2 * iSize p + 2) ps am k p (i - 1) = Some (rc, k', p')"
    "set_spec ps am k p {i - 1} (rc, k', p')"
    using bitvecSet_ok [OF ps ok, of "i - 1" "2 * iSize p + 2" am k] need_le [of p] i by fastforce
  note s = r(2) [unfolded set_spec_def prod.case]
  have n': "iSize p' < 2 ^ 32" using s n by simp
  have "bitvec_inv ps p'" using s n' ps by (simp add: bitvec_inv_def)
  moreover have "sqlite3BitvecTestNotNull ps p' j \<longrightarrow> j = i \<or> sqlite3BitvecTestNotNull ps p j" if "j < 2 ^ 32" for j
  proof -
    have "j - 1 = i - 1 \<longleftrightarrow> j = i" "j - 1 < iSize p" if "1 \<le> j" "j \<le> iSize p" using that i by auto
    then show ?thesis using s test_not_null [OF n' that] test_not_null [OF n that] i by auto
  qed
  moreover have "sqlite3BitvecTestNotNull ps p' j \<longleftrightarrow> j = i \<or> sqlite3BitvecTestNotNull ps p j"
    if "j < 2 ^ 32" "rc = SQLITE_OK" for j
  proof -
    have "j - 1 = i - 1 \<longleftrightarrow> j = i" if "1 \<le> j" using that i by auto
    then show ?thesis
      using s test_not_null [OF n' that(1)] test_not_null [OF n that(1)] that(2) i by auto
  qed
  ultimately show ?thesis using r(1) s by (auto simp: sqlite3BitvecSet_def)
qed

lemma bitvecClear_clear:
  assumes inv: "bitvec_inv ps p" and i: "1 \<le> i" "i \<le> iSize p"
  shows "\<exists>p'. sqlite3BitvecClear ps (Some p) i = Some (Some p') \<and> bitvec_inv ps p' \<and> iSize p' = iSize p \<and>
    (\<forall>j < 2 ^ 32. sqlite3BitvecTestNotNull ps p' j \<longleftrightarrow> j \<noteq> i \<and> sqlite3BitvecTestNotNull ps p j)"
proof -
  have ps: "pointer_size ps" and ok: "bv_ok ps p" and n: "iSize p < 2 ^ 32" using inv by (auto simp: bitvec_inv_def)
  obtain p' where p': "bitvecClear ps p (i - 1) = Some p'" "clear_spec ps p (i - 1) p'"
  proof -
    have "i - 1 < iSize p" using i by linarith
    then show ?thesis using bitvecClear_ok [OF ps ok] that by blast
  qed
  note s = p'(2) [unfolded clear_spec_def]
  have n': "iSize p' < 2 ^ 32" using s n by simp
  have "bitvec_inv ps p'" using s n' ps by (simp add: bitvec_inv_def)
  moreover have "sqlite3BitvecTestNotNull ps p' j \<longleftrightarrow> j \<noteq> i \<and> sqlite3BitvecTestNotNull ps p j" if "j < 2 ^ 32" for j
  proof -
    have "j - 1 = i - 1 \<longleftrightarrow> j = i" if "1 \<le> j" using that i by auto
    then show ?thesis using s test_not_null [OF n' that] test_not_null [OF n that] i by auto
  qed
  ultimately show ?thesis using p'(1) s by (auto simp: sqlite3BitvecClear_def)
qed

interpretation bitvec: number_set "bitvec_inv ps" iSize "sqlite3BitvecTestNotNull ps" "bitvec_put ps" "bitvec_clear ps"
proof
  show "1 \<le> j \<and> j \<le> iSize m" if "bitvec_inv ps m" "sqlite3BitvecTestNotNull ps m j" "j < 2 ^ 32" for m j
    using that test_not_null by (simp add: bitvec_inv_def)
  show "\<exists>r k' m'. bitvec_put ps am k m i = Some (r, k', m') \<and> bitvec_inv ps m' \<and> iSize m' = iSize m \<and>
      (\<forall>j < 2 ^ 32. sqlite3BitvecTestNotNull ps m' j \<longrightarrow> j = i \<or> sqlite3BitvecTestNotNull ps m j) \<and>
      (r = SQLITE_OK \<longrightarrow> (\<forall>j < 2 ^ 32. sqlite3BitvecTestNotNull ps m' j \<longleftrightarrow> j = i \<or> sqlite3BitvecTestNotNull ps m j)) \<and>
      (r \<noteq> SQLITE_OK \<longrightarrow> (\<exists>c. \<not> am c))"
    if "bitvec_inv ps m" "1 \<le> i" "i \<le> iSize m" for m i am k
    using bitvecSet_set [OF that, of am k] unfolding bitvec_put_def by force
  show "\<exists>m'. bitvec_clear ps m i = Some m' \<and> bitvec_inv ps m' \<and> iSize m' = iSize m \<and>
      (\<forall>j < 2 ^ 32. sqlite3BitvecTestNotNull ps m' j \<longleftrightarrow> j \<noteq> i \<and> sqlite3BitvecTestNotNull ps m j)"
    if "bitvec_inv ps m" "1 \<le> i" "i \<le> iSize m" for m i
    using bitvecClear_clear [OF that] unfolding bitvec_clear_def by force
qed

lemma bitvec_inv_new: "pointer_size ps \<Longrightarrow> n + BITVEC_NPTR ps \<le> 2 ^ 32 \<Longrightarrow> bitvec_inv ps (bitvec_new ps n)"
  using bv_ok_new [of ps n] size_facts(1) [of ps] by (simp add: bitvec_inv_def)

lemma bitvec_new_empty:
  assumes "pointer_size ps" "n + BITVEC_NPTR ps \<le> 2 ^ 32" "j < 2 ^ 32"
  shows "\<not> sqlite3BitvecTestNotNull ps (bitvec_new ps n) j"
  using assms bitvec_inv_new [OF assms(1,2)] bv_ok_new(2) [OF assms(1,2)] bitvecTest_new [OF assms(1), of "j - 1" n]
  by (auto simp: test_not_null bitvec_inv_def)

section \<open>Properties\<close>

text \<open>
  C10: \<open>sqlite3BitvecSet\<close> adds one number. On a well-formed vector, for a number in range, it
  always returns and leaves a well-formed vector of the same size, in whichever of the three
  representations and through every change of representation. When the code is \<open>SQLITE_OK\<close> the
  numbers in the vector are those that were there and the new one; otherwise an allocation
  made by this call has failed, and no number but the new one has appeared.
\<close>

theorem bitvec_set:
  assumes "bitvec_inv ps p" "1 \<le> i" "i \<le> iSize p"
  shows "\<exists>rc k' p'. sqlite3BitvecSet ps am k (Some p) i = Some (rc, k', Some p') \<and> bitvec_inv ps p' \<and> iSize p' = iSize p \<and>
    (\<forall>j < 2 ^ 32. sqlite3BitvecTest ps (Some p') j \<longrightarrow> j = i \<or> sqlite3BitvecTest ps (Some p) j) \<and>
    (rc = SQLITE_OK \<longrightarrow> (\<forall>j < 2 ^ 32. sqlite3BitvecTest ps (Some p') j \<longleftrightarrow> j = i \<or> sqlite3BitvecTest ps (Some p) j)) \<and>
    (rc \<noteq> SQLITE_OK \<longrightarrow> (\<exists>c. k \<le> c \<and> c < k' \<and> \<not> am c))"
  using bitvecSet_set [OF assms, of am k] by (simp add: sqlite3BitvecTest_def)

theorem bitvec_set_witness:
  "\<exists>k' p'. sqlite3BitvecSet 8 (\<lambda>_. True) 0 (Some (bitvec_new 8 100000)) 77777 = Some (SQLITE_OK, k', Some p') \<and>
     sqlite3BitvecTest 8 (Some p') 77777"
proof -
  have "bitvec_inv 8 (bitvec_new 8 100000)" "iSize (bitvec_new 8 100000) = 100000"
    using bitvec_inv_new [of 8 100000] bv_ok_new(2) [of 8 100000] by (simp_all add: bitvec_sizes)
  then show ?thesis using bitvec_set [of 8 "bitvec_new 8 100000" 77777 "\<lambda>_. True" 0] by auto
qed

text \<open>
  C29: \<open>sqlite3BitvecClear\<close> removes one number: on a well-formed vector it returns (its walk for an
  empty slot always ends), keeps the vector well formed, and a number is in the result exactly
  when it was in the vector and is not the one cleared.
\<close>

theorem bitvec_clear:
  assumes "bitvec_inv ps p" "1 \<le> i" "i \<le> iSize p"
  shows "\<exists>p'. sqlite3BitvecClear ps (Some p) i = Some (Some p') \<and> bitvec_inv ps p' \<and> iSize p' = iSize p \<and>
    (\<forall>j < 2 ^ 32. sqlite3BitvecTest ps (Some p') j \<longleftrightarrow> j \<noteq> i \<and> sqlite3BitvecTest ps (Some p) j)"
  using bitvecClear_clear [OF assms] by (simp add: sqlite3BitvecTest_def)

theorem bitvec_clear_witness:
  "\<exists>p'. sqlite3BitvecClear 4 (Some (bitvec_new 4 5000)) 17 = Some (Some p') \<and> \<not> sqlite3BitvecTest 4 (Some p') 17"
proof -
  have "bitvec_inv 4 (bitvec_new 4 5000)" "iSize (bitvec_new 4 5000) = 5000"
    using bitvec_inv_new [of 4 5000] bv_ok_new(2) [of 4 5000] by (simp_all add: bitvec_sizes)
  then show ?thesis using bitvec_clear [of 4 "bitvec_new 4 5000" 17] by auto
qed

end
