(* ===== verification/BitvecProgram.thy ===== *)
theory BitvecProgram
  imports Bitvec
begin

text \<open>
  \<open>sqlite3BitvecBuiltinTest\<close>, the interpreter that runs a program of set and clear operations on
  a bit vector and on a plain array of bits and compares the two, and the proof that it finds
  no difference: for every program that works on both, it halts and returns 0.
\<close>

section \<open>The interpreter\<close>

definition SETBIT :: "u8 list \<Rightarrow> nat \<Rightarrow> u8 list" where
  "SETBIT V i = V[drop_bit 3 i := V ! drop_bit 3 i OR push_bit (i AND 7) 1]"

definition CLEARBIT :: "u8 list \<Rightarrow> nat \<Rightarrow> u8 list" where
  "CLEARBIT V i = V[drop_bit 3 i := V ! drop_bit 3 i AND NOT (push_bit (i AND 7) 1)]"

definition TESTBIT :: "u8 list \<Rightarrow> nat \<Rightarrow> bool" where
  "TESTBIT V i = (V ! drop_bit 3 i AND push_bit (i AND 7) 1 \<noteq> 0)"

text \<open>
  The state of the loop: the program, which its own execution changes, the program counter,
  the vector, the array, and how many random numbers and allocations have been used.
\<close>

record bt =
  aOp :: "cint list"
  pc :: nat
  pBitvec :: bitvec
  pV :: "u8 list"
  nrnd :: nat
  nalloc :: nat

text \<open>
  The first half of an iteration, which decodes an instruction, counts it down and gives the
  opcode and the bit. \<open>rnd\<close> gives the numbers of \<open>sqlite3_randomness\<close>.
\<close>

definition bt_fetch :: "(nat \<Rightarrow> cint) \<Rightarrow> nat \<Rightarrow> bt \<Rightarrow> cint \<times> nat \<times> bt" where
  "bt_fetch rnd sz s =
     (let op = aOp s ! pc s;
          (nx, i, s1) =
            (if op = 1 \<or> op = 2 \<or> op = 5
             then (4, aOp s ! (pc s + 2) - 1,
                   s\<lparr>aOp := (aOp s)[pc s + 2 := aOp s ! (pc s + 2) + aOp s ! (pc s + 3)]\<rparr>)
             else (2, rnd (nrnd s), s\<lparr>nrnd := nrnd s + 1\<rparr>));
          s2 = s1\<lparr>aOp := (aOp s1)[pc s + 1 := aOp s1 ! (pc s + 1) - 1]\<rparr>;
          nx = (if aOp s2 ! (pc s + 1) > 0 then 0 else nx)
      in (op, nat ((i AND 0x7fffffff) mod int sz), s2\<lparr>pc := pc s + nx\<rparr>))"

text \<open>
  The second half, which sets or clears the bit in both. The result is the state and whether
  the loop goes on; it does not when \<open>sqlite3BitvecSet\<close> fails.
\<close>

definition bt_apply :: "nat \<Rightarrow> (nat \<Rightarrow> bool) \<Rightarrow> cint \<Rightarrow> nat \<Rightarrow> bt \<Rightarrow> (bool \<times> bt) option" where
  "bt_apply ps am op i s =
     (if op AND 1 \<noteq> 0 then
        (let s = s\<lparr>pV := SETBIT (pV s) (i + 1)\<rparr>
         in if op \<noteq> 5 then
              (case sqlite3BitvecSet ps am (nalloc s) (Some (pBitvec s)) (i + 1) of
                 None \<Rightarrow> None
               | Some (rc, k, p) \<Rightarrow> Some (rc = SQLITE_OK, s\<lparr>nalloc := k, pBitvec := the p\<rparr>))
            else Some (True, s))
      else
        (let s = s\<lparr>pV := CLEARBIT (pV s) (i + 1)\<rparr>
         in map_option (\<lambda>p. (True, s\<lparr>pBitvec := the p\<rparr>)) (sqlite3BitvecClear ps (Some (pBitvec s)) (i + 1))))"

definition bt_step :: "nat \<Rightarrow> (nat \<Rightarrow> bool) \<Rightarrow> (nat \<Rightarrow> cint) \<Rightarrow> nat \<Rightarrow> bt \<Rightarrow> (bool \<times> bt) option" where
  "bt_step ps am rnd sz s = (case bt_fetch rnd sz s of (op, i, s) \<Rightarrow> bt_apply ps am op i s)"

text \<open>The loop: the result is \<open>None\<close> if it does not end.\<close>

partial_function (option) bt_loop ::
  "nat \<Rightarrow> (nat \<Rightarrow> bool) \<Rightarrow> (nat \<Rightarrow> cint) \<Rightarrow> nat \<Rightarrow> bt \<Rightarrow> (bool \<times> bt) option" where
  "bt_loop ps am rnd sz s =
     (if aOp s ! pc s = 0 then Some (True, s)
      else Option.bind (bt_step ps am rnd sz s)
             (\<lambda>(go, s). if go then bt_loop ps am rnd sz s else Some (False, s)))"

text \<open>The comparison of the array with the vector.\<close>

definition bt_verdict :: "nat \<Rightarrow> nat \<Rightarrow> bt \<Rightarrow> cint" where
  "bt_verdict ps sz s =
     (let p = pBitvec s;
          rc = of_bool (sqlite3BitvecTest ps None 0) + of_bool (sqlite3BitvecTest ps (Some p) (sz + 1))
                 + of_bool (sqlite3BitvecTest ps (Some p) 0) + (int (sqlite3BitvecSize p) - int sz)
      in case List.find (\<lambda>i. TESTBIT (pV s) i \<noteq> sqlite3BitvecTest ps (Some p) i) [1..<sz + 1] of
           None \<Rightarrow> rc | Some i \<Rightarrow> int i)"

text \<open>\<open>malloc\<close> tells whether the array and the temporary space are allocated.\<close>

definition sqlite3BitvecBuiltinTest ::
  "nat \<Rightarrow> (nat \<Rightarrow> bool) \<Rightarrow> bool \<Rightarrow> (nat \<Rightarrow> cint) \<Rightarrow> nat \<Rightarrow> cint list \<Rightarrow> cint option" where
  "sqlite3BitvecBuiltinTest ps am malloc rnd sz prog =
     (case sqlite3BitvecCreate ps am 0 sz of
        (None, _) \<Rightarrow> Some (- 1)
      | (Some p, k) \<Rightarrow>
          (if \<not> malloc then Some (- 1)
           else map_option (\<lambda>(done, s). if done then bt_verdict ps sz s else - 1)
                  (bt_loop ps am rnd sz
                     \<lparr>aOp = prog, pc = 0, pBitvec = p, pV = replicate ((sz + 7) div 8 + 1) 0,
                      nrnd = 0, nalloc = k\<rparr>)))"

section \<open>The array and the vector agree\<close>

lemma TESTBIT_bit: "TESTBIT V i = bit (V ! (i div 8)) (i mod 8)"
proof -
  have "i AND 7 = i mod 8" using take_bit_eq_mask [of 3 i] by (simp add: mask_numeral take_bit_eq_mod)
  then show ?thesis unfolding TESTBIT_def by (simp only: bit_test_iff drop_bit_eq_div) simp
qed

lemma TESTBIT_update:
  assumes "i div 8 < length V"
  shows "TESTBIT (SETBIT V i) j = (j = i \<or> TESTBIT V j)" "TESTBIT (CLEARBIT V i) j = (j \<noteq> i \<and> TESTBIT V j)"
proof -
  have a: "i AND 7 = i mod 8" using take_bit_eq_mask [of 3 i] by (simp add: mask_numeral take_bit_eq_mod)
  have eq: "j = i \<longleftrightarrow> i div 8 = j div 8 \<and> i mod 8 = j mod 8" by (metis div_mult_mod_eq)
  show "TESTBIT (SETBIT V i) j = (j = i \<or> TESTBIT V j)"
    using assms by (auto simp: TESTBIT_bit SETBIT_def drop_bit_eq_div a nth_list_update bit_simps eq)
  show "TESTBIT (CLEARBIT V i) j = (j \<noteq> i \<and> TESTBIT V j)"
    using assms by (auto simp: TESTBIT_bit CLEARBIT_def drop_bit_eq_div a nth_list_update bit_simps eq)
qed

definition agree :: "nat \<Rightarrow> nat \<Rightarrow> bt \<Rightarrow> bool" where
  "agree ps sz s \<longleftrightarrow>
     bitvec_inv ps (pBitvec s) \<and> iSize (pBitvec s) = sz \<and> length (pV s) = (sz + 7) div 8 + 1 \<and>
     (\<forall>j. 1 \<le> j \<and> j \<le> sz \<longrightarrow> TESTBIT (pV s) j = sqlite3BitvecTest ps (Some (pBitvec s)) j)"

lemma agree_verdict:
  assumes "agree ps sz s" "sz + 1 < 2 ^ 32"
  shows "bt_verdict ps sz s = 0"
proof -
  define p where "p = pBitvec s"
  have "TESTBIT (pV s) i = sqlite3BitvecTest ps (Some p) i" if "i \<in> set [1..<sz + 1]" for i
    using assms(1) that unfolding agree_def p_def by (metis atLeastLessThan_iff Suc_eq_plus1 less_Suc_eq_le set_upt)
  then have "List.find (\<lambda>i. TESTBIT (pV s) i \<noteq> sqlite3BitvecTest ps (Some p) i) [1..<sz + 1] = None"
    unfolding find_None_iff by blast
  moreover have "\<not> sqlite3BitvecTest ps (Some p) (sz + 1)" "\<not> sqlite3BitvecTest ps (Some p) 0"
    using assms test_not_null [of p] by (auto simp: agree_def sqlite3BitvecTest_def p_def)
  ultimately show ?thesis using assms unfolding bt_verdict_def Let_def p_def [symmetric]
    by (simp add: agree_def sqlite3BitvecTest_def sqlite3BitvecSize_def p_def)
qed

section \<open>Programs\<close>

text \<open>
  An instruction: set or clear \<open>n\<close> bits from \<open>s\<close> in steps of \<open>x\<close> (opcodes 1 and 2), or \<open>n\<close>
  random bits (opcodes 3 and 4). Opcode 5, which changes the array only so as to be caught, is
  left out.
\<close>

datatype instr = Stride (opc: cint) cint cint cint | Random (opc: cint) cint

fun valid_instr :: "instr \<Rightarrow> bool" where
  "valid_instr (Stride op _ _ _) = (op = 1 \<or> op = 2)"
| "valid_instr (Random op _) = (op = 3 \<or> op = 4)"

fun code :: "instr \<Rightarrow> cint list" where
  "code (Stride op n s x) = [op, n, s, x]"
| "code (Random op n) = [op, n]"

fun times :: "instr \<Rightarrow> cint" where
  "times (Stride op n s x) = n"
| "times (Random op n) = n"

fun next_instr :: "instr \<Rightarrow> instr" where
  "next_instr (Stride op n s x) = Stride op (n - 1) (s + x) x"
| "next_instr (Random op n) = Random op (n - 1)"

lemma next_instr_simps [simp]: "valid_instr (next_instr c) = valid_instr c" "times (next_instr c) = times c - 1"
  "length (code (next_instr c)) = length (code c)"
  by (cases c; simp)+

lemma bt_fetch_ok:
  assumes valid: "valid_instr c" and s: "aOp s = pre @ code c @ post" "pc s = length pre" "agree ps sz s" and sz: "0 < sz"
  shows "\<exists>i s'. bt_fetch rnd sz s = (opc c, i, s') \<and> i < sz \<and> agree ps sz s' \<and>
    aOp s' = pre @ code (next_instr c) @ post \<and> pc s' = length pre + (if times c - 1 > 0 then 0 else length (code c))"
proof -
  have "nat ((j AND 0x7fffffff) mod int sz) < sz" for j
    using sz pos_mod_bound [of "int sz" "j AND 0x7fffffff"] by (simp add: nat_less_iff)
  then show ?thesis using assms
    by (cases c) (auto simp: bt_fetch_def Let_def agree_def nth_append list_update_append)
qed

lemma bt_apply_ok:
  assumes s: "agree ps sz s" "i < sz" "sz < 2 ^ 31" and op: "op = 1 \<or> op = 2 \<or> op = 3 \<or> op = 4" and am: "\<forall>k. am k"
  shows "\<exists>s'. bt_apply ps am op i s = Some (True, s') \<and> agree ps sz s' \<and> aOp s' = aOp s \<and> pc s' = pc s"
proof -
  have inv: "bitvec_inv ps (pBitvec s)" "1 \<le> i + 1" "i + 1 \<le> iSize (pBitvec s)" and len: "(i + 1) div 8 < length (pV s)"
    using s by (auto simp: agree_def)
  have odd: "op AND 1 \<noteq> 0 \<longleftrightarrow> op = 1 \<or> op = 3" using op by auto
  show ?thesis
  proof (cases "op AND 1 \<noteq> 0")
    case True
    obtain k p where p: "bitvec_put ps am (nalloc s) (pBitvec s) (i + 1) = Some (SQLITE_OK, k, p)"
      "bitvec_inv ps p" "iSize p = iSize (pBitvec s)"
      "\<And>j. j < 2 ^ 32 \<Longrightarrow> sqlite3BitvecTestNotNull ps p j \<longleftrightarrow> j = i + 1 \<or> sqlite3BitvecTestNotNull ps (pBitvec s) j"
      by (rule bitvec.put_no_failure [OF inv am, where k = "nalloc s"]) (rule that)
    have "agree ps sz (s\<lparr>pV := SETBIT (pV s) (i + 1), nalloc := k, pBitvec := p\<rparr>)"
      using s p(2-4) TESTBIT_update(1) [OF len] by (simp add: agree_def sqlite3BitvecTest_def SETBIT_def)
    then show ?thesis using True odd p(1) by (auto simp: bt_apply_def bitvec_put_def)
  next
    case False
    obtain p where p: "bitvec_clear ps (pBitvec s) (i + 1) = Some p" "bitvec_inv ps p" "iSize p = iSize (pBitvec s)"
      "\<And>j. j < 2 ^ 32 \<Longrightarrow> sqlite3BitvecTestNotNull ps p j \<longleftrightarrow> j \<noteq> i + 1 \<and> sqlite3BitvecTestNotNull ps (pBitvec s) j"
      by (rule bitvec.clear_removes [OF inv]) (rule that)
    have "agree ps sz (s\<lparr>pV := CLEARBIT (pV s) (i + 1), pBitvec := p\<rparr>)"
      using s p(2-4) TESTBIT_update(2) [OF len] by (simp add: agree_def sqlite3BitvecTest_def CLEARBIT_def)
    then show ?thesis using False p(1) by (auto simp: bt_apply_def bitvec_clear_def)
  qed
qed

lemma valid_opc: "valid_instr c \<Longrightarrow> opc c = 1 \<or> opc c = 2 \<or> opc c = 3 \<or> opc c = 4"
  by (cases c) auto

lemma code_head: "code c ! 0 = opc c" "0 < length (code c)"
  by (cases c; simp)+

lemma bt_loop_instr:
  assumes "valid_instr c" "aOp s = pre @ code c @ post" "pc s = length pre" "agree ps sz s" "0 < sz" "sz < 2 ^ 31" "\<forall>k. am k"
  shows "\<exists>s' c'. bt_loop ps am rnd sz s = bt_loop ps am rnd sz s' \<and> agree ps sz s' \<and>
    aOp s' = (pre @ code c') @ post \<and> pc s' = length (pre @ code c')"
  using assms(1-4)
proof (induction "nat (times c)" arbitrary: c s rule: less_induct)
  case less
  obtain i s1 where 1: "bt_fetch rnd sz s = (opc c, i, s1)" "i < sz" "agree ps sz s1" "aOp s1 = pre @ code (next_instr c) @ post"
    "pc s1 = length pre + (if times c - 1 > 0 then 0 else length (code c))"
    using bt_fetch_ok [OF less.prems assms(5)] by blast
  obtain s2 where 2: "bt_apply ps am (opc c) i s1 = Some (True, s2)" "agree ps sz s2" "aOp s2 = aOp s1" "pc s2 = pc s1"
    using bt_apply_ok [OF 1(3,2) assms(6) valid_opc [OF less.prems(1)] assms(7)] by blast
  have "aOp s ! pc s = opc c" using less.prems(2,3) code_head [of c] by (simp add: nth_append)
  then have "aOp s ! pc s \<noteq> 0" using valid_opc [OF less.prems(1)] by auto
  then have step: "bt_loop ps am rnd sz s = bt_loop ps am rnd sz s2"
    by (subst bt_loop.simps) (simp add: bt_step_def 1(1) 2(1))
  show ?case
  proof (cases "times c - 1 > 0")
    case True
    then show ?thesis
      using less.hyps [of "next_instr c" s2] less.prems(1) 1(4,5) 2 step by simp
  next
    case False
    then show ?thesis using 1(4,5) 2 step by (intro exI [of _ s2] exI [of _ "next_instr c"]) simp
  qed
qed

lemma bt_loop_program:
  assumes "\<forall>c \<in> set cs. valid_instr c" "aOp s = pre @ concat (map code cs) @ [0]" "pc s = length pre" "agree ps sz s"
    "0 < sz" "sz < 2 ^ 31" "\<forall>k. am k"
  shows "\<exists>s'. bt_loop ps am rnd sz s = Some (True, s') \<and> agree ps sz s'"
  using assms(1-4)
proof (induction cs arbitrary: s pre)
  case Nil
  then show ?case by (subst bt_loop.simps) (simp add: nth_append)
next
  case (Cons c cs)
  obtain s' c' where s': "bt_loop ps am rnd sz s = bt_loop ps am rnd sz s'" "agree ps sz s'"
    "aOp s' = (pre @ code c') @ concat (map code cs) @ [0]" "pc s' = length (pre @ code c')"
    using bt_loop_instr [of c s pre "concat (map code cs) @ [0]" ps sz am rnd] Cons.prems assms(5-7) by auto
  then show ?case using Cons.IH [of s' "pre @ code c'"] Cons.prems(1) by auto
qed

text \<open>
  C20: the self-test passes. For every program of the opcodes 1 to 4, whatever its operands and
  whatever the random numbers, on a vector of at most $2^{31}-1$ bits, if memory does not run
  out then \<open>sqlite3BitvecBuiltinTest\<close> halts and returns 0: after any sequence of set and clear
  operations the vector holds exactly the bits that a plain array holds.
\<close>

theorem bitvec_builtin_test:
  assumes "pointer_size ps" "0 < sz" "sz < 2 ^ 31" "\<forall>k. am k" "\<forall>c \<in> set cs. valid_instr c"
  shows "sqlite3BitvecBuiltinTest ps am True rnd sz (concat (map code cs) @ [0]) = Some 0"
proof -
  define s where "s = \<lparr>aOp = concat (map code cs) @ [0], pc = 0, pBitvec = bitvec_new ps sz,
      pV = replicate ((sz + 7) div 8 + 1) (0 :: u8), nrnd = 0, nalloc = 1\<rparr>"
  have n: "sz + BITVEC_NPTR ps \<le> 2 ^ 32" using assms(1,3) by (auto simp: bitvec_sizes)
  have "\<not> TESTBIT (replicate ((sz + 7) div 8 + 1) 0) j" if "j \<le> sz" for j
    using that by (simp add: TESTBIT_bit nth_append nth_Cons split: nat.splits)
  then have "agree ps sz s"
    using bitvec_inv_new [OF assms(1) n] bv_ok_new(2) [OF assms(1) n] bitvec_new_empty [OF assms(1) n] assms(3)
    by (simp add: agree_def s_def sqlite3BitvecTest_def)
  then obtain s' where "bt_loop ps am rnd sz s = Some (True, s')" "agree ps sz s'"
    using bt_loop_program [of cs s "[]" ps sz am rnd] assms by (auto simp: s_def)
  then show ?thesis using agree_verdict [of ps sz s'] assms(3,4)
    by (simp add: sqlite3BitvecBuiltinTest_def sqlite3BitvecCreate_def s_def)
qed

theorem bitvec_builtin_test_witness:
  "sqlite3BitvecBuiltinTest 8 (\<lambda>_. True) True (\<lambda>k. 7 * int k) 5000 [1, 400, 1, 7, 4, 20, 0] = Some 0"
  using bitvec_builtin_test [of 8 5000 "\<lambda>_. True" "[Stride 1 400 1 7, Random 4 20]" "\<lambda>k. 7 * int k"]
  by (simp add: pointer_size_def)

end
