(* ===== verification/RowSet.thy ===== *)
theory RowSet
  imports Prelude
begin

text \<open>
  The row sets of rowset.c, which hold the rowids of a query: a list in the order of insertion,
  from which either the rowids are extracted in ascending order, or a forest of binary search
  trees is built, batch by batch, to test membership.
\<close>

section \<open>State\<close>

text \<open>
  A list of \<open>RowSetEntry\<close> connected by \<open>pRight\<close> is the list of its values; an entry in the role
  of a tree node is a \<open>Node\<close>. Each entry has one role at a time and one owner.
\<close>

datatype tree = Leaf | Node (pLeft: tree) (v: i64) (pRight: tree)

text \<open>
  The forest is the list of the \<open>pLeft\<close> trees of its entries. \<open>sorted_flag\<close> and \<open>next_flag\<close> are
  the bits \<open>ROWSET_SORTED\<close> and \<open>ROWSET_NEXT\<close> of \<open>rsFlags\<close>; \<open>pChunk\<close> counts the chunks allocated,
  and \<open>mallocFailed\<close> is the flag of the database connection.
\<close>

record RowSet =
  pEntry :: "i64 list"
  pForest :: "tree list"
  sorted_flag :: bool
  next_flag :: bool
  iBatch :: cint
  nFresh :: nat
  pChunk :: nat
  mallocFailed :: bool

section \<open>Operations\<close>

text \<open>\<open>n\<close> is the number of entries for which the space given has room.\<close>

definition sqlite3RowSetInit :: "nat \<Rightarrow> RowSet" where
  "sqlite3RowSetInit n =
     \<lparr>pEntry = [], pForest = [], sorted_flag = True, next_flag = False, iBatch = 0,
      nFresh = n, pChunk = 0, mallocFailed = False\<rparr>"

definition sqlite3RowSetClear :: "RowSet \<Rightarrow> RowSet" where
  "sqlite3RowSetClear p =
     p\<lparr>pChunk := 0, nFresh := 0, pEntry := [], pForest := [], sorted_flag := True, next_flag := False\<rparr>"

text \<open>
  \<open>am k\<close> tells whether the allocation of the \<open>k\<close>-th chunk succeeds, and \<open>per_chunk\<close> is
  \<open>ROWSET_ENTRY_PER_CHUNK\<close>, which depends on the size of a pointer. The result says whether
  there is an entry.
\<close>

definition rowSetEntryAlloc :: "nat \<Rightarrow> (nat \<Rightarrow> bool) \<Rightarrow> RowSet \<Rightarrow> bool \<times> RowSet" where
  "rowSetEntryAlloc per_chunk am p =
     (if nFresh p = 0 then
        (if \<not> am (pChunk p) then (False, p\<lparr>mallocFailed := True\<rparr>)
         else (True, p\<lparr>pChunk := pChunk p + 1, nFresh := per_chunk - 1\<rparr>))
      else (True, p\<lparr>nFresh := nFresh p - 1\<rparr>))"

text \<open>\<open>pLast\<close> is the last entry of the list.\<close>

definition sqlite3RowSetInsert :: "nat \<Rightarrow> (nat \<Rightarrow> bool) \<Rightarrow> RowSet \<Rightarrow> i64 \<Rightarrow> RowSet" where
  "sqlite3RowSetInsert per_chunk am p rowid =
     (case rowSetEntryAlloc per_chunk am p of
        (False, p) \<Rightarrow> p
      | (True, p) \<Rightarrow>
          p\<lparr>sorted_flag := (if pEntry p \<noteq> [] \<and> rowid \<le> last (pEntry p) then False else sorted_flag p),
            pEntry := pEntry p @ [rowid]\<rparr>)"

fun rowSetEntryMerge :: "i64 list \<Rightarrow> i64 list \<Rightarrow> i64 list" where
  "rowSetEntryMerge [] pB = pB"
| "rowSetEntryMerge pA [] = pA"
| "rowSetEntryMerge (a # pA) (b # pB) =
     (if a \<le> b then
        (if a < b then a # rowSetEntryMerge pA (b # pB) else rowSetEntryMerge pA (b # pB))
      else b # rowSetEntryMerge (a # pA) pB)"

text \<open>
  The buckets of the sort, where the empty list is the null pointer. \<open>None\<close> is the write past the
  last bucket.
\<close>

fun bucket_put :: "i64 list list \<Rightarrow> i64 list \<Rightarrow> i64 list list option" where
  "bucket_put [] pIn = None"
| "bucket_put (b # aBucket) pIn =
     (if b = [] then Some (pIn # aBucket)
      else map_option (Cons []) (bucket_put aBucket (rowSetEntryMerge b pIn)))"

fun sort_loop :: "i64 list \<Rightarrow> i64 list list \<Rightarrow> i64 list list option" where
  "sort_loop [] aBucket = Some aBucket"
| "sort_loop (x # pIn) aBucket = Option.bind (bucket_put aBucket [x]) (sort_loop pIn)"

definition bucket_join :: "i64 list \<Rightarrow> i64 list \<Rightarrow> i64 list" where
  "bucket_join b pIn = (if b = [] then pIn else if pIn \<noteq> [] then rowSetEntryMerge pIn b else b)"

definition rowSetEntrySort :: "i64 list \<Rightarrow> i64 list option" where
  "rowSetEntrySort pIn =
     map_option (\<lambda>aBucket. fold bucket_join (tl aBucket) (hd aBucket)) (sort_loop pIn (replicate 40 []))"

fun rowSetTreeToList :: "tree \<Rightarrow> i64 list" where
  "rowSetTreeToList Leaf = []"
| "rowSetTreeToList (Node l x r) = rowSetTreeToList l @ x # rowSetTreeToList r"

text \<open>The depth is at least 1; the result is the tree and the entries left.\<close>

fun rowSetNDeepTree :: "i64 list \<Rightarrow> nat \<Rightarrow> tree \<times> i64 list" where
  "rowSetNDeepTree [] iDepth = (Leaf, [])"
| "rowSetNDeepTree (x # xs) 0 = (Node Leaf x Leaf, xs)"
| "rowSetNDeepTree (x # xs) (Suc n) =
     (if n \<ge> 1 then
        (case rowSetNDeepTree (x # xs) n of
           (l, []) \<Rightarrow> (l, [])
         | (l, p # ppList) \<Rightarrow>
             (let (r, ppList) = rowSetNDeepTree ppList n in (Node l p r, ppList)))
      else (Node Leaf x Leaf, xs))"

text \<open>
  The loop of \<open>rowSetListToTree\<close>, each turn of which takes at least the head of the list.
\<close>

fun list_to_tree_loop :: "nat \<Rightarrow> tree \<Rightarrow> i64 list \<Rightarrow> nat \<Rightarrow> tree option" where
  "list_to_tree_loop 0 p pList iDepth = (if pList = [] then Some p else None)"
| "list_to_tree_loop (Suc fuel) p pList iDepth =
     (case pList of
        [] \<Rightarrow> Some p
      | x # pList \<Rightarrow>
          (let (r, pList) = rowSetNDeepTree pList iDepth
           in list_to_tree_loop fuel (Node p x r) pList (iDepth + 1)))"

definition rowSetListToTree :: "i64 list \<Rightarrow> tree option" where
  "rowSetListToTree pList =
     (case pList of
        [] \<Rightarrow> None
      | x # xs \<Rightarrow> list_to_tree_loop (length xs) (Node Leaf x Leaf) xs 1)"

text \<open>The result is the code, the rowid written, and the row set; \<open>None\<close> if the sort fails.\<close>

definition sqlite3RowSetNext :: "RowSet \<Rightarrow> (i64 option \<times> RowSet) option" where
  "sqlite3RowSetNext p =
     map_option
       (\<lambda>p. case pEntry p of
              [] \<Rightarrow> (None, p)
            | x # xs \<Rightarrow>
                (Some x, if xs = [] then sqlite3RowSetClear (p\<lparr>pEntry := xs\<rparr>) else p\<lparr>pEntry := xs\<rparr>))
       (if \<not> next_flag p then
          (if \<not> sorted_flag p
           then map_option (\<lambda>xs. p\<lparr>pEntry := xs, sorted_flag := True, next_flag := True\<rparr>) (rowSetEntrySort (pEntry p))
           else Some (p\<lparr>sorted_flag := True, next_flag := True\<rparr>))
        else Some p)"

text \<open>
  The loop of \<open>sqlite3RowSetTest\<close> that puts the sorted list \<open>p\<close> into the first tree of the forest
  that is empty, merging into \<open>p\<close> and emptying the trees before it. The result is the forest and,
  if every tree was in use, the list that needs a new one.
\<close>

fun forest_put :: "tree list \<Rightarrow> i64 list \<Rightarrow> (tree list \<times> i64 list option) option" where
  "forest_put [] p = Some ([], Some p)"
| "forest_put (t # ts) p =
     (if t = Leaf then map_option (\<lambda>t. (t # ts, None)) (rowSetListToTree p)
      else map_option (\<lambda>(f, r). (Leaf # f, r)) (forest_put ts (rowSetEntryMerge (rowSetTreeToList t) p)))"

fun tree_test :: "tree \<Rightarrow> i64 \<Rightarrow> bool" where
  "tree_test Leaf iRowid = False"
| "tree_test (Node l x r) iRowid =
     (if x < iRowid then tree_test r iRowid else if x > iRowid then tree_test l iRowid else True)"

definition rowset_flush :: "nat \<Rightarrow> (nat \<Rightarrow> bool) \<Rightarrow> RowSet \<Rightarrow> RowSet option" where
  "rowset_flush per_chunk am pRowSet =
     (if pEntry pRowSet = [] then Some pRowSet
      else
        Option.bind
          (if \<not> sorted_flag pRowSet then rowSetEntrySort (pEntry pRowSet) else Some (pEntry pRowSet))
          (\<lambda>p. Option.bind (forest_put (pForest pRowSet) p)
             (\<lambda>(f, r). map_option
                (\<lambda>pRowSet. pRowSet\<lparr>pEntry := [], sorted_flag := True\<rparr>)
                (case r of
                   None \<Rightarrow> Some (pRowSet\<lparr>pForest := f\<rparr>)
                 | Some p \<Rightarrow>
                     (case rowSetEntryAlloc per_chunk am (pRowSet\<lparr>pForest := f\<rparr>) of
                        (False, pRowSet) \<Rightarrow> Some pRowSet
                      | (True, pRowSet) \<Rightarrow>
                          map_option (\<lambda>t. pRowSet\<lparr>pForest := f @ [t]\<rparr>) (rowSetListToTree p))))))"

definition sqlite3RowSetTest ::
  "nat \<Rightarrow> (nat \<Rightarrow> bool) \<Rightarrow> RowSet \<Rightarrow> cint \<Rightarrow> i64 \<Rightarrow> (bool \<times> RowSet) option" where
  "sqlite3RowSetTest per_chunk am pRowSet batch iRowid =
     map_option (\<lambda>p. (list_ex (\<lambda>t. tree_test t iRowid) (pForest p), p))
       (if batch \<noteq> iBatch pRowSet
        then map_option (\<lambda>p. p\<lparr>iBatch := batch\<rparr>) (rowset_flush per_chunk am pRowSet)
        else Some pRowSet)"


section \<open>Merging and sorting\<close>

abbreviation asc :: "i64 list \<Rightarrow> bool" where
  "asc \<equiv> sorted_wrt (<)"

lemma merge_Nil2 [simp]: "rowSetEntryMerge xs [] = xs"
  by (cases xs) auto

lemma set_merge [simp]: "set (rowSetEntryMerge xs ys) = set xs \<union> set ys"
  by (induction xs ys rule: rowSetEntryMerge.induct) auto

lemma merge_eq_Nil [simp]: "rowSetEntryMerge xs ys = [] \<longleftrightarrow> xs = [] \<and> ys = []"
  using set_merge [of xs ys] by (metis Un_empty set_empty2 set_empty)

lemma asc_merge: "asc xs \<Longrightarrow> asc ys \<Longrightarrow> asc (rowSetEntryMerge xs ys)"
  by (induction xs ys rule: rowSetEntryMerge.induct) auto

text \<open>How many entries the occupied buckets stand for: the buckets are a binary counter.\<close>

fun occupancy :: "i64 list list \<Rightarrow> nat" where
  "occupancy [] = 0"
| "occupancy (b # bs) = (if b = [] then 0 else 1) + 2 * occupancy bs"

lemma occupancy_less: "occupancy bs < 2 ^ length bs"
  by (induction bs) auto

lemma occupancy_empty [simp]: "occupancy (replicate n []) = 0"
  by (induction n) auto

lemma bucket_put_ok:
  "\<lbrakk>Suc (occupancy bs) < 2 ^ length bs; \<forall>b \<in> set bs. asc b; asc l; l \<noteq> []\<rbrakk> \<Longrightarrow>
    \<exists>bs'. bucket_put bs l = Some bs' \<and> length bs' = length bs \<and> occupancy bs' = Suc (occupancy bs) \<and>
      (\<forall>b \<in> set bs'. asc b) \<and> \<Union> (set ` set bs') = set l \<union> \<Union> (set ` set bs)"
proof (induction bs arbitrary: l)
  case (Cons b bs)
  show ?case
  proof (cases "b = []")
    case False
    have "Suc (occupancy bs) < 2 ^ length bs" using Cons.prems(1) False by simp
    then obtain bs' where "bucket_put bs (rowSetEntryMerge b l) = Some bs'" "length bs' = length bs"
      "occupancy bs' = Suc (occupancy bs)" "\<forall>b \<in> set bs'. asc b"
      "\<Union> (set ` set bs') = set (rowSetEntryMerge b l) \<union> \<Union> (set ` set bs)"
      using Cons.IH [of "rowSetEntryMerge b l"] Cons.prems by (auto simp: asc_merge)
    then show ?thesis using False by auto
  qed (use Cons.prems in auto)
qed simp

lemma sort_loop_ok:
  "\<lbrakk>occupancy bs + length xs < 2 ^ length bs; \<forall>b \<in> set bs. asc b\<rbrakk> \<Longrightarrow>
    \<exists>bs'. sort_loop xs bs = Some bs' \<and> length bs' = length bs \<and> (\<forall>b \<in> set bs'. asc b) \<and>
      \<Union> (set ` set bs') = set xs \<union> \<Union> (set ` set bs)"
proof (induction xs arbitrary: bs)
  case (Cons x xs)
  obtain bs1 where 1: "bucket_put bs [x] = Some bs1" "length bs1 = length bs" "occupancy bs1 = Suc (occupancy bs)"
    "\<forall>b \<in> set bs1. asc b" "\<Union> (set ` set bs1) = {x} \<union> \<Union> (set ` set bs)"
    using bucket_put_ok [of bs "[x]"] Cons.prems by auto
  then show ?case using Cons.IH [of bs1] Cons.prems by auto
qed simp

lemma bucket_join_ok:
  "asc b \<Longrightarrow> asc l \<Longrightarrow> asc (bucket_join b l) \<and> set (bucket_join b l) = set b \<union> set l"
  by (auto simp: bucket_join_def asc_merge)

lemma fold_bucket_join:
  "\<forall>b \<in> set bs. asc b \<Longrightarrow> asc l \<Longrightarrow> asc (fold bucket_join bs l) \<and> set (fold bucket_join bs l) = set l \<union> \<Union> (set ` set bs)"
  by (induction bs arbitrary: l) (auto simp: bucket_join_ok)

lemma rowSetEntrySort_ok:
  assumes "length xs < 2 ^ 40"
  shows "\<exists>ys. rowSetEntrySort xs = Some ys \<and> asc ys \<and> set ys = set xs"
proof -
  obtain bs where bs: "sort_loop xs (replicate 40 []) = Some bs" "length bs = 40" "\<forall>b \<in> set bs. asc b"
    "\<Union> (set ` set bs) = set xs"
    using sort_loop_ok [of "replicate 40 []" xs] assms by auto
  then obtain b bs' where "bs = b # bs'" by (cases bs) auto
  then show ?thesis using fold_bucket_join [of bs' b] bs by (auto simp: rowSetEntrySort_def)
qed

section \<open>Trees\<close>

lemma NDeepTree_list: "rowSetNDeepTree xs d = (t, r) \<Longrightarrow> rowSetTreeToList t @ r = xs"
proof (induction xs d arbitrary: t r rule: rowSetNDeepTree.induct)
  case (3 x xs n)
  show ?case
  proof (cases "n \<ge> 1")
    case True
    obtain l r1 where l: "rowSetNDeepTree (x # xs) n = (l, r1)" by force
    have e: "rowSetTreeToList l @ r1 = x # xs" using 3(1) [OF True l] .
    show ?thesis
    proof (cases r1)
      case Nil
      then show ?thesis using 3(3) True l e by simp
    next
      case (Cons p ps)
      obtain t2 r2 where r2: "rowSetNDeepTree ps n = (t2, r2)" by force
      have "rowSetTreeToList t2 @ r2 = ps" using 3(2) [OF True l [symmetric, unfolded Cons] refl r2] .
      then show ?thesis using 3(3) True l e Cons r2 by auto
    qed
  qed (use 3(3) in auto)
qed auto

lemma list_to_tree_loop_list:
  "length xs \<le> fuel \<Longrightarrow> \<exists>t. list_to_tree_loop fuel p xs d = Some t \<and> rowSetTreeToList t = rowSetTreeToList p @ xs"
proof (induction fuel arbitrary: p xs d)
  case (Suc fuel)
  show ?case
  proof (cases xs)
    case (Cons x ys)
    obtain r zs where r: "rowSetNDeepTree ys d = (r, zs)" by force
    have e: "rowSetTreeToList r @ zs = ys" using NDeepTree_list [OF r] .
    then have "length zs \<le> fuel" using Suc.prems Cons by auto
    then show ?thesis using Suc.IH [of zs "Node p x r" "d + 1"] Cons r e by auto
  qed simp
qed simp

lemma rowSetListToTree_ok: "xs \<noteq> [] \<Longrightarrow> \<exists>t. rowSetListToTree xs = Some t \<and> rowSetTreeToList t = xs"
  using list_to_tree_loop_list [of "tl xs" "length (tl xs)" "Node Leaf (hd xs) Leaf" 1]
  by (cases xs) (auto simp: rowSetListToTree_def)

lemma tree_test_ok: "asc (rowSetTreeToList t) \<Longrightarrow> tree_test t x \<longleftrightarrow> x \<in> set (rowSetTreeToList t)"
proof (induction t)
  case (Node l y r)
  then have a: "asc (rowSetTreeToList l)" "asc (rowSetTreeToList r)" "\<And>z. z \<in> set (rowSetTreeToList l) \<Longrightarrow> z < y"
    "\<And>z. z \<in> set (rowSetTreeToList r) \<Longrightarrow> y < z"
    by (auto simp: sorted_wrt_append)
  then show ?case using Node.IH by (auto dest: a(3,4))
qed simp

lemma asc_last: "asc xs \<Longrightarrow> y \<in> set xs \<Longrightarrow> y \<le> last xs"
  by (induction xs) (auto intro: less_imp_le)

lemma TreeToList_Nil [simp]: "rowSetTreeToList t = [] \<longleftrightarrow> t = Leaf"
  by (cases t) auto

section \<open>The invariant and the abstraction\<close>

definition tree_set :: "tree list \<Rightarrow> i64 set" where
  "tree_set ts = (\<Union>t \<in> set ts. set (rowSetTreeToList t))"

definition rs_ok :: "RowSet \<Rightarrow> bool" where
  "rs_ok p \<longleftrightarrow>
     (\<forall>t \<in> set (pForest p). asc (rowSetTreeToList t)) \<and> (sorted_flag p \<longrightarrow> asc (pEntry p)) \<and>
     (next_flag p \<longrightarrow> sorted_flag p) \<and> length (pEntry p) < 2 ^ 40"

text \<open>The rowids of the batches before the current one, and those of the current one.\<close>

definition rs_old :: "RowSet \<Rightarrow> i64 set" where "rs_old p = tree_set (pForest p)"
definition rs_new :: "RowSet \<Rightarrow> i64 set" where "rs_new p = set (pEntry p)"

lemma tree_set_simps [simp]: "tree_set [] = {}" "tree_set (t # ts) = set (rowSetTreeToList t) \<union> tree_set ts"
  "tree_set (ts @ us) = tree_set ts \<union> tree_set us"
  by (auto simp: tree_set_def)

lemma forest_put_ok:
  "\<lbrakk>\<forall>t \<in> set ts. asc (rowSetTreeToList t); asc p; p \<noteq> []\<rbrakk> \<Longrightarrow>
    \<exists>f r. forest_put ts p = Some (f, r) \<and> (\<forall>t \<in> set f. asc (rowSetTreeToList t)) \<and>
      (case r of
         None \<Rightarrow> tree_set f = set p \<union> tree_set ts
       | Some q \<Rightarrow> asc q \<and> q \<noteq> [] \<and> tree_set f \<union> set q = set p \<union> tree_set ts)"
proof (induction ts arbitrary: p)
  case (Cons t ts)
  show ?case
  proof (cases "t = Leaf")
    case True
    then show ?thesis using rowSetListToTree_ok [OF Cons.prems(3)] Cons.prems by auto
  next
    case False
    obtain f r where "forest_put ts (rowSetEntryMerge (rowSetTreeToList t) p) = Some (f, r)"
      "\<forall>t \<in> set f. asc (rowSetTreeToList t)"
      "case r of None \<Rightarrow> tree_set f = set (rowSetEntryMerge (rowSetTreeToList t) p) \<union> tree_set ts
       | Some q \<Rightarrow> asc q \<and> q \<noteq> [] \<and> tree_set f \<union> set q = set (rowSetEntryMerge (rowSetTreeToList t) p) \<union> tree_set ts"
      using Cons.IH [of "rowSetEntryMerge (rowSetTreeToList t) p"] Cons.prems by (auto simp: asc_merge)
    then show ?thesis using False by (auto split: option.splits)
  qed
qed auto

lemma alloc_fields:
  assumes "rowSetEntryAlloc c am p = (b, q)"
  shows "pEntry q = pEntry p" "pForest q = pForest p" "sorted_flag q = sorted_flag p" "next_flag q = next_flag p"
    "iBatch q = iBatch p" "\<not> b \<longrightarrow> mallocFailed q" "b \<longrightarrow> mallocFailed q = mallocFailed p" "\<forall>k. am k \<Longrightarrow> b"
  using assms by (auto simp: rowSetEntryAlloc_def split: if_splits)

lemma rowset_flush_ok:
  assumes "rs_ok p"
  shows "\<exists>q. rowset_flush c am p = Some q \<and> rs_ok q \<and> rs_new q = {} \<and> next_flag q = next_flag p \<and> iBatch q = iBatch p \<and>
    rs_old q \<subseteq> rs_old p \<union> rs_new p \<and>
    (\<not> mallocFailed q \<longrightarrow> rs_old q = rs_old p \<union> rs_new p) \<and> (\<not> mallocFailed p \<longrightarrow> (\<forall>k. am k) \<longrightarrow> \<not> mallocFailed q)"
proof (cases "pEntry p = []")
  case True
  then show ?thesis using assms by (auto simp: rowset_flush_def rs_new_def)
next
  case False
  obtain l where l: "(if \<not> sorted_flag p then rowSetEntrySort (pEntry p) else Some (pEntry p)) = Some l" "asc l" "set l = rs_new p"
    using assms rowSetEntrySort_ok [of "pEntry p"] by (cases "sorted_flag p") (auto simp: rs_ok_def rs_new_def)
  have "l \<noteq> []" using l(3) False by (auto simp: rs_new_def)
  then obtain f r where f: "forest_put (pForest p) l = Some (f, r)" "\<forall>t \<in> set f. asc (rowSetTreeToList t)"
    "case r of None \<Rightarrow> tree_set f = set l \<union> rs_old p | Some q \<Rightarrow> asc q \<and> q \<noteq> [] \<and> tree_set f \<union> set q = set l \<union> rs_old p"
  proof -
    have "\<forall>t \<in> set (pForest p). asc (rowSetTreeToList t)" using assms by (simp add: rs_ok_def)
    then show ?thesis using forest_put_ok [of "pForest p" l] l(2) \<open>l \<noteq> []\<close> that unfolding rs_old_def by blast
  qed
  show ?thesis
  proof (cases r)
    case None
    then show ?thesis using f l False assms by (auto simp: rowset_flush_def rs_ok_def rs_new_def rs_old_def)
  next
    case (Some q)
    obtain b p1 where a: "rowSetEntryAlloc c am (p\<lparr>pForest := f\<rparr>) = (b, p1)" by force
    note fl = alloc_fields [OF a]
    obtain t where t: "rowSetListToTree q = Some t" "rowSetTreeToList t = q"
      using rowSetListToTree_ok [of q] f(3) Some by auto
    show ?thesis
    proof (cases b)
      case True
      then have "rowset_flush c am p = Some (p1\<lparr>pForest := f @ [t], pEntry := [], sorted_flag := True\<rparr>)"
        using f(1) l(1) False Some a t(1) unfolding rowset_flush_def by simp
      then show ?thesis using True f Some l t fl by (auto simp: rs_ok_def rs_new_def rs_old_def)
    next
      case b: False
      then have "rowset_flush c am p = Some (p1\<lparr>pEntry := [], sorted_flag := True\<rparr>)"
        using f(1) l(1) False Some a unfolding rowset_flush_def by simp
      then show ?thesis using b f Some l fl by (auto simp: rs_ok_def rs_new_def rs_old_def)
    qed
  qed
qed

section \<open>Properties\<close>

text \<open>
  C28: insertion keeps the row set well formed and adds the rowid to the current batch; the
  earlier batches are untouched. Only when an allocation fails is the rowid dropped, and then
  \<open>mallocFailed\<close> is set.
\<close>

theorem rowset_insert:
  assumes "rs_ok p" "\<not> next_flag p" "length (pEntry p) + 1 < 2 ^ 40" "q = sqlite3RowSetInsert c am p x"
  shows "rs_ok q \<and> \<not> next_flag q \<and> rs_old q = rs_old p \<and> iBatch q = iBatch p \<and>
    (rs_new q = insert x (rs_new p) \<or> rs_new q = rs_new p \<and> mallocFailed q \<and> (\<exists>k. \<not> am k))"
proof -
  obtain b p1 where a: "rowSetEntryAlloc c am p = (b, p1)" by force
  note fl = alloc_fields [OF a]
  have asc: "asc (xs @ [x])" if "asc xs" "xs \<noteq> [] \<longrightarrow> \<not> x \<le> last xs" for xs
    using that asc_last [of xs] by (cases "xs = []") (fastforce simp: sorted_wrt_append)+
  show ?thesis
  proof (cases b)
    case True
    then show ?thesis using assms a fl asc [of "pEntry p"]
      by (auto simp: sqlite3RowSetInsert_def rs_ok_def rs_old_def rs_new_def)
  next
    case False
    then show ?thesis using assms a fl
      by (auto simp: sqlite3RowSetInsert_def rs_ok_def rs_old_def rs_new_def)
  qed
qed

theorem rowset_insert_witness:
  "rs_new (sqlite3RowSetInsert 42 (\<lambda>_. True) (sqlite3RowSetInit 10) 5) = {5}"
  using rowset_insert [of "sqlite3RowSetInit 10" _ 42 "\<lambda>_. True" 5, OF _ _ _ refl]
  by (auto simp: sqlite3RowSetInit_def rs_ok_def rs_new_def)

text \<open>
  C11: the membership test. With a new batch number the rowids inserted since the last such test
  join the earlier batches; the answer is then whether the rowid is among the rowids of the
  earlier batches, and nothing else changes. Sorting, merging, the conversions between lists and
  trees, and the search all return. If the entry for a new tree cannot be allocated rowids are
  lost, and \<open>mallocFailed\<close> is set.
\<close>

theorem rowset_test:
  assumes "rs_ok p" "\<not> next_flag p"
  shows "\<exists>r q. sqlite3RowSetTest c am p batch x = Some (r, q) \<and> rs_ok q \<and> \<not> next_flag q \<and> iBatch q = batch \<and>
    (r \<longleftrightarrow> x \<in> rs_old q) \<and>
    (if batch = iBatch p then q = p
     else rs_new q = {} \<and> rs_old q \<subseteq> rs_old p \<union> rs_new p \<and>
       (\<not> mallocFailed q \<longrightarrow> rs_old q = rs_old p \<union> rs_new p) \<and>
       (\<not> mallocFailed p \<longrightarrow> (\<forall>k. am k) \<longrightarrow> \<not> mallocFailed q))"
proof -
  have test: "list_ex (\<lambda>t. tree_test t x) (pForest q) \<longleftrightarrow> x \<in> rs_old q" if "rs_ok q" for q
    using that by (auto simp: list_ex_iff rs_ok_def rs_old_def tree_set_def tree_test_ok)
  show ?thesis
  proof (cases "batch = iBatch p")
    case True
    then show ?thesis using assms test by (auto simp: sqlite3RowSetTest_def)
  next
    case False
    obtain q where q: "rowset_flush c am p = Some q" "rs_ok q" "rs_new q = {}" "next_flag q = next_flag p"
      "rs_old q \<subseteq> rs_old p \<union> rs_new p" "\<not> mallocFailed q \<longrightarrow> rs_old q = rs_old p \<union> rs_new p"
      "\<not> mallocFailed p \<longrightarrow> (\<forall>k. am k) \<longrightarrow> \<not> mallocFailed q"
      using rowset_flush_ok [OF assms(1), of c am] by blast
    have "rs_ok (q\<lparr>iBatch := batch\<rparr>)" "rs_old (q\<lparr>iBatch := batch\<rparr>) = rs_old q" "rs_new (q\<lparr>iBatch := batch\<rparr>) = rs_new q"
      using q(2) by (auto simp: rs_ok_def rs_old_def rs_new_def)
    then show ?thesis using False q assms(2) test [of "q\<lparr>iBatch := batch\<rparr>"]
      by (simp add: sqlite3RowSetTest_def)
  qed
qed

theorem rowset_test_witness:
  "\<exists>q. sqlite3RowSetTest 42 (\<lambda>_. True) (sqlite3RowSetInsert 42 (\<lambda>_. True) (sqlite3RowSetInit 10) 5) 1 5 = Some (True, q)"
proof -
  define p where "p = sqlite3RowSetInsert 42 (\<lambda>_. True) (sqlite3RowSetInit 10) 5"
  have p: "rs_ok p" "\<not> next_flag p" "iBatch p \<noteq> 1" "5 \<in> rs_new p" "\<not> mallocFailed p"
    by (auto simp: p_def sqlite3RowSetInsert_def rowSetEntryAlloc_def sqlite3RowSetInit_def rs_ok_def rs_new_def)
  show ?thesis unfolding p_def [symmetric]
    using rowset_test [OF p(1,2), of 42 "\<lambda>_. True" 1 5] p by auto
qed

text \<open>
  C21: extraction in ascending order. While the row set is not empty \<open>sqlite3RowSetNext\<close> returns
  its least rowid and removes it, so successive calls give the rowids inserted in ascending
  order, each once, however often it was inserted; on an empty row set it returns none. The
  sort does not run out of buckets for fewer than $2^{40}$ entries.
\<close>

theorem rowset_next:
  assumes "rs_ok p" "pForest p = []"
  shows "\<exists>r q. sqlite3RowSetNext p = Some (r, q) \<and> rs_ok q \<and> pForest q = [] \<and>
    (if rs_new p = {} then r = None \<and> rs_new q = {}
     else r = Some (Min (rs_new p)) \<and> rs_new q = rs_new p - {Min (rs_new p)})"
proof -
  obtain l where l: "(if \<not> next_flag p then
          (if \<not> sorted_flag p
           then map_option (\<lambda>xs. p\<lparr>pEntry := xs, sorted_flag := True, next_flag := True\<rparr>) (rowSetEntrySort (pEntry p))
           else Some (p\<lparr>sorted_flag := True, next_flag := True\<rparr>))
        else Some p) = Some (p\<lparr>pEntry := l, sorted_flag := True, next_flag := True\<rparr>)" "asc l" "set l = rs_new p"
  proof (cases "sorted_flag p")
    case True
    then show ?thesis using assms(1) that [of "pEntry p"] by (cases p) (auto simp: rs_ok_def rs_new_def)
  next
    case False
    then show ?thesis using assms(1) that rowSetEntrySort_ok [of "pEntry p"] by (auto simp: rs_ok_def rs_new_def)
  qed
  have len: "length l < 2 ^ 40"
  proof -
    have "length l = card (rs_new p)" using l(2,3) distinct_card [of l] by (simp add: strict_sorted_iff)
    also have "\<dots> \<le> length (pEntry p)" by (simp add: rs_new_def card_length)
    finally show ?thesis using assms(1) by (simp add: rs_ok_def)
  qed
  show ?thesis
  proof (cases l)
    case Nil
    then show ?thesis using l assms unfolding sqlite3RowSetNext_def by (simp add: rs_ok_def rs_new_def)
  next
    case (Cons x xs)
    have "Min (rs_new p) = x" using l(2) Cons unfolding l(3) [symmetric]
      by (intro Min_eqI) auto
    moreover have "rs_new p - {x} = set xs" "rs_new p \<noteq> {}" using l(2,3) Cons by (auto simp: insert_Diff_if)
    ultimately show ?thesis using l Cons assms len unfolding sqlite3RowSetNext_def
      by (auto simp: rs_ok_def rs_new_def sqlite3RowSetClear_def)
  qed
qed

theorem rowset_next_witness:
  "\<exists>q. sqlite3RowSetNext (sqlite3RowSetInsert 42 (\<lambda>_. True) (sqlite3RowSetInsert 42 (\<lambda>_. True) (sqlite3RowSetInit 10) 5) 3) = Some (Some 3, q)"
proof -
  define p where "p = sqlite3RowSetInsert 42 (\<lambda>_. True) (sqlite3RowSetInsert 42 (\<lambda>_. True) (sqlite3RowSetInit 10) 5) 3"
  have "rs_ok p" "pForest p = []" "rs_new p = {3, 5}"
    by (auto simp: p_def sqlite3RowSetInsert_def rowSetEntryAlloc_def sqlite3RowSetInit_def rs_ok_def rs_new_def)
  then show ?thesis unfolding p_def [symmetric] using rowset_next [of p] by auto
qed

end
