(* ===== verification/Utf.thy ===== *)
theory Utf
  imports TextInt
begin

text \<open>
  The conversions of utf.c between UTF-8 and UTF-16, on byte strings, and the reading of single
  characters. A zero-terminated string is the list of its bytes before the terminator.
\<close>

section \<open>UTF-8\<close>

definition Utf8Trans1_table :: "u32 list" where
  "Utf8Trans1_table = [
     0x00, 0x01, 0x02, 0x03, 0x04, 0x05, 0x06, 0x07, 0x08, 0x09, 0x0a, 0x0b, 0x0c, 0x0d, 0x0e, 0x0f,
     0x10, 0x11, 0x12, 0x13, 0x14, 0x15, 0x16, 0x17, 0x18, 0x19, 0x1a, 0x1b, 0x1c, 0x1d, 0x1e, 0x1f,
     0x00, 0x01, 0x02, 0x03, 0x04, 0x05, 0x06, 0x07, 0x08, 0x09, 0x0a, 0x0b, 0x0c, 0x0d, 0x0e, 0x0f,
     0x00, 0x01, 0x02, 0x03, 0x04, 0x05, 0x06, 0x07, 0x00, 0x01, 0x02, 0x03, 0x00, 0x01, 0x00, 0x00]"

definition sqlite3Utf8Trans1 :: "u8 \<Rightarrow> u32" where
  "sqlite3Utf8Trans1 i = Utf8Trans1_table ! unat i"

text \<open>\<open>while( (*z & 0xc0)==0x80 ) c = (c<<6) + (0x3f & *(z++));\<close>\<close>

fun utf8_cont :: "u32 \<Rightarrow> u8 list \<Rightarrow> u32 \<times> u8 list" where
  "utf8_cont c [] = (c, [])"
| "utf8_cont c (b # z) =
     (if b AND 0xc0 = 0x80 then utf8_cont (push_bit 6 c + (0x3f AND ucast b)) z else (c, b # z))"

definition utf8_fix :: "u32 \<Rightarrow> u32" where
  "utf8_fix c =
     (if c < 0x80 \<or> c AND 0xFFFFF800 = 0xD800 \<or> c AND 0xFFFFFFFE = 0xFFFE then 0xFFFD else c)"

text \<open>The character and the rest of the string; at the terminator the character is 0.\<close>

definition sqlite3Utf8Read :: "u8 list \<Rightarrow> u32 \<times> u8 list" where
  "sqlite3Utf8Read z =
     (case z of
        [] \<Rightarrow> (0, [])
      | b # z \<Rightarrow>
          (if b \<ge> 0xc0 then
             (let (c, z) = utf8_cont (sqlite3Utf8Trans1 (b - 0xc0)) z in (utf8_fix c, z))
           else (ucast b, z)))"

text \<open>The macro \<open>READ_UTF8\<close>, where the list ends at \<open>zTerm\<close>, which is not reached before the call.\<close>

definition READ_UTF8 :: "u8 list \<Rightarrow> u32 \<times> u8 list" where
  "READ_UTF8 zIn =
     (let c = ucast (hd zIn); z = tl zIn
      in if c \<ge> (0xc0 :: u32) then
           (let (c, z) = utf8_cont (sqlite3Utf8Trans1 (hd zIn - 0xc0)) z in (utf8_fix c, z))
         else (c, z))"

definition WRITE_UTF8 :: "u32 \<Rightarrow> u8 list" where
  "WRITE_UTF8 c =
     (if c < 0x80 then [ucast (c AND 0xFF)]
      else if c < 0x800 then
        [0xC0 + ucast (drop_bit 6 c AND 0x1F), 0x80 + ucast (c AND 0x3F)]
      else if c < 0x10000 then
        [0xE0 + ucast (drop_bit 12 c AND 0x0F), 0x80 + ucast (drop_bit 6 c AND 0x3F), 0x80 + ucast (c AND 0x3F)]
      else
        [0xF0 + ucast (drop_bit 18 c AND 0x07), 0x80 + ucast (drop_bit 12 c AND 0x3F),
         0x80 + ucast (drop_bit 6 c AND 0x3F), 0x80 + ucast (c AND 0x3F)])"

text \<open>The macro \<open>SQLITE_SKIP_UTF8\<close>, on a string that is not at its end.\<close>

definition SKIP_UTF8 :: "u8 list \<Rightarrow> u8 list" where
  "SKIP_UTF8 z = (if hd z \<ge> 0xc0 then dropWhile (\<lambda>b. b AND 0xc0 = 0x80) (tl z) else tl z)"

text \<open>
  The number of characters before the end of the string, or before the offset \<open>nByte\<close> when that
  is not negative; a character that starts before the offset counts.
\<close>

lemma SKIP_UTF8_length: "z \<noteq> [] \<Longrightarrow> length (SKIP_UTF8 z) < length z"
  using length_dropWhile_le [of "\<lambda>b. b AND 0xc0 = 0x80" "tl z"] by (cases z) (auto simp: SKIP_UTF8_def)

function utf8_charlen_loop :: "u8 list \<Rightarrow> cint option \<Rightarrow> cint \<Rightarrow> cint" where
  "utf8_charlen_loop z left r =
     (if z \<noteq> [] \<and> hd z \<noteq> 0 \<and> (case left of None \<Rightarrow> True | Some n \<Rightarrow> n > 0)
      then utf8_charlen_loop (SKIP_UTF8 z)
             (map_option (\<lambda>n. n - (int (length z) - int (length (SKIP_UTF8 z)))) left) (r + 1)
      else r)"
  by pat_completeness auto
termination
  by (relation "measure (\<lambda>(z, left, r). length z)") (auto simp: SKIP_UTF8_length)

declare utf8_charlen_loop.simps [simp del]

definition sqlite3Utf8CharLen :: "u8 list \<Rightarrow> cint \<Rightarrow> cint" where
  "sqlite3Utf8CharLen z nByte = utf8_charlen_loop z (if nByte \<ge> 0 then Some nByte else None) 0"

section \<open>UTF-16\<close>

definition WRITE_UTF16LE :: "u32 \<Rightarrow> u8 list" where
  "WRITE_UTF16LE c =
     (if c \<le> 0xFFFF then [ucast (c AND 0x00FF), ucast (drop_bit 8 c AND 0x00FF)]
      else [ucast ((drop_bit 10 c AND 0x003F) + (drop_bit 10 (c - 0x10000) AND 0x00C0)),
            ucast (0x00D8 + (drop_bit 18 (c - 0x10000) AND 0x03)),
            ucast (c AND 0x00FF),
            ucast (0x00DC + (drop_bit 8 c AND 0x03))])"

definition WRITE_UTF16BE :: "u32 \<Rightarrow> u8 list" where
  "WRITE_UTF16BE c =
     (if c \<le> 0xFFFF then [ucast (drop_bit 8 c AND 0x00FF), ucast (c AND 0x00FF)]
      else [ucast (0x00D8 + (drop_bit 18 (c - 0x10000) AND 0x03)),
            ucast ((drop_bit 10 c AND 0x003F) + (drop_bit 10 (c - 0x10000) AND 0x00C0)),
            ucast (0x00DC + (drop_bit 8 c AND 0x03)),
            ucast (c AND 0x00FF)])"

definition utf16_pair :: "u32 \<Rightarrow> u32 \<Rightarrow> u32" where
  "utf16_pair c c2 =
     (c2 AND 0x03FF) + push_bit 10 (c AND 0x003F) + push_bit 10 ((c AND 0x03C0) + 0x0040)"

text \<open>\<open>TERM\<close> is whether there is input after the first unit; the bytes come in pairs.\<close>

fun READ_UTF16LE :: "u8 list \<Rightarrow> u32 \<times> u8 list" where
  "READ_UTF16LE (a # b # z) =
     (let c = ucast a + push_bit 8 (ucast b)
      in if c \<ge> 0xD800 \<and> c < 0xE000 then
           (case z of
              a2 # b2 # z' \<Rightarrow> (utf16_pair c (ucast a2 + push_bit 8 (ucast b2)), z')
            | _ \<Rightarrow> (c, z))
         else (c, z))"
| "READ_UTF16LE z = (0, [])"

fun READ_UTF16BE :: "u8 list \<Rightarrow> u32 \<times> u8 list" where
  "READ_UTF16BE (b # a # z) =
     (let c = ucast a + push_bit 8 (ucast b)
      in if c \<ge> 0xD800 \<and> c < 0xE000 then
           (case z of
              b2 # a2 # z' \<Rightarrow> (utf16_pair c (ucast a2 + push_bit 8 (ucast b2)), z')
            | _ \<Rightarrow> (c, z))
         else (c, z))"
| "READ_UTF16BE z = (0, [])"

section \<open>Translation of a value\<close>

text \<open>The conversion loops: read a character, write it, until the input is used up.\<close>

lemma utf8_cont_length: "length (snd (utf8_cont c z)) \<le> length z"
  by (induction c z rule: utf8_cont.induct) auto

lemma READ_UTF8_length: "z \<noteq> [] \<Longrightarrow> length (snd (READ_UTF8 z)) < length z"
  using utf8_cont_length [of "sqlite3Utf8Trans1 (hd z - 0xc0)" "tl z"]
  by (cases z) (auto simp: READ_UTF8_def Let_def split: prod.split)

function utf8_to_16 :: "(u32 \<Rightarrow> u8 list) \<Rightarrow> u8 list \<Rightarrow> u8 list" where
  "utf8_to_16 write zIn =
     (if zIn = [] then [] else write (fst (READ_UTF8 zIn)) @ utf8_to_16 write (snd (READ_UTF8 zIn)))"
  by pat_completeness auto
termination
  by (relation "measure (\<lambda>(w, z). length z)") (auto simp: READ_UTF8_length)

declare utf8_to_16.simps [simp del]

text \<open>\<open>fuel\<close> is the number of bytes, of which each turn takes at least two.\<close>

primrec utf16_to_8 :: "nat \<Rightarrow> (u8 list \<Rightarrow> u32 \<times> u8 list) \<Rightarrow> u8 list \<Rightarrow> u8 list" where
  "utf16_to_8 0 read zIn = []"
| "utf16_to_8 (Suc fuel) read zIn =
     (if zIn = [] then [] else WRITE_UTF8 (fst (read zIn)) @ utf16_to_8 fuel read (snd (read zIn)))"

fun swap_pairs :: "u8 list \<Rightarrow> u8 list" where
  "swap_pairs (a # b # z) = b # a # swap_pairs z"
| "swap_pairs z = z"

text \<open>
  The fields of a \<open>Mem\<close> that hold a string: the bytes (\<open>z\<close> and \<open>n\<close>), the encoding, the flags
  \<open>MEM_Term\<close> and \<open>MEM_Null\<close>, whether \<open>z\<close> is the buffer \<open>zMalloc\<close>, and the size of that buffer.
  \<open>malloc n\<close> tells whether \<open>n\<close> bytes can be allocated.
\<close>

record Mem =
  mem_z :: "u8 list"
  mem_enc :: enc
  mem_term :: bool
  mem_null :: bool
  mem_own :: bool
  mem_sz :: nat

datatype translate_rc = TRANSLATE_OK | TRANSLATE_NOMEM

text \<open>\<open>sqlite3VdbeMemGrow\<close> with \<open>bPreserve\<close>; without memory the value becomes NULL.\<close>

definition sqlite3VdbeMemGrow :: "(nat \<Rightarrow> bool) \<Rightarrow> Mem \<Rightarrow> nat \<Rightarrow> translate_rc \<times> Mem" where
  "sqlite3VdbeMemGrow malloc pMem n =
     (if mem_sz pMem < n then
        (let n = (if n < 32 then 32 else n)
         in if malloc n then (TRANSLATE_OK, pMem\<lparr>mem_own := True, mem_sz := n\<rparr>)
            else (TRANSLATE_NOMEM,
                  pMem\<lparr>mem_z := [], mem_term := False, mem_null := True, mem_own := False, mem_sz := 0\<rparr>))
      else (TRANSLATE_OK, pMem\<lparr>mem_own := True\<rparr>))"

definition sqlite3VdbeMemMakeWriteable :: "(nat \<Rightarrow> bool) \<Rightarrow> Mem \<Rightarrow> translate_rc \<times> Mem" where
  "sqlite3VdbeMemMakeWriteable malloc pMem =
     (if \<not> mem_null pMem \<and> (mem_sz pMem = 0 \<or> \<not> mem_own pMem) then
        (case sqlite3VdbeMemGrow malloc pMem (length (mem_z pMem) + 2) of
           (TRANSLATE_NOMEM, pMem) \<Rightarrow> (TRANSLATE_NOMEM, pMem)
         | (TRANSLATE_OK, pMem) \<Rightarrow> (TRANSLATE_OK, pMem\<lparr>mem_term := True\<rparr>))
      else (TRANSLATE_OK, pMem))"

fun even_part :: "u8 list \<Rightarrow> u8 list" where
  "even_part (a # b # z) = a # b # even_part z"
| "even_part z = []"

definition translate_len :: "enc \<Rightarrow> u8 list \<Rightarrow> nat" where
  "translate_len desiredEnc z =
     (if desiredEnc = UTF8 then length (even_part z) * 2 + 1 else length z * 2 + 2)"

definition translate_out :: "enc \<Rightarrow> enc \<Rightarrow> u8 list \<Rightarrow> u8 list" where
  "translate_out e desiredEnc z =
     (case e of
        UTF8 \<Rightarrow> utf8_to_16 (if desiredEnc = UTF16LE then WRITE_UTF16LE else WRITE_UTF16BE) z
      | UTF16LE \<Rightarrow> utf16_to_8 (length z) READ_UTF16LE (even_part z)
      | UTF16BE \<Rightarrow> utf16_to_8 (length z) READ_UTF16BE (even_part z))"

definition sqlite3VdbeMemTranslate :: "(nat \<Rightarrow> bool) \<Rightarrow> Mem \<Rightarrow> enc \<Rightarrow> translate_rc \<times> Mem" where
  "sqlite3VdbeMemTranslate malloc pMem desiredEnc =
     (if mem_enc pMem \<noteq> UTF8 \<and> desiredEnc \<noteq> UTF8 then
        (case sqlite3VdbeMemMakeWriteable malloc pMem of
           (TRANSLATE_NOMEM, pMem) \<Rightarrow> (TRANSLATE_NOMEM, pMem)
         | (TRANSLATE_OK, pMem) \<Rightarrow>
             (TRANSLATE_OK, pMem\<lparr>mem_z := swap_pairs (mem_z pMem), mem_enc := desiredEnc\<rparr>))
      else
        (if \<not> malloc (translate_len desiredEnc (mem_z pMem))
         then (TRANSLATE_NOMEM,
               pMem\<lparr>mem_z := (if desiredEnc = UTF8 then even_part (mem_z pMem) else mem_z pMem)\<rparr>)
         else (TRANSLATE_OK,
               pMem\<lparr>mem_z := translate_out (mem_enc pMem) desiredEnc (mem_z pMem), mem_enc := desiredEnc,
                    mem_term := True, mem_null := False, mem_own := True,
                    mem_sz := translate_len desiredEnc (mem_z pMem)\<rparr>)))"

text \<open>A byte-order mark at the start is removed and determines the encoding.\<close>

definition sqlite3VdbeMemHandleBom :: "(nat \<Rightarrow> bool) \<Rightarrow> Mem \<Rightarrow> translate_rc \<times> Mem" where
  "sqlite3VdbeMemHandleBom malloc pMem =
     (let bom = (case mem_z pMem of
                   b1 # b2 # z \<Rightarrow>
                     (if b1 = 0xFF \<and> b2 = 0xFE then Some UTF16LE
                      else if b1 = 0xFE \<and> b2 = 0xFF then Some UTF16BE else None)
                 | _ \<Rightarrow> None)
      in case bom of
           None \<Rightarrow> (TRANSLATE_OK, pMem)
         | Some e \<Rightarrow>
             (case sqlite3VdbeMemMakeWriteable malloc pMem of
                (TRANSLATE_NOMEM, pMem) \<Rightarrow> (TRANSLATE_NOMEM, pMem)
              | (TRANSLATE_OK, pMem) \<Rightarrow>
                  (TRANSLATE_OK, pMem\<lparr>mem_z := drop 2 (mem_z pMem), mem_term := True, mem_enc := e\<rparr>)))"

text \<open>The number of bytes of the first \<open>nChar\<close> characters, in the native order of the targets.\<close>

primrec sqlite3Utf16ByteLen :: "u8 list \<Rightarrow> nat \<Rightarrow> nat" where
  "sqlite3Utf16ByteLen z 0 = 0"
| "sqlite3Utf16ByteLen z (Suc n) =
     (length z - length (snd (READ_UTF16LE z))) + sqlite3Utf16ByteLen (snd (READ_UTF16LE z)) n"


section \<open>Words as numbers\<close>

lemma unat_and_field:
  fixes x :: "'a::len word"
  shows "unat (x AND push_bit k (mask j)) = unat x div 2 ^ k mod 2 ^ j * 2 ^ k"
proof -
  have *: "x AND push_bit k (mask j) = push_bit k (take_bit j (drop_bit k x))"
    by (rule bit_word_eqI) (auto simp: bit_simps)
  have "unat x div 2 ^ k mod 2 ^ j * 2 ^ k \<le> unat x"
    by (metis div_times_less_eq_dividend le_trans mod_less_eq_dividend mult_le_mono1)
  then have "unat x div 2 ^ k mod 2 ^ j * 2 ^ k < 2 ^ LENGTH('a)"
    using unsigned_less [of x, where 'a = nat] by linarith
  then show ?thesis
    unfolding * unsigned_push_bit_eq unsigned_take_bit_eq unat_drop_bit_eq
    by (simp add: push_bit_eq_mult take_bit_eq_mod drop_bit_eq_div min_def)
qed

lemma unat_and_mask: "unat ((x::'a::len word) AND mask j) = unat x mod 2 ^ j"
  using unat_and_field [of x 0 j] by simp

lemma unat_and_high:
  fixes x :: "'a::len word"
  shows "unat (x AND NOT (mask n)) = unat x div 2 ^ n * 2 ^ n"
proof -
  have *: "x AND NOT (mask n) = push_bit n (drop_bit n x)"
    by (rule bit_word_eqI) (auto simp: bit_simps)
  have "unat x div 2 ^ n * 2 ^ n < 2 ^ LENGTH('a)"
    using unsigned_less [of x, where 'a = nat] div_times_less_eq_dividend [of "unat x" "2 ^ n"] by linarith
  then show ?thesis
    unfolding * unsigned_push_bit_eq unat_drop_bit_eq
    by (simp add: push_bit_eq_mult drop_bit_eq_div take_bit_eq_mod)
qed

lemma unat_drop: "unat (drop_bit n (x::'a::len word)) = unat x div 2 ^ n"
  unfolding unat_drop_bit_eq by (simp only: drop_bit_eq_div)

text \<open>The masks of utf.c.\<close>

lemma masks_u32:
  "(0x00FF :: u32) = mask 8" "(0x3F :: u32) = mask 6" "(0x1F :: u32) = mask 5" "(0x0F :: u32) = mask 4"
  "(0x07 :: u32) = mask 3" "(0x03 :: u32) = mask 2" "(0x03FF :: u32) = mask 10"
  "(0x00C0 :: u32) = push_bit 6 (mask 2)" "(0x03C0 :: u32) = push_bit 6 (mask 4)"
  "(0xFFFFF800 :: u32) = NOT (mask 11)" "(0xFFFFFFFE :: u32) = NOT (mask 1)"
  by code_simp+

lemma and_masks_u32:
  fixes x :: u32
  shows "unat (x AND 0x00FF) = unat x mod 256" and "unat (x AND 0x3F) = unat x mod 64"
    and "unat (x AND 0x1F) = unat x mod 32" and "unat (x AND 0x0F) = unat x mod 16"
    and "unat (x AND 0x07) = unat x mod 8" and "unat (x AND 0x03) = unat x mod 4"
    and "unat (x AND 0x03FF) = unat x mod 1024"
    and "unat (x AND 0x00C0) = unat x div 64 mod 4 * 64"
    and "unat (x AND 0x03C0) = unat x div 64 mod 16 * 64"
    and "unat (x AND 0xFFFFF800) = unat x div 2048 * 2048"
    and "unat (x AND 0xFFFFFFFE) = unat x div 2 * 2"
  unfolding masks_u32 unat_and_mask unat_and_field unat_and_high by simp_all

lemma ucast_of_nat: "ucast (x::'a::len word) = (word_of_nat (unat x) :: 'b::len word)"
  by simp


lemma unat_u8: "n < 256 \<Longrightarrow> unat (word_of_nat n :: u8) = n"
  by (simp add: unat_of_nat)

lemma unat_u32: "n < 2 ^ 32 \<Longrightarrow> unat (word_of_nat n :: u32) = n"
  by (simp add: unat_of_nat)

section \<open>Round trips\<close>

text \<open>The characters that UTF-8 and UTF-16 text can hold as far as utf.c is concerned.\<close>

definition scalar :: "u32 \<Rightarrow> bool" where
  "scalar c \<longleftrightarrow> unat c < 0x110000 \<and> unat c div 2048 \<noteq> 27 \<and> unat c div 2 \<noteq> 0x7FFF"

definition is_cont :: "u8 \<Rightarrow> bool" where
  "is_cont b \<longleftrightarrow> b AND 0xc0 = 0x80"

lemma is_cont_div: "is_cont b \<longleftrightarrow> unat b div 64 = 2"
proof -
  have m: "(0xc0 :: u8) = NOT (mask 6)" "(0x80 :: u8) = push_bit 7 1" by code_simp+
  have "unat (b AND 0xc0) = unat b div 64 * 64"
    unfolding m unat_and_high by simp
  then show ?thesis
    unfolding is_cont_def word_unat_eq_iff by simp
qed

lemma utf8_fix_scalar: "scalar c \<Longrightarrow> 0x80 \<le> unat c \<Longrightarrow> utf8_fix c = c"
  unfolding utf8_fix_def scalar_def word_unat_eq_iff and_masks_u32
  by (simp add: word_less_nat_alt) 

lemma Utf8Trans1_lead:
  "k < 32 \<Longrightarrow> sqlite3Utf8Trans1 (word_of_nat k) = word_of_nat k"
  "k < 16 \<Longrightarrow> sqlite3Utf8Trans1 (word_of_nat (32 + k)) = word_of_nat k"
  "k < 8 \<Longrightarrow> sqlite3Utf8Trans1 (word_of_nat (48 + k)) = word_of_nat k"
proof -
  have *: "list_all (\<lambda>k. sqlite3Utf8Trans1 (word_of_nat k) = word_of_nat k) [0..<32]"
    "list_all (\<lambda>k. sqlite3Utf8Trans1 (word_of_nat (32 + k)) = word_of_nat k) [0..<16]"
    "list_all (\<lambda>k. sqlite3Utf8Trans1 (word_of_nat (48 + k)) = word_of_nat k) [0..<8]"
    by code_simp+
  show "k < 32 \<Longrightarrow> sqlite3Utf8Trans1 (word_of_nat k) = word_of_nat k"
    and "k < 16 \<Longrightarrow> sqlite3Utf8Trans1 (word_of_nat (32 + k)) = word_of_nat k"
    and "k < 8 \<Longrightarrow> sqlite3Utf8Trans1 (word_of_nat (48 + k)) = word_of_nat k"
    using * by (simp_all only: list_all_iff set_upt atLeastLessThan_iff le0 simp_thms)
qed

text \<open>A character as the numbers of its bytes.\<close>

definition utf8_bytes :: "nat \<Rightarrow> nat list" where
  "utf8_bytes n =
     (if n < 0x80 then [n]
      else if n < 0x800 then [192 + n div 64, 128 + n mod 64]
      else if n < 0x10000 then [224 + n div 4096, 128 + n div 64 mod 64, 128 + n mod 64]
      else [240 + n div 262144, 128 + n div 4096 mod 64, 128 + n div 64 mod 64, 128 + n mod 64])"

lemma WRITE_UTF8_bytes:
  assumes "unat c < 0x110000"
  shows "WRITE_UTF8 c = map word_of_nat (utf8_bytes (unat c))"
proof -
  have d: "unat c div 4096 mod 16 = unat c div 4096" if "unat c < 0x10000"
    using that by simp
  have e: "unat c div 64 mod 32 = unat c div 64" if "unat c < 0x800"
    using that by simp
  have f: "unat c div 262144 mod 8 = unat c div 262144"
    using assms by simp
  have g: "unat c mod 256 = unat c" if "unat c < 0x80" using that by simp
  show ?thesis
    unfolding WRITE_UTF8_def utf8_bytes_def ucast_of_nat
    unfolding and_masks_u32 unat_drop word_less_nat_alt
    by (simp add: d e f g)
qed

lemma cont_of_nat: "k < 64 \<Longrightarrow> is_cont (word_of_nat (128 + k))"
  unfolding is_cont_div by (simp add: unat_u8 del: of_nat_add)

lemma utf8_cont_step:
  assumes "k < 64"
  shows "utf8_cont (word_of_nat a) (word_of_nat (128 + k) # z) = utf8_cont (word_of_nat (a * 64 + k)) z"
proof -
  have "unat (0x3F AND (ucast (word_of_nat (128 + k) :: u8) :: u32)) = k"
    unfolding and.commute [of "0x3F :: u32"] and_masks_u32
    using assms mod_mult_self3 [of 2 64 k] by (simp add: ucast_of_nat unat_u8 unat_u32 del: of_nat_add mod_mult_self3)
  then have "0x3F AND (ucast (word_of_nat (128 + k) :: u8) :: u32) = word_of_nat k"
    using assms by (simp only: word_unat_eq_iff) (simp add: unat_u32)
  then show ?thesis
    using cont_of_nat [OF assms] unfolding is_cont_def
    by (simp add: push_bit_eq_mult)
qed


lemma utf8_cont_mod:
  "utf8_cont (word_of_nat a) (word_of_nat (128 + x mod 64) # z) = utf8_cont (word_of_nat (a * 64 + x mod 64)) z"
  by (rule utf8_cont_step) simp

text \<open>A string that does not start with a continuation byte.\<close>

definition starts :: "u8 list \<Rightarrow> bool" where
  "starts z \<longleftrightarrow> z = [] \<or> \<not> is_cont (hd z)"

lemma utf8_cont_stop: "starts z \<Longrightarrow> utf8_cont c z = (c, z)"
  by (cases z) (auto simp: starts_def is_cont_def)

lemma READ_UTF8_lead:
  assumes "192 \<le> n" "n < 256"
  shows "READ_UTF8 (word_of_nat n # z) =
     (let (c, z) = utf8_cont (sqlite3Utf8Trans1 (word_of_nat (n - 192))) z in (utf8_fix c, z))"
proof -
  have c: "(ucast (word_of_nat n :: u8) :: u32) \<ge> 0xc0"
    using assms by (simp add: word_le_nat_alt ucast_of_nat unat_u8 unat_u32)
  have "(word_of_nat n :: u8) = word_of_nat (n - 192) + word_of_nat 192"
    using assms(1) by (metis of_nat_add le_add_diff_inverse2)
  then have "(word_of_nat n :: u8) - 0xc0 = word_of_nat (n - 192)" by simp
  with c show ?thesis by (simp add: READ_UTF8_def Let_def)
qed

lemma sextets:
  fixes n :: nat
  shows "(n div 4096 * 64 + n div 64 mod 64) * 64 + n mod 64 = n"
    and "((n div 262144 * 64 + n div 4096 mod 64) * 64 + n div 64 mod 64) * 64 + n mod 64 = n"
proof -
  have d: "n div 4096 = n div 64 div 64" "n div 262144 = n div 64 div 64 div 64"
    by (simp_all add: div_mult2_eq [symmetric])
  show "(n div 4096 * 64 + n div 64 mod 64) * 64 + n mod 64 = n"
    unfolding d div_mult_mod_eq by (rule refl)
  show "((n div 262144 * 64 + n div 4096 mod 64) * 64 + n div 64 mod 64) * 64 + n mod 64 = n"
    unfolding d div_mult_mod_eq by (rule refl)
qed

lemma READ_UTF8_ascii:
  assumes "n < 192"
  shows "READ_UTF8 (word_of_nat n # z) = (word_of_nat n, z)"
proof -
  have e: "ucast (word_of_nat n :: u8) = (word_of_nat n :: u32)"
    unfolding ucast_of_nat using assms by (simp only: unat_u8)
  have "\<not> (word_of_nat n :: u32) \<ge> 0xc0"
    using assms unfolding word_le_nat_alt by (simp add: unat_u32)
  then show ?thesis by (simp add: READ_UTF8_def e)
qed

lemma READ_UTF8_2:
  assumes "0x80 \<le> n" "n < 0x800" and z: "starts z" and fx: "utf8_fix (word_of_nat n) = word_of_nat n"
  shows "READ_UTF8 (map word_of_nat (utf8_bytes n) @ z) = (word_of_nat n, z)"
proof -
  have b: "utf8_bytes n = [192 + n div 64, 128 + n mod 64]"
    using assms(1,2) by (simp add: utf8_bytes_def)
  have l: "sqlite3Utf8Trans1 (word_of_nat (192 + n div 64 - 192)) = word_of_nat (n div 64)"
    using Utf8Trans1_lead(1) [of "n div 64"] assms(2) by simp
  have h: "192 \<le> 192 + n div 64" "192 + n div 64 < 256" using assms(2) by simp_all
  have "utf8_cont (word_of_nat (n div 64)) (word_of_nat (128 + n mod 64) # z) = (word_of_nat n, z)"
    unfolding utf8_cont_mod div_mult_mod_eq
    by (rule utf8_cont_stop [OF z])
  then show ?thesis
    unfolding b list.map append_Cons append_Nil READ_UTF8_lead [OF h] l by (simp only: Let_def prod.case fx)
qed


lemma READ_UTF8_3:
  assumes "0x800 \<le> n" "n < 0x10000" and z: "starts z" and fx: "utf8_fix (word_of_nat n) = word_of_nat n"
  shows "READ_UTF8 (map word_of_nat (utf8_bytes n) @ z) = (word_of_nat n, z)"
proof -
  have b: "utf8_bytes n = [224 + n div 4096, 128 + n div 64 mod 64, 128 + n mod 64]"
    using assms(1,2) by (simp add: utf8_bytes_def)
  have l: "sqlite3Utf8Trans1 (word_of_nat (224 + n div 4096 - 192)) = word_of_nat (n div 4096)"
    using Utf8Trans1_lead(2) [of "n div 4096"] assms(2) by simp
  have h: "192 \<le> 224 + n div 4096" "224 + n div 4096 < 256" using assms(2) by simp_all
  have "utf8_cont (word_of_nat (n div 4096))
      (word_of_nat (128 + n div 64 mod 64) # word_of_nat (128 + n mod 64) # z) = (word_of_nat n, z)"
    unfolding utf8_cont_mod sextets by (rule utf8_cont_stop [OF z])
  then show ?thesis
    unfolding b list.map append_Cons append_Nil READ_UTF8_lead [OF h] l by (simp only: Let_def prod.case fx)
qed

lemma READ_UTF8_4:
  assumes "0x10000 \<le> n" "n < 0x110000" and z: "starts z" and fx: "utf8_fix (word_of_nat n) = word_of_nat n"
  shows "READ_UTF8 (map word_of_nat (utf8_bytes n) @ z) = (word_of_nat n, z)"
proof -
  have b: "utf8_bytes n = [240 + n div 262144, 128 + n div 4096 mod 64, 128 + n div 64 mod 64, 128 + n mod 64]"
    using assms(1,2) by (simp add: utf8_bytes_def)
  have l: "sqlite3Utf8Trans1 (word_of_nat (240 + n div 262144 - 192)) = word_of_nat (n div 262144)"
    using Utf8Trans1_lead(3) [of "n div 262144"] assms(2) by simp
  have h: "192 \<le> 240 + n div 262144" "240 + n div 262144 < 256" using assms(2) by simp_all
  have "utf8_cont (word_of_nat (n div 262144))
      (word_of_nat (128 + n div 4096 mod 64) # word_of_nat (128 + n div 64 mod 64) # word_of_nat (128 + n mod 64) # z)
      = (word_of_nat n, z)"
    unfolding utf8_cont_mod sextets by (rule utf8_cont_stop [OF z])
  then show ?thesis
    unfolding b list.map append_Cons append_Nil READ_UTF8_lead [OF h] l by (simp only: Let_def prod.case fx)
qed

lemma READ_WRITE_UTF8:
  assumes c: "scalar c" and z: "starts z"
  shows "READ_UTF8 (WRITE_UTF8 c @ z) = (c, z)"
proof -
  define n where "n = unat c"
  have n: "n < 0x110000" and cn: "c = word_of_nat n" using c by (simp_all add: n_def scalar_def)
  have fx: "utf8_fix (word_of_nat n) = word_of_nat n" if "0x80 \<le> n"
    using utf8_fix_scalar [OF c] that n_def by simp
  consider "n < 0x80" | "0x80 \<le> n" "n < 0x800" | "0x800 \<le> n" "n < 0x10000" | "0x10000 \<le> n"
    by linarith
  then have "READ_UTF8 (map word_of_nat (utf8_bytes n) @ z) = (word_of_nat n, z)"
  proof cases
    case 1
    then show ?thesis using READ_UTF8_ascii [of n z] by (simp add: utf8_bytes_def)
  next
    case 2
    then show ?thesis using READ_UTF8_2 [OF _ _ z] fx by simp
  next
    case 3
    then show ?thesis using READ_UTF8_3 [OF _ _ z] fx by simp
  next
    case 4
    then show ?thesis using READ_UTF8_4 [OF _ n z] fx by simp
  qed
  then show ?thesis
    unfolding WRITE_UTF8_bytes [OF n [unfolded n_def]] n_def by simp
qed

text \<open>Text, as the bytes of its characters.\<close>

definition utf8 :: "u32 list \<Rightarrow> u8 list" where
  "utf8 cs = concat (map WRITE_UTF8 cs)"

lemma utf8_simps [simp]: "utf8 [] = []" "utf8 (c # cs) = WRITE_UTF8 c @ utf8 cs"
  by (simp_all add: utf8_def)

lemma WRITE_UTF8_shape:
  assumes "unat c < 0x110000"
  obtains b bs where "WRITE_UTF8 c = b # bs" "\<not> is_cont b" "bs = [] \<or> 0xc0 \<le> b" "list_all is_cont bs"
    "b = 0 \<longleftrightarrow> c = 0"
proof -
  define n where "n = unat c"
  have l: "\<not> is_cont (word_of_nat k)" if "k < 128 \<or> 192 \<le> k" "k < 256" for k
    unfolding is_cont_div unat_u8 [OF that(2)] using that by auto
  have g: "0xc0 \<le> (word_of_nat k :: u8)" if "192 \<le> k" "k < 256" for k
    using that by (simp add: word_le_nat_alt unat_u8)
  have m: "is_cont (word_of_nat (128 + k mod 64))" for k by (rule cont_of_nat) simp
  have z: "(word_of_nat k :: u8) = 0 \<longleftrightarrow> k = 0" if "k < 256" for k
    using that by (simp only: word_unat_eq_iff unat_u8) simp
  have w: "WRITE_UTF8 c = map word_of_nat (utf8_bytes n)" and c: "c = 0 \<longleftrightarrow> n = 0"
    using WRITE_UTF8_bytes [OF assms] by (simp_all add: n_def unat_eq_0)
  have n: "n < 0x110000" using assms by (simp add: n_def)
  consider "n < 0x80" | "0x80 \<le> n" "n < 0x800" | "0x800 \<le> n" "n < 0x10000" | "0x10000 \<le> n"
    by linarith
  then show thesis
  proof cases
    case 1
    then have b: "utf8_bytes n = [n]" and h: "n < 256" by (simp_all add: utf8_bytes_def)
    show thesis
      by (rule that [OF w [unfolded b list.map]]) (use l [of n] z [OF h] c h 1 in simp_all)
  next
    case 2
    then have b: "utf8_bytes n = [192 + n div 64, 128 + n mod 64]" and h: "192 + n div 64 < 256"
      by (simp_all add: utf8_bytes_def)
    show thesis
      by (rule that [OF w [unfolded b list.map]])
        (use l [OF _ h] g [OF _ h] z [OF h] c 2 m in \<open>simp_all del: of_nat_add\<close>)
  next
    case 3
    then have b: "utf8_bytes n = [224 + n div 4096, 128 + n div 64 mod 64, 128 + n mod 64]" and h: "224 + n div 4096 < 256"
      by (simp_all add: utf8_bytes_def)
    show thesis
      by (rule that [OF w [unfolded b list.map]])
        (use l [OF _ h] g [OF _ h] z [OF h] c 3 m in \<open>simp_all del: of_nat_add\<close>)
  next
    case 4
    then have b: "utf8_bytes n = [240 + n div 262144, 128 + n div 4096 mod 64, 128 + n div 64 mod 64, 128 + n mod 64]"
      and h: "240 + n div 262144 < 256"
      using n by (simp_all add: utf8_bytes_def)
    show thesis
      by (rule that [OF w [unfolded b list.map]])
        (use l [OF _ h] g [OF _ h] z [OF h] c 4 m in \<open>simp_all del: of_nat_add\<close>)
  qed
qed

lemma utf8_starts: "list_all scalar cs \<Longrightarrow> starts (utf8 cs)"
proof (cases cs)
  case (Cons c cs')
  assume "list_all scalar cs"
  then have "unat c < 0x110000" using Cons by (simp add: scalar_def)
  from WRITE_UTF8_shape [OF this] obtain b bs where "WRITE_UTF8 c = b # bs" "\<not> is_cont b" by blast
  then show ?thesis using Cons by (simp add: starts_def)
qed (simp add: starts_def)

lemma READ_UTF8_utf8:
  "list_all scalar (c # cs) \<Longrightarrow> READ_UTF8 (utf8 (c # cs)) = (c, utf8 cs)"
  using READ_WRITE_UTF8 [OF _ utf8_starts [of cs]] by simp

lemma SKIP_UTF8_utf8:
  assumes "list_all scalar (c # cs)"
  shows "SKIP_UTF8 (utf8 (c # cs)) = utf8 cs"
proof -
  have "unat c < 0x110000" using assms by (simp add: scalar_def)
  from WRITE_UTF8_shape [OF this] obtain b bs where *: "WRITE_UTF8 c = b # bs" "bs = [] \<or> 0xc0 \<le> b" "list_all is_cont bs"
    by blast
  have "dropWhile (\<lambda>b. b AND 0xc0 = 0x80) (utf8 cs) = utf8 cs"
    using utf8_starts [of cs] assms by (cases "utf8 cs") (auto simp: starts_def is_cont_def)
  then have "dropWhile (\<lambda>b. b AND 0xc0 = 0x80) (bs @ utf8 cs) = utf8 cs"
    using *(3) by (simp add: dropWhile_append list_all_iff is_cont_def)
  with * show ?thesis
    unfolding SKIP_UTF8_def utf8_simps by auto
qed


section \<open>UTF-16 round trip\<close>

definition utf16_bytes :: "nat \<Rightarrow> nat list" where
  "utf16_bytes n =
     (if n < 0x10000 then [n mod 256, n div 256]
      else [(n - 0x10000) div 1024 mod 256, 0xD8 + (n - 0x10000) div 262144, n mod 256, 0xDC + n div 256 mod 4])"

lemma surrogate_high_low:
  fixes n :: nat
  assumes "0x10000 \<le> n"
  shows "n div 1024 mod 64 + (n - 0x10000) div 1024 div 64 mod 4 * 64 = (n - 0x10000) div 1024 mod 256"
proof -
  define m where "m = (n - 0x10000) div 1024"
  have "n = (n - 0x10000) + 64 * 1024" using assms by simp
  then have "n div 1024 = m + 64"
    unfolding m_def by (metis div_mult_self1 zero_neq_numeral add.commute mult.commute)
  then have "n div 1024 mod 64 = m mod 64" by simp
  moreover have "m mod 256 = m div 64 mod 4 * 64 + m mod 64"
    using mod_mult2_eq [of m 64 4] by simp
  ultimately show ?thesis unfolding m_def [symmetric] by simp
qed

lemma unat_add_u32: "unat (x::u32) + unat y < 2 ^ 32 \<Longrightarrow> unat (x + y) = unat x + unat y"
  by (simp only: unat_word_ariths len_of_numeral_defs) simp

text \<open>The bytes of the two surrogates.\<close>

lemma utf16_surrogates:
  fixes c :: u32
  assumes "0x10000 \<le> unat c" "unat c < 0x110000"
  shows "unat ((drop_bit 10 c AND 0x003F) + (drop_bit 10 (c - 0x10000) AND 0x00C0)) = (unat c - 0x10000) div 1024 mod 256"
    and "unat (0x00D8 + (drop_bit 18 (c - 0x10000) AND 0x03)) = 0xD8 + (unat c - 0x10000) div 262144"
    and "unat (0x00DC + (drop_bit 8 c AND 0x03)) = 0xDC + unat c div 256 mod 4"
proof -
  have "0x10000 \<le> c" using assms(1) by (simp add: word_le_nat_alt)
  then have m: "unat (c - 0x10000) = unat c - 0x10000"
    by (simp add: unat_sub)
  have "unat (drop_bit 10 c AND 0x003F) + unat (drop_bit 10 (c - 0x10000) AND 0x00C0)
      = (unat c - 0x10000) div 1024 mod 256"
    unfolding and_masks_u32 unat_drop m using surrogate_high_low [of "unat c"] assms by simp
  moreover have "(unat c - 0x10000) div 1024 mod 256 < 2 ^ 32"
    by (rule less_le_trans [OF mod_less_divisor]) simp_all
  ultimately show "unat ((drop_bit 10 c AND 0x003F) + (drop_bit 10 (c - 0x10000) AND 0x00C0))
      = (unat c - 0x10000) div 1024 mod 256"
    by (simp add: unat_add_u32)
  have d: "(unat c - 0x10000) div 262144 mod 4 = (unat c - 0x10000) div 262144" "(unat c - 0x10000) div 262144 < 4"
    using assms by simp_all
  then have e: "unat (drop_bit 18 (c - 0x10000) AND 0x03) = (unat c - 0x10000) div 262144"
    unfolding and_masks_u32 unat_drop m by simp
  have "unat (0x00D8 :: u32) + unat (drop_bit 18 (c - 0x10000) AND 0x03) < 2 ^ 32"
    unfolding e using d by simp
  from unat_add_u32 [OF this] show "unat (0x00D8 + (drop_bit 18 (c - 0x10000) AND 0x03)) = 0xD8 + (unat c - 0x10000) div 262144"
    unfolding e by simp
  have f: "unat (drop_bit 8 c AND 0x03) = unat c div 256 mod 4"
    unfolding and_masks_u32 unat_drop by simp
  have "unat c div 256 mod 4 < 4" by simp
  then have "unat (0x00DC :: u32) + unat (drop_bit 8 c AND 0x03) < 2 ^ 32"
    unfolding f by simp
  from unat_add_u32 [OF this] show "unat (0x00DC + (drop_bit 8 c AND 0x03)) = 0xDC + unat c div 256 mod 4"
    unfolding f by simp
qed

lemma utf16_low_bytes:
  "unat (c AND 0x00FF :: u32) = unat c mod 256"
  "unat (drop_bit 8 c AND 0x00FF :: u32) = unat c div 256 mod 256"
  unfolding and_masks_u32 unat_drop by simp_all

lemma WRITE_UTF16LE_bytes:
  assumes "unat c < 0x110000"
  shows "WRITE_UTF16LE c = map word_of_nat (utf16_bytes (unat c))"
proof (cases "unat c < 0x10000")
  case True
  then have "c \<le> 0xFFFF" by (simp add: word_le_nat_alt)
  moreover have "unat c div 256 mod 256 = unat c div 256" using True by simp
  ultimately show ?thesis
    using True unfolding WRITE_UTF16LE_def utf16_bytes_def ucast_of_nat utf16_low_bytes(2) unfolding utf16_low_bytes(1) by simp
next
  case False
  then have "\<not> c \<le> 0xFFFF" by (simp add: word_le_nat_alt)
  with False show ?thesis
    unfolding WRITE_UTF16LE_def utf16_bytes_def ucast_of_nat utf16_low_bytes(2) unfolding utf16_low_bytes(1)
      utf16_surrogates [OF False [unfolded not_less] assms] by (simp del: of_nat_add)
qed

text \<open>The big-endian form has the bytes of each unit in the other order.\<close>

lemma WRITE_UTF16BE_swap: "WRITE_UTF16BE c = swap_pairs (WRITE_UTF16LE c)"
  by (simp add: WRITE_UTF16BE_def WRITE_UTF16LE_def)

lemma READ_UTF16BE_swap:
  "even (length z) \<Longrightarrow> READ_UTF16BE (swap_pairs z) = (fst (READ_UTF16LE z), swap_pairs (snd (READ_UTF16LE z)))"
  by (induction z rule: swap_pairs.induct) (auto simp: Let_def split: list.split)

lemma utf16_unit:
  assumes "a < 256" "b < 256"
  shows "ucast (word_of_nat a :: u8) + push_bit 8 (ucast (word_of_nat b :: u8)) = (word_of_nat (a + 256 * b) :: u32)"
  unfolding ucast_of_nat unat_u8 [OF assms(1)] unat_u8 [OF assms(2)]
  by (simp add: push_bit_eq_mult)

lemma sum_parts:
  fixes h m r p q :: nat
  assumes "h * 1024 + r = m" "p * 64 + q = h"
  shows "r + q * 1024 + (p * 64 + 64) * 1024 = 65536 + m"
  unfolding assms [symmetric] by (simp add: algebra_simps)

lemma utf16_pair_value:
  assumes "m < 0x100000"
  shows "utf16_pair (word_of_nat (0xD800 + m div 1024)) (word_of_nat (0xDC00 + m mod 1024)) = word_of_nat (0x10000 + m)"
proof -
  define h where "h = m div 1024"
  have h: "h < 1024" using assms by (simp add: h_def)
  have u: "unat (word_of_nat (0xD800 + h) :: u32) = 0xD800 + h"
    "unat (word_of_nat (0xDC00 + m mod 1024) :: u32) = 0xDC00 + m mod 1024"
    using h by (intro unat_u32; simp add: less_trans [OF mod_less_divisor])+
  have eqI: "x = word_of_nat k" if "unat x = k" for x :: u32 and k
    using that by auto
  have a: "(word_of_nat (0xDC00 + m mod 1024) AND 0x03FF :: u32) = word_of_nat (m mod 1024)"
    by (rule eqI) (simp only: and_masks_u32 u mod_mult_self3 [of 55 1024 "m mod 1024", simplified] mod_mod_trivial)
  have b: "(word_of_nat (0xD800 + h) AND 0x003F :: u32) = word_of_nat (h mod 64)"
    by (rule eqI) (simp only: and_masks_u32 u mod_mult_self3 [of 864 64 h, simplified])
  have "(0xD800 + h) div 64 mod 16 = h div 64"
    using div_mult_self3 [of 64 864 h] mod_mult_self3 [of 54 16 "h div 64"] h by simp
  then have c: "(word_of_nat (0xD800 + h) AND 0x03C0 :: u32) = word_of_nat (h div 64 * 64)"
    by (intro eqI) (simp only: and_masks_u32 u)
  have "utf16_pair (word_of_nat (0xD800 + h)) (word_of_nat (0xDC00 + m mod 1024))
      = word_of_nat (m mod 1024 + h mod 64 * 1024 + (h div 64 * 64 + 0x40) * 1024)"
    unfolding utf16_pair_def a b c by (simp add: push_bit_eq_mult)
  also have "m mod 1024 + h mod 64 * 1024 + (h div 64 * 64 + 64) * 1024 = 65536 + m"
  proof -
    have "h * 1024 + m mod 1024 = m" "h div 64 * 64 + h mod 64 = h"
      using div_mult_mod_eq [of m 1024] div_mult_mod_eq [of h 64] unfolding h_def [symmetric] .
    then show ?thesis by (rule sum_parts)
  qed
  finally show ?thesis unfolding h_def .
qed


lemma READ_WRITE_UTF16LE:
  assumes c: "scalar c"
  shows "READ_UTF16LE (WRITE_UTF16LE c @ z) = (c, z)"
proof -
  define n where "n = unat c"
  have n: "n < 0x110000" "n div 2048 \<noteq> 27" and cn: "c = word_of_nat n" using c by (simp_all add: n_def scalar_def)
  have "READ_UTF16LE (map word_of_nat (utf16_bytes n) @ z) = (word_of_nat n, z)"
  proof (cases "n < 0x10000")
    case True
    have e: "n mod 256 + 256 * (n div 256) = n" by simp
    have u: "ucast (word_of_nat (n mod 256) :: u8) + push_bit 8 (ucast (word_of_nat (n div 256) :: u8)) = (word_of_nat n :: u32)"
      using utf16_unit [of "n mod 256" "n div 256"] True unfolding e by simp
    have "\<not> (0xD800 \<le> (word_of_nat n :: u32) \<and> (word_of_nat n :: u32) < 0xE000)"
      using n(2) True by (auto simp: word_le_nat_alt word_less_nat_alt unat_u32)
    with True show ?thesis
      by (simp only: utf16_bytes_def if_True list.map append_Cons append_Nil READ_UTF16LE.simps u Let_def) simp
  next
    case False
    define m where "m = n - 0x10000"
    have m: "m < 0x100000" "n = 0x10000 + m" using n(1) False by (simp_all add: m_def)
    have e: "m div 1024 mod 256 + 256 * (0xD8 + m div 262144) = 0xD800 + m div 1024"
      using div_mult_mod_eq [of "m div 1024" 256] by (simp add: div_mult2_eq [symmetric])
    have "n div 256 = 256 + m div 256"
      unfolding m(2) using div_mult_self3 [of 256 256 m] by simp
    then have k: "n div 256 mod 4 = m div 256 mod 4" "n mod 256 = m mod 256"
      using mod_mult_self3 [of 64 4 "m div 256"] mod_mult_self3 [of 256 256 m] unfolding m(2) by simp_all
    have e2: "m mod 256 + 256 * (0xDC + m div 256 mod 4) = 0xDC00 + m mod 1024"
      using mod_mult2_eq [of m 256 4] by simp
    have u: "ucast (word_of_nat (m div 1024 mod 256) :: u8) + push_bit 8 (ucast (word_of_nat (0xD8 + m div 262144) :: u8))
        = (word_of_nat (0xD800 + m div 1024) :: u32)"
      using utf16_unit [of "m div 1024 mod 256" "0xD8 + m div 262144"] m unfolding e by simp
    have u2: "ucast (word_of_nat (m mod 256) :: u8) + push_bit 8 (ucast (word_of_nat (0xDC + m div 256 mod 4) :: u8))
        = (word_of_nat (0xDC00 + m mod 1024) :: u32)"
      using utf16_unit [of "m mod 256" "0xDC + m div 256 mod 4"] unfolding e2
      by (simp add: less_trans [OF mod_less_divisor])
    have b: "utf16_bytes n = [m div 1024 mod 256, 0xD8 + m div 262144, m mod 256, 0xDC + m div 256 mod 4]"
      using False k by (simp add: utf16_bytes_def m_def)
    have "unat (word_of_nat (0xD800 + m div 1024) :: u32) = 0xD800 + m div 1024"
      using m by (intro unat_u32) simp
    then have r: "0xD800 \<le> (word_of_nat (0xD800 + m div 1024) :: u32) \<and> (word_of_nat (0xD800 + m div 1024) :: u32) < 0xE000"
      using m by (simp add: word_le_nat_alt word_less_nat_alt del: of_nat_add)
    show ?thesis
      unfolding b unfolding list.map append_Cons append_Nil READ_UTF16LE.simps u u2 Let_def if_P [OF r] list.case
        utf16_pair_value [OF m(1)] m(2) ..
  qed
  then show ?thesis
    unfolding WRITE_UTF16LE_bytes [OF n(1) [unfolded n_def]] n_def by simp
qed

lemma WRITE_UTF16LE_length: "length (WRITE_UTF16LE c) = (if c \<le> 0xFFFF then 2 else 4)"
  by (simp add: WRITE_UTF16LE_def)

lemma swap_pairs_append: "even (length y) \<Longrightarrow> swap_pairs (y @ z) = swap_pairs y @ swap_pairs z"
  by (induction y rule: swap_pairs.induct) auto

lemma swap_pairs_swap [simp]: "swap_pairs (swap_pairs z) = z"
  by (induction z rule: swap_pairs.induct) auto

lemma length_swap_pairs [simp]: "length (swap_pairs z) = length z"
  by (induction z rule: swap_pairs.induct) auto

lemma READ_WRITE_UTF16BE:
  assumes c: "scalar c" and z: "even (length z)"
  shows "READ_UTF16BE (WRITE_UTF16BE c @ z) = (c, z)"
proof -
  have "WRITE_UTF16BE c @ z = swap_pairs (WRITE_UTF16LE c @ swap_pairs z)"
    by (simp add: WRITE_UTF16BE_swap swap_pairs_append WRITE_UTF16LE_length)
  moreover have "even (length (WRITE_UTF16LE c @ swap_pairs z))" using z by (simp add: WRITE_UTF16LE_length)
  ultimately show ?thesis by (simp add: READ_UTF16BE_swap READ_WRITE_UTF16LE [OF c])
qed


section \<open>Translation of well-formed text\<close>

definition utf16 :: "(u32 \<Rightarrow> u8 list) \<Rightarrow> u32 list \<Rightarrow> u8 list" where
  "utf16 write cs = concat (map write cs)"

text \<open>The text of the characters \<open>cs\<close> in each of the encodings.\<close>

primrec text_of :: "enc \<Rightarrow> u32 list \<Rightarrow> u8 list" where
  "text_of UTF8 cs = utf8 cs"
| "text_of UTF16LE cs = utf16 WRITE_UTF16LE cs"
| "text_of UTF16BE cs = utf16 WRITE_UTF16BE cs"

lemma utf16_simps [simp]: "utf16 w [] = []" "utf16 w (c # cs) = w c @ utf16 w cs"
  by (simp_all add: utf16_def)

lemma utf8_to_16_utf8:
  "list_all scalar cs \<Longrightarrow> utf8_to_16 w (utf8 cs) = utf16 w cs"
proof (induction cs)
  case (Cons c cs)
  from Cons.prems have "unat c < 0x110000" by (simp add: scalar_def)
  from WRITE_UTF8_shape [OF this] have "utf8 (c # cs) \<noteq> []" by fastforce
  then have "utf8_to_16 w (utf8 (c # cs)) = w c @ utf8_to_16 w (utf8 cs)"
    using utf8_to_16.simps [of w "utf8 (c # cs)"] READ_UTF8_utf8 [OF Cons.prems] by (simp only: if_False fst_conv snd_conv)
  then show ?case using Cons by simp
qed (simp add: utf8_to_16.simps)

lemma utf16_BE_swap: "utf16 WRITE_UTF16BE cs = swap_pairs (utf16 WRITE_UTF16LE cs)"
proof (induction cs)
  case (Cons c cs)
  then show ?case by (simp add: WRITE_UTF16BE_swap swap_pairs_append WRITE_UTF16LE_length)
qed simp

lemma even_utf16: "even (length (utf16 WRITE_UTF16LE cs))" "even (length (utf16 WRITE_UTF16BE cs))"
proof -
  show "even (length (utf16 WRITE_UTF16LE cs))" by (induction cs) (simp_all add: WRITE_UTF16LE_length)
  then show "even (length (utf16 WRITE_UTF16BE cs))" by (simp add: utf16_BE_swap)
qed

lemma utf16_to_8_utf16:
  assumes "\<And>c z. scalar c \<Longrightarrow> even (length z) \<Longrightarrow> read (write c @ z) = (c, z)"
    and "\<And>cs. even (length (utf16 write cs))" and "\<And>c. write c \<noteq> []"
  shows "list_all scalar cs \<Longrightarrow> length (utf16 write cs) \<le> fuel \<Longrightarrow> utf16_to_8 fuel read (utf16 write cs) = utf8 cs"
proof (induction cs arbitrary: fuel)
  case Nil
  then show ?case by (cases fuel) simp_all
next
  case (Cons c cs)
  have "0 < length (write c)" using assms(3) by simp
  then obtain k where k: "fuel = Suc k" using Cons.prems(2) by (cases fuel) auto
  have r: "read (write c @ utf16 write cs) = (c, utf16 write cs)"
    using assms(1,2) Cons.prems(1) by simp
  have "length (utf16 write cs) \<le> k"
    using Cons.prems(2) \<open>0 < length (write c)\<close> unfolding k utf16_simps length_append by linarith
  then show ?case
    using Cons assms(3) unfolding k by (simp add: r)
qed

lemma even_part_even: "even (length z) \<Longrightarrow> even_part z = z"
  by (induction z rule: even_part.induct) auto

lemma utf16_to_8_LE: "list_all scalar cs \<Longrightarrow> length (utf16 WRITE_UTF16LE cs) \<le> fuel \<Longrightarrow>
    utf16_to_8 fuel READ_UTF16LE (utf16 WRITE_UTF16LE cs) = utf8 cs"
  by (rule utf16_to_8_utf16) (simp_all add: READ_WRITE_UTF16LE even_utf16, simp add: WRITE_UTF16LE_def)

lemma utf16_to_8_BE: "list_all scalar cs \<Longrightarrow> length (utf16 WRITE_UTF16BE cs) \<le> fuel \<Longrightarrow>
    utf16_to_8 fuel READ_UTF16BE (utf16 WRITE_UTF16BE cs) = utf8 cs"
  by (rule utf16_to_8_utf16) (simp_all add: READ_WRITE_UTF16BE even_utf16, simp add: WRITE_UTF16BE_def)

lemma translate_out_text:
  assumes "list_all scalar cs" "e \<noteq> d" "e = UTF8 \<or> d = UTF8"
  shows "translate_out e d (text_of e cs) = text_of d cs"
proof (cases e)
  case UTF8
  with assms show ?thesis by (cases d) (simp_all add: translate_out_def utf8_to_16_utf8)
next
  case UTF16LE
  with assms show ?thesis by (simp add: translate_out_def utf16_to_8_LE even_part_even even_utf16)
next
  case UTF16BE
  with assms show ?thesis by (simp add: translate_out_def utf16_to_8_BE even_part_even even_utf16)
qed

section \<open>The output fits\<close>

text \<open>On any bytes at all, what the loops write is at most what \<open>translate_len\<close> allows for.\<close>

lemma Utf8Trans1_small: "unat (sqlite3Utf8Trans1 i) < 0x80" if "unat i < 64"
proof -
  have "list_all (\<lambda>k. unat (Utf8Trans1_table ! k) < 0x80) [0..<64]" by code_simp
  then show ?thesis using that unfolding sqlite3Utf8Trans1_def by (simp only: list_all_iff set_upt atLeastLessThan_iff le0 simp_thms)
qed

lemma utf8_fix_small: "unat c < 0x80 \<Longrightarrow> utf8_fix c = 0xFFFD"
  by (simp add: utf8_fix_def word_less_nat_alt)

text \<open>A character above the first 65536 takes at least two bytes of input.\<close>

lemma READ_UTF8_wide:
  assumes "z \<noteq> []" "\<not> fst (READ_UTF8 z) \<le> 0xFFFF"
  shows "length (snd (READ_UTF8 z)) + 2 \<le> length z"
proof -
  obtain b y where z: "z = b # y" using assms(1) by (cases z) auto
  have u: "unat (ucast b :: u32) = unat b"
    unfolding ucast_of_nat using unsigned_less [of b, where 'a = nat] by (intro unat_u32) simp
  show ?thesis
  proof (cases "0xc0 \<le> unat b")
    case False
    then have s: "\<not> (0xc0 :: u32) \<le> ucast b" by (simp add: word_le_nat_alt u)
    have "unat (ucast b :: u32) \<le> 0xFFFF"
      using False unsigned_less [of b, where 'a = nat] by (simp add: u)
    then have "(ucast b :: u32) \<le> 0xFFFF" by (simp add: word_le_nat_alt)
    with s assms(2) show ?thesis unfolding z READ_UTF8_def by simp
  next
    case True
    then have l: "(0xc0 :: u32) \<le> ucast b" by (simp add: word_le_nat_alt u)
    obtain c' z' where c': "utf8_cont (sqlite3Utf8Trans1 (b - 0xc0)) y = (c', z')" by fastforce
    have r: "READ_UTF8 z = (utf8_fix c', z')" using l c' by (simp add: z READ_UTF8_def)
    have "length z' < length y"
    proof (rule ccontr)
      assume no: "\<not> length z' < length y"
      have "c' = sqlite3Utf8Trans1 (b - 0xc0)"
      proof (cases y)
        case (Cons b' y')
        have "\<not> b' AND 0xc0 = 0x80"
          using no c' utf8_cont_length [of "push_bit 6 (sqlite3Utf8Trans1 (b - 0xc0)) + (0x3f AND ucast b')" y'] unfolding Cons by auto
        with c' show ?thesis unfolding Cons by simp
      qed (use c' in auto)
      moreover have "unat (b - 0xc0) < 64"
        using True unsigned_less [of b, where 'a = nat] by (subst unat_sub) (simp_all add: word_le_nat_alt)
      ultimately have "utf8_fix c' = 0xFFFD" using utf8_fix_small Utf8Trans1_small by blast
      with assms(2) r show False by simp
    qed
    then show ?thesis using r z by simp
  qed
qed

lemma utf8_to_16_length:
  assumes w: "\<And>c. length (write c) = (if c \<le> 0xFFFF then 2 else 4)"
  shows "length (utf8_to_16 write z) \<le> 2 * length z"
proof (induction z rule: length_induct)
  case (1 z)
  show ?case
  proof (cases "z = []")
    case False
    let ?c = "fst (READ_UTF8 z)" and ?r = "snd (READ_UTF8 z)"
    have "length (write ?c) + 2 * length ?r \<le> 2 * length z"
      unfolding w using READ_UTF8_length [OF False] READ_UTF8_wide [OF False] by (cases "?c \<le> 0xFFFF") simp_all
    then show ?thesis using 1 READ_UTF8_length [OF False] False by (subst utf8_to_16.simps) fastforce
  qed (simp add: utf8_to_16.simps)
qed


lemma WRITE_UTF8_length: "length (WRITE_UTF8 c) \<le> 4"
  by (simp add: WRITE_UTF8_def)

lemma utf16_to_8_length:
  assumes r: "\<And>a b y. length (snd (read (a # b # y))) \<le> length y \<and> even (length (snd (read (a # b # y))) + length y)"
  shows "even (length z) \<Longrightarrow> length (utf16_to_8 fuel read z) \<le> 2 * length z"
proof (induction fuel arbitrary: z)
  case (Suc fuel)
  show ?case
  proof (cases "z = []")
    case False
    then obtain a b y where z: "z = a # b # y"
      using Suc.prems by (metis even_Suc length_Cons list.exhaust list.size(3) even_zero)
    have "even (length (snd (read z)))" "length (snd (read z)) \<le> length y"
      using r [of a b y] Suc.prems unfolding z by auto
    then have "length (utf16_to_8 fuel read (snd (read z))) \<le> 2 * length y"
      using Suc.IH [of "snd (read z)"] by simp
    then show ?thesis using WRITE_UTF8_length [of "fst (read z)"] z by simp
  qed simp
qed simp

lemma translate_out_length:
  assumes "e \<noteq> d" "e = UTF8 \<or> d = UTF8"
  shows "length (translate_out e d z) + (if d = UTF8 then 1 else 2) \<le> translate_len d z"
proof (cases "e = UTF8")
  case True
  then have "length (translate_out e d z) \<le> 2 * length z"
    unfolding translate_out_def enc.case using utf8_to_16_length [of WRITE_UTF16LE z] utf8_to_16_length [of WRITE_UTF16BE z]
    by (simp add: WRITE_UTF16LE_length WRITE_UTF16BE_swap)
  with True assms(1) show ?thesis by (auto simp: translate_len_def)
next
  case False
  have ev: "even (length (even_part z))" by (induction z rule: even_part.induct) auto
  have "length (utf16_to_8 (length z) READ_UTF16LE (even_part z)) \<le> 2 * length (even_part z)"
    by (rule utf16_to_8_length [OF _ ev]) (auto simp: Let_def split: list.split)
  moreover have "length (utf16_to_8 (length z) READ_UTF16BE (even_part z)) \<le> 2 * length (even_part z)"
    by (rule utf16_to_8_length [OF _ ev]) (auto simp: Let_def split: list.split)
  ultimately show ?thesis
    using False assms(2) by (cases e) (simp_all add: translate_out_def translate_len_def)
qed


section \<open>Counting characters\<close>

lemma charlen_step:
  assumes "list_all scalar (c # cs)" "c \<noteq> 0" "case left of None \<Rightarrow> True | Some n \<Rightarrow> n > 0"
  shows "utf8_charlen_loop (utf8 (c # cs)) left r =
     utf8_charlen_loop (utf8 cs) (map_option (\<lambda>n. n - int (length (WRITE_UTF8 c))) left) (r + 1)"
proof -
  have "unat c < 0x110000" using assms(1) by (simp add: scalar_def)
  from WRITE_UTF8_shape [OF this] obtain b bs where "WRITE_UTF8 c = b # bs" "b = 0 \<longleftrightarrow> c = 0" by blast
  then have "utf8 (c # cs) \<noteq> [] \<and> hd (utf8 (c # cs)) \<noteq> 0 \<and> (case left of None \<Rightarrow> True | Some n \<Rightarrow> n > 0)"
    using assms(2,3) by simp
  then show ?thesis
    unfolding utf8_charlen_loop.simps [of "utf8 (c # cs)"] SKIP_UTF8_utf8 [OF assms(1)] by simp
qed

lemma charlen_all:
  "list_all scalar cs \<Longrightarrow> 0 \<notin> set cs \<Longrightarrow> utf8_charlen_loop (utf8 cs) None r = r + int (length cs)"
proof (induction cs arbitrary: r)
  case (Cons c cs)
  then have "c \<noteq> 0" by auto
  with Cons show ?case using charlen_step [of c cs None r] by (simp del: utf8_simps(2))
qed (simp add: utf8_charlen_loop.simps)

lemma charlen_prefix:
  "list_all scalar (xs @ ys) \<Longrightarrow> 0 \<notin> set xs \<Longrightarrow>
     utf8_charlen_loop (utf8 (xs @ ys)) (Some (int (length (utf8 xs)))) r = r + int (length xs)"
proof (induction xs arbitrary: r)
  case (Cons c cs)
  have "unat c < 0x110000" using Cons.prems by (simp add: scalar_def)
  from WRITE_UTF8_shape [OF this] have "0 < length (WRITE_UTF8 c)" by fastforce
  with Cons show ?case using charlen_step [of c "cs @ ys" "Some (int (length (utf8 (c # cs))))" r]
    by (simp del: utf8_simps(2)) (simp add: algebra_simps)
qed (simp add: utf8_charlen_loop.simps)

lemma Utf16ByteLen_prefix:
  "list_all scalar xs \<Longrightarrow> sqlite3Utf16ByteLen (utf16 WRITE_UTF16LE xs @ z) (length xs) = length (utf16 WRITE_UTF16LE xs)"
proof (induction xs)
  case (Cons c cs)
  then show ?case by (simp add: READ_WRITE_UTF16LE)
qed simp

section \<open>Properties\<close>

lemma makeWriteable_disj:
  "(\<exists>p'. sqlite3VdbeMemMakeWriteable malloc p = (TRANSLATE_OK, p') \<and> mem_z p' = mem_z p \<and>
      mem_enc p' = mem_enc p \<and> mem_null p' = mem_null p) \<or>
   (\<exists>p'. sqlite3VdbeMemMakeWriteable malloc p = (TRANSLATE_NOMEM, p') \<and> mem_null p' \<and> mem_z p' = [])"
  by (simp add: sqlite3VdbeMemMakeWriteable_def sqlite3VdbeMemGrow_def Let_def)

lemma makeWriteable_cases:
  obtains p' where "sqlite3VdbeMemMakeWriteable malloc p = (TRANSLATE_OK, p')" "mem_z p' = mem_z p"
      "mem_enc p' = mem_enc p" "mem_null p' = mem_null p"
  | p' where "sqlite3VdbeMemMakeWriteable malloc p = (TRANSLATE_NOMEM, p')" "mem_null p'" "mem_z p' = []"
  using makeWriteable_disj [of malloc p] by blast

lemma makeWriteable_memory: "fst (sqlite3VdbeMemMakeWriteable (\<lambda>n. True) p) = TRANSLATE_OK"
  by (simp add: sqlite3VdbeMemMakeWriteable_def sqlite3VdbeMemGrow_def Let_def)

text \<open>A translation that returns \<open>TRANSLATE_OK\<close> is right.\<close>

lemma translate_ok:
  assumes "list_all scalar cs" "mem_z q = text_of (mem_enc q) cs" "e \<noteq> mem_enc q" "\<not> mem_null q"
    and "fst (sqlite3VdbeMemTranslate f q e) = TRANSLATE_OK"
  obtains q' where "sqlite3VdbeMemTranslate f q e = (TRANSLATE_OK, q')" "mem_z q' = text_of e cs" "mem_enc q' = e"
    "\<not> mem_null q'"
proof (cases "mem_enc q \<noteq> UTF8 \<and> e \<noteq> UTF8")
  case True
  have s: "swap_pairs (text_of (mem_enc q) cs) = text_of e cs"
    using True assms(3) by (cases "mem_enc q"; cases e) (simp_all add: utf16_BE_swap)
  from makeWriteable_cases [of f q] show thesis
  proof cases
    case (1 p')
    show thesis by (rule that [of "p'\<lparr>mem_z := swap_pairs (mem_z p'), mem_enc := e\<rparr>"])
        (use 1 True s assms(2,4) in \<open>simp_all add: sqlite3VdbeMemTranslate_def\<close>)
  next
    case (2 p')
    with True assms(5) show thesis by (simp add: sqlite3VdbeMemTranslate_def)
  qed
next
  case False
  then have "translate_out (mem_enc q) e (mem_z q) = text_of e cs"
    using translate_out_text [OF assms(1), of "mem_enc q" e] assms(2,3) by auto
  with False assms(5) that show thesis
    by (auto simp: sqlite3VdbeMemTranslate_def split: if_splits)
qed

text \<open>
  C14: A text of valid characters is translated to the text of the same characters, in each of the
  six directions, so that translating back gives the original bytes; if memory runs out, the value
  keeps its text and its encoding, or (when only the byte order was to change) becomes NULL.
\<close>

theorem translate_text:
  assumes "list_all scalar cs" "mem_z p = text_of (mem_enc p) cs" "d \<noteq> mem_enc p" "\<not> mem_null p"
  shows "(\<exists>p'. sqlite3VdbeMemTranslate malloc p d = (TRANSLATE_NOMEM, p') \<and> (p' = p \<or> mem_null p')) \<or>
    (\<exists>p'. sqlite3VdbeMemTranslate malloc p d = (TRANSLATE_OK, p') \<and>
       mem_z p' = text_of d cs \<and> mem_enc p' = d \<and>
       (\<exists>p''. sqlite3VdbeMemTranslate (\<lambda>n. True) p' (mem_enc p) = (TRANSLATE_OK, p'') \<and>
          mem_z p'' = mem_z p \<and> mem_enc p'' = mem_enc p))"
    (is "?nomem \<or> ?ok")
proof (cases "fst (sqlite3VdbeMemTranslate malloc p d) = TRANSLATE_OK")
  case True
  from translate_ok [OF assms True] obtain p' where p': "sqlite3VdbeMemTranslate malloc p d = (TRANSLATE_OK, p')"
    "mem_z p' = text_of d cs" "mem_enc p' = d" "\<not> mem_null p'" .
  have "fst (sqlite3VdbeMemTranslate (\<lambda>n. True) p' (mem_enc p)) = TRANSLATE_OK"
    using makeWriteable_memory [of p'] by (auto simp: sqlite3VdbeMemTranslate_def split: prod.split translate_rc.split)
  from translate_ok [OF assms(1) _ _ p'(4) this] p' assms(2,3) have ?ok by metis
  then show ?thesis ..
next
  case False
  have "even_part (mem_z p) = mem_z p" if "mem_enc p \<noteq> UTF8"
    using that assms(2) even_utf16 [of cs] even_part_even by (cases "mem_enc p") simp_all
  then have ?nomem
    using False assms(3)
    by (cases rule: makeWriteable_cases [of malloc p]) (auto simp: sqlite3VdbeMemTranslate_def split: if_splits)
  then show ?thesis ..
qed

lemma translate_text_witness:
  "\<exists>p'. sqlite3VdbeMemTranslate (\<lambda>n. n = 10)
     \<lparr>mem_z = [0x61, 0xE2, 0x82, 0xAC], mem_enc = UTF8, mem_term = False, mem_null = False, mem_own = False, mem_sz = 0\<rparr>
     UTF16BE = (TRANSLATE_OK, p') \<and> mem_z p' = [0, 0x61, 0x20, 0xAC]"
proof -
  let ?p = "\<lparr>mem_z = [0x61, 0xE2, 0x82, 0xAC], mem_enc = UTF8, mem_term = False, mem_null = False,
    mem_own = False, mem_sz = 0\<rparr>"
  have s: "list_all scalar [0x61, 0x20AC]" by (simp add: scalar_def)
  have t: "mem_z ?p = text_of (mem_enc ?p) [0x61, 0x20AC]" by (simp add: WRITE_UTF8_def drop_bit_Suc)
  have d: "UTF16BE \<noteq> mem_enc ?p" "\<not> mem_null ?p" by simp_all
  have u: "text_of UTF16BE [0x61, 0x20AC] = [0, 0x61, 0x20, 0xAC]" by (simp add: WRITE_UTF16BE_def)
  have ok: "sqlite3VdbeMemTranslate (\<lambda>n. n = 10) ?p UTF16BE \<noteq> (TRANSLATE_NOMEM, p')" for p'
    by (simp add: sqlite3VdbeMemTranslate_def translate_len_def)
  show ?thesis
    using translate_text [OF s t d, of "\<lambda>n. n = 10"] ok unfolding u by blast
qed

text \<open>
  C22: Whatever the bytes of a value are, the translation to or from UTF-8 writes at most the bytes
  it allocated, its terminator of one or two bytes included, and reads no further than the end.
\<close>

theorem translate_fits:
  assumes "d \<noteq> mem_enc p" "mem_enc p = UTF8 \<or> d = UTF8" "malloc (translate_len d (mem_z p))"
  shows "\<exists>p'. sqlite3VdbeMemTranslate malloc p d = (TRANSLATE_OK, p') \<and>
    length (mem_z p') + (if d = UTF8 then 1 else 2) \<le> translate_len d (mem_z p)"
  using assms translate_out_length [of "mem_enc p" d "mem_z p"]
  by (auto simp: sqlite3VdbeMemTranslate_def)

lemma translate_fits_witness:
  "\<exists>p'. sqlite3VdbeMemTranslate (\<lambda>n. n \<le> 8) \<lparr>mem_z = [0xF7, 0xBF, 0x80], mem_enc = UTF8, mem_term = False, mem_null = False, mem_own = False, mem_sz = 0\<rparr> UTF16LE
     = (TRANSLATE_OK, p') \<and> length (mem_z p') + 2 \<le> 8"
  using translate_fits [of UTF16LE "\<lparr>mem_z = [0xF7, 0xBF, 0x80], mem_enc = UTF8, mem_term = False, mem_null = False, mem_own = False, mem_sz = 0\<rparr>" "\<lambda>n. n \<le> 8"]
  by (simp add: translate_len_def)

text \<open>
  C34: In a text of valid characters without the character 0, \<open>sqlite3Utf8CharLen\<close> counts the
  characters, all of them or those before an offset between two of them, and
  \<open>sqlite3Utf16ByteLen\<close> gives the offset after a number of them.
\<close>

theorem utf_counting:
  assumes "list_all scalar (xs @ ys)" "0 \<notin> set (xs @ ys)"
  shows "sqlite3Utf8CharLen (utf8 (xs @ ys)) (- 1) = int (length xs + length ys) \<and>
    sqlite3Utf8CharLen (utf8 (xs @ ys)) (int (length (utf8 xs))) = int (length xs) \<and>
    sqlite3Utf16ByteLen (text_of UTF16LE (xs @ ys)) (length xs) = length (text_of UTF16LE xs)"
proof (intro conjI)
  show "sqlite3Utf8CharLen (utf8 (xs @ ys)) (- 1) = int (length xs + length ys)"
    using charlen_all [OF assms, of 0] by (simp add: sqlite3Utf8CharLen_def)
  show "sqlite3Utf8CharLen (utf8 (xs @ ys)) (int (length (utf8 xs))) = int (length xs)"
    using charlen_prefix [OF assms(1), of 0] assms(2) by (simp add: sqlite3Utf8CharLen_def)
  show "sqlite3Utf16ByteLen (text_of UTF16LE (xs @ ys)) (length xs) = length (text_of UTF16LE xs)"
    using Utf16ByteLen_prefix [of xs "utf16 WRITE_UTF16LE ys"] assms(1) by (simp add: utf16_def)
qed

lemma utf_counting_witness:
  "sqlite3Utf8CharLen (utf8 [0x41, 0x20AC, 0x1F600]) 4 = 2"
proof -
  have *: "list_all scalar ([0x41, 0x20AC] @ [0x1F600])" "0 \<notin> set ([0x41, 0x20AC] @ [0x1F600 :: u32])"
    "length (utf8 [0x41, 0x20AC]) = 4" by (simp_all add: scalar_def WRITE_UTF8_def)
  show ?thesis using utf_counting [OF *(1,2)] unfolding *(3) by simp
qed

end
