(* ===== verification/LikeGlob.thy ===== *)
theory LikeGlob
  imports Utf Strings
begin

text \<open>
  The LIKE and GLOB operators (func.c): \<open>patternCompare\<close> and its callers.
\<close>

section \<open>The comparison\<close>

record compareInfo =
  matchAll :: u8
  matchOne :: u8
  matchSet :: u8
  noCase :: bool

definition globInfo :: compareInfo where
  "globInfo = \<lparr>matchAll = 42, matchOne = 63, matchSet = 91, noCase = False\<rparr>"

definition likeInfoNorm :: compareInfo where
  "likeInfoNorm = \<lparr>matchAll = 37, matchOne = 95, matchSet = 0, noCase = True\<rparr>"

definition likeInfoAlt :: compareInfo where
  "likeInfoAlt = \<lparr>matchAll = 37, matchOne = 95, matchSet = 0, noCase = False\<rparr>"

datatype match = MATCH | NOMATCH | NOWILDCARDMATCH

text \<open>
  Strings are the bytes before the terminator. \<open>Utf8Read\<close> is the macro; the character read at the
  terminator is 0.
\<close>

definition Utf8Read :: "u8 list \<Rightarrow> u32 \<times> u8 list" where
  "Utf8Read z = (if cget z 0 < 0x80 then (ucast (cget z 0), tl z) else sqlite3Utf8Read z)"

lemma Utf8Read_eq: "Utf8Read z = sqlite3Utf8Read z"
proof (cases z)
  case (Cons b z')
  have "\<not> b \<ge> 0xc0" if "b < 0x80" using that by (auto simp: word_less_nat_alt word_le_nat_alt)
  then show ?thesis using Cons by (simp add: Utf8Read_def sqlite3Utf8Read_def)
qed (simp add: Utf8Read_def sqlite3Utf8Read_def)

lemma sqlite3Utf8Read_shorter: "z \<noteq> [] \<Longrightarrow> length (snd (sqlite3Utf8Read z)) < length z"
  using utf8_cont_length [of "sqlite3Utf8Trans1 (hd z - 0xc0)" "tl z"]
  by (cases z) (auto simp: sqlite3Utf8Read_def Let_def split: prod.split)

lemma sqlite3Utf8Read_le: "length (snd (sqlite3Utf8Read z)) \<le> length z"
  using sqlite3Utf8Read_shorter [of z] by (cases "z = []") (auto simp: sqlite3Utf8Read_def)

lemma Utf8Read_shorter: "(c, z') = Utf8Read z \<Longrightarrow> z \<noteq> [] \<Longrightarrow> length z' < length z"
  using sqlite3Utf8Read_shorter [of z] by (metis Utf8Read_eq snd_conv)

lemma sqlite3Utf8Read_le': "(c, z') = sqlite3Utf8Read z \<Longrightarrow> length z' \<le> length z"
  using sqlite3Utf8Read_le [of z] by (metis snd_conv)

text \<open>
  The loop over wildcards after \<open>matchAll\<close>: \<open>None\<close> when the string has no character left for a
  \<open>matchOne\<close>, else the pattern before the next character, and the string. No wildcard is 0, so the
  test for the end of the pattern only serves termination.
\<close>

function skip_wild :: "compareInfo \<Rightarrow> u8 list \<Rightarrow> u8 list \<Rightarrow> (u8 list \<times> u8 list) option" where
  "skip_wild pInfo zPattern zString =
     (let (c, zNext) = Utf8Read zPattern
      in if zPattern \<noteq> [] \<and> (c = ucast (matchAll pInfo) \<or> c = ucast (matchOne pInfo)) then
           if c = ucast (matchOne pInfo) then
             (let (c2, zString) = sqlite3Utf8Read zString
              in if c2 = 0 then None else skip_wild pInfo zNext zString)
           else skip_wild pInfo zNext zString
         else Some (zPattern, zString))"
  by pat_completeness auto
termination
  by (relation "measure (\<lambda>(i, p, s). length p)") (auto dest: Utf8Read_shorter)

declare skip_wild.simps [simp del]

lemma skip_wild_le: "skip_wild pInfo zP zS = Some (zP', zS') \<Longrightarrow> length zP' \<le> length zP"
proof (induction pInfo zP zS rule: skip_wild.induct)
  case (1 pInfo zP zS)
  obtain c zN where r: "Utf8Read zP = (c, zN)" by fastforce
  obtain d zT where t: "sqlite3Utf8Read zS = (d, zT)" by fastforce
  have l: "zP \<noteq> [] \<Longrightarrow> length zN < length zP" using Utf8Read_shorter r by metis
  show ?case
    using 1(1) [OF r [symmetric] refl _ _ t [symmetric] refl] 1(2) [OF r [symmetric] refl] 1(3) l
    by (auto simp: skip_wild.simps [of pInfo zP zS] r t split: if_splits)
qed

text \<open>
  The searches for the continuation of the pattern after \<open>matchAll\<close>. \<open>f\<close> is the comparison with the
  rest of the pattern.
\<close>

fun search_byte :: "(u8 list \<Rightarrow> match) \<Rightarrow> u32 \<Rightarrow> u32 \<Rightarrow> u8 list \<Rightarrow> match" where
  "search_byte f c cx [] = NOWILDCARDMATCH"
| "search_byte f c cx (c2 # zString) =
     (if ucast c2 \<noteq> c \<and> ucast c2 \<noteq> cx then search_byte f c cx zString
      else (let bMatch = f zString in if bMatch \<noteq> NOMATCH then bMatch else search_byte f c cx zString))"

function search_char :: "(u8 list \<Rightarrow> match) \<Rightarrow> u32 \<Rightarrow> u8 list \<Rightarrow> match" where
  "search_char f c zString =
     (let (c2, zNext) = Utf8Read zString
      in if zString = [] then NOWILDCARDMATCH
         else if c2 \<noteq> c then search_char f c zNext
         else (let bMatch = f zNext in if bMatch \<noteq> NOMATCH then bMatch else search_char f c zNext))"
  by pat_completeness auto
termination
  by (relation "measure (\<lambda>(f, c, s). length s)") (auto dest: Utf8Read_shorter Utf8Read_shorter [OF sym] split: prod.split)

function search_set :: "(u8 list \<Rightarrow> match) \<Rightarrow> u8 list \<Rightarrow> match" where
  "search_set f zString =
     (if zString = [] then NOWILDCARDMATCH
      else (let bMatch = f zString in if bMatch \<noteq> NOMATCH then bMatch else search_set f (SKIP_UTF8 zString)))"
  by pat_completeness auto
termination
  by (relation "measure (\<lambda>(f, s). length s)") (auto dest!: SKIP_UTF8_length)

declare search_char.simps [simp del] search_set.simps [simp del]

lemma search_byte_cong [fundef_cong]:
  "(\<And>s. f s = g s) \<Longrightarrow> c = c' \<Longrightarrow> cx = cx' \<Longrightarrow> z = z' \<Longrightarrow> search_byte f c cx z = search_byte g c' cx' z'"
  by (simp add: ext [of f g])

lemma search_char_cong [fundef_cong]:
  "(\<And>s. f s = g s) \<Longrightarrow> c = c' \<Longrightarrow> z = z' \<Longrightarrow> search_char f c z = search_char g c' z'"
  by (simp add: ext [of f g])

lemma search_set_cong [fundef_cong]:
  "(\<And>s. f s = g s) \<Longrightarrow> z = z' \<Longrightarrow> search_set f z = search_set g z'"
  by (simp add: ext [of f g])

text \<open>
  The characters of a set up to its end: \<open>c2\<close> is the one read last, \<open>prior_c\<close> the start of a possible
  range. The result is the last \<open>c2\<close>, whether \<open>c\<close> was seen, and the rest of the pattern.
\<close>

function set_loop :: "u32 \<Rightarrow> u32 \<Rightarrow> u32 \<Rightarrow> bool \<Rightarrow> u8 list \<Rightarrow> u32 \<times> bool \<times> u8 list" where
  "set_loop c c2 prior_c seen zPattern =
     (if c2 \<noteq> 0 \<and> c2 \<noteq> 93 then
        if c2 = 45 \<and> cget zPattern 0 \<noteq> 93 \<and> cget zPattern 0 \<noteq> 0 \<and> prior_c > 0 then
          set_loop c (fst (sqlite3Utf8Read (snd (sqlite3Utf8Read zPattern)))) 0
            (seen \<or> c \<ge> prior_c \<and> c \<le> fst (sqlite3Utf8Read zPattern))
            (snd (sqlite3Utf8Read (snd (sqlite3Utf8Read zPattern))))
        else
          set_loop c (fst (sqlite3Utf8Read zPattern)) c2 (seen \<or> c = c2) (snd (sqlite3Utf8Read zPattern))
      else (c2, seen, zPattern))"
  by pat_completeness auto
termination
proof (relation "measure (\<lambda>(c, c2, prior, seen, z). length z + (if c2 = 0 \<or> c2 = 93 then 0 else 1))", goal_cases)
  case (2 c c2 prior seen z)
  then have "z \<noteq> []" by auto
  then have "length (snd (sqlite3Utf8Read z)) < length z" by (rule sqlite3Utf8Read_shorter)
  then show ?case using 2 sqlite3Utf8Read_le [of "snd (sqlite3Utf8Read z)"] by auto
next
  case (3 c c2 prior seen z)
  then show ?case
    using sqlite3Utf8Read_shorter [of z] by (cases "z = []") (auto simp: sqlite3Utf8Read_def)
qed simp

declare set_loop.simps [simp del]

text \<open>
  The set of a GLOB: \<open>None\<close> if the character \<open>c\<close> is not matched or the set does not end, else the
  pattern after the set.
\<close>

definition match_set :: "u32 \<Rightarrow> u8 list \<Rightarrow> u8 list option" where
  "match_set c zPattern =
     (let (c2, zPattern) = sqlite3Utf8Read zPattern;
          (invert, c2, zPattern) =
            (if c2 = 94 then (True, sqlite3Utf8Read zPattern) else (False, c2, zPattern));
          (seen, c2, zPattern) =
            (if c2 = 93 then (c = 93, sqlite3Utf8Read zPattern) else (False, c2, zPattern));
          (c2, seen, zPattern) = set_loop c c2 0 seen zPattern
      in if c2 = 0 \<or> seen = invert then None else Some zPattern)"

lemma set_loop_le: "length (snd (snd (set_loop c c2 prior seen z))) \<le> length z"
proof (induction c c2 prior seen z rule: set_loop.induct)
  case (1 c c2 prior seen z)
  then show ?case
    using sqlite3Utf8Read_le [of z] sqlite3Utf8Read_le [of "snd (sqlite3Utf8Read z)"]
    by (auto simp: set_loop.simps [of c c2 prior seen z])
qed

lemma match_set_le: "match_set c z = Some z' \<Longrightarrow> length z' \<le> length z"
proof -
  assume a: "match_set c z = Some z'"
  obtain c1 z1 where 1: "sqlite3Utf8Read z = (c1, z1)" by fastforce
  obtain iv c2 z2 where 2: "(if c1 = 94 then (True, sqlite3Utf8Read z1) else (False, c1, z1)) = (iv, c2, z2)"
    by (metis prod_cases3)
  obtain s c3 z3 where 3: "(if c2 = 93 then (c = 93, sqlite3Utf8Read z2) else (False, c2, z2)) = (s, c3, z3)"
    by (metis prod_cases3)
  have l: "length z1 \<le> length z" "length z2 \<le> length z1" "length z3 \<le> length z2"
    using sqlite3Utf8Read_le [of z] sqlite3Utf8Read_le [of z1] sqlite3Utf8Read_le [of z2] 1 2 3
    by (auto split: if_splits)
  have "z' = snd (snd (set_loop c c3 0 s z3))"
    using a unfolding match_set_def 1 Let_def split_conv 2 3 by (auto split: prod.splits if_splits)
  with set_loop_le [of c c3 0 s z3] l show "length z' \<le> length z" by simp
qed

text \<open>
  One turn of the loop per call. \<open>zEscaped\<close> is only compared in the turn that sets it, since
  \<open>zPattern\<close> has moved on in every later one: \<open>escaped\<close> tells whether they are equal.
\<close>

function patternCompare :: "compareInfo \<Rightarrow> u32 \<Rightarrow> u8 list \<Rightarrow> u8 list \<Rightarrow> match" where
  "patternCompare pInfo matchOther zPattern zString =
     (let (c, zPat) = Utf8Read zPattern
      in if zPattern = [] then (if zString = [] then MATCH else NOMATCH)
         else if c = ucast (matchAll pInfo) then
           (case skip_wild pInfo zPat zString of
              None \<Rightarrow> NOWILDCARDMATCH
            | Some (zPat, zString) \<Rightarrow>
                (let (c, zNext) = Utf8Read zPat
                 in if zPat = [] then MATCH
                    else if c = matchOther \<and> matchSet pInfo \<noteq> 0 then
                      search_set (\<lambda>z. patternCompare pInfo matchOther zPat z) zString
                    else
                      (let (c, zNext) = (if c = matchOther then sqlite3Utf8Read zNext else (c, zNext))
                       in if c = 0 then NOWILDCARDMATCH
                          else if c \<le> 0x80 then
                            (let (c, cx) =
                               (if noCase pInfo
                                then (ucast (sqlite3Tolower (ucast c)), ucast (sqlite3Toupper (ucast c)))
                                else (c, c))
                             in search_byte (\<lambda>z. patternCompare pInfo matchOther zNext z) c cx zString)
                          else search_char (\<lambda>z. patternCompare pInfo matchOther zNext z) c zString)))
         else if c = matchOther \<and> matchSet pInfo \<noteq> 0 then
           (let (c, zString) = sqlite3Utf8Read zString
            in if c = 0 then NOMATCH
               else (case match_set c zPat of
                       None \<Rightarrow> NOMATCH
                     | Some zPat \<Rightarrow> patternCompare pInfo matchOther zPat zString))
         else
           (let escaped = (c = matchOther);
                (c, zPat) = (if escaped then sqlite3Utf8Read zPat else (c, zPat))
            in if c = 0 then NOMATCH
               else
                 (let (c2, zString) = Utf8Read zString
                  in if c = c2
                        \<or> noCase pInfo \<and> sqlite3Tolower (ucast c) = sqlite3Tolower (ucast c2) \<and> c < 0x80 \<and> c2 < 0x80
                        \<or> c = ucast (matchOne pInfo) \<and> \<not> escaped \<and> c2 \<noteq> 0
                     then patternCompare pInfo matchOther zPat zString
                     else NOMATCH)))"
  by pat_completeness auto
termination
proof (relation "measure (\<lambda>(i, m, p, s). length p)", goal_cases)
  case 1 show ?case by simp
next
  case 2 then show ?case by (auto dest!: Utf8Read_shorter skip_wild_le)
next
  case 3 then show ?case by (auto dest!: Utf8Read_shorter skip_wild_le sqlite3Utf8Read_le' split: if_splits)
next
  case 4 then show ?case by (auto dest!: Utf8Read_shorter skip_wild_le sqlite3Utf8Read_le' split: if_splits)
next
  case 5 then show ?case by (auto dest!: Utf8Read_shorter match_set_le)
next
  case 6 then show ?case by (auto dest!: Utf8Read_shorter skip_wild_le sqlite3Utf8Read_le' split: if_splits)
qed


declare patternCompare.simps [simp del]

primrec match_rc :: "match \<Rightarrow> cint" where
  "match_rc MATCH = 0"
| "match_rc NOMATCH = 1"
| "match_rc NOWILDCARDMATCH = 2"

definition sqlite3_strglob :: "u8 list \<Rightarrow> u8 list \<Rightarrow> cint" where
  "sqlite3_strglob zGlobPattern zString = match_rc (patternCompare globInfo 91 zGlobPattern zString)"

definition sqlite3_strlike :: "u8 list \<Rightarrow> u8 list \<Rightarrow> u32 \<Rightarrow> cint" where
  "sqlite3_strlike zPattern zStr esc = match_rc (patternCompare likeInfoNorm esc zPattern zStr)"

section \<open>The SQL function\<close>

text \<open>
  The arguments are the texts of the values, \<open>None\<close> for NULL; a text may hold zero bytes, and a C
  string ends at the first of them. The result set on the context: none (which reads as NULL), an
  integer or an error.
\<close>

datatype like_result = ResultNull | ResultInt bool | PatternTooComplex | EscapeNotOneCharacter

definition c_str :: "u8 list \<Rightarrow> u8 list" where
  "c_str z = takeWhile (\<lambda>b. b \<noteq> 0) z"

definition value_bytes :: "u8 list option \<Rightarrow> cint" where
  "value_bytes v = (case v of None \<Rightarrow> 0 | Some z \<Rightarrow> int (length z))"

definition likeFunc :: "compareInfo \<Rightarrow> cint \<Rightarrow> u8 list option list \<Rightarrow> like_result" where
  "likeFunc pInfo aLimit argv =
     (let zB = map_option c_str (argv ! 0); zA = map_option c_str (argv ! 1); nPat = value_bytes (argv ! 0)
      in if nPat > aLimit then PatternTooComplex
         else
           (let run = (\<lambda>escape.
                  case (zA, zB) of
                    (Some zA, Some zB) \<Rightarrow> ResultInt (patternCompare pInfo escape zB zA = MATCH)
                  | _ \<Rightarrow> ResultNull)
            in if length argv = 3 then
                 (case map_option c_str (argv ! 2) of
                    None \<Rightarrow> ResultNull
                  | Some zEsc \<Rightarrow>
                      if sqlite3Utf8CharLen zEsc (- 1) \<noteq> 1 then EscapeNotOneCharacter
                      else run (fst (sqlite3Utf8Read zEsc)))
               else run (ucast (matchSet pInfo))))"

section \<open>Patterns as lists of elements\<close>

datatype item = Single u32 | Range u32 u32
datatype pat = Any | One | Lit u32 | Class bool "item list"

fun item_has :: "u32 \<Rightarrow> item \<Rightarrow> bool" where
  "item_has c (Single d) \<longleftrightarrow> c = d"
| "item_has c (Range a b) \<longleftrightarrow> a \<le> c \<and> c \<le> b"

definition ascii_lower :: "u32 \<Rightarrow> u32" where
  "ascii_lower c = (if 65 \<le> c \<and> c \<le> 90 then c + 32 else c)"

definition same_char :: "bool \<Rightarrow> u32 \<Rightarrow> u32 \<Rightarrow> bool" where
  "same_char nocase c d \<longleftrightarrow> c = d \<or> nocase \<and> ascii_lower c = ascii_lower d"

fun matches :: "bool \<Rightarrow> pat list \<Rightarrow> u32 list \<Rightarrow> bool" where
  "matches nocase [] s \<longleftrightarrow> s = []"
| "matches nocase (Any # ps) [] \<longleftrightarrow> matches nocase ps []"
| "matches nocase (Any # ps) (c # s) \<longleftrightarrow> matches nocase ps (c # s) \<or> matches nocase (Any # ps) s"
| "matches nocase (One # ps) s \<longleftrightarrow> s \<noteq> [] \<and> matches nocase ps (tl s)"
| "matches nocase (Lit c # ps) s \<longleftrightarrow> s \<noteq> [] \<and> same_char nocase c (hd s) \<and> matches nocase ps (tl s)"
| "matches nocase (Class invert items # ps) s \<longleftrightarrow>
     s \<noteq> [] \<and> (list_ex (item_has (hd s)) items \<noteq> invert) \<and> matches nocase ps (tl s)"

text \<open>
  How a pattern reads: the items of a set up to its \<open>]\<close>, where \<open>prior\<close> is the character a \<open>-\<close> makes the
  start of a range; then whole patterns. \<open>None\<close>: a set without end, or an escape at the end.
\<close>

fun parse_set :: "u32 option \<Rightarrow> u32 list \<Rightarrow> (item list \<times> u32 list) option" where
  "parse_set prior [] = None"
| "parse_set prior [c] = (if c = 93 then Some ([], []) else None)"
| "parse_set prior (c # d # p) =
     (if c = 93 then Some ([], d # p)
      else (case (c = 45 \<and> d \<noteq> 93, prior) of
              (True, Some a) \<Rightarrow> map_option (apfst ((#) (Range a d))) (parse_set None p)
            | _ \<Rightarrow> map_option (apfst ((#) (Single c))) (parse_set (Some c) (d # p))))"

definition parse_class :: "u32 list \<Rightarrow> (pat \<times> u32 list) option" where
  "parse_class p =
     (let (invert, p) = (if p \<noteq> [] \<and> hd p = 94 then (True, tl p) else (False, p));
          (first, p) = (if p \<noteq> [] \<and> hd p = 93 then ([Single 93], tl p) else ([], p))
      in map_option (\<lambda>(items, p). (Class invert (first @ items), p)) (parse_set None p))"

lemma parse_set_le: "parse_set prior p = Some (items, p') \<Longrightarrow> length p' < length p"
  by (induction prior p arbitrary: items p' rule: parse_set.induct)
    (auto split: if_splits option.splits bool.splits prod.splits, fastforce+)

lemma parse_class_le: "parse_class p = Some (x, p') \<Longrightarrow> length p' < length p"
  by (auto simp: parse_class_def neq_Nil_conv simp del: parse_set.simps dest!: parse_set_le split: if_splits)

function parse_pattern :: "compareInfo \<Rightarrow> u32 \<Rightarrow> u32 list \<Rightarrow> pat list option" where
  "parse_pattern pInfo other [] = Some []"
| "parse_pattern pInfo other (c # p) =
     (if c = ucast (matchAll pInfo) then map_option ((#) Any) (parse_pattern pInfo other p)
      else if c = other \<and> matchSet pInfo \<noteq> 0 then
        (case parse_class p of
           None \<Rightarrow> None
         | Some (x, p) \<Rightarrow> map_option ((#) x) (parse_pattern pInfo other p))
      else if c = other then
        (case p of [] \<Rightarrow> None | d # p \<Rightarrow> map_option ((#) (Lit d)) (parse_pattern pInfo other p))
      else if c = ucast (matchOne pInfo) then map_option ((#) One) (parse_pattern pInfo other p)
      else map_option ((#) (Lit c)) (parse_pattern pInfo other p))"
  by pat_completeness auto
termination
  by (relation "measure (\<lambda>(i, m, p). length p)") (auto dest: parse_class_le)

declare parse_pattern.simps(2) [simp del]

definition pmatch :: "compareInfo \<Rightarrow> u32 \<Rightarrow> u32 list \<Rightarrow> u32 list \<Rightarrow> bool" where
  "pmatch pInfo other p s \<longleftrightarrow>
     (case parse_pattern pInfo other p of None \<Rightarrow> False | Some ps \<Rightarrow> matches (noCase pInfo) ps s)"

definition glob_matches :: "u32 list \<Rightarrow> u32 list \<Rightarrow> bool" where
  "glob_matches p s \<longleftrightarrow> pmatch globInfo 91 p s"

definition like_matches :: "u32 \<Rightarrow> u32 list \<Rightarrow> u32 list \<Rightarrow> bool" where
  "like_matches esc p s \<longleftrightarrow> pmatch likeInfoNorm esc p s"

section \<open>Reading texts\<close>

definition text_chars :: "u32 list \<Rightarrow> bool" where
  "text_chars s \<longleftrightarrow> list_all scalar s \<and> 0 \<notin> set s"

lemma text_chars_simps [simp]:
  "text_chars []" "text_chars (c # s) \<longleftrightarrow> scalar c \<and> c \<noteq> 0 \<and> text_chars s"
  by (auto simp: text_chars_def)

lemma text_chars_drop: "text_chars s \<Longrightarrow> text_chars (drop k s)"
  by (auto simp: text_chars_def list_all_iff dest: in_set_dropD)

lemma utf8_cons:
  assumes "text_chars (c # s)"
  obtains b bs where "utf8 (c # s) = b # bs @ utf8 s" "WRITE_UTF8 c = b # bs" "b \<noteq> 0"
proof -
  have "unat c < 0x110000" using assms by (simp add: scalar_def)
  from WRITE_UTF8_shape [OF this] assms show thesis by (metis that append_Cons text_chars_simps(2) utf8_simps(2))
qed

lemma utf8_eq_Nil: "text_chars s \<Longrightarrow> utf8 s = [] \<longleftrightarrow> s = []"
proof (cases s)
  case (Cons c s')
  assume "text_chars s"
  from utf8_cons [OF this [unfolded Cons]] show ?thesis using Cons by (metis list.distinct(1))
qed simp

lemma unat_ucast_8_32: "unat (ucast (b :: u8) :: u32) = unat b"
  unfolding ucast_of_nat using unsigned_less [of b, where 'a = nat] by (intro unat_u32) simp

lemma ucast_ge_c0: "(ucast (b :: u8) :: u32) \<ge> 0xc0 \<longleftrightarrow> b \<ge> 0xc0"
  unfolding word_le_nat_alt unat_ucast_8_32 by simp

lemma READ_UTF8_sqlite3Utf8Read: "READ_UTF8 (b # z) = sqlite3Utf8Read (b # z)"
  by (simp add: READ_UTF8_def sqlite3Utf8Read_def Let_def ucast_ge_c0)

lemma Utf8Read_utf8 [simp]: "text_chars (c # s) \<Longrightarrow> sqlite3Utf8Read (utf8 (c # s)) = (c, utf8 s)"
proof -
  assume t: "text_chars (c # s)"
  have "READ_UTF8 (utf8 (c # s)) = (c, utf8 s)"
    by (rule READ_UTF8_utf8) (use t in \<open>simp add: text_chars_def\<close>)
  moreover obtain b bs where "utf8 (c # s) = b # bs" by (rule utf8_cons [OF t])
  ultimately show ?thesis by (metis READ_UTF8_sqlite3Utf8Read)
qed

lemma sqlite3Utf8Read_Nil [simp]: "sqlite3Utf8Read [] = (0, [])"
  by (simp add: sqlite3Utf8Read_def)


text \<open>Sets read by \<open>match_set\<close> as \<open>parse_class\<close> reads them.\<close>

lemma WRITE_UTF8_ascii: "d < 0x80 \<Longrightarrow> WRITE_UTF8 d = [ucast d]"
  unfolding ucast_of_nat by (subst WRITE_UTF8_bytes) (simp_all add: word_less_nat_alt utf8_bytes_def)

lemma WRITE_UTF8_high:
  assumes "scalar d" "\<not> d < 0x80"
  shows "list_all (\<lambda>b. b \<ge> 0x80) (WRITE_UTF8 d) \<and> WRITE_UTF8 d \<noteq> []"
proof -
  have n: "unat d < 0x110000" "0x80 \<le> unat d" using assms by (simp_all add: scalar_def word_less_nat_alt)
  have "(0x80 :: u8) \<le> word_of_nat k" if "128 \<le> k" "k < 256" for k
    using that by (simp add: word_le_nat_alt unat_u8)
  moreover have "list_all (\<lambda>k. 128 \<le> k \<and> k < 256) (utf8_bytes (unat d)) \<and> utf8_bytes (unat d) \<noteq> []"
    using n by (auto simp: utf8_bytes_def)
  ultimately show ?thesis unfolding WRITE_UTF8_bytes [OF n(1)] by (auto simp: list_all_iff)
qed

lemma ucast_ascii: "(ucast (b :: u8) :: u32) < 0x80 \<longleftrightarrow> b < 0x80"
  unfolding word_less_nat_alt unat_ucast_8_32 by simp

lemma ucast_ucast_ascii: "d < 0x80 \<Longrightarrow> (ucast (ucast (d :: u32) :: u8) :: u32) = d"
  unfolding word_unat_eq_iff unat_ucast_8_32 ucast_of_nat word_less_nat_alt by (subst unat_u8) simp_all

lemma ucast_ascii_inj: "d < 0x80 \<Longrightarrow> e < 0x80 \<Longrightarrow> (ucast (d :: u32) :: u8) = ucast e \<longleftrightarrow> d = e"
  by (metis ucast_ucast_ascii)

lemma cget_utf8:
  assumes "text_chars s" "d < 0x80" "d \<noteq> 0"
  shows "cget (utf8 s) 0 = ucast d \<longleftrightarrow> s \<noteq> [] \<and> hd s = d"
proof (cases s)
  case Nil
  have "(ucast d :: u8) \<noteq> ucast (0 :: u32)" using ucast_ascii_inj [of d 0] assms by simp
  then show ?thesis using Nil by simp
next
  case (Cons e s')
  show ?thesis
  proof (cases "e < 0x80")
    case True
    then show ?thesis using Cons assms by (auto simp: WRITE_UTF8_ascii ucast_ascii_inj)
  next
    case False
    then obtain b bs where "WRITE_UTF8 e = b # bs" "\<not> b < 0x80"
      using WRITE_UTF8_high [of e] assms(1) Cons by (cases "WRITE_UTF8 e") (auto simp: not_less)
    moreover have "(ucast d :: u8) < 0x80" using assms(2) ucast_ucast_ascii [of d] ucast_ascii [of "ucast d"] by simp
    ultimately show ?thesis using Cons False assms(2) by auto
  qed
qed

lemma cget_utf8_0: "text_chars s \<Longrightarrow> cget (utf8 s) 0 = 0 \<longleftrightarrow> s = []"
proof (cases s)
  case (Cons c s')
  assume "text_chars s"
  from utf8_cons [OF this [unfolded Cons]] show ?thesis using Cons by (metis cget_simps(2) list.distinct(1))
qed simp

definition prior_of :: "u32 option \<Rightarrow> u32" where
  "prior_of prior = (case prior of None \<Rightarrow> 0 | Some a \<Rightarrow> a)"

lemma set_loop_utf8:
  assumes "text_chars p" "prior \<noteq> Some 0"
  shows "case parse_set prior p of
      None \<Rightarrow> fst (set_loop c (fst (sqlite3Utf8Read (utf8 p))) (prior_of prior) seen (snd (sqlite3Utf8Read (utf8 p)))) = 0
    | Some (items, p') \<Rightarrow> text_chars p' \<and>
        set_loop c (fst (sqlite3Utf8Read (utf8 p))) (prior_of prior) seen (snd (sqlite3Utf8Read (utf8 p))) =
          (93, seen \<or> list_ex (item_has c) items, utf8 p')"
  using assms
proof (induction "length p" arbitrary: p prior seen rule: less_induct)
  case less
  consider "p = []" | d where "p = [d]" | d e q where "p = d # e # q"
    by (metis neq_Nil_conv)
  then show ?case
  proof cases
    case 1
    then show ?thesis by (simp add: set_loop.simps)
  next
    case 2
    then have r: "sqlite3Utf8Read (utf8 [d]) = (d, [])" using less.prems Utf8Read_utf8 [of d "[]"] by simp
    show ?thesis using less.prems unfolding 2 r
      by (simp add: set_loop.simps [of c d _ _ "[]"] set_loop.simps [of c 0] set_loop.simps [of c 93])
  next
    case 3
    note p = 3
    note r = Utf8Read_utf8 [OF less.prems(1) [unfolded p]]
    have t: "text_chars (e # q)" "text_chars q" and z: "d \<noteq> 0" "e \<noteq> 0" using less.prems(1) p by simp_all
    note r' = Utf8Read_utf8 [OF t(1)]
    have g: "cget (utf8 (e # q)) 0 \<noteq> 0" "cget (utf8 (e # q)) 0 = 93 \<longleftrightarrow> e = 93"
      using cget_utf8_0 [OF t(1)] cget_utf8 [OF t(1), of 93] by simp_all
    consider "d = 93" | a where "d = 45" "e \<noteq> 93" "prior = Some a" "a > 0"
      | "d \<noteq> 93" "d = 45 \<Longrightarrow> e = 93 \<or> prior = None"
      using less.prems(2) by (cases prior) (auto simp: word_gt_0)
    then show ?thesis
    proof cases
      case 1
      then show ?thesis unfolding p r fst_conv snd_conv using t by (simp add: set_loop.simps [of c 93] del: utf8_simps(2))
    next
      case 2
      have *: "set_loop c d (prior_of prior) seen (utf8 (e # q)) =
          set_loop c (fst (sqlite3Utf8Read (utf8 q))) 0 (seen \<or> a \<le> c \<and> c \<le> e) (snd (sqlite3Utf8Read (utf8 q)))"
        using 2 z g r' by (simp add: set_loop.simps [of c 45 _ _ "utf8 (e # q)"] prior_of_def del: utf8_simps(2))
      have "parse_set prior p = map_option (apfst ((#) (Range a e))) (parse_set None q)"
        using 2 p by simp
      then show ?thesis
        using less.hyps [of q None "seen \<or> a \<le> c \<and> c \<le> e"] t(2)
        unfolding p r fst_conv snd_conv * by (auto simp: prior_of_def p simp del: parse_set.simps split: option.splits)
    next
      case 3
      have *: "set_loop c d (prior_of prior) seen (utf8 (e # q)) =
          set_loop c (fst (sqlite3Utf8Read (utf8 (e # q)))) d (seen \<or> c = d) (snd (sqlite3Utf8Read (utf8 (e # q))))"
        using 3 z g by (auto simp: set_loop.simps [of c d _ _ "utf8 (e # q)"] prior_of_def simp del: utf8_simps(2))
      have "parse_set prior p = map_option (apfst ((#) (Single d))) (parse_set (Some d) (e # q))"
        unfolding p using 3 by (subst parse_set.simps(3)) (auto split: option.splits bool.splits simp del: parse_set.simps)
      then show ?thesis
        using less.hyps [of "e # q" "Some d" "seen \<or> c = d"] t(1) z
        unfolding p r fst_conv snd_conv * by (auto simp: prior_of_def p simp del: parse_set.simps utf8_simps split: option.splits)
    qed
  qed
qed


lemma read_hd: "text_chars p \<Longrightarrow> sqlite3Utf8Read (utf8 p) = (if p = [] then (0, []) else (hd p, utf8 (tl p)))"
  using Utf8Read_utf8 [of "hd p" "tl p"] by (cases p) (simp_all del: utf8_simps(2))

lemma text_chars_tl: "text_chars p \<Longrightarrow> text_chars (tl p)"
  by (cases p) simp_all

lemma match_set_utf8:
  assumes "text_chars p"
  shows "case parse_class p of
      None \<Rightarrow> match_set c (utf8 p) = None
    | Some (x, p') \<Rightarrow> \<exists>invert items. x = Class invert items \<and> text_chars p' \<and>
        match_set c (utf8 p) = (if list_ex (item_has c) items \<noteq> invert then Some (utf8 p') else None)"
proof -
  define iv p1 where "iv = (p \<noteq> [] \<and> hd p = 94)" and "p1 = (if iv then tl p else p)"
  define fi p2 where "fi = (p1 \<noteq> [] \<and> hd p1 = 93)" and "p2 = (if fi then tl p1 else p1)"
  have t: "text_chars p1" "text_chars p2" using assms by (auto simp: p1_def p2_def text_chars_tl)
  have 1: "(if fst (sqlite3Utf8Read (utf8 p)) = 94 then (True, sqlite3Utf8Read (snd (sqlite3Utf8Read (utf8 p))))
      else (False, sqlite3Utf8Read (utf8 p))) = (iv, sqlite3Utf8Read (utf8 p1))"
    using assms by (simp add: read_hd iv_def p1_def)
  have 2: "(if fst (sqlite3Utf8Read (utf8 p1)) = 93 then (c = 93, sqlite3Utf8Read (snd (sqlite3Utf8Read (utf8 p1))))
      else (False, sqlite3Utf8Read (utf8 p1))) = (fi \<and> c = 93, sqlite3Utf8Read (utf8 p2))"
    using t(1) by (simp add: read_hd fi_def p2_def)
  have pc: "parse_class p =
      map_option (\<lambda>(items, p). (Class iv ((if fi then [Single 93] else []) @ items), p)) (parse_set None p2)"
    by (simp add: parse_class_def iv_def fi_def p1_def p2_def)
  obtain c1 z1 where r1: "sqlite3Utf8Read (utf8 p) = (c1, z1)" by fastforce
  obtain c2 z2 where r2: "sqlite3Utf8Read (utf8 p1) = (c2, z2)" by fastforce
  obtain c3 z3 where r3: "sqlite3Utf8Read (utf8 p2) = (c3, z3)" by fastforce
  have e1: "(if c1 = 94 then (True, sqlite3Utf8Read z1) else (False, c1, z1)) = (iv, c2, z2)"
    using 1 unfolding r1 r2 fst_conv snd_conv .
  have e2: "(if c2 = 93 then (c = 93, sqlite3Utf8Read z2) else (False, c2, z2)) = (fi \<and> c = 93, c3, z3)"
    using 2 unfolding r2 r3 fst_conv snd_conv .
  have ms: "match_set c (utf8 p) = (let (c2, seen, z) = set_loop c c3 0 (fi \<and> c = 93) z3
      in if c2 = 0 \<or> seen = iv then None else Some z)"
    unfolding match_set_def r1 Let_def split_conv e1 e2 ..
  note l = set_loop_utf8 [OF t(2), of None c "fi \<and> c = 93", unfolded r3 fst_conv snd_conv prior_of_def option.case]
  show ?thesis
  proof (cases "parse_set None p2")
    case None
    then show ?thesis using l unfolding pc ms by (cases "set_loop c c3 0 (fi \<and> c = 93) z3") simp
  next
    case (Some a)
    obtain items p' where a: "a = (items, p')" by fastforce
    have "text_chars p'" "set_loop c c3 0 (fi \<and> c = 93) z3 = (93, fi \<and> c = 93 \<or> list_ex (item_has c) items, utf8 p')"
      using l Some a by simp_all
    then show ?thesis unfolding pc ms Some a by simp
  qed
qed

section \<open>The wildcards and the searches\<close>

fun skip_chars :: "compareInfo \<Rightarrow> u32 list \<Rightarrow> u32 list \<Rightarrow> (u32 list \<times> u32 list) option" where
  "skip_chars pInfo [] s = Some ([], s)"
| "skip_chars pInfo (c # p) s =
     (if c = ucast (matchOne pInfo) then (case s of [] \<Rightarrow> None | d # s \<Rightarrow> skip_chars pInfo p s)
      else if c = ucast (matchAll pInfo) then skip_chars pInfo p s
      else Some (c # p, s))"

lemma skip_wild_utf8:
  "text_chars p \<Longrightarrow> text_chars s \<Longrightarrow>
     skip_wild pInfo (utf8 p) (utf8 s) = map_option (map_prod utf8 utf8) (skip_chars pInfo p s)"
proof (induction p arbitrary: s)
  case Nil
  then show ?case by (simp add: skip_wild.simps Utf8Read_eq)
next
  case (Cons c p)
  note r = Utf8Read_utf8 [OF Cons.prems(1)]
  have ne: "utf8 (c # p) \<noteq> []" using Cons.prems(1) by (subst utf8_eq_Nil) simp_all
  have s: "sqlite3Utf8Read (utf8 s) = (if s = [] then (0, []) else (hd s, utf8 (tl s)))"
    by (rule read_hd [OF Cons.prems(2)])
  show ?case
    using Cons.prems Cons.IH [of s] Cons.IH [of "tl s"] ne
    unfolding skip_wild.simps [of pInfo "utf8 (c # p)"] Utf8Read_eq r Let_def split_conv s
    by (cases s) (simp_all del: utf8_simps(2))
qed

text \<open>All three searches are this one, on characters: the first answer other than \<open>NOMATCH\<close>.\<close>

fun search_chars :: "(u32 list \<Rightarrow> match) \<Rightarrow> u32 list \<Rightarrow> match" where
  "search_chars g [] = NOWILDCARDMATCH"
| "search_chars g (c # s) = (if g (c # s) \<noteq> NOMATCH then g (c # s) else search_chars g s)"

definition after_char :: "(u32 \<Rightarrow> bool) \<Rightarrow> (u8 list \<Rightarrow> match) \<Rightarrow> u32 list \<Rightarrow> match" where
  "after_char P f s = (if P (hd s) then f (utf8 (tl s)) else NOMATCH)"

lemma search_set_utf8: "text_chars s \<Longrightarrow> search_set f (utf8 s) = search_chars (\<lambda>s. f (utf8 s)) s"
proof (induction s)
  case (Cons c s)
  have "utf8 (c # s) \<noteq> []" using Cons.prems by (subst utf8_eq_Nil) simp_all
  moreover have "SKIP_UTF8 (utf8 (c # s)) = utf8 s"
    by (rule SKIP_UTF8_utf8) (use Cons.prems in \<open>simp add: text_chars_def\<close>)
  ultimately show ?case
    using Cons unfolding search_set.simps [of f "utf8 (c # s)"] by (simp add: Let_def del: utf8_simps(2))
qed (simp add: search_set.simps)

lemma search_char_utf8: "text_chars s \<Longrightarrow> search_char f c (utf8 s) = search_chars (after_char (\<lambda>d. d = c) f) s"
proof (induction s)
  case (Cons d s)
  have "utf8 (d # s) \<noteq> []" using Cons.prems by (subst utf8_eq_Nil) simp_all
  then show ?case
    using Cons unfolding search_char.simps [of f c "utf8 (d # s)"] Utf8Read_eq Utf8Read_utf8 [OF Cons.prems]
    by (simp add: Let_def after_char_def del: utf8_simps(2))
qed (simp add: search_char.simps Utf8Read_eq)

lemma search_byte_skip:
  "list_all (\<lambda>b. b \<ge> 0x80) bs \<Longrightarrow> c < 0x80 \<Longrightarrow> cx < 0x80 \<Longrightarrow> search_byte f c cx (bs @ z) = search_byte f c cx z"
proof (induction bs)
  case (Cons b bs)
  then have "\<not> (ucast b :: u32) < 0x80" by (simp add: ucast_ascii not_less)
  with Cons show ?case by auto
qed simp

lemma search_byte_utf8:
  "text_chars s \<Longrightarrow> c < 0x80 \<Longrightarrow> cx < 0x80 \<Longrightarrow>
     search_byte f c cx (utf8 s) = search_chars (after_char (\<lambda>d. d = c \<or> d = cx) f) s"
proof (induction s)
  case (Cons d s)
  show ?case
  proof (cases "d < 0x80")
    case True
    then show ?thesis using Cons by (simp add: WRITE_UTF8_ascii ucast_ucast_ascii after_char_def Let_def)
  next
    case False
    then have "d \<noteq> c" "d \<noteq> cx" using Cons.prems by auto
    moreover have "list_all (\<lambda>b. b \<ge> 0x80) (WRITE_UTF8 d)" using WRITE_UTF8_high False Cons.prems by simp
    ultimately show ?thesis
      using Cons by (simp add: search_byte_skip after_char_def)
  qed
qed simp

lemma search_chars:
  assumes "\<And>s. text_chars s \<Longrightarrow> s \<noteq> [] \<Longrightarrow> (g s = MATCH \<longleftrightarrow> Q s) \<and> (g s = NOWILDCARDMATCH \<longrightarrow> (\<forall>k. \<not> Q (drop k s)))" "text_chars s"
  shows "search_chars g s = (if \<exists>k < length s. Q (drop k s) then MATCH else NOWILDCARDMATCH)"
  using assms(2)
proof (induction s)
  case (Cons c s)
  have ex: "(\<exists>k < length (c # s). Q (drop k (c # s))) \<longleftrightarrow> Q (c # s) \<or> (\<exists>k < length s. Q (drop k s))"
    by (metis (no_types, lifting) Suc_less_eq drop0 drop_Suc_Cons gr0_conv_Suc length_Cons less_Suc_eq_0_disj)
  have s: "\<not> (\<exists>k < length s. Q (drop k s))" if "g (c # s) = NOWILDCARDMATCH"
    using assms(1) [OF Cons.prems] that by (metis list.distinct(1) drop_Suc_Cons)
  show ?case
    using assms(1) [OF Cons.prems list.distinct(2)] Cons s unfolding ex by (cases "g (c # s)") simp_all
qed simp


section \<open>Matching\<close>

definition info_ok :: "compareInfo \<Rightarrow> u32 \<Rightarrow> bool" where
  "info_ok pInfo other \<longleftrightarrow>
     matchAll pInfo \<noteq> matchOne pInfo \<and> other \<noteq> ucast (matchOne pInfo) \<and> matchAll pInfo \<noteq> 0 \<and> matchOne pInfo \<noteq> 0"

text \<open>Matching \<open>p\<close> after any number of characters.\<close>

definition star :: "compareInfo \<Rightarrow> u32 \<Rightarrow> u32 list \<Rightarrow> u32 list \<Rightarrow> bool" where
  "star pInfo other p s \<longleftrightarrow> (\<exists>k \<le> length s. pmatch pInfo other p (drop k s))"

lemma star_Nil: "star pInfo other p [] \<longleftrightarrow> pmatch pInfo other p []"
  by (simp add: star_def)

lemma star_Cons: "star pInfo other p (c # s) \<longleftrightarrow> pmatch pInfo other p (c # s) \<or> star pInfo other p s"
  unfolding star_def by (metis Suc_le_mono drop0 drop_Suc_Cons le0 length_Cons not0_implies_Suc)

lemma star_drop: "star pInfo other p (drop k s) \<Longrightarrow> star pInfo other p s"
  unfolding star_def by (metis (no_types, opaque_lifting) drop_all drop_drop le_refl length_drop linorder_linear)

lemma star_star: "(\<exists>k \<le> length s. star pInfo other p (drop k s)) \<longleftrightarrow> star pInfo other p s"
  using star_drop by (metis drop0 le0)

lemma matches_Any: "matches nocase (Any # ps) s \<longleftrightarrow> (\<exists>k \<le> length s. matches nocase ps (drop k s))"
proof (induction s)
  case (Cons c s)
  then show ?case by (metis Suc_le_mono drop0 drop_Suc_Cons le0 length_Cons matches.simps(3) not0_implies_Suc)
qed simp

lemma pmatch_Nil [simp]: "pmatch pInfo other [] s \<longleftrightarrow> s = []"
  by (simp add: pmatch_def)

lemma pmatch_All: "pmatch pInfo other (ucast (matchAll pInfo) # p) s \<longleftrightarrow> star pInfo other p s"
  by (simp add: pmatch_def star_def parse_pattern.simps matches_Any del: matches.simps split: option.splits)

lemma ucast_8_32_inj: "(ucast (a :: u8) :: u32) = ucast b \<longleftrightarrow> a = b"
  unfolding word_unat_eq_iff unat_ucast_8_32 by simp

lemma pmatch_One:
  "info_ok pInfo other \<Longrightarrow> pmatch pInfo other (ucast (matchOne pInfo) # p) s \<longleftrightarrow> s \<noteq> [] \<and> pmatch pInfo other p (tl s)"
  by (auto simp: pmatch_def parse_pattern.simps info_ok_def ucast_8_32_inj split: option.splits)

lemma pmatch_Lit:
  "c \<noteq> ucast (matchAll pInfo) \<Longrightarrow> c \<noteq> ucast (matchOne pInfo) \<Longrightarrow> c \<noteq> other \<Longrightarrow>
     pmatch pInfo other (c # p) s \<longleftrightarrow> s \<noteq> [] \<and> same_char (noCase pInfo) c (hd s) \<and> pmatch pInfo other p (tl s)"
  by (auto simp: pmatch_def parse_pattern.simps split: option.splits)

lemma pmatch_escape:
  "matchSet pInfo = 0 \<Longrightarrow> other \<noteq> ucast (matchAll pInfo) \<Longrightarrow>
     pmatch pInfo other (other # p) s \<longleftrightarrow>
       p \<noteq> [] \<and> s \<noteq> [] \<and> same_char (noCase pInfo) (hd p) (hd s) \<and> pmatch pInfo other (tl p) (tl s)"
  by (cases p) (auto simp: pmatch_def parse_pattern.simps split: option.splits)

lemma pmatch_class:
  assumes "matchSet pInfo \<noteq> 0" "other \<noteq> ucast (matchAll pInfo)"
  shows "pmatch pInfo other (other # p) s \<longleftrightarrow>
    (case parse_class p of
       Some (Class invert items, p') \<Rightarrow> s \<noteq> [] \<and> list_ex (item_has (hd s)) items \<noteq> invert \<and> pmatch pInfo other p' (tl s)
     | _ \<Rightarrow> False)"
proof (cases "parse_class p")
  case None
  then show ?thesis using assms by (simp add: pmatch_def parse_pattern.simps)
next
  case (Some a)
  then obtain invert items p' where a: "a = (Class invert items, p')"
    by (auto simp: parse_class_def split: if_splits)
  then show ?thesis using assms by (auto simp: pmatch_def parse_pattern.simps Some split: option.splits)
qed

lemma skip_chars_star:
  assumes "info_ok pInfo other"
  shows "text_chars p \<Longrightarrow> text_chars s \<Longrightarrow> case skip_chars pInfo p s of
      None \<Rightarrow> \<not> star pInfo other p s
    | Some (p', s') \<Rightarrow> (star pInfo other p s \<longleftrightarrow> star pInfo other p' s') \<and> set p' \<subseteq> set p \<and> length p' \<le> length p \<and>
        text_chars p' \<and> text_chars s' \<and>
        (p' \<noteq> [] \<longrightarrow> hd p' \<noteq> ucast (matchAll pInfo) \<and> hd p' \<noteq> ucast (matchOne pInfo))"
proof (induction p arbitrary: s)
  case (Cons c p)
  have all: "star pInfo other (c # p) s \<longleftrightarrow> star pInfo other p s" if "c = ucast (matchAll pInfo)"
    using that star_star unfolding star_def [of _ _ "c # p"] by (simp add: pmatch_All)
  have one: "star pInfo other (c # p) [] \<longleftrightarrow> False"
    "star pInfo other (c # p) (d # s') \<longleftrightarrow> star pInfo other p s'" if "c = ucast (matchOne pInfo)" for d s'
  proof -
    show "star pInfo other (c # p) [] \<longleftrightarrow> False" using that pmatch_One [OF assms] by (simp add: star_Nil)
    show "star pInfo other (c # p) (d # s') \<longleftrightarrow> star pInfo other p s'"
      using that pmatch_One [OF assms]
      by (induction s' arbitrary: d) (simp_all add: star_Nil star_Cons)
  qed
  show ?case
  proof (cases "c = ucast (matchOne pInfo)")
    case True
    show ?thesis
    proof (cases s)
      case Nil
      then show ?thesis using True one by simp
    next
      case (Cons d s')
      then have "skip_chars pInfo (c # p) s = skip_chars pInfo p s'" "star pInfo other (c # p) s = star pInfo other p s'"
        using True one by simp_all
      then show ?thesis using Cons.IH [of s'] Cons.prems Cons
        by (auto split: option.splits)
    qed
  next
    case False
    then show ?thesis using Cons.prems Cons.IH [of s] all by (auto split: option.splits)
  qed
qed simp

lemma ascii_case:
  assumes "c < 0x80"
  shows "ucast (sqlite3Tolower (ucast c)) = ascii_lower c"
    "ucast (sqlite3Toupper (ucast c)) = (if 97 \<le> c \<and> c \<le> 122 then c - 32 else c)"
proof -
  define b :: u8 where "b = ucast c"
  have c: "c = ucast b" using assms by (simp add: b_def ucast_ucast_ascii)
  then have b: "unat b < 128" using assms by (simp add: word_less_nat_alt unat_ucast_8_32)
  show "ucast (sqlite3Tolower (ucast c)) = ascii_lower c"
    unfolding b_def [symmetric] unfolding sqlite3Tolower_def UpperToLower_eq ascii_lower_def c word_le_nat_alt unat_ucast_8_32
    using b by (auto simp: word_unat_eq_iff unat_ucast_8_32 unat_word_ariths)
  show "ucast (sqlite3Toupper (ucast c)) = (if 97 \<le> c \<and> c \<le> 122 then c - 32 else c)"
    unfolding b_def [symmetric] unfolding Toupper_eq c word_le_nat_alt unat_ucast_8_32
    using b by (auto simp: word_unat_eq_iff unat_ucast_8_32 unat_sub word_le_nat_alt)
qed

lemma ascii_lower_unat:
  "unat (ascii_lower c) = (if 65 \<le> unat c \<and> unat c \<le> 90 then unat c + 32 else unat c)"
  by (simp add: ascii_lower_def word_le_nat_alt unat_word_ariths)

lemma ascii_upper_unat:
  "unat (if 97 \<le> c \<and> c \<le> 122 then c - 32 else (c :: u32)) =
    (if 97 \<le> unat c \<and> unat c \<le> 122 then unat c - 32 else unat c)"
  by (simp add: word_le_nat_alt unat_sub)

lemma case_pair:
  "d = ascii_lower c \<or> d = (if 97 \<le> c \<and> c \<le> 122 then c - 32 else c) \<longleftrightarrow> same_char True c d"
  unfolding same_char_def word_unat_eq_iff ascii_lower_unat ascii_upper_unat by auto

lemma same_char_test:
  "c = d \<or> nocase \<and> sqlite3Tolower (ucast c) = sqlite3Tolower (ucast d) \<and> c < 0x80 \<and> d < 0x80 \<longleftrightarrow>
    same_char nocase c d"
proof -
  have "ascii_lower c = ascii_lower d \<longleftrightarrow> sqlite3Tolower (ucast c) = sqlite3Tolower (ucast d)" if "c < 0x80" "d < 0x80"
    using ascii_case(1) that ucast_8_32_inj by metis
  moreover have "c = d" if "ascii_lower c = ascii_lower d" "\<not> (c < 0x80 \<and> d < 0x80)"
    using that unfolding word_unat_eq_iff ascii_lower_unat word_less_nat_alt by (auto split: if_splits)
  ultimately show ?thesis unfolding same_char_def by blast
qed


lemma parse_set_subset: "parse_set prior p = Some (items, p') \<Longrightarrow> set p' \<subseteq> set p"
  by (induction prior p arbitrary: items p' rule: parse_set.induct)
    (auto split: if_splits option.splits bool.splits prod.splits, fastforce+)

lemma parse_class_subset: "parse_class p = Some (x, p') \<Longrightarrow> set p' \<subseteq> set p"
  by (cases p; cases "tl p") (auto simp: parse_class_def simp del: parse_set.simps dest!: parse_set_subset split: if_splits)

text \<open>The search for a literal character after the wildcards.\<close>

definition search_lit :: "bool \<Rightarrow> (u8 list \<Rightarrow> match) \<Rightarrow> u32 \<Rightarrow> u8 list \<Rightarrow> match" where
  "search_lit nocase f c zString =
     (if c \<le> 0x80 then
        (let (c, cx) = (if nocase then (ucast (sqlite3Tolower (ucast c)), ucast (sqlite3Toupper (ucast c))) else (c, c))
         in search_byte f c cx zString)
      else search_char f c zString)"

lemma search_literal:
  assumes "c \<noteq> 0" "c \<noteq> 0x80" "text_chars s"
    and f: "\<And>s. text_chars s \<Longrightarrow> (f (utf8 s) = MATCH \<longleftrightarrow> Q s) \<and> (f (utf8 s) = NOWILDCARDMATCH \<longrightarrow> (\<forall>k. \<not> Q (drop k s)))"
  shows "search_lit nocase f c (utf8 s) =
    (if \<exists>k < length s. same_char nocase c (hd (drop k s)) \<and> Q (tl (drop k s)) then MATCH else NOWILDCARDMATCH)"
    (is "?l = ?r")
proof -
  have "?l = search_chars (after_char (same_char nocase c) f) s"
  proof (cases "c \<le> 0x80")
    case True
    then have c: "c < 0x80" using assms(2) by simp
    let ?lo = "ascii_lower c" and ?up = "if 97 \<le> c \<and> c \<le> 122 then c - 32 else c"
    have l: "?lo < 0x80" "?up < 0x80"
      using c unfolding word_less_nat_alt ascii_lower_unat ascii_upper_unat by auto
    have "after_char (\<lambda>d. d = ?lo \<or> d = ?up) f = after_char (same_char True c) f"
      using case_pair by simp
    moreover have "after_char (\<lambda>d. d = c \<or> d = c) f = after_char (same_char False c) f"
      by (simp add: after_char_def fun_eq_iff same_char_def eq_commute)
    ultimately show ?thesis
      using True c search_byte_utf8 [OF assms(3) l, of f] search_byte_utf8 [OF assms(3) c c, of f]
      by (cases nocase) (simp_all add: search_lit_def ascii_case [OF c])
  next
    case False
    then have "same_char nocase c d \<longleftrightarrow> d = c" for d
      unfolding same_char_def word_unat_eq_iff ascii_lower_unat word_le_nat_alt by auto
    then have "after_char (\<lambda>d. d = c) f = after_char (same_char nocase c) f" by (simp add: after_char_def fun_eq_iff)
    then show ?thesis using False search_char_utf8 [OF assms(3), of f c] by (simp add: search_lit_def)
  qed
  also have "\<dots> = (if \<exists>k < length s. drop k s \<noteq> [] \<and> same_char nocase c (hd (drop k s)) \<and> Q (tl (drop k s))
      then MATCH else NOWILDCARDMATCH)"
  proof (rule search_chars [OF _ assms(3)])
    fix s :: "u32 list"
    assume ne: "s \<noteq> []"
    assume "text_chars s"
    then have t: "text_chars (tl s)" by (rule text_chars_tl)
    have "tl (drop k s) = drop k (tl s)" for k by (simp add: drop_Suc tl_drop)
    with f [OF t] show "(after_char (same_char nocase c) f s = MATCH \<longleftrightarrow> s \<noteq> [] \<and> same_char nocase c (hd s) \<and> Q (tl s)) \<and>
      (after_char (same_char nocase c) f s = NOWILDCARDMATCH \<longrightarrow>
        (\<forall>k. \<not> (drop k s \<noteq> [] \<and> same_char nocase c (hd (drop k s)) \<and> Q (tl (drop k s)))))"
      using ne by (simp add: after_char_def)
  qed
  also have "\<dots> = ?r" by (simp cong: conj_cong)
  finally show ?thesis .
qed


lemma star_Lit:
  assumes "c \<noteq> ucast (matchAll pInfo)" "c \<noteq> ucast (matchOne pInfo)" "c \<noteq> other"
  shows "star pInfo other (c # p) s \<longleftrightarrow>
    (\<exists>k < length s. same_char (noCase pInfo) c (hd (drop k s)) \<and> pmatch pInfo other p (tl (drop k s)))"
  unfolding star_def pmatch_Lit [OF assms] by (auto simp: le_less)

lemma star_escape:
  assumes "matchSet pInfo = 0" "other \<noteq> ucast (matchAll pInfo)"
  shows "star pInfo other (other # p) s \<longleftrightarrow> p \<noteq> [] \<and>
    (\<exists>k < length s. same_char (noCase pInfo) (hd p) (hd (drop k s)) \<and> pmatch pInfo other (tl p) (tl (drop k s)))"
  unfolding star_def pmatch_escape [OF assms] by (auto simp: le_less)

lemma tl_drop_comm: "tl (drop k s) = drop k (tl s)"
  by (simp add: drop_Suc tl_drop)

lemma patternCompare_Cons:
  assumes "text_chars (c # q)"
  shows "patternCompare pInfo other (utf8 (c # q)) zString =
     (if c = ucast (matchAll pInfo) then
        (case skip_wild pInfo (utf8 q) zString of
           None \<Rightarrow> NOWILDCARDMATCH
         | Some (zPat, zString) \<Rightarrow>
             (let (c, zNext) = sqlite3Utf8Read zPat
              in if zPat = [] then MATCH
                 else if c = other \<and> matchSet pInfo \<noteq> 0 then
                   search_set (\<lambda>z. patternCompare pInfo other zPat z) zString
                 else
                   (let (c, zNext) = (if c = other then sqlite3Utf8Read zNext else (c, zNext))
                    in if c = 0 then NOWILDCARDMATCH
                       else search_lit (noCase pInfo) (\<lambda>z. patternCompare pInfo other zNext z) c zString)))
      else if c = other \<and> matchSet pInfo \<noteq> 0 then
        (let (c, zString) = sqlite3Utf8Read zString
         in if c = 0 then NOMATCH
            else (case match_set c (utf8 q) of
                    None \<Rightarrow> NOMATCH
                  | Some zPat \<Rightarrow> patternCompare pInfo other zPat zString))
      else
        (let escaped = (c = other);
             (c, zPat) = (if escaped then sqlite3Utf8Read (utf8 q) else (c, utf8 q))
         in if c = 0 then NOMATCH
            else
              (let (c2, zString) = sqlite3Utf8Read zString
               in if same_char (noCase pInfo) c c2 \<or> c = ucast (matchOne pInfo) \<and> \<not> escaped \<and> c2 \<noteq> 0
                  then patternCompare pInfo other zPat zString
                  else NOMATCH)))"
proof -
  have ne: "utf8 (c # q) \<noteq> []" using assms by (subst utf8_eq_Nil) simp_all
  show ?thesis
    unfolding patternCompare.simps [of pInfo other "utf8 (c # q)"] Utf8Read_eq Utf8Read_utf8 [OF assms] Let_def split_conv
      if_not_P [OF ne] search_lit_def disj_assoc [symmetric] same_char_test by (rule refl)
qed

lemma same_char_0: "same_char nocase c 0 \<longleftrightarrow> c = 0"
  unfolding same_char_def word_unat_eq_iff ascii_lower_unat by auto

lemma head_step:
  assumes "\<And>s. P s \<longleftrightarrow> s \<noteq> [] \<and> H (hd s) \<and> Q (tl s)"
    "r = (if s \<noteq> [] \<and> H (hd s) then r' else NOMATCH)"
    "(r' = MATCH \<longleftrightarrow> Q (tl s)) \<and> (r' = NOWILDCARDMATCH \<longrightarrow> (\<forall>k. \<not> Q (drop k (tl s))))"
  shows "(r = MATCH \<longleftrightarrow> P s) \<and> (r = NOWILDCARDMATCH \<longrightarrow> (\<forall>k. \<not> P (drop k s)))"
  using assms by (auto simp: tl_drop_comm)

text \<open>The turn of the loop that meets \<open>matchAll\<close>.\<close>

lemma patternCompare_star:
  assumes ok: "info_ok pInfo other" and q: "text_chars q" "0x80 \<notin> set q" and s: "text_chars s"
    and c: "scalar (ucast (matchAll pInfo))"
    and IH: "\<And>p' s. length p' \<le> length q \<Longrightarrow> text_chars p' \<Longrightarrow> set p' \<subseteq> set q \<Longrightarrow> text_chars s \<Longrightarrow>
      (patternCompare pInfo other (utf8 p') (utf8 s) = MATCH \<longleftrightarrow> pmatch pInfo other p' s) \<and>
      (patternCompare pInfo other (utf8 p') (utf8 s) = NOWILDCARDMATCH \<longrightarrow> (\<forall>k. \<not> pmatch pInfo other p' (drop k s)))"
  shows "patternCompare pInfo other (utf8 (ucast (matchAll pInfo) # q)) (utf8 s) =
    (if star pInfo other q s then MATCH else NOWILDCARDMATCH)"
proof -
  have t: "text_chars (ucast (matchAll pInfo) # q)"
    using q c ok ucast_8_32_inj [of "matchAll pInfo" 0] by (simp add: info_ok_def)
  show ?thesis
  proof (cases "skip_chars pInfo q s")
    case None
    then show ?thesis
      using skip_chars_star [OF ok q(1) s] unfolding patternCompare_Cons [OF t] skip_wild_utf8 [OF q(1) s] by simp
  next
    case (Some a)
    obtain p' s' where a: "a = (p', s')" by fastforce
    have sk: "star pInfo other q s \<longleftrightarrow> star pInfo other p' s'" "set p' \<subseteq> set q" "length p' \<le> length q"
      "text_chars p'" "text_chars s'"
      "p' \<noteq> [] \<Longrightarrow> hd p' \<noteq> ucast (matchAll pInfo) \<and> hd p' \<noteq> ucast (matchOne pInfo)"
      using skip_chars_star [OF ok q(1) s] Some a by auto
    have sw: "skip_wild pInfo (utf8 q) (utf8 s) = Some (utf8 p', utf8 s')"
      using Some a skip_wild_utf8 [OF q(1) s] by simp
    note un = patternCompare_Cons [OF t] sw read_hd [OF sk(4)] sk(1)
    show ?thesis
    proof (cases p')
      case Nil
      then show ?thesis unfolding un by (simp add: star_def)
    next
      case (Cons d p'')
      then have ne: "p' \<noteq> []" "utf8 p' \<noteq> []" "hd p' = d" "tl p' = p''" "d \<noteq> 0" "d \<noteq> 0x80"
        "d \<noteq> ucast (matchAll pInfo)" "d \<noteq> ucast (matchOne pInfo)" "text_chars p''" "length p'' \<le> length q" "set p'' \<subseteq> set q"
        using sk q(2) utf8_eq_Nil [OF sk(4)] by auto
      have rd: "sqlite3Utf8Read (utf8 p') = (d, utf8 p'')" using read_hd [OF sk(4)] ne by simp
      have body: "patternCompare pInfo other (utf8 (ucast (matchAll pInfo) # q)) (utf8 s) =
          (if d = other \<and> matchSet pInfo \<noteq> 0 then search_set (\<lambda>z. patternCompare pInfo other (utf8 p') z) (utf8 s')
           else (let (c, zNext) = (if d = other then sqlite3Utf8Read (utf8 p'') else (d, utf8 p''))
             in if c = 0 then NOWILDCARDMATCH
                else search_lit (noCase pInfo) (\<lambda>z. patternCompare pInfo other zNext z) c (utf8 s')))"
        using ne(2) unfolding patternCompare_Cons [OF t] sw by (simp add: rd)
      consider (set) "d = other" "matchSet pInfo \<noteq> 0" | (esc) "d = other" "matchSet pInfo = 0" | (lit) "d \<noteq> other"
        by blast
      then show ?thesis
      proof cases
        case set
        have "search_set (\<lambda>z. patternCompare pInfo other (utf8 p') z) (utf8 s') =
            (if \<exists>k < length s'. pmatch pInfo other p' (drop k s') then MATCH else NOWILDCARDMATCH)"
          unfolding search_set_utf8 [OF sk(5)] using IH [OF sk(3,4,2)] by (intro search_chars [OF _ sk(5)]) blast
        moreover have "\<not> pmatch pInfo other p' []"
          using pmatch_class [of pInfo other p'' "[]"] set ne Cons by (auto split: option.splits pat.splits)
        then have "star pInfo other p' s' \<longleftrightarrow> (\<exists>k < length s'. pmatch pInfo other p' (drop k s'))"
          unfolding star_def by (metis drop_all le_less le_refl)
        moreover have "patternCompare pInfo other (utf8 (ucast (matchAll pInfo) # q)) (utf8 s) =
            search_set (\<lambda>z. patternCompare pInfo other (utf8 p') z) (utf8 s')"
          using set unfolding body by simp
        ultimately show ?thesis using sk(1) by simp
      next
        case esc
        show ?thesis
        proof (cases p'')
          case Nil
          then show ?thesis
            using esc ne(7) Cons star_escape [of pInfo other p'' s'] unfolding body sk(1) by simp
        next
          case e: (Cons e p3)
          then have ne': "e \<noteq> 0" "e \<noteq> 0x80" "text_chars p3" "length p3 \<le> length q" "set p3 \<subseteq> set q"
            "sqlite3Utf8Read (utf8 p'') = (e, utf8 p3)"
            using ne q(2) by (auto simp: Utf8Read_utf8 simp del: utf8_simps)
          show ?thesis
            using search_literal [OF ne'(1,2) sk(5) IH [OF ne'(4,3,5)], of "noCase pInfo"]
              star_escape [of pInfo other p'' s'] esc ne(7) ne'(1,6) Cons
            unfolding body sk(1) by (simp add: e del: utf8_simps)
        qed
      next
        case lit
        show ?thesis
          using search_literal [OF ne(5,6) sk(5) IH [OF ne(10,9,11)], of "noCase pInfo"]
            star_Lit [OF ne(7,8) lit, of p'' s'] lit ne(5) Cons
          unfolding body sk(1) by (simp del: utf8_simps)
      qed
    qed
  qed
qed

lemma patternCompare_spec:
  assumes "info_ok pInfo other"
  shows "text_chars p \<Longrightarrow> 0x80 \<notin> set p \<Longrightarrow> text_chars s \<Longrightarrow>
     (patternCompare pInfo other (utf8 p) (utf8 s) = MATCH \<longleftrightarrow> pmatch pInfo other p s) \<and>
     (patternCompare pInfo other (utf8 p) (utf8 s) = NOWILDCARDMATCH \<longrightarrow> (\<forall>k. \<not> pmatch pInfo other p (drop k s)))"
proof (induction "length p" arbitrary: p s rule: less_induct)
  case less
  show ?case
  proof (cases p)
    case Nil
    then show ?thesis using less.prems by (simp add: patternCompare.simps Utf8Read_eq utf8_eq_Nil)
  next
    case (Cons c q)
    note r = Utf8Read_utf8 [OF less.prems(1) [unfolded Cons]]
    have ne: "utf8 (c # q) \<noteq> []" using less.prems(1) Cons by (subst utf8_eq_Nil) simp_all
    have tq: "text_chars q" "0x80 \<notin> set q" and c0: "c \<noteq> 0" using less.prems Cons by auto
    have IH: "(patternCompare pInfo other (utf8 p') (utf8 s) = MATCH \<longleftrightarrow> pmatch pInfo other p' s) \<and>
     (patternCompare pInfo other (utf8 p') (utf8 s) = NOWILDCARDMATCH \<longrightarrow> (\<forall>k. \<not> pmatch pInfo other p' (drop k s)))"
      if "length p' < length p" "text_chars p'" "set p' \<subseteq> set p" "text_chars s" for p' s
      using less.hyps that less.prems(2) by blast
    consider (all) "c = ucast (matchAll pInfo)"
      | (set) "c \<noteq> ucast (matchAll pInfo)" "c = other" "matchSet pInfo \<noteq> 0"
      | (esc) "c \<noteq> ucast (matchAll pInfo)" "c = other" "matchSet pInfo = 0"
      | (one) "c = ucast (matchOne pInfo)" "c \<noteq> ucast (matchAll pInfo)" "c \<noteq> other"
      | (lit) "c \<noteq> ucast (matchAll pInfo)" "c \<noteq> ucast (matchOne pInfo)" "c \<noteq> other"
      by blast
    then show ?thesis
    proof cases
      case all
      have st: "pmatch pInfo other p s' \<longleftrightarrow> star pInfo other q s'" for s'
        unfolding Cons all by (rule pmatch_All)
      have "patternCompare pInfo other (utf8 p) (utf8 s) =
          (if star pInfo other q s then MATCH else NOWILDCARDMATCH)"
        unfolding Cons all by (rule patternCompare_star) (use assms tq less.prems IH Cons all in \<open>auto simp: less_Suc_eq_le subset_insertI2\<close>)
      then show ?thesis unfolding st using star_drop [of pInfo other q _ s] by (auto split: if_splits)
    next
      case set
      show ?thesis
      proof (cases "parse_class q")
        case None
        have "patternCompare pInfo other (utf8 p) (utf8 s) = NOMATCH"
          using match_set_utf8 [OF tq(1)] None set less.prems(3)
          unfolding Cons patternCompare_Cons [OF less.prems(1) [unfolded Cons]] by (simp add: read_hd)
        moreover have "\<not> pmatch pInfo other p s'" for s'
          using pmatch_class [of pInfo other q s'] set None Cons by simp
        ultimately show ?thesis by simp
      next
        case (Some a)
        obtain x p' where a: "a = (x, p')" by fastforce
        have ms: "\<exists>invert items. x = Class invert items \<and> text_chars p' \<and>
            match_set d (utf8 q) = (if list_ex (item_has d) items \<noteq> invert then Some (utf8 p') else None)" for d
          using match_set_utf8 [OF tq(1), of d] Some a by simp
        then obtain invert items where x: "x = Class invert items" "text_chars p'" by blast
        then have ms: "match_set d (utf8 q) = (if list_ex (item_has d) items \<noteq> invert then Some (utf8 p') else None)" for d
          using ms [of d] by simp
        have p': "length p' < length p" "set p' \<subseteq> set p"
          using parse_class_le parse_class_subset Some a Cons by fastforce+
        have pm: "pmatch pInfo other p s' \<longleftrightarrow>
            s' \<noteq> [] \<and> (list_ex (item_has (hd s')) items \<noteq> invert) \<and> pmatch pInfo other p' (tl s')" for s'
          using pmatch_class [of pInfo other q s'] set Cons Some a x by simp
        have "hd s \<noteq> 0" if "s \<noteq> []" using less.prems(3) that by (cases s) simp_all
        then have "patternCompare pInfo other (utf8 p) (utf8 s) =
            (if s \<noteq> [] \<and> list_ex (item_has (hd s)) items \<noteq> invert
             then patternCompare pInfo other (utf8 p') (utf8 (tl s)) else NOMATCH)"
          using set unfolding Cons patternCompare_Cons [OF less.prems(1) [unfolded Cons]] read_hd [OF less.prems(3)]
          by (simp add: ms)
        from head_step [OF pm this IH [OF p'(1) x(2) p'(2) text_chars_tl [OF less.prems(3)]]]
        show ?thesis .
      qed
    next
      case esc
      show ?thesis
      proof (cases q)
        case Nil
        then have "patternCompare pInfo other (utf8 p) (utf8 s) = NOMATCH"
          using esc unfolding Cons patternCompare_Cons [OF less.prems(1) [unfolded Cons]] by simp
        moreover have "\<not> pmatch pInfo other p s'" for s'
          using pmatch_escape [of pInfo other q s'] esc Nil Cons by simp
        ultimately show ?thesis by simp
      next
        case q: (Cons d q')
        have d: "d \<noteq> 0" "text_chars q'" using tq q by simp_all
        have pm: "pmatch pInfo other p s' \<longleftrightarrow> s' \<noteq> [] \<and> same_char (noCase pInfo) d (hd s') \<and> pmatch pInfo other q' (tl s')" for s'
          using pmatch_escape [of pInfo other q s'] esc q Cons by simp
        have "patternCompare pInfo other (utf8 p) (utf8 s) =
            (if s \<noteq> [] \<and> same_char (noCase pInfo) d (hd s)
             then patternCompare pInfo other (utf8 q') (utf8 (tl s)) else NOMATCH)"
          using esc d Utf8Read_utf8 [OF tq(1) [unfolded q]]
          unfolding Cons q patternCompare_Cons [OF less.prems(1) [unfolded Cons q]] read_hd [OF less.prems(3)]
          by (simp add: same_char_0 del: utf8_simps)
        from head_step [OF pm this IH [of q', OF _ d(2) _ text_chars_tl [OF less.prems(3)]]]
        show ?thesis using Cons q by auto
      qed
    next
      case one
      have pm: "pmatch pInfo other p s' \<longleftrightarrow> s' \<noteq> [] \<and> True \<and> pmatch pInfo other q (tl s')" for s'
        using pmatch_One [OF assms, of q s'] one Cons by simp
      have "hd s \<noteq> 0" if "s \<noteq> []" using less.prems(3) that by (cases s) simp_all
      then have "patternCompare pInfo other (utf8 p) (utf8 s) =
          (if s \<noteq> [] \<and> True then patternCompare pInfo other (utf8 q) (utf8 (tl s)) else NOMATCH)"
        using one c0 unfolding Cons patternCompare_Cons [OF less.prems(1) [unfolded Cons]] read_hd [OF less.prems(3)]
        by (simp add: same_char_0 del: utf8_simps)
      from head_step [OF pm this IH [OF _ tq(1) _ text_chars_tl [OF less.prems(3)]]]
      show ?thesis using Cons by auto
    next
      case lit
      have pm: "pmatch pInfo other p s' \<longleftrightarrow> s' \<noteq> [] \<and> same_char (noCase pInfo) c (hd s') \<and> pmatch pInfo other q (tl s')" for s'
        using pmatch_Lit [OF lit, of q s'] Cons by simp
      have "patternCompare pInfo other (utf8 p) (utf8 s) =
          (if s \<noteq> [] \<and> same_char (noCase pInfo) c (hd s)
           then patternCompare pInfo other (utf8 q) (utf8 (tl s)) else NOMATCH)"
        using lit c0 unfolding Cons patternCompare_Cons [OF less.prems(1) [unfolded Cons]] read_hd [OF less.prems(3)]
        by (simp add: same_char_0 del: utf8_simps)
      from head_step [OF pm this IH [OF _ tq(1) _ text_chars_tl [OF less.prems(3)]]]
      show ?thesis using Cons by auto
    qed
  qed
qed


section \<open>The operators\<close>

lemma info_ok_glob: "info_ok globInfo 91"
  by (simp add: info_ok_def globInfo_def)

lemma info_ok_like: "esc \<noteq> 95 \<Longrightarrow> info_ok likeInfoNorm esc"
  by (simp add: info_ok_def likeInfoNorm_def)

lemma match_rc_0 [simp]: "match_rc m = 0 \<longleftrightarrow> m = MATCH"
  by (cases m) simp_all




lemma c_str_utf8: "text_chars s \<Longrightarrow> c_str (utf8 s) = utf8 s"
proof (induction s)
  case (Cons c s)
  have "0 \<notin> set (WRITE_UTF8 c)"
  proof (cases "c < 0x80")
    case True
    then show ?thesis using Cons.prems ucast_ascii_inj [OF True, of 0] by (simp add: WRITE_UTF8_ascii)
  next
    case False
    then show ?thesis using WRITE_UTF8_high [of c] Cons.prems by (auto simp: list_all_iff)
  qed
  then show ?case using Cons by (auto simp: c_str_def takeWhile_append2 takeWhile_eq_all_conv)
qed (simp add: c_str_def)



end
