(* ===== verification/WalIndex.thy ===== *)
theory WalIndex
  imports Prelude "HOL-Library.Sublist"
begin

text \<open>
  The wal-index of wal.c: the shared-memory table that finds the last frame of the write-ahead log
  that holds a database page. Frame numbers are natural numbers; page numbers and the values of the
  hash slots are words.
\<close>

section \<open>State\<close>

text \<open>
  One page of the wal-index: 4096 32-bit words, then 8192 hash slots of 16 bits. On page 0 the first
  34 words hold the header, which the model keeps apart: \<open>live_hdr\<close> and \<open>live_hdr2\<close> are its two
  copies of \<open>WalIndexHdr\<close>.
\<close>

record ht_page =
  pg_words :: "nat \<Rightarrow> u32"
  pg_hash :: "nat \<Rightarrow> u16"

record WalIndexHdr =
  iVersion :: u32
  iChange :: u32
  isInit :: bool
  bigEndCksum :: bool
  hdr_szPage :: u16
  mxFrame :: nat
  nPage :: u32
  aFrameCksum :: "u32 \<times> u32"
  aSalt :: "u8 list"
  aCksum :: "u32 \<times> u32"

datatype exclusive_mode = WAL_NORMAL_MODE | WAL_EXCLUSIVE_MODE | WAL_HEAPMEMORY_MODE

text \<open>What a checkpoint keeps in the index: unused read marks are \<open>READMARK_NOT_USED\<close>.\<close>

record WalCkptInfo =
  nBackfill :: nat
  aReadMark :: "nat list"
  nBackfillAttempted :: nat

definition READMARK_NOT_USED :: nat where "READMARK_NOT_USED = 0xffffffff"
definition WAL_NREADER :: nat where "WAL_NREADER = 5"

text \<open>
  \<open>apWiData\<close> tells which pages are mapped; \<open>wi\<close> is what the pages hold, for a shared index as long as
  this connection has the write lock.
\<close>

record Wal =
  apWiData :: "bool list"
  wi :: "nat \<Rightarrow> ht_page"
  live_hdr :: WalIndexHdr
  live_hdr2 :: WalIndexHdr
  ckpt :: WalCkptInfo
  exclusiveMode :: exclusive_mode
  readLock :: cint
  writeLock :: bool
  ckptLock :: bool
  shm_rdonly :: bool
  file_rdonly :: bool
  hdr :: WalIndexHdr
  minFrame :: nat
  iReCksum :: nat
  szPage :: cint
  nCkpt :: u32
  truncateOnCommit :: bool
  syncHeader :: bool
  padToSectorBoundary :: bool
  mxWalSize :: i64
  iCallback :: nat

datatype wal_rc = WAL_OK | WAL_NOMEM | WAL_READONLY | WAL_CORRUPT | WAL_CANTOPEN | WAL_IOERR | WAL_BUSY
  | WAL_RETRY | WAL_PROTOCOL | WAL_BUSY_RECOVERY | WAL_BUSY_SNAPSHOT | WAL_READONLY_RECOVERY | WAL_READONLY_CANTLOCK | WAL_INTERRUPT

text \<open>
  What the operating system answers: whether the array can grow to \<open>n\<close> pointers and page \<open>i\<close> can be
  allocated, and the result of \<open>sqlite3OsShmMap\<close> on page \<open>i\<close> with the pointer it sets (null or not).
\<close>

record wal_os =
  os_realloc :: "nat \<Rightarrow> bool"
  os_malloc :: "nat \<Rightarrow> bool"
  os_shm_map :: "nat \<Rightarrow> bool \<Rightarrow> wal_rc \<times> bool"

definition HASHTABLE_NPAGE :: nat where "HASHTABLE_NPAGE = 4096"
definition HASHTABLE_HASH_1 :: u32 where "HASHTABLE_HASH_1 = 383"
definition HASHTABLE_NSLOT :: nat where "HASHTABLE_NSLOT = HASHTABLE_NPAGE * 2"
definition WALINDEX_HDR_WORDS :: nat where "WALINDEX_HDR_WORDS = 34"
definition HASHTABLE_NPAGE_ONE :: nat where "HASHTABLE_NPAGE_ONE = HASHTABLE_NPAGE - WALINDEX_HDR_WORDS"

lemmas wal_consts = HASHTABLE_NPAGE_def HASHTABLE_NSLOT_def WALINDEX_HDR_WORDS_def HASHTABLE_NPAGE_ONE_def

definition zero_page :: ht_page where
  "zero_page = \<lparr>pg_words = \<lambda>_. 0, pg_hash = \<lambda>_. 0\<rparr>"

section \<open>Checksums and the header\<close>

definition BYTESWAP32 :: "u32 \<Rightarrow> u32" where
  "BYTESWAP32 x = push_bit 24 (x AND 0x000000FF) + push_bit 8 (x AND 0x0000FF00)
     + drop_bit 8 (x AND 0x00FF0000) + drop_bit 24 (x AND 0xFF000000)"

text \<open>A 32-bit word in memory: the processors of Android are little-endian.\<close>

definition native32 :: "u8 \<Rightarrow> u8 \<Rightarrow> u8 \<Rightarrow> u8 \<Rightarrow> u32" where
  "native32 a b c d = ucast a + push_bit 8 (ucast b) + push_bit 16 (ucast c) + push_bit 24 (ucast d)"

definition native32_bytes :: "u32 \<Rightarrow> u8 list" where
  "native32_bytes w = [ucast w, ucast (drop_bit 8 w), ucast (drop_bit 16 w), ucast (drop_bit 24 w)]"

fun cksum_loop :: "bool \<Rightarrow> u8 list \<Rightarrow> u32 \<times> u32 \<Rightarrow> u32 \<times> u32" where
  "cksum_loop nativeCksum (a # b # c # d # e # f # g # h # aData) (s1, s2) =
     (let x = native32 a b c d; y = native32 e f g h;
          s1 = s1 + (if nativeCksum then x else BYTESWAP32 x) + s2;
          s2 = s2 + (if nativeCksum then y else BYTESWAP32 y) + s1
      in cksum_loop nativeCksum aData (s1, s2))"
| "cksum_loop nativeCksum _ s = s"

definition walChecksumBytes :: "bool \<Rightarrow> u8 list \<Rightarrow> (u32 \<times> u32) option \<Rightarrow> u32 \<times> u32" where
  "walChecksumBytes nativeCksum a aIn = cksum_loop nativeCksum a (case aIn of None \<Rightarrow> (0, 0) | Some s \<Rightarrow> s)"

text \<open>The bytes of a \<open>WalIndexHdr\<close> before \<open>aCksum\<close>.\<close>

definition hdr_bytes :: "WalIndexHdr \<Rightarrow> u8 list" where
  "hdr_bytes h =
     native32_bytes (iVersion h) @ native32_bytes 0 @ native32_bytes (iChange h) @
     [if isInit h then 1 else 0, if bigEndCksum h then 1 else 0, ucast (hdr_szPage h), ucast (drop_bit 8 (hdr_szPage h))] @
     native32_bytes (of_nat (mxFrame h)) @ native32_bytes (nPage h) @
     native32_bytes (fst (aFrameCksum h)) @ native32_bytes (snd (aFrameCksum h)) @ aSalt h"

definition WALINDEX_MAX_VERSION :: u32 where "WALINDEX_MAX_VERSION = 3007000"

definition walIndexWriteHdr :: "Wal \<Rightarrow> Wal" where
  "walIndexWriteHdr pWal =
     (let h = (hdr pWal)\<lparr>isInit := True, iVersion := WALINDEX_MAX_VERSION\<rparr>;
          h = h\<lparr>aCksum := walChecksumBytes True (hdr_bytes h) None\<rparr>
      in pWal\<lparr>hdr := h, live_hdr2 := h, live_hdr := h\<rparr>)"

text \<open>Whether the header could not be read, whether it changed, and the new state.\<close>

definition walIndexTryHdr :: "Wal \<Rightarrow> bool \<times> bool \<times> Wal" where
  "walIndexTryHdr pWal =
     (let h1 = live_hdr pWal; h2 = live_hdr2 pWal
      in if h1 \<noteq> h2 \<or> \<not> isInit h1 \<or> walChecksumBytes True (hdr_bytes h1) None \<noteq> aCksum h1 then (True, False, pWal)
         else if hdr pWal \<noteq> h1 then
           (False, True,
            pWal\<lparr>hdr := h1,
              szPage := (uint (hdr_szPage h1) AND 0xfe00) + push_bit 16 (uint (hdr_szPage h1) AND 0x0001)\<rparr>)
         else (False, False, pWal))"

section \<open>Pages and slots\<close>

definition walIndexPage :: "wal_os \<Rightarrow> Wal \<Rightarrow> nat \<Rightarrow> wal_rc \<times> Wal" where
  "walIndexPage os pWal iPage =
     (if length (apWiData pWal) \<le> iPage \<and> \<not> os_realloc os (iPage + 1) then (WAL_NOMEM, pWal)
      else
        (let pWal = (if length (apWiData pWal) \<le> iPage
                     then pWal\<lparr>apWiData := apWiData pWal @ replicate (iPage + 1 - length (apWiData pWal)) False\<rparr>
                     else pWal)
         in if apWiData pWal ! iPage then (WAL_OK, pWal)
            else if exclusiveMode pWal = WAL_HEAPMEMORY_MODE then
              (if os_malloc os iPage
               then (WAL_OK, pWal\<lparr>apWiData := (apWiData pWal)[iPage := True], wi := (wi pWal)(iPage := zero_page)\<rparr>)
               else (WAL_NOMEM, pWal))
            else
              (let (rc, mapped) = os_shm_map os iPage (writeLock pWal);
                   pWal = pWal\<lparr>apWiData := (apWiData pWal)[iPage := mapped]\<rparr>
               in if rc = WAL_READONLY then (WAL_OK, pWal\<lparr>shm_rdonly := True\<rparr>) else (rc, pWal))))"

definition walHash :: "u32 \<Rightarrow> nat" where
  "walHash iPage = unat ((iPage * HASHTABLE_HASH_1) AND 8191)"

definition walNextHash :: "nat \<Rightarrow> nat" where
  "walNextHash iPriorHash = (iPriorHash + 1) AND 8191"

text \<open>
  \<open>walHashGet\<close> gives the page and \<open>iZero\<close>; \<open>aHash[i]\<close> and \<open>aPgno[i]\<close> are then \<open>pg_hash\<close> of the page and
  the word with the index \<open>aPgno_at\<close>.
\<close>

definition walHashGet :: "wal_os \<Rightarrow> Wal \<Rightarrow> nat \<Rightarrow> wal_rc \<times> nat \<times> Wal" where
  "walHashGet os pWal iHash =
     (let (rc, pWal) = walIndexPage os pWal iHash
      in (rc, if iHash = 0 then 0 else HASHTABLE_NPAGE_ONE + (iHash - 1) * HASHTABLE_NPAGE, pWal))"

definition aPgno_at :: "nat \<Rightarrow> nat \<Rightarrow> nat" where
  "aPgno_at iHash i = (if iHash = 0 then WALINDEX_HDR_WORDS else 0) + i - 1"

definition aPgno :: "Wal \<Rightarrow> nat \<Rightarrow> nat \<Rightarrow> u32" where
  "aPgno pWal iHash i = pg_words (wi pWal iHash) (aPgno_at iHash i)"

definition aHash :: "Wal \<Rightarrow> nat \<Rightarrow> nat \<Rightarrow> u16" where
  "aHash pWal iHash = pg_hash (wi pWal iHash)"

definition walFramePage :: "nat \<Rightarrow> nat" where
  "walFramePage iFrame = (iFrame + HASHTABLE_NPAGE - HASHTABLE_NPAGE_ONE - 1) div HASHTABLE_NPAGE"

definition walFramePgno :: "Wal \<Rightarrow> nat \<Rightarrow> u32" where
  "walFramePgno pWal iFrame =
     (let iHash = walFramePage iFrame
      in if iHash = 0 then pg_words (wi pWal 0) (WALINDEX_HDR_WORDS + iFrame - 1)
         else pg_words (wi pWal iHash) ((iFrame - 1 - HASHTABLE_NPAGE_ONE) mod HASHTABLE_NPAGE))"

text \<open>\<open>memset\<close> of the words from \<open>aPgno[i]\<close> to the slots, and the store of one entry.\<close>

definition clear_pgno :: "nat \<Rightarrow> nat \<Rightarrow> ht_page \<Rightarrow> ht_page" where
  "clear_pgno iHash i p =
     p\<lparr>pg_words := \<lambda>k. if aPgno_at iHash i \<le> k \<and> k < HASHTABLE_NPAGE then 0 else pg_words p k\<rparr>"

section \<open>Operations\<close>

definition walCleanupHash :: "wal_os \<Rightarrow> Wal \<Rightarrow> Wal" where
  "walCleanupHash os pWal =
     (if mxFrame (hdr pWal) = 0 then pWal
      else
        (let iHash = walFramePage (mxFrame (hdr pWal));
             (rc, iZero, pWal) = walHashGet os pWal iHash;
             iLimit = mxFrame (hdr pWal) - iZero;
             p = wi pWal iHash;
             p = p\<lparr>pg_hash := \<lambda>i. if i < HASHTABLE_NSLOT \<and> unat (pg_hash p i) > iLimit then 0 else pg_hash p i\<rparr>;
             p = clear_pgno iHash (iLimit + 1) p
         in pWal\<lparr>wi := (wi pWal)(iHash := p)\<rparr>))"

text \<open>\<open>for(iKey=walHash(iPage); aHash[iKey]; iKey=walNextHash(iKey)) if( (nCollide--)==0 ) ...\<close>\<close>

fun free_slot :: "(nat \<Rightarrow> u16) \<Rightarrow> nat \<Rightarrow> nat \<Rightarrow> nat option" where
  "free_slot h iKey 0 = (if h iKey = 0 then Some iKey else None)"
| "free_slot h iKey (Suc nCollide) = (if h iKey = 0 then Some iKey else free_slot h (walNextHash iKey) nCollide)"

definition walIndexAppend :: "wal_os \<Rightarrow> Wal \<Rightarrow> nat \<Rightarrow> u32 \<Rightarrow> wal_rc \<times> Wal" where
  "walIndexAppend os pWal iFrame iPage =
     (let iHash = walFramePage iFrame;
          (rc, iZero, pWal) = walHashGet os pWal iHash
      in if rc \<noteq> WAL_OK then (rc, pWal)
         else
           (let idx = iFrame - iZero;
                pWal = (if idx = 1
                        then pWal\<lparr>wi := (wi pWal)(iHash := (clear_pgno iHash 1 (wi pWal iHash))\<lparr>pg_hash := \<lambda>_. 0\<rparr>)\<rparr>
                        else pWal);
                pWal = (if aPgno pWal iHash idx \<noteq> 0 then walCleanupHash os pWal else pWal)
            in case free_slot (aHash pWal iHash) (walHash iPage) idx of
                 None \<Rightarrow> (WAL_CORRUPT, pWal)
               | Some iKey \<Rightarrow>
                   (WAL_OK,
                    pWal\<lparr>wi := (wi pWal)(iHash :=
                      (wi pWal iHash)
                        \<lparr>pg_words := (pg_words (wi pWal iHash))(aPgno_at iHash idx := iPage),
                         pg_hash := (pg_hash (wi pWal iHash))(iKey := of_nat idx)\<rparr>)\<rparr>)))"

text \<open>One hash table of the search: the last frame seen, \<open>None\<close> after too many slots in use.\<close>

fun find_slots :: "(nat \<Rightarrow> u16) \<Rightarrow> (nat \<Rightarrow> bool) \<Rightarrow> nat \<Rightarrow> nat \<Rightarrow> nat \<Rightarrow> nat \<Rightarrow> nat option" where
  "find_slots h ok iZero iRead iKey nCollide =
     (if h iKey = 0 then Some iRead
      else
        (let iRead = (if ok (unat (h iKey)) then unat (h iKey) + iZero else iRead)
         in case nCollide of
              0 \<Rightarrow> None
            | Suc nCollide \<Rightarrow> find_slots h ok iZero iRead (walNextHash iKey) nCollide))"

declare find_slots.simps [simp del]

function find_hashes :: "wal_os \<Rightarrow> u32 \<Rightarrow> nat \<Rightarrow> int \<Rightarrow> Wal \<Rightarrow> int \<Rightarrow> nat \<Rightarrow> wal_rc \<times> nat \<times> Wal" where
  "find_hashes os pgno iLast iMinHash pWal iHash iRead =
     (if iHash \<ge> iMinHash \<and> iHash \<ge> 0 \<and> iRead = 0 then
        (let (rc, iZero, pWal) = walHashGet os pWal (nat iHash)
         in if rc \<noteq> WAL_OK then (rc, iRead, pWal)
            else
              (case find_slots (aHash pWal (nat iHash))
                      (\<lambda>i. i + iZero \<le> iLast \<and> i + iZero \<ge> minFrame pWal \<and> aPgno pWal (nat iHash) i = pgno)
                      iZero iRead (walHash pgno) HASHTABLE_NSLOT of
                 None \<Rightarrow> (WAL_CORRUPT, iRead, pWal)
               | Some iRead \<Rightarrow> find_hashes os pgno iLast iMinHash pWal (iHash - 1) iRead))
      else (WAL_OK, iRead, pWal))"
  by pat_completeness auto
termination
  by (relation "measure (\<lambda>(os, pgno, l, m, w, iHash, r). nat (iHash + 1))") auto

declare find_hashes.simps [simp del]

definition sqlite3WalFindFrame :: "wal_os \<Rightarrow> Wal \<Rightarrow> u32 \<Rightarrow> wal_rc \<times> nat \<times> Wal" where
  "sqlite3WalFindFrame os pWal pgno =
     (let iLast = mxFrame (hdr pWal)
      in if iLast = 0 \<or> readLock pWal = 0 then (WAL_OK, 0, pWal)
         else find_hashes os pgno iLast (int (walFramePage (minFrame pWal))) pWal (int (walFramePage iLast)) 0)"

text \<open>
  Undoing: \<open>xUndo\<close> is called for the page of every frame given up; the model returns the list of
  these pages. It is assumed to return \<open>SQLITE_OK\<close>, as the comment in the code says it does.
\<close>

definition sqlite3WalUndo :: "wal_os \<Rightarrow> Wal \<Rightarrow> u32 list \<times> Wal" where
  "sqlite3WalUndo os pWal =
     (if writeLock pWal then
        (let iMax = mxFrame (hdr pWal);
             pWal = pWal\<lparr>hdr := live_hdr pWal\<rparr>;
             undone = map (walFramePgno pWal) [mxFrame (hdr pWal) + 1..<iMax + 1]
         in (undone, if iMax \<noteq> mxFrame (hdr pWal) then walCleanupHash os pWal else pWal))
      else ([], pWal))"

record wal_savepoint =
  sp_mxFrame :: nat
  sp_cksum :: "u32 \<times> u32"
  sp_nCkpt :: u32

definition sqlite3WalSavepoint :: "Wal \<Rightarrow> wal_savepoint" where
  "sqlite3WalSavepoint pWal =
     \<lparr>sp_mxFrame = mxFrame (hdr pWal), sp_cksum = aFrameCksum (hdr pWal), sp_nCkpt = nCkpt pWal\<rparr>"

definition sqlite3WalSavepointUndo :: "wal_os \<Rightarrow> Wal \<Rightarrow> wal_savepoint \<Rightarrow> wal_savepoint \<times> Wal" where
  "sqlite3WalSavepointUndo os pWal aWalData =
     (let aWalData = (if sp_nCkpt aWalData \<noteq> nCkpt pWal then aWalData\<lparr>sp_mxFrame := 0, sp_nCkpt := nCkpt pWal\<rparr> else aWalData)
      in (aWalData,
          if sp_mxFrame aWalData < mxFrame (hdr pWal)
          then walCleanupHash os (pWal\<lparr>hdr := (hdr pWal)\<lparr>mxFrame := sp_mxFrame aWalData, aFrameCksum := sp_cksum aWalData\<rparr>\<rparr>)
          else pWal))"


section \<open>Tables with linear probing\<close>

text \<open>
  A table of \<open>N\<close> slots that holds the numbers \<open>1..length ks\<close> of the keys \<open>ks\<close>, 0 in unused slots: every
  number is found by probing from the hash of its key past slots that hold smaller numbers.
\<close>

locale probing =
  fixes N :: nat and hf :: "'k \<Rightarrow> nat"
  assumes hf_less: "hf k < N"
begin

definition pos :: "'k \<Rightarrow> nat \<Rightarrow> nat" where
  "pos k d = (hf k + d) mod N"

definition table_ok :: "(nat \<Rightarrow> nat) \<Rightarrow> 'k list \<Rightarrow> bool" where
  "table_ok t ks \<longleftrightarrow>
     (\<forall>s < N. t s \<noteq> 0 \<longrightarrow> t s \<le> length ks \<and>
       (\<exists>d < N. s = pos (ks ! (t s - 1)) d \<and> (\<forall>e < d. 0 < t (pos (ks ! (t s - 1)) e) \<and> t (pos (ks ! (t s - 1)) e) < t s))) \<and>
     (\<forall>v. 0 < v \<and> v \<le> length ks \<longrightarrow> (\<exists>s < N. t s = v)) \<and>
     (\<forall>s < N. \<forall>s' < N. t s = t s' \<and> t s \<noteq> 0 \<longrightarrow> s = s')"

lemma N_pos: "0 < N"
  using hf_less by (metis gr0I not_less0)

lemma pos_less [simp]: "pos k d < N"
  using N_pos by (simp add: pos_def)

lemma pos_0 [simp]: "pos k 0 = hf k"
  using hf_less by (simp add: pos_def)

lemma pos_Suc: "pos k (Suc d) = (pos k d + 1) mod N"
  by (simp add: pos_def mod_Suc_eq)

lemma pos_inj:
  assumes "d < N" "e < N" "pos k d = pos k e"
  shows "d = e"
proof -
  have *: "d = e" if "d \<le> e" "e < N" "(hf k + d) mod N = (hf k + e) mod N" for d e
  proof -
    have "N dvd (hf k + e) - (hf k + d)"
      using that(1,3) by (simp only: mod_eq_dvd_iff_nat [symmetric, of "hf k + d" "hf k + e"] add_le_cancel_left)
    then have "N dvd e - d" by simp
    moreover have "e - d < N" using that(2) by simp
    ultimately have "e - d = 0" using dvd_imp_le by (metis neq0_conv not_le)
    then show ?thesis using that(1) by simp
  qed
  show ?thesis using assms linorder_linear [of d e] * [of d e] * [of e d] unfolding pos_def by auto
qed

lemma table_empty: "(\<And>s. s < N \<Longrightarrow> t s = 0) \<Longrightarrow> table_ok t []"
  by (auto simp: table_ok_def)

lemma same_slot: "table_ok t ks \<Longrightarrow> t (pos k d) = t (pos k' e) \<Longrightarrow> t (pos k d) \<noteq> 0 \<Longrightarrow> pos k d = pos k' e"
  unfolding table_ok_def by simp

text \<open>A table that is not full has an unused slot within \<open>length ks\<close> steps of any hash.\<close>

lemma free_exists:
  assumes "table_ok t ks" "length ks < N"
  shows "\<exists>d \<le> length ks. t (pos k d) = 0"
proof (rule ccontr)
  assume "\<not> ?thesis"
  then have nz: "t (pos k d) \<noteq> 0" if "d \<le> length ks" for d using that by auto
  have "inj_on (\<lambda>d. t (pos k d)) {..length ks}"
  proof (rule inj_onI)
    fix d e
    assume "d \<in> {..length ks}" "e \<in> {..length ks}" "t (pos k d) = t (pos k e)"
    moreover from this have "pos k d = pos k e" using assms(1) nz unfolding table_ok_def by (metis atMost_iff pos_less)
    ultimately show "d = e" using pos_inj assms(2) by (metis atMost_iff le_less_trans)
  qed
  moreover have "(\<lambda>d. t (pos k d)) ` {..length ks} \<subseteq> {1..length ks}"
    using assms(1) nz unfolding table_ok_def by (force simp: Suc_le_eq)
  ultimately have "card {..length ks} \<le> card {1..length ks}"
    by (metis card_inj_on_le finite_atLeastAtMost)
  then show False by simp
qed

definition first_free :: "(nat \<Rightarrow> nat) \<Rightarrow> 'k \<Rightarrow> nat" where
  "first_free t k = (LEAST d. t (pos k d) = 0)"

lemma first_free:
  assumes "table_ok t ks" "length ks < N"
  shows "first_free t k \<le> length ks" "t (pos k (first_free t k)) = 0" "d < first_free t k \<Longrightarrow> t (pos k d) \<noteq> 0"
proof -
  from free_exists [OF assms] obtain d where d: "d \<le> length ks" "t (pos k d) = 0" by blast
  show "first_free t k \<le> length ks" unfolding first_free_def by (rule Least_le [THEN le_trans]) (use d in auto)
  show "t (pos k (first_free t k)) = 0" unfolding first_free_def by (rule LeastI) (rule d(2))
  show "d < first_free t k \<Longrightarrow> t (pos k d) \<noteq> 0" for d
    unfolding first_free_def by (blast dest: not_less_Least)
qed

lemma table_insert:
  assumes "table_ok t ks" "length ks < N"
  shows "table_ok (t(pos k (first_free t k) := Suc (length ks))) (ks @ [k])"
    (is "table_ok ?t _")
proof -
  let ?s = "pos k (first_free t k)"
  note ff = first_free [OF assms, where k = k]
  have chain: "\<exists>d < N. s = pos ((ks @ [k]) ! (?t s - 1)) d \<and>
      (\<forall>e < d. 0 < ?t (pos ((ks @ [k]) ! (?t s - 1)) e) \<and> ?t (pos ((ks @ [k]) ! (?t s - 1)) e) < ?t s)"
    if s: "s < N" "?t s \<noteq> 0" for s
  proof (cases "s = ?s")
    case True
    have "0 < ?t (pos k e) \<and> ?t (pos k e) < ?t s" if "e < first_free t k" for e
    proof -
      have "pos k e \<noteq> ?s" using ff(2,3) that by metis
      moreover have "t (pos k e) \<noteq> 0" "t (pos k e) \<le> length ks"
        using ff(3) [OF that] assms(1) unfolding table_ok_def by auto
      ultimately show ?thesis using True by simp
    qed
    moreover have "first_free t k < N" using ff(1) assms(2) by linarith
    moreover have "(ks @ [k]) ! (?t s - 1) = k" using True by simp
    ultimately show ?thesis using True by metis
  next
    case False
    then have ts: "?t s = t s" "t s \<noteq> 0" using s by simp_all
    then have l: "t s \<le> length ks" using assms(1) s unfolding table_ok_def by blast
    obtain d where d: "d < N" "s = pos (ks ! (t s - 1)) d"
      "\<forall>e < d. 0 < t (pos (ks ! (t s - 1)) e) \<and> t (pos (ks ! (t s - 1)) e) < t s"
      using assms(1) s ts unfolding table_ok_def by blast
    have "t s - 1 < length ks" using l ts(2) by linarith
    then have n: "(ks @ [k]) ! (t s - 1) = ks ! (t s - 1)" by (simp add: nth_append)
    have "\<forall>e < d. 0 < ?t (pos (ks ! (t s - 1)) e) \<and> ?t (pos (ks ! (t s - 1)) e) < t s"
      using d(3) ff(2) by auto
    then show ?thesis unfolding ts n using d(1,2) by blast
  qed
  have "?t s \<le> length (ks @ [k])" if "s < N" for s
    using assms(1) that unfolding table_ok_def by (metis (no_types, lifting) fun_upd_apply le_SucI le_refl length_append_singleton zero_le)
  moreover have "\<exists>s < N. ?t s = v" if v: "0 < v" "v \<le> length (ks @ [k])" for v
  proof (cases "v = Suc (length ks)")
    case False
    then obtain s where "s < N" "t s = v" using assms(1) v unfolding table_ok_def by auto
    moreover from this have "s \<noteq> ?s" using ff(2) v(1) by auto
    ultimately show ?thesis by auto
  qed (auto intro: exI [of _ ?s])
  moreover have "s = s'" if "s < N" "s' < N" "?t s = ?t s'" "?t s \<noteq> 0" for s s'
  proof -
    have "t x \<le> length ks" if "x < N" for x using assms(1) that unfolding table_ok_def by (metis zero_le)
    then have "t x \<noteq> Suc (length ks)" if "x < N" for x using that by fastforce
    then show ?thesis using that assms(1) unfolding table_ok_def by (metis fun_upd_apply)
  qed
  ultimately show ?thesis using chain unfolding table_ok_def by blast
qed

lemma table_truncate:
  assumes "table_ok t ks" "L \<le> length ks"
  shows "table_ok (\<lambda>s. if s < N \<and> t s > L then 0 else t s) (take L ks)"
    (is "table_ok ?t _")
proof -
  have chain: "t s \<le> length (take L ks) \<and> (\<exists>d < N. s = pos (take L ks ! (t s - 1)) d \<and>
      (\<forall>e < d. 0 < ?t (pos (take L ks ! (t s - 1)) e) \<and> ?t (pos (take L ks ! (t s - 1)) e) < t s))"
    if s: "s < N" "t s \<noteq> 0" "t s \<le> L" for s
  proof -
    have l: "t s \<le> length (take L ks)" using assms s by simp
    have n: "take L ks ! (t s - 1) = ks ! (t s - 1)" using s by simp
    obtain d where d: "d < N" "s = pos (ks ! (t s - 1)) d"
      "\<forall>e < d. 0 < t (pos (ks ! (t s - 1)) e) \<and> t (pos (ks ! (t s - 1)) e) < t s"
      using assms(1) s unfolding table_ok_def by blast
    have "\<forall>e < d. 0 < ?t (pos (ks ! (t s - 1)) e) \<and> ?t (pos (ks ! (t s - 1)) e) < t s"
      using d(3) s(3) by auto
    then show ?thesis unfolding n using d(1,2) l by blast
  qed
  have "\<exists>s < N. ?t s = v" if v: "0 < v" "v \<le> length (take L ks)" for v
  proof -
    obtain s where "s < N" "t s = v" using assms v unfolding table_ok_def by auto
    then show ?thesis using v(2) by (intro exI [of _ s]) auto
  qed
  moreover have "s = s'" if "s < N" "s' < N" "?t s = ?t s'" "?t s \<noteq> 0" for s s'
    using that assms(1) unfolding table_ok_def by (auto split: if_splits)
  ultimately show ?thesis using chain unfolding table_ok_def by auto
qed

text \<open>
  All numbers of a key lie before the first unused slot, in increasing order.
\<close>

lemma numbers_on_path:
  assumes "table_ok t ks" "length ks < N" "0 < v" "v \<le> length ks" "ks ! (v - 1) = k"
  shows "\<exists>d < first_free t k. t (pos k d) = v \<and> (\<forall>e < d. t (pos k e) < v)"
proof -
  obtain s where s: "s < N" "t s = v" using assms unfolding table_ok_def by blast
  then obtain d where d: "d < N" "s = pos k d" "\<forall>e < d. 0 < t (pos k e) \<and> t (pos k e) < v"
    using assms(1,3,5) unfolding table_ok_def by (metis less_not_refl)
  have "t (pos k (first_free t k)) = 0" by (rule first_free(2) [OF assms(1,2)])
  then have "d < first_free t k"
    using d s(2) assms(3) by (metis less_not_refl linorder_neqE_nat)
  then show ?thesis using d s by blast
qed

end


section \<open>The hash table of a page\<close>

lemma walHash_less: "walHash k < HASHTABLE_NSLOT"
proof -
  have "unat ((k * HASHTABLE_HASH_1) AND 8191) \<le> unat (8191 :: u32)"
    by (metis and.commute word_and_le1 word_le_nat_alt)
  then show ?thesis by (simp add: walHash_def wal_consts)
qed

interpretation wal_table: probing HASHTABLE_NSLOT walHash
  by unfold_locales (rule walHash_less)

lemma walNextHash_mod: "walNextHash k = (k + 1) mod HASHTABLE_NSLOT"
proof -
  have "(k + 1) AND 8191 = (k + 1) mod 8192"
    using take_bit_eq_mask [of 13 "k + 1"] take_bit_eq_mod [of 13 "k + 1"] by (simp add: mask_eq_exp_minus_1)
  then show ?thesis by (simp add: walNextHash_def wal_consts)
qed

lemma walNextHash_pos: "walNextHash (wal_table.pos k d) = wal_table.pos k (Suc d)"
  by (simp add: walNextHash_mod wal_table.pos_Suc)

abbreviation nat_slots :: "(nat \<Rightarrow> u16) \<Rightarrow> nat \<Rightarrow> nat" where
  "nat_slots h \<equiv> \<lambda>s. unat (h s)"

lemma free_slot_first:
  assumes "wal_table.table_ok (nat_slots h) ks" "length ks < HASHTABLE_NSLOT"
  shows "d \<le> wal_table.first_free (nat_slots h) k \<Longrightarrow> wal_table.first_free (nat_slots h) k \<le> d + n \<Longrightarrow>
    free_slot h (wal_table.pos k d) n = Some (wal_table.pos k (wal_table.first_free (nat_slots h) k))"
proof (induction n arbitrary: d)
  case 0
  then have "d = wal_table.first_free (nat_slots h) k" by simp
  then show ?case using wal_table.first_free(2) [OF assms, of k] by (simp add: unat_eq_0)
next
  case (Suc n)
  show ?case
  proof (cases "d = wal_table.first_free (nat_slots h) k")
    case True
    then show ?thesis using wal_table.first_free(2) [OF assms, of k] by (simp add: unat_eq_0)
  next
    case False
    then have "h (wal_table.pos k d) \<noteq> 0"
      using wal_table.first_free(3) [OF assms, of d k] Suc.prems by (simp add: unat_eq_0)
    then show ?thesis using Suc False by (simp add: walNextHash_pos)
  qed
qed

text \<open>The search returns the last number on the path that satisfies the test.\<close>

lemma find_slots_path:
  assumes "wal_table.table_ok (nat_slots h) ks" "length ks < HASHTABLE_NSLOT"
  shows "d \<le> wal_table.first_free (nat_slots h) k \<Longrightarrow> wal_table.first_free (nat_slots h) k \<le> d + n \<Longrightarrow>
    \<exists>r. find_slots h ok iZero iRead (wal_table.pos k d) n = Some r \<and>
      ((\<exists>e. d \<le> e \<and> e < wal_table.first_free (nat_slots h) k \<and> ok (unat (h (wal_table.pos k e))) \<and>
          r = unat (h (wal_table.pos k e)) + iZero \<and>
          (\<forall>e'. e < e' \<and> e' < wal_table.first_free (nat_slots h) k \<longrightarrow> \<not> ok (unat (h (wal_table.pos k e'))))) \<or>
       ((\<forall>e. d \<le> e \<and> e < wal_table.first_free (nat_slots h) k \<longrightarrow> \<not> ok (unat (h (wal_table.pos k e)))) \<and> r = iRead))"
proof (induction n arbitrary: d iRead)
  case 0
  then have "d = wal_table.first_free (nat_slots h) k" by simp
  then show ?case using wal_table.first_free(2) [OF assms, of k] by (auto simp: unat_eq_0 find_slots.simps)
next
  case (Suc n)
  show ?case
  proof (cases "d = wal_table.first_free (nat_slots h) k")
    case True
    then show ?thesis using wal_table.first_free(2) [OF assms, of k] by (auto simp: unat_eq_0 find_slots.simps)
  next
    case False
    then have nz: "h (wal_table.pos k d) \<noteq> 0"
      using wal_table.first_free(3) [OF assms, of d k] Suc.prems by (simp add: unat_eq_0)
    define r where "r = (if ok (unat (h (wal_table.pos k d))) then unat (h (wal_table.pos k d)) + iZero else iRead)"
    have f: "find_slots h ok iZero iRead (wal_table.pos k d) (Suc n) = find_slots h ok iZero r (wal_table.pos k (Suc d)) n"
      using nz by (subst find_slots.simps) (simp add: r_def walNextHash_pos)
    have l: "d < wal_table.first_free (nat_slots h) k" using False Suc.prems by simp
    obtain r' where r': "find_slots h ok iZero r (wal_table.pos k (Suc d)) n = Some r'"
      "(\<exists>e. Suc d \<le> e \<and> e < wal_table.first_free (nat_slots h) k \<and> ok (unat (h (wal_table.pos k e))) \<and>
          r' = unat (h (wal_table.pos k e)) + iZero \<and>
          (\<forall>e'. e < e' \<and> e' < wal_table.first_free (nat_slots h) k \<longrightarrow> \<not> ok (unat (h (wal_table.pos k e'))))) \<or>
       (\<forall>e. Suc d \<le> e \<and> e < wal_table.first_free (nat_slots h) k \<longrightarrow> \<not> ok (unat (h (wal_table.pos k e)))) \<and> r' = r"
      using Suc.IH [of "Suc d" r] Suc.prems False by auto
    from r'(2) show ?thesis
    proof (elim disjE exE conjE)
      fix e
      assume "Suc d \<le> e" "e < wal_table.first_free (nat_slots h) k" "ok (unat (h (wal_table.pos k e)))"
        "r' = unat (h (wal_table.pos k e)) + iZero"
        "\<forall>e'. e < e' \<and> e' < wal_table.first_free (nat_slots h) k \<longrightarrow> \<not> ok (unat (h (wal_table.pos k e')))"
      then show ?thesis unfolding f r'(1) by (intro exI [of _ r'] conjI refl disjI1 exI [of _ e]) simp_all
    next
      assume none: "\<forall>e. Suc d \<le> e \<and> e < wal_table.first_free (nat_slots h) k \<longrightarrow> \<not> ok (unat (h (wal_table.pos k e)))"
        and r: "r' = r"
      show ?thesis
      proof (cases "ok (unat (h (wal_table.pos k d)))")
        case True
        then show ?thesis unfolding f r'(1) using none r l
          by (intro exI [of _ r'] conjI refl disjI1 exI [of _ d]) (simp_all add: r_def)
      next
        case False
        then have "\<forall>e. d \<le> e \<and> e < wal_table.first_free (nat_slots h) k \<longrightarrow> \<not> ok (unat (h (wal_table.pos k e)))"
          using none by (metis le_eq_less_or_eq Suc_le_eq)
        then show ?thesis unfolding f r'(1) using False r by (intro exI [of _ r'] conjI refl disjI2) (simp_all add: r_def)
      qed
    qed
  qed
qed

text \<open>In a page with the keys \<open>ks\<close>, this is the last frame of the page that the reader may see.\<close>

primrec last_frame :: "u32 list \<Rightarrow> u32 \<Rightarrow> nat \<Rightarrow> nat \<Rightarrow> nat" where
  "last_frame ks k lo 0 = 0"
| "last_frame ks k lo (Suc n) = (if lo \<le> Suc n \<and> ks ! n = k then Suc n else last_frame ks k lo n)"

lemma last_frame_cases:
  "last_frame ks k lo n = 0 \<and> (\<forall>v. 0 < v \<and> v \<le> n \<and> lo \<le> v \<longrightarrow> ks ! (v - 1) \<noteq> k) \<or>
   (0 < last_frame ks k lo n \<and> last_frame ks k lo n \<le> n \<and> lo \<le> last_frame ks k lo n \<and>
    ks ! (last_frame ks k lo n - 1) = k \<and>
    (\<forall>v. last_frame ks k lo n < v \<and> v \<le> n \<longrightarrow> ks ! (v - 1) \<noteq> k))"
  by (induction n) (auto simp: le_Suc_eq)

lemma last_frame_eq:
  "0 < v \<Longrightarrow> v \<le> n \<Longrightarrow> lo \<le> v \<Longrightarrow> ks ! (v - 1) = k \<Longrightarrow> (\<And>w. v < w \<Longrightarrow> w \<le> n \<Longrightarrow> ks ! (w - 1) \<noteq> k) \<Longrightarrow> last_frame ks k lo n = v"
proof (induction n)
  case (Suc n)
  show ?case
  proof (cases "v = Suc n")
    case False
    then have "ks ! n \<noteq> k" using Suc.prems(5) [of "Suc n"] Suc.prems(2) by simp
    then show ?thesis using Suc False by simp
  qed (use Suc.prems in simp)
qed simp

lemma last_frame_cong: "(\<And>i. i < n \<Longrightarrow> ks ! i = ks' ! i) \<Longrightarrow> last_frame ks k lo n = last_frame ks' k lo n"
  by (induction n) simp_all

lemma find_slots_last:
  assumes t: "wal_table.table_ok (nat_slots h) ks" "length ks \<le> HASHTABLE_NPAGE"
    and ok: "\<And>v. 0 < v \<Longrightarrow> v \<le> length ks \<Longrightarrow> ok v \<longleftrightarrow> v \<le> hi \<and> lo \<le> v \<and> ks ! (v - 1) = k"
    and hi: "hi \<le> length ks"
  shows "find_slots h ok iZero 0 (walHash k) HASHTABLE_NSLOT =
    Some (if last_frame ks k lo hi = 0 then 0 else last_frame ks k lo hi + iZero)"
proof -
  have l: "length ks < HASHTABLE_NSLOT" using t(2) by (simp add: wal_consts)
  let ?F = "wal_table.first_free (nat_slots h) k"
  let ?v = "\<lambda>e. unat (h (wal_table.pos k e))"
  have F: "?F \<le> 0 + HASHTABLE_NSLOT" using wal_table.first_free(1) [OF t(1) l, of k] l by linarith
  have v: "0 < ?v e" "?v e \<le> length ks" if "e < ?F" for e
    using wal_table.first_free(3) [OF t(1) l that] t(1) unfolding wal_table.table_ok_def by auto
  have path: "\<exists>d < ?F. ?v d = v \<and> (\<forall>e < d. ?v e < v)" if "0 < v" "v \<le> length ks" "ks ! (v - 1) = k" for v
    by (rule wal_table.numbers_on_path [OF t(1) l that])
  obtain r where r: "find_slots h ok iZero 0 (wal_table.pos k 0) HASHTABLE_NSLOT = Some r"
    "(\<exists>e. e < ?F \<and> ok (?v e) \<and> r = ?v e + iZero \<and> (\<forall>e'. e < e' \<and> e' < ?F \<longrightarrow> \<not> ok (?v e'))) \<or>
     (\<forall>e. e < ?F \<longrightarrow> \<not> ok (?v e)) \<and> r = 0"
    using find_slots_path [OF t(1) l _ F, of ok iZero 0] by auto
  have "r = (if last_frame ks k lo hi = 0 then 0 else last_frame ks k lo hi + iZero)"
    using r(2)
  proof (elim disjE exE conjE)
    fix e
    assume e: "e < ?F" "ok (?v e)" "r = ?v e + iZero" "\<forall>e'. e < e' \<and> e' < ?F \<longrightarrow> \<not> ok (?v e')"
    have k: "?v e \<le> hi" "lo \<le> ?v e" "ks ! (?v e - 1) = k" using ok [OF v [OF e(1)]] e(2) by simp_all
    have "\<not> (?v e < w \<and> w \<le> hi \<and> ks ! (w - 1) = k)" for w
    proof
      assume w: "?v e < w \<and> w \<le> hi \<and> ks ! (w - 1) = k"
      then obtain d where d: "d < ?F" "?v d = w" "\<forall>e < d. ?v e < w" using path [of w] hi by auto
      have "ok (?v d)" using ok [of "?v d"] d w k hi by simp
      then have "d \<le> e" using e(4) d(1) by (metis not_le)
      moreover have "e \<noteq> d" using d(2) w by auto
      ultimately have de: "d < e" by simp
      obtain d' where d': "d' < ?F" "?v d' = ?v e" "\<forall>e' < d'. ?v e' < ?v e"
        using path [of "?v e"] v [OF e(1)] k by auto
      have "wal_table.pos k d' = wal_table.pos k e"
        by (rule wal_table.same_slot [OF t(1)]) (use d'(2) v(1) [OF e(1)] in simp_all)
      moreover have "d' < HASHTABLE_NSLOT" "e < HASHTABLE_NSLOT"
        using d'(1) e(1) wal_table.first_free(1) [OF t(1) l, of k] l by linarith+
      ultimately have "d' = e" by (metis wal_table.pos_inj)
      then have "?v d < ?v e" using d'(3) de by blast
      then show False using w d(2) by simp
    qed
    then have "last_frame ks k lo hi = ?v e"
      using k v [OF e(1)] by (intro last_frame_eq) blast+
    then show ?thesis using e(3) v(1) [OF e(1)] by simp
  next
    assume none: "\<forall>e. e < ?F \<longrightarrow> \<not> ok (?v e)" and r0: "r = 0"
    have "\<not> (0 < w \<and> w \<le> hi \<and> lo \<le> w \<and> ks ! (w - 1) = k)" for w
      using path [of w] none ok [of w] hi by (metis le_trans)
    then have "last_frame ks k lo hi = 0"
      using last_frame_cases [of ks k lo hi] by blast
    then show ?thesis using r0 by simp
  qed
  then show ?thesis using r(1) by simp
qed


section \<open>The invariant of the wal-index\<close>

definition wal_iZero :: "nat \<Rightarrow> nat" where
  "wal_iZero b = (if b = 0 then 0 else HASHTABLE_NPAGE_ONE + (b - 1) * HASHTABLE_NPAGE)"

definition wal_size :: "nat \<Rightarrow> nat" where
  "wal_size b = (if b = 0 then HASHTABLE_NPAGE_ONE else HASHTABLE_NPAGE)"

lemma wal_iZero_Suc: "wal_iZero (Suc b) = wal_iZero b + wal_size b"
  by (cases b) (simp_all add: wal_iZero_def wal_size_def)

lemma wal_iZero_0 [simp]: "wal_iZero 0 = 0"
  by (simp add: wal_iZero_def)

lemma wal_iZero_mono: "a \<le> b \<Longrightarrow> wal_iZero a \<le> wal_iZero b"
  by (induction rule: dec_induct) (simp_all add: wal_iZero_Suc)

lemma wal_size_pos: "0 < wal_size b" "wal_size b \<le> HASHTABLE_NPAGE" "wal_size b < HASHTABLE_NSLOT"
  by (simp_all add: wal_size_def wal_consts)

lemma walFramePage_bounds:
  "0 < f \<Longrightarrow> wal_iZero (walFramePage f) < f \<and> f \<le> wal_iZero (walFramePage f) + wal_size (walFramePage f)"
  by (cases "f + 33 < 4096") (auto simp: walFramePage_def wal_iZero_def wal_size_def wal_consts div_eq_0_iff)

lemma walFramePage_eq: "wal_iZero b < f \<Longrightarrow> f \<le> wal_iZero b + wal_size b \<Longrightarrow> walFramePage f = b"
proof -
  assume f: "wal_iZero b < f" "f \<le> wal_iZero b + wal_size b"
  have w: "wal_iZero (walFramePage f) < f" "f \<le> wal_iZero (Suc (walFramePage f))"
    using walFramePage_bounds [of f] f(1) by (simp_all add: wal_iZero_Suc)
  have f': "f \<le> wal_iZero (Suc b)" using f(2) by (simp add: wal_iZero_Suc)
  show ?thesis
  proof (rule ccontr)
    assume "walFramePage f \<noteq> b"
    then consider "Suc (walFramePage f) \<le> b" | "Suc b \<le> walFramePage f" by linarith
    then show False using wal_iZero_mono w f f' by cases (metis le_less_trans less_le_trans less_irrefl)+
  qed
qed

text \<open>The page numbers of the frames that page \<open>b\<close> of the index covers, of all frames \<open>pg\<close>.\<close>

definition frames_in :: "nat \<Rightarrow> u32 list \<Rightarrow> u32 list" where
  "frames_in b pg = take (wal_size b) (drop (wal_iZero b) pg)"

definition page_ok :: "nat \<Rightarrow> ht_page \<Rightarrow> u32 list \<Rightarrow> bool" where
  "page_ok b p ks \<longleftrightarrow> length ks \<le> wal_size b \<and>
     (\<forall>i. 0 < i \<and> i \<le> wal_size b \<longrightarrow> pg_words p (aPgno_at b i) = (if i \<le> length ks then ks ! (i - 1) else 0)) \<and>
     wal_table.table_ok (nat_slots (pg_hash p)) ks"

definition wi_inv :: "Wal \<Rightarrow> u32 list \<Rightarrow> bool" where
  "wi_inv w pg \<longleftrightarrow> 0 \<notin> set pg \<and>
     (\<forall>b. wal_iZero b < length pg \<longrightarrow> page_ok b (wi w b) (frames_in b pg) \<and>
        (exclusiveMode w = WAL_HEAPMEMORY_MODE \<longrightarrow> b < length (apWiData w) \<and> apWiData w ! b))"

lemma wi_inv_Nil: "wi_inv w []"
  by (simp add: wi_inv_def)

text \<open>Mapping a page changes neither what it holds nor anything but the mapping.\<close>

definition same_wal :: "Wal \<Rightarrow> Wal \<Rightarrow> bool" where
  "same_wal w w' \<longleftrightarrow>
     hdr w' = hdr w \<and> live_hdr w' = live_hdr w \<and> live_hdr2 w' = live_hdr2 w \<and> exclusiveMode w' = exclusiveMode w \<and>
     readLock w' = readLock w \<and> writeLock w' = writeLock w \<and> ckptLock w' = ckptLock w \<and> minFrame w' = minFrame w \<and> iReCksum w' = iReCksum w \<and>
     szPage w' = szPage w \<and> nCkpt w' = nCkpt w \<and> truncateOnCommit w' = truncateOnCommit w \<and> ckpt w' = ckpt w \<and>
     syncHeader w' = syncHeader w \<and> padToSectorBoundary w' = padToSectorBoundary w \<and> mxWalSize w' = mxWalSize w \<and>
     iCallback w' = iCallback w"

lemma same_wal_refl [simp]: "same_wal w w"
  by (simp add: same_wal_def)

lemma same_wal_trans: "same_wal u v \<Longrightarrow> same_wal v w \<Longrightarrow> same_wal u w"
  by (simp add: same_wal_def)

definition mapped_in :: "Wal \<Rightarrow> nat \<Rightarrow> bool" where
  "mapped_in w b \<longleftrightarrow> b < length (apWiData w) \<and> apWiData w ! b"

lemma walIndexPage_inv:
  assumes "walIndexPage os w i = (rc, w')"
  shows "same_wal w w' \<and> (\<forall>b. mapped_in w b \<longrightarrow> mapped_in w' b) \<and>
    (exclusiveMode w = WAL_HEAPMEMORY_MODE \<and> rc = WAL_OK \<longrightarrow> mapped_in w' i) \<and>
    (\<forall>b. wi w' b = wi w b \<or> b = i \<and> exclusiveMode w = WAL_HEAPMEMORY_MODE \<and> \<not> mapped_in w i)"
proof -
  define w1 where "w1 = (if length (apWiData w) \<le> i
    then w\<lparr>apWiData := apWiData w @ replicate (i + 1 - length (apWiData w)) False\<rparr> else w)"
  have w1: "same_wal w w1" "i < length (apWiData w1)" "wi w1 = wi w" "exclusiveMode w1 = exclusiveMode w"
    "mapped_in w1 b \<longleftrightarrow> mapped_in w b" for b
    by (auto simp: w1_def same_wal_def mapped_in_def nth_append)
  show ?thesis
  proof (cases "length (apWiData w) \<le> i \<and> \<not> os_realloc os (i + 1)")
    case True
    then show ?thesis using assms by (simp add: walIndexPage_def)
  next
    case False
    have e: "(rc, w') = (if apWiData w1 ! i then (WAL_OK, w1)
            else if exclusiveMode w1 = WAL_HEAPMEMORY_MODE then
              (if os_malloc os i
               then (WAL_OK, w1\<lparr>apWiData := (apWiData w1)[i := True], wi := (wi w1)(i := zero_page)\<rparr>)
               else (WAL_NOMEM, w1))
            else
              (let (rc, mapped) = os_shm_map os i (writeLock w1);
                   pWal = w1\<lparr>apWiData := (apWiData w1)[i := mapped]\<rparr>
               in if rc = WAL_READONLY then (WAL_OK, pWal\<lparr>shm_rdonly := True\<rparr>) else (rc, pWal)))"
      using assms unfolding walIndexPage_def if_not_P [OF False] w1_def Let_def by (rule sym)
    have m: "mapped_in w i \<longleftrightarrow> apWiData w1 ! i" using w1(2) w1(5) [of i] by (simp add: mapped_in_def)
    have u: "mapped_in (w1\<lparr>apWiData := (apWiData w1)[i := v]\<rparr>) b \<longleftrightarrow> (if b = i then v else mapped_in w b)" for b v
      using w1(2) w1(5) [of b] by (simp add: mapped_in_def)
    obtain rc1 v where sm: "os_shm_map os i (writeLock w1) = (rc1, v)" by fastforce
    consider "mapped_in w i" "rc = WAL_OK" "w' = w1"
      | "\<not> mapped_in w i" "exclusiveMode w = WAL_HEAPMEMORY_MODE" "rc = WAL_OK"
        "w' = w1\<lparr>apWiData := (apWiData w1)[i := True], wi := (wi w1)(i := zero_page)\<rparr>"
      | "\<not> mapped_in w i" "exclusiveMode w = WAL_HEAPMEMORY_MODE" "rc \<noteq> WAL_OK" "w' = w1"
      | "\<not> mapped_in w i" "exclusiveMode w \<noteq> WAL_HEAPMEMORY_MODE" "w' = w1\<lparr>apWiData := (apWiData w1)[i := v]\<rparr>"
      | "\<not> mapped_in w i" "exclusiveMode w \<noteq> WAL_HEAPMEMORY_MODE"
        "w' = w1\<lparr>apWiData := (apWiData w1)[i := v], shm_rdonly := True\<rparr>"
    proof (cases "apWiData w1 ! i")
      case True
      then show thesis using e m by (intro that(1)) simp_all
    next
      case n: False
      show thesis
      proof (cases "exclusiveMode w = WAL_HEAPMEMORY_MODE")
        case True
        then show thesis using e m n w1(4) that(2,3) by (cases "os_malloc os i") simp_all
      next
        case False
        then have "(rc, w') = (if rc1 = WAL_READONLY then (WAL_OK, w1\<lparr>apWiData := (apWiData w1)[i := v], shm_rdonly := True\<rparr>)
            else (rc1, w1\<lparr>apWiData := (apWiData w1)[i := v]\<rparr>))"
          using e n w1(4) sm by (simp add: Let_def)
        then have "w' = w1\<lparr>apWiData := (apWiData w1)[i := v], shm_rdonly := True\<rparr> \<or> w' = w1\<lparr>apWiData := (apWiData w1)[i := v]\<rparr>"
          by (metis Pair_inject)
        moreover have "\<not> mapped_in w i" using m n by blast
        ultimately show thesis using False that(4,5) by blast
      qed
    qed
    then show ?thesis
    proof cases
      case 2
      then show ?thesis using w1(1,3,5) u [of True] by (auto simp: same_wal_def mapped_in_def)
    next
      case 4
      then show ?thesis using w1(1,3,5) u [of v] by (auto simp: same_wal_def mapped_in_def)
    next
      case 5
      then show ?thesis using w1(1,3,5) u [of v] by (auto simp: same_wal_def mapped_in_def)
    qed (use w1 in simp_all)
  qed
qed

lemma walHashGet_eq: "walHashGet os w b = (fst (walIndexPage os w b), wal_iZero b, snd (walIndexPage os w b))"
  by (simp add: walHashGet_def wal_iZero_def split: prod.split)

lemma wi_inv_mapped:
  assumes "wi_inv w pg" "walIndexPage os w i = (rc, w')"
  shows "wi_inv w' pg \<and> same_wal w w' \<and> (wal_iZero i < length pg \<longrightarrow> wi w' i = wi w i)"
proof -
  note m = walIndexPage_inv [OF assms(2)]
  have h: "mapped_in w b" if "wal_iZero b < length pg" "exclusiveMode w = WAL_HEAPMEMORY_MODE" for b
    using assms(1) that unfolding wi_inv_def mapped_in_def by blast
  have "wi w' b = wi w b" if "wal_iZero b < length pg" for b using m h [OF that] by blast
  then show ?thesis
    using assms(1) m h unfolding wi_inv_def mapped_in_def same_wal_def by auto
qed

lemma table_ok_cong:
  "(\<And>s. s < HASHTABLE_NSLOT \<Longrightarrow> t s = t' s) \<Longrightarrow> wal_table.table_ok t ks \<Longrightarrow> wal_table.table_ok t' ks"
proof -
  assume eq: "\<And>s. s < HASHTABLE_NSLOT \<Longrightarrow> t s = t' s" and t: "wal_table.table_ok t ks"
  have "t (wal_table.pos k d) = t' (wal_table.pos k d)" for k d using eq wal_table.pos_less by blast
  then show ?thesis using t eq unfolding wal_table.table_ok_def by simp metis
qed

lemma frames_in_take:
  "wal_iZero b + wal_size b \<le> m \<Longrightarrow> frames_in b (take m pg) = frames_in b pg"
  by (simp add: frames_in_def drop_take min_def)

lemma frames_in_take_le:
  "m \<le> wal_iZero b + wal_size b \<Longrightarrow> frames_in b (take m pg) = take (m - wal_iZero b) (frames_in b pg)"
  by (simp add: frames_in_def drop_take min_def)

lemma page_ok_truncate:
  assumes "page_ok b p ks" "L \<le> length ks"
  shows "page_ok b (clear_pgno b (L + 1) (p\<lparr>pg_hash := \<lambda>i. if i < HASHTABLE_NSLOT \<and> unat (pg_hash p i) > L then 0 else pg_hash p i\<rparr>)) (take L ks)"
proof -
  have "wal_table.table_ok (\<lambda>s. if s < HASHTABLE_NSLOT \<and> unat (pg_hash p s) > L then 0 else unat (pg_hash p s)) (take L ks)"
    using wal_table.table_truncate assms unfolding page_ok_def by blast
  moreover have "(\<lambda>s. if s < HASHTABLE_NSLOT \<and> unat (pg_hash p s) > L then 0 else unat (pg_hash p s)) =
      nat_slots (\<lambda>i. if i < HASHTABLE_NSLOT \<and> unat (pg_hash p i) > L then 0 else pg_hash p i)"
    by (rule ext) simp
  moreover have "aPgno_at b (L + 1) \<le> aPgno_at b i \<longleftrightarrow> L < i" "aPgno_at b i < HASHTABLE_NPAGE" if "0 < i" "i \<le> wal_size b" for i
    using that by (auto simp: aPgno_at_def wal_size_def wal_consts split: if_splits)
  ultimately show ?thesis
    using assms unfolding page_ok_def clear_pgno_def by (auto simp: not_less)
qed


lemma walCleanupHash_inv:
  assumes "wi_inv w pg" "mxFrame (hdr w) \<le> length pg"
  shows "wi_inv (walCleanupHash os w) (take (mxFrame (hdr w)) pg) \<and> same_wal w (walCleanupHash os w)"
proof (cases "mxFrame (hdr w) = 0")
  case True
  then show ?thesis by (simp add: walCleanupHash_def wi_inv_Nil)
next
  case False
  define m b where "m = mxFrame (hdr w)" and "b = walFramePage m"
  obtain rc w1 where w1: "walIndexPage os w b = (rc, w1)" by fastforce
  have m0: "0 < m" using False m_def by simp
  have bm: "wal_iZero b < m" "m \<le> wal_iZero b + wal_size b" using walFramePage_bounds [OF m0] b_def by simp_all
  have mp: "m \<le> length pg" using assms(2) m_def by simp
  note i1 = wi_inv_mapped [OF assms(1) w1]
  define L where "L = m - wal_iZero b"
  define p where "p = clear_pgno b (L + 1) ((wi w1 b)\<lparr>pg_hash := \<lambda>i. if i < HASHTABLE_NSLOT \<and> unat (pg_hash (wi w1 b) i) > L then 0 else pg_hash (wi w1 b) i\<rparr>)"
  have hm: "mxFrame (hdr w1) = m" using i1 by (simp add: same_wal_def m_def)
  have e: "walCleanupHash os w = w1\<lparr>wi := (wi w1)(b := p)\<rparr>"
    unfolding walCleanupHash_def Let_def walHashGet_eq m_def [symmetric] b_def [symmetric] w1
    using m0 hm by (simp add: p_def L_def)
  have pb: "page_ok b (wi w1 b) (frames_in b pg)"
    using i1 bm mp unfolding wi_inv_def by (meson less_le_trans)
  have L: "L \<le> length (frames_in b pg)" unfolding L_def frames_in_def length_take length_drop using bm mp by linarith
  have "page_ok b' (((wi w1)(b := p)) b') (frames_in b' (take m pg))" if b': "wal_iZero b' < m" for b'
  proof (cases "b' = b")
    case True
    then show ?thesis
      using page_ok_truncate [OF pb L] by (simp add: p_def L_def frames_in_take_le [OF bm(2)])
  next
    case False
    have "b' < b"
    proof (rule ccontr)
      assume "\<not> b' < b"
      then have "Suc b \<le> b'" using False by simp
      then have "wal_iZero (Suc b) \<le> wal_iZero b'" by (rule wal_iZero_mono)
      then show False using bm(2) b' by (simp add: wal_iZero_Suc)
    qed
    then have "wal_iZero b' + wal_size b' \<le> wal_iZero b" using wal_iZero_mono [of "Suc b'" b] by (simp add: wal_iZero_Suc)
    then have "frames_in b' (take m pg) = frames_in b' pg" using bm(1) by (intro frames_in_take) simp
    moreover have "page_ok b' (wi w1 b') (frames_in b' pg)"
      using i1 b' mp unfolding wi_inv_def by (meson less_le_trans)
    ultimately show ?thesis using False by simp
  qed
  moreover have "0 \<notin> set (take m pg)" using assms(1) unfolding wi_inv_def by (meson in_set_takeD)
  moreover have "b' < length (apWiData w1) \<and> apWiData w1 ! b'" if "wal_iZero b' < m" "exclusiveMode w1 = WAL_HEAPMEMORY_MODE" for b'
    using i1 that mp unfolding wi_inv_def by (meson less_le_trans)
  ultimately have "wi_inv (walCleanupHash os w) (take m pg)" unfolding wi_inv_def e by auto
  moreover have "same_wal w (walCleanupHash os w)" using i1 unfolding e same_wal_def by simp
  ultimately show ?thesis by (simp add: m_def)
qed

lemma page_ok_insert:
  assumes "page_ok b p ks" "length ks < wal_size b" "k \<noteq> 0"
  shows "free_slot (pg_hash p) (walHash k) (Suc (length ks)) = Some (wal_table.pos k (wal_table.first_free (nat_slots (pg_hash p)) k)) \<and>
    page_ok b (p\<lparr>pg_words := (pg_words p)(aPgno_at b (Suc (length ks)) := k),
      pg_hash := (pg_hash p)(wal_table.pos k (wal_table.first_free (nat_slots (pg_hash p)) k) := of_nat (Suc (length ks)))\<rparr>) (ks @ [k])"
proof -
  have t: "wal_table.table_ok (nat_slots (pg_hash p)) ks" using assms(1) by (simp add: page_ok_def)
  have l: "length ks < HASHTABLE_NSLOT" using assms(2) wal_size_pos(3) less_trans by blast
  have ff: "wal_table.first_free (nat_slots (pg_hash p)) k \<le> length ks" by (rule wal_table.first_free(1) [OF t l])
  have n: "unat (of_nat (Suc (length ks)) :: u16) = Suc (length ks)"
    using assms(2) wal_size_pos(2) [of b] by (simp add: unat_of_nat wal_consts del: of_nat_Suc)
  have "free_slot (pg_hash p) (wal_table.pos k 0) (Suc (length ks)) = Some (wal_table.pos k (wal_table.first_free (nat_slots (pg_hash p)) k))"
    by (rule free_slot_first [OF t l]) (use ff in simp_all)
  moreover have "nat_slots ((pg_hash p)(x := of_nat (Suc (length ks)))) = (nat_slots (pg_hash p))(x := Suc (length ks))" for x
    using n by (rule_tac ext) simp
  moreover have "aPgno_at b i = aPgno_at b (Suc (length ks)) \<longleftrightarrow> i = Suc (length ks)" if "0 < i" for i
    using that by (auto simp: aPgno_at_def)
  ultimately show ?thesis
    using assms(1,2) wal_table.table_insert [OF t l, of k]
    unfolding page_ok_def by (auto simp: nth_append)
qed


lemma lower_page: "wal_iZero b' < f \<Longrightarrow> f \<le> wal_iZero b + wal_size b \<Longrightarrow> b' \<noteq> b \<Longrightarrow> wal_iZero b' + wal_size b' \<le> wal_iZero b"
proof -
  assume a: "wal_iZero b' < f" "f \<le> wal_iZero b + wal_size b" "b' \<noteq> b"
  have "b' < b"
  proof (rule ccontr)
    assume "\<not> b' < b"
    then have "wal_iZero (Suc b) \<le> wal_iZero b'" using a(3) by (intro wal_iZero_mono) simp
    then show False using a by (simp add: wal_iZero_Suc)
  qed
  then show ?thesis using wal_iZero_mono [of "Suc b'" b] by (simp add: wal_iZero_Suc)
qed

lemma wi_inv_snoc:
  assumes "wi_inv w pg" "k \<noteq> 0" "b = walFramePage (Suc (length pg))" "page_ok b p (frames_in b pg @ [k])"
    "exclusiveMode w = WAL_HEAPMEMORY_MODE \<longrightarrow> mapped_in w b"
  shows "wi_inv (w\<lparr>wi := (wi w)(b := p)\<rparr>) (pg @ [k])"
proof -
  have b: "wal_iZero b < Suc (length pg)" "Suc (length pg) \<le> wal_iZero b + wal_size b"
    using walFramePage_bounds [of "Suc (length pg)"] assms(3) by simp_all
  have "page_ok b' (((wi w)(b := p)) b') (frames_in b' (pg @ [k])) \<and>
      (exclusiveMode w = WAL_HEAPMEMORY_MODE \<longrightarrow> b' < length (apWiData w) \<and> apWiData w ! b')"
    if b': "wal_iZero b' < Suc (length pg)" for b'
  proof (cases "b' = b")
    case True
    have "frames_in b (pg @ [k]) = frames_in b pg @ [k]" using b by (simp add: frames_in_def)
    then show ?thesis using True assms(4,5) by (simp add: mapped_in_def)
  next
    case False
    have l: "wal_iZero b' + wal_size b' \<le> length pg" using lower_page [OF b' b(2) False] b(1) by simp
    then have "frames_in b' (pg @ [k]) = frames_in b' pg" by (simp add: frames_in_def)
    moreover have "wal_iZero b' < length pg" using l wal_size_pos(1) [of b'] by linarith
    ultimately show ?thesis using assms(1) False unfolding wi_inv_def by simp
  qed
  then show ?thesis using assms(1,2) unfolding wi_inv_def by simp
qed

lemma wi_inv_fresh:
  assumes "wi_inv w pg" "m \<le> length pg" "m = wal_iZero b"
  shows "wi_inv (w\<lparr>wi := (wi w)(b := p)\<rparr>) (take m pg)"
proof -
  have "b' \<noteq> b \<and> frames_in b' (take m pg) = frames_in b' pg \<and> wal_iZero b' < length pg" if "wal_iZero b' < m" for b'
  proof -
    have n: "b' \<noteq> b" using that assms(3) by auto
    have "wal_iZero b' + wal_size b' \<le> wal_iZero b" by (rule lower_page [of b' m b]) (use that assms n in simp_all)
    then show ?thesis using n that assms by (simp add: frames_in_take)
  qed
  then show ?thesis using assms unfolding wi_inv_def by (auto dest: in_set_takeD)
qed

lemma page_ok_fresh: "page_ok b ((clear_pgno b 1 p)\<lparr>pg_hash := \<lambda>_. 0\<rparr>) []"
proof -
  have "aPgno_at b 1 \<le> aPgno_at b i" "aPgno_at b i < HASHTABLE_NPAGE" if "0 < i" "i \<le> wal_size b" for i
    using that by (auto simp: aPgno_at_def wal_size_def wal_consts split: if_splits)
  then show ?thesis by (simp add: page_ok_def clear_pgno_def wal_table.table_empty)
qed

lemma walIndexAppend_inv:
  assumes inv: "wi_inv w pg" and k: "k \<noteq> 0" and f0: "0 < f" "f \<le> Suc (length pg)"
    and f: "f = Suc (length pg) \<or> f = Suc (mxFrame (hdr w))"
    and a: "walIndexAppend os w f k = (rc, w')"
  shows "same_wal w w' \<and>
    (if rc = WAL_OK then wi_inv w' (take (f - 1) pg @ [k])
     else rc = fst (walIndexPage os w (walFramePage f)) \<and> wi_inv w' pg)"
proof -
  define b idx where "b = walFramePage f" and "idx = f - wal_iZero b"
  have b: "wal_iZero b < f" "f \<le> wal_iZero b + wal_size b" using walFramePage_bounds [OF f0(1)] b_def by simp_all
  obtain rc1 w1 where w1: "walIndexPage os w b = (rc1, w1)" by fastforce
  note i1 = wi_inv_mapped [OF inv w1]
  have idx: "0 < idx" "idx \<le> wal_size b" "f = wal_iZero b + idx" using b by (simp_all add: idx_def)
  show ?thesis
  proof (cases "rc1 = WAL_OK")
    case False
    then have "rc = rc1" "w' = w1" using a by (simp_all add: walIndexAppend_def walHashGet_eq b_def [symmetric] w1)
    then show ?thesis using False i1 w1 b_def by simp
  next
    case ok: True
    define w2 where "w2 = (if idx = 1 then w1\<lparr>wi := (wi w1)(b := (clear_pgno b 1 (wi w1 b))\<lparr>pg_hash := \<lambda>_. 0\<rparr>)\<rparr> else w1)"
    define w3 where "w3 = (if aPgno w2 b idx \<noteq> 0 then walCleanupHash os w2 else w2)"
    have a': "(rc, w') = (case free_slot (aHash w3 b) (walHash k) idx of
                 None \<Rightarrow> (WAL_CORRUPT, w3)
               | Some iKey \<Rightarrow>
                   (WAL_OK,
                    w3\<lparr>wi := (wi w3)(b :=
                      (wi w3 b)
                        \<lparr>pg_words := (pg_words (wi w3 b))(aPgno_at b idx := k),
                         pg_hash := (pg_hash (wi w3 b))(iKey := of_nat idx)\<rparr>)\<rparr>))"
      using a unfolding walIndexAppend_def walHashGet_eq b_def [symmetric] w1 fst_conv snd_conv ok
        w3_def w2_def idx_def Let_def split_conv simp_thms if_False by (rule sym)
    have s3: "wi_inv w3 (take (f - 1) pg) \<and> same_wal w w3 \<and> page_ok b (wi w3 b) (frames_in b (take (f - 1) pg)) \<and>
        (exclusiveMode w3 = WAL_HEAPMEMORY_MODE \<longrightarrow> mapped_in w3 b)"
    proof (cases "idx = 1")
      case True
      have m: "f - 1 = wal_iZero b" using idx True by simp
      have w2: "w2 = w1\<lparr>wi := (wi w1)(b := (clear_pgno b 1 (wi w1 b))\<lparr>pg_hash := \<lambda>_. 0\<rparr>)\<rparr>" using True by (simp add: w2_def)
      have p: "page_ok b (wi w2 b) []" using page_ok_fresh by (simp add: w2)
      then have "aPgno w2 b idx = 0" using idx by (simp add: page_ok_def aPgno_def)
      then have w3: "w3 = w2" by (simp add: w3_def)
      have "wi_inv w2 (take (f - 1) pg)" unfolding w2 by (rule wi_inv_fresh) (use i1 m f0 in simp_all)
      moreover have "same_wal w w2" using i1 by (simp add: w2 same_wal_def)
      moreover have "frames_in b (take (f - 1) pg) = []" using m by (simp add: frames_in_def)
      moreover have "exclusiveMode w2 = WAL_HEAPMEMORY_MODE \<longrightarrow> mapped_in w2 b"
        using walIndexPage_inv [OF w1] ok by (simp add: w2 same_wal_def mapped_in_def)
      ultimately show ?thesis using p w3 by simp
    next
      case False
      then have z: "wal_iZero b < f - 1" using idx by linarith
      have w2: "w2 = w1" using False by (simp add: w2_def)
      have fp: "f - 1 \<le> length pg" using f0 by simp
      have pb: "page_ok b (wi w1 b) (frames_in b pg)" using i1 z fp unfolding wi_inv_def by (meson less_le_trans)
      have len: "idx \<le> length (frames_in b pg) \<longleftrightarrow> f \<le> length pg"
        using idx by (auto simp: frames_in_def)
      have nz: "frames_in b pg ! (idx - 1) \<noteq> 0" if "f \<le> length pg"
      proof -
        have "frames_in b pg ! (idx - 1) \<in> set (frames_in b pg)" using len that idx by (intro nth_mem) linarith
        then have "frames_in b pg ! (idx - 1) \<in> set pg" unfolding frames_in_def by (meson in_set_dropD in_set_takeD)
        then show ?thesis using inv unfolding wi_inv_def by metis
      qed
      have pg: "aPgno w1 b idx \<noteq> 0 \<longleftrightarrow> f \<le> length pg"
        using pb idx len nz unfolding page_ok_def aPgno_def by auto
      have r: "wi_inv w3 (take (f - 1) pg) \<and> same_wal w w3"
      proof (cases "f \<le> length pg")
        case True
        then have m: "f - 1 = mxFrame (hdr w1)" using f i1 by (simp add: same_wal_def)
        have "w3 = walCleanupHash os w1" using True pg w2 by (simp add: w3_def)
        then show ?thesis using walCleanupHash_inv [of w1 pg os] i1 fp m same_wal_trans by metis
      next
        case False
        then have "w3 = w1" using pg w2 by (simp add: w3_def)
        then show ?thesis using i1 False f0 by simp
      qed
      moreover have "wal_iZero b < length (take (f - 1) pg)" using z fp by simp
      ultimately show ?thesis unfolding wi_inv_def mapped_in_def by blast
    qed
    have len: "length (frames_in b (take (f - 1) pg)) = idx - 1" using idx f0 by (simp add: frames_in_def)
    have lt: "length (frames_in b (take (f - 1) pg)) < wal_size b" using len idx by simp
    have S: "Suc (idx - 1) = idx" using idx by simp
    note ins = page_ok_insert [OF s3 [THEN conjunct2, THEN conjunct2, THEN conjunct1] lt k, unfolded len S]
    have f1: "Suc (length (take (f - 1) pg)) = f" using f0 by simp
    have "rc = WAL_OK" "wi_inv w' (take (f - 1) pg @ [k])" "same_wal w3 w'"
      using a' ins wi_inv_snoc [of w3 "take (f - 1) pg" k b, unfolded f1] s3 k b_def
      by (simp_all add: aHash_def same_wal_def)
    then show ?thesis using s3 same_wal_trans by auto
  qed
qed


section \<open>The search\<close>

lemma last_frame_below: "n < lo \<Longrightarrow> last_frame ks k lo n = 0"
  by (induction n) simp_all

lemma last_frame_split:
  assumes "\<And>i. i < n \<Longrightarrow> pg ! (z + i) = ks ! i"
  shows "last_frame pg k lo (z + n) =
    (if last_frame ks k (lo - z) n = 0 then last_frame pg k lo z else last_frame ks k (lo - z) n + z)"
  using assms by (induction n) auto

definition os_ok :: "wal_os \<Rightarrow> bool" where
  "os_ok os \<longleftrightarrow> (\<forall>n. os_realloc os n) \<and> (\<forall>n. os_malloc os n) \<and> (\<forall>n b. os_shm_map os n b = (WAL_OK, True))"

lemma walIndexPage_ok: "os_ok os \<Longrightarrow> fst (walIndexPage os w i) = WAL_OK"
  by (simp add: os_ok_def walIndexPage_def Let_def)

lemma page_below: "0 < hi \<Longrightarrow> b \<le> walFramePage hi \<Longrightarrow> wal_iZero b < hi"
  using walFramePage_bounds [of hi] wal_iZero_mono [of b "walFramePage hi"] by linarith

lemma find_hashes_step:
  assumes inv: "wi_inv w pg" and hi: "hi \<le> length pg" "0 < hi" and lo: "minFrame w = lo"
    and b: "b \<le> walFramePage hi" "walFramePage lo \<le> b" and w1: "walIndexPage os w b = (rc1, w1)"
  shows "find_hashes os k hi (int (walFramePage lo)) w (int b) 0 =
    (if rc1 \<noteq> WAL_OK then (rc1, 0, w1)
     else find_hashes os k hi (int (walFramePage lo)) w1 (int b - 1)
       (if last_frame (frames_in b pg) k (lo - wal_iZero b) (min hi (wal_iZero b + wal_size b) - wal_iZero b) = 0 then 0
        else last_frame (frames_in b pg) k (lo - wal_iZero b) (min hi (wal_iZero b + wal_size b) - wal_iZero b) + wal_iZero b))"
proof -
  define z ks h where "z = wal_iZero b" and "ks = frames_in b pg" and "h = min hi (wal_iZero b + wal_size b) - wal_iZero b"
  note i1 = wi_inv_mapped [OF inv w1]
  have z: "z < hi" using page_below [OF hi(2) b(1)] by (simp add: z_def)
  have m1: "minFrame w1 = lo" using i1 lo by (simp add: same_wal_def)
  have p: "page_ok b (wi w1 b) ks" using i1 z hi unfolding wi_inv_def ks_def z_def by (meson less_le_trans)
  have len: "length ks = min (length pg - z) (wal_size b)" by (simp add: ks_def frames_in_def z_def)
  have h: "h \<le> length ks" using len hi unfolding h_def z_def by linarith
  have t: "wal_table.table_ok (nat_slots (aHash w1 b)) ks" using p by (simp add: page_ok_def aHash_def)
  have n: "length ks \<le> HASHTABLE_NPAGE" using len wal_size_pos(2) [of b] by linarith
  have ok: "v + z \<le> hi \<and> lo \<le> v + z \<and> aPgno w1 b v = k \<longleftrightarrow> v \<le> h \<and> lo - z \<le> v \<and> ks ! (v - 1) = k"
    if "0 < v" "v \<le> length ks" for v
  proof -
    have "v + z \<le> hi \<longleftrightarrow> v \<le> h" using that len z unfolding h_def z_def by linarith
    moreover have "lo \<le> v + z \<longleftrightarrow> lo - z \<le> v" by linarith
    moreover have "aPgno w1 b v = ks ! (v - 1)" using p that unfolding page_ok_def aPgno_def by auto
    ultimately show ?thesis by simp
  qed
  have f: "find_slots (aHash w1 b) (\<lambda>i. i + z \<le> hi \<and> lo \<le> i + z \<and> aPgno w1 b i = k) z 0 (walHash k) HASHTABLE_NSLOT =
      Some (if last_frame ks k (lo - z) h = 0 then 0 else last_frame ks k (lo - z) h + z)"
    by (rule find_slots_last [OF t n ok h])
  have h': "min hi (z + wal_size b) - z = h" by (simp add: h_def z_def)
  show ?thesis
    using b(2) w1 f unfolding find_hashes.simps [of os k hi _ w "int b"] walHashGet_eq
    by (simp add: m1 z_def [symmetric] ks_def [symmetric] h')
qed

lemma find_hashes_done: "iRead \<noteq> 0 \<or> iHash < iMin \<or> iHash < 0 \<Longrightarrow> find_hashes os k hi iMin w iHash iRead = (WAL_OK, iRead, w)"
  by (subst find_hashes.simps) auto

lemma page_of_lo: "b < walFramePage lo \<Longrightarrow> wal_iZero b + wal_size b < lo"
proof -
  assume b: "b < walFramePage lo"
  then have "0 < lo" by (cases lo) (simp_all add: walFramePage_def wal_consts)
  then have "wal_iZero (walFramePage lo) < lo" using walFramePage_bounds by blast
  moreover have "wal_iZero (Suc b) \<le> wal_iZero (walFramePage lo)" using b by (intro wal_iZero_mono) simp
  ultimately show ?thesis by (simp add: wal_iZero_Suc)
qed

lemma find_hashes_last:
  assumes hi: "hi \<le> length pg" "0 < hi"
  shows "wi_inv w pg \<Longrightarrow> minFrame w = lo \<Longrightarrow> b \<le> walFramePage hi \<Longrightarrow>
    find_hashes os k hi (int (walFramePage lo)) w (int b) 0 = (rc, f, w') \<Longrightarrow>
    same_wal w w' \<and> wi_inv w' pg \<and> (os_ok os \<longrightarrow> rc = WAL_OK) \<and>
    (rc = WAL_OK \<longrightarrow> f = last_frame pg k lo (min hi (wal_iZero b + wal_size b)))"
proof (induction b arbitrary: w rc f w')
  case (0 w)
  show ?case
  proof (cases "walFramePage lo = 0")
    case False
    then show ?thesis
      using 0 page_of_lo [of 0 lo] by (auto simp: find_hashes_done last_frame_below)
  next
    case True
    obtain rc1 w1 where w1: "walIndexPage os w 0 = (rc1, w1)" by fastforce
    note i1 = wi_inv_mapped [OF 0(1) w1]
    define h where "h = min hi (wal_size 0)"
    have l: "last_frame pg k lo (0 + h) = (if last_frame (frames_in 0 pg) k (lo - 0) h = 0 then last_frame pg k lo 0
        else last_frame (frames_in 0 pg) k (lo - 0) h + 0)"
      by (rule last_frame_split) (use hi in \<open>simp add: frames_in_def h_def\<close>)
    have d: "find_hashes os k hi 0 w1 (- 1) r = (WAL_OK, r, w1)" for r by (rule find_hashes_done) simp
    show ?thesis
      using 0 find_hashes_step [OF 0(1) hi 0(2,3) _ w1, of k] True i1 l d walIndexPage_ok [of os w 0] w1
      by (auto simp: h_def split: if_splits)
  qed
next
  case (Suc b w)
  show ?case
  proof (cases "walFramePage lo \<le> Suc b")
    case False
    then have "find_hashes os k hi (int (walFramePage lo)) w (int (Suc b)) 0 = (WAL_OK, 0, w)"
      by (intro find_hashes_done) simp
    moreover have "min hi (wal_iZero (Suc b) + wal_size (Suc b)) < lo" using page_of_lo [of "Suc b" lo] False by simp
    ultimately show ?thesis using Suc.prems by (auto simp: last_frame_below)
  next
    case True
    obtain rc1 w1 where w1: "walIndexPage os w (Suc b) = (rc1, w1)" by fastforce
    note i1 = wi_inv_mapped [OF Suc.prems(1) w1]
    define z h where "z = wal_iZero (Suc b)" and "h = min hi (wal_iZero (Suc b) + wal_size (Suc b)) - wal_iZero (Suc b)"
    let ?l = "last_frame (frames_in (Suc b) pg) k (lo - z) h"
    have z: "z < hi" using page_below [OF hi(2) Suc.prems(3)] by (simp add: z_def)
    have zh: "z + h = min hi (wal_iZero (Suc b) + wal_size (Suc b))" using z unfolding h_def z_def by linarith
    have l: "last_frame pg k lo (z + h) = (if ?l = 0 then last_frame pg k lo z else ?l + z)"
    proof (rule last_frame_split)
      fix i assume "i < h"
      then have "i < wal_size (Suc b)" "z + i < length pg" using hi(1) zh unfolding h_def z_def by linarith+
      then show "pg ! (z + i) = frames_in (Suc b) pg ! i" by (simp add: frames_in_def z_def)
    qed
    have zb: "min hi (wal_iZero b + wal_size b) = z" using z by (simp add: z_def wal_iZero_Suc)
    note st = find_hashes_step [OF Suc.prems(1) hi Suc.prems(2,3) True w1, of k, folded h_def z_def]
    show ?thesis
    proof (cases "rc1 = WAL_OK")
      case False
      then show ?thesis using st Suc.prems(4) i1 walIndexPage_ok [of os w "Suc b"] w1 by auto
    next
      case ok: True
      show ?thesis
      proof (cases "?l = 0")
        case True
        have "find_hashes os k hi (int (walFramePage lo)) w1 (int b) 0 = (rc, f, w')"
          using st Suc.prems(4) ok True by simp
        from Suc.IH [OF _ _ _ this] have "same_wal w1 w' \<and> wi_inv w' pg \<and> (os_ok os \<longrightarrow> rc = WAL_OK) \<and>
            (rc = WAL_OK \<longrightarrow> f = last_frame pg k lo z)"
          using i1 Suc.prems(2,3) unfolding zb by (simp add: same_wal_def)
        then show ?thesis using i1 l True zh same_wal_trans by auto
      next
        case False
        have "find_hashes os k hi (int (walFramePage lo)) w1 (int (Suc b) - 1) (?l + z) = (WAL_OK, ?l + z, w1)"
          by (rule find_hashes_done) (use False in simp)
        then have "(rc, f, w') = (WAL_OK, ?l + z, w1)" using st Suc.prems(4) ok False by simp
        then show ?thesis using i1 l False zh by simp
      qed
    qed
  qed
qed

lemma find_frame:
  assumes "wi_inv w pg" "mxFrame (hdr w) \<le> length pg" "sqlite3WalFindFrame os w k = (rc, f, w')"
  shows "same_wal w w' \<and> wi_inv w' pg \<and> (os_ok os \<longrightarrow> rc = WAL_OK) \<and>
    (rc = WAL_OK \<longrightarrow> f = (if readLock w = 0 then 0 else last_frame pg k (minFrame w) (mxFrame (hdr w))))"
proof (cases "mxFrame (hdr w) = 0 \<or> readLock w = 0")
  case True
  then show ?thesis using assms by (auto simp: sqlite3WalFindFrame_def)
next
  case False
  have "min (mxFrame (hdr w)) (wal_iZero (walFramePage (mxFrame (hdr w))) + wal_size (walFramePage (mxFrame (hdr w)))) = mxFrame (hdr w)"
    using walFramePage_bounds [of "mxFrame (hdr w)"] False by simp
  then show ?thesis
    using find_hashes_last [OF assms(2) _ assms(1) refl le_refl, of os k rc f w'] False assms(3)
    by (simp add: sqlite3WalFindFrame_def Let_def)
qed

lemma walFramePgno_inv:
  assumes "wi_inv w pg" "0 < f" "f \<le> length pg"
  shows "walFramePgno w f = pg ! (f - 1)"
proof -
  define b i where "b = walFramePage f" and "i = f - wal_iZero b"
  have b: "wal_iZero b < f" "f \<le> wal_iZero b + wal_size b" using walFramePage_bounds [OF assms(2)] b_def by simp_all
  then have i: "0 < i" "i \<le> wal_size b" "f = wal_iZero b + i" by (simp_all add: i_def)
  have p: "page_ok b (wi w b) (frames_in b pg)" using assms(1,3) b unfolding wi_inv_def by (meson less_le_trans)
  have l: "i \<le> length (frames_in b pg)" using i assms(3) by (simp add: frames_in_def)
  have "frames_in b pg ! (i - 1) = pg ! (f - 1)" using i l by (simp add: frames_in_def)
  then have "pg_words (wi w b) (aPgno_at b i) = pg ! (f - 1)" using p i l by (simp add: page_ok_def)
  moreover have "(f - 1 - HASHTABLE_NPAGE_ONE) mod HASHTABLE_NPAGE = aPgno_at b i" if "b \<noteq> 0"
  proof -
    have "f - 1 - HASHTABLE_NPAGE_ONE = (i - 1) + (b - 1) * HASHTABLE_NPAGE"
      using i that by (simp add: wal_iZero_def)
    then have "(f - 1 - HASHTABLE_NPAGE_ONE) mod HASHTABLE_NPAGE = (i - 1) mod HASHTABLE_NPAGE" by (simp only: mod_mult_self1)
    then show ?thesis using i that by (simp add: aPgno_at_def wal_size_def wal_consts)
  qed
  moreover have "WALINDEX_HDR_WORDS + f - 1 = aPgno_at b i" if "b = 0" using i that by (simp add: aPgno_at_def)
  ultimately show ?thesis
    unfolding walFramePgno_def b_def [symmetric] Let_def by (cases "b = 0") simp_all
qed


section \<open>Transactions on the index\<close>

text \<open>
  The end of \<open>sqlite3WalFrames\<close>: the entries of the new frames are appended, then the private copy of
  the header is updated and, on a commit, the shared one.
\<close>

fun append_entries :: "wal_os \<Rightarrow> Wal \<Rightarrow> nat \<Rightarrow> u32 list \<Rightarrow> wal_rc \<times> nat \<times> Wal" where
  "append_entries os pWal iFrame [] = (WAL_OK, iFrame, pWal)"
| "append_entries os pWal iFrame (pgno # pList) =
     (let (rc, pWal) = walIndexAppend os pWal (iFrame + 1) pgno
      in if rc = WAL_OK then append_entries os pWal (iFrame + 1) pList else (rc, iFrame + 1, pWal))"

text \<open>The frames \<open>cur\<close> of the current transaction's view; entries after them are left-overs.\<close>

definition wal_view :: "Wal \<Rightarrow> u32 list \<Rightarrow> bool" where
  "wal_view w cur \<longleftrightarrow> mxFrame (hdr w) = length cur \<and> (\<exists>rest. wi_inv w (cur @ rest))"

lemma append_entries_inv:
  assumes "wi_inv w (pg @ rest)" "0 \<notin> set ks" "rest = [] \<or> mxFrame (hdr w) = length pg"
    "append_entries os w (length pg) ks = (rc, f, w')"
  shows "same_wal w w' \<and> (if rc = WAL_OK then f = length pg + length ks \<and> (\<exists>rest. wi_inv w' (pg @ ks @ rest))
    else (\<exists>rest. wi_inv w' (pg @ rest)))"
  using assms
proof (induction ks arbitrary: w pg rest)
  case Nil
  then show ?case by auto
next
  case (Cons k ks)
  obtain rc1 w1 where a: "walIndexAppend os w (Suc (length pg)) k = (rc1, w1)" by fastforce
  have a1: "same_wal w w1 \<and> (if rc1 = WAL_OK then wi_inv w1 (take (Suc (length pg) - 1) (pg @ rest) @ [k])
      else rc1 = fst (walIndexPage os w (walFramePage (Suc (length pg)))) \<and> wi_inv w1 (pg @ rest))"
    by (rule walIndexAppend_inv [OF Cons.prems(1) _ _ _ _ a]) (use Cons.prems(2,3) in auto)
  show ?case
  proof (cases "rc1 = WAL_OK")
    case True
    then have "wi_inv w1 ((pg @ [k]) @ [])" "append_entries os w1 (length (pg @ [k])) ks = (rc, f, w')"
      using a1 a Cons.prems(4) by simp_all
    from Cons.IH [OF this(1) _ _ this(2)] show ?thesis
      using Cons.prems(2) a1 same_wal_trans by (auto split: if_splits)
  next
    case False
    then have "rc = rc1" "w' = w1" using a Cons.prems(4) by simp_all
    then show ?thesis using a1 False by auto
  qed
qed

definition hdr_page_size :: "cint \<Rightarrow> u16" where
  "hdr_page_size sz = word_of_int ((sz AND 0xff00) OR drop_bit 16 sz)"

definition wal_add_frames :: "wal_os \<Rightarrow> Wal \<Rightarrow> cint \<Rightarrow> u32 list \<Rightarrow> u32 \<Rightarrow> bool \<Rightarrow> wal_rc \<times> Wal" where
  "wal_add_frames os pWal szPg pList nTruncate isCommit =
     (let (rc, iFrame, pWal) = append_entries os pWal (mxFrame (hdr pWal)) pList
      in if rc = WAL_OK then
           (let pWal = pWal\<lparr>hdr := (hdr pWal)\<lparr>hdr_szPage := hdr_page_size szPg, mxFrame := iFrame\<rparr>\<rparr>
            in (rc, if isCommit
                    then (walIndexWriteHdr (pWal\<lparr>hdr := (hdr pWal)\<lparr>iChange := iChange (hdr pWal) + 1, nPage := nTruncate\<rparr>\<rparr>))
                           \<lparr>iCallback := iFrame\<rparr>
                    else pWal))
         else (rc, pWal))"

lemma wal_view_cong: "wi w' = wi w \<Longrightarrow> apWiData w' = apWiData w \<Longrightarrow> exclusiveMode w' = exclusiveMode w \<Longrightarrow> wi_inv w' pg = wi_inv w pg"
  by (simp add: wi_inv_def)

lemma wal_add_frames_view:
  assumes "wal_view w cur" "0 \<notin> set ks" "wal_add_frames os w sz ks nt c = (rc, w')"
  shows "if rc = WAL_OK then wal_view w' (cur @ ks) \<and> live_hdr w' = (if c then hdr w' else live_hdr w) else wal_view w' cur \<and> live_hdr w' = live_hdr w"
    (is ?v) "writeLock w' = writeLock w \<and> readLock w' = readLock w \<and> minFrame w' = minFrame w \<and> nCkpt w' = nCkpt w"
proof -
  obtain rest where r: "wi_inv w (cur @ rest)" "mxFrame (hdr w) = length cur" using assms(1) by (auto simp: wal_view_def)
  obtain rc1 f w1 where a: "append_entries os w (length cur) ks = (rc1, f, w1)" by (metis prod_cases3)
  note i = append_entries_inv [OF r(1) assms(2) _ a]
  have i: "same_wal w w1" "if rc1 = WAL_OK then f = length cur + length ks \<and> (\<exists>rest. wi_inv w1 (cur @ ks @ rest))
    else (\<exists>rest. wi_inv w1 (cur @ rest))" using i r(2) by simp_all
  define w2 where "w2 = w1\<lparr>hdr := (hdr w1)\<lparr>hdr_szPage := hdr_page_size sz, mxFrame := f\<rparr>\<rparr>"
  define w3 where "w3 = (walIndexWriteHdr (w2\<lparr>hdr := (hdr w2)\<lparr>iChange := iChange (hdr w2) + 1, nPage := nt\<rparr>\<rparr>))\<lparr>iCallback := f\<rparr>"
  have e: "(rc, w') = (if rc1 = WAL_OK then (rc1, if c then w3 else w2) else (rc1, w1))"
    using assms(3) unfolding wal_add_frames_def r(2) a w3_def w2_def Let_def split_conv by (cases "rc1 = WAL_OK") simp_all
  have w2: "live_hdr w2 = live_hdr w1" "mxFrame (hdr w2) = f" "wi_inv w2 pg = wi_inv w1 pg" "writeLock w2 = writeLock w1"
    "readLock w2 = readLock w1" "minFrame w2 = minFrame w1" "nCkpt w2 = nCkpt w1" for pg
    by (simp_all add: w2_def wi_inv_def)
  have w3: "live_hdr w3 = hdr w3" "mxFrame (hdr w3) = f" "wi_inv w3 pg = wi_inv w1 pg" "writeLock w3 = writeLock w1"
    "readLock w3 = readLock w1" "minFrame w3 = minFrame w1" "nCkpt w3 = nCkpt w1" for pg
    by (simp_all add: w3_def w2_def wi_inv_def walIndexWriteHdr_def Let_def)
  show ?v
  proof (cases "rc1 = WAL_OK")
    case True
    then obtain rest where "wi_inv w1 ((cur @ ks) @ rest)" "f = length (cur @ ks)" using i(2) by auto
    then show ?thesis using True e i(1) w2 w3
      by (cases c) (auto simp: wal_view_def same_wal_def)
  next
    case False
    then show ?thesis using e i r(2) by (auto simp: wal_view_def same_wal_def)
  qed
  show "writeLock w' = writeLock w \<and> readLock w' = readLock w \<and> minFrame w' = minFrame w \<and> nCkpt w' = nCkpt w"
    using e i(1) w2 w3 by (cases "rc1 = WAL_OK"; cases c) (simp_all add: same_wal_def)
qed

lemma cleanup_view:
  assumes "wi_inv w pg" "mxFrame (hdr w) \<le> length pg"
  shows "wal_view (walCleanupHash os w) (take (mxFrame (hdr w)) pg) \<and> same_wal w (walCleanupHash os w)"
proof -
  note c = walCleanupHash_inv [OF assms, of os]
  have "mxFrame (hdr (walCleanupHash os w)) = length (take (mxFrame (hdr w)) pg)" using c assms(2) by (simp add: same_wal_def)
  then show ?thesis using c unfolding wal_view_def by (metis append_Nil2)
qed

lemma undo_view:
  assumes "wal_view w cur" "writeLock w" "mxFrame (live_hdr w) \<le> length cur" "sqlite3WalUndo os w = (undone, w')"
  shows "undone = drop (mxFrame (live_hdr w)) cur \<and> wal_view w' (take (mxFrame (live_hdr w)) cur) \<and>
    hdr w' = live_hdr w \<and> same_wal w (w'\<lparr>hdr := hdr w\<rparr>)"
proof -
  obtain rest where r: "wi_inv w (cur @ rest)" "mxFrame (hdr w) = length cur" using assms(1) by (auto simp: wal_view_def)
  define m w1 where "m = mxFrame (live_hdr w)" and "w1 = w\<lparr>hdr := live_hdr w\<rparr>"
  have w1: "wi_inv w1 (cur @ rest)" "mxFrame (hdr w1) = m" using r(1) by (simp_all add: w1_def m_def wi_inv_def)
  have m: "m \<le> length cur" using assms(3) by (simp add: m_def)
  have "(undone, w') = (map (walFramePgno w1) [mxFrame (hdr w1) + 1..<length cur + 1],
      if length cur \<noteq> mxFrame (hdr w1) then walCleanupHash os w1 else w1)"
    using assms(4) unfolding sqlite3WalUndo_def if_P [OF assms(2)] r(2) Let_def w1_def by (rule sym)
  then have e: "undone = map (walFramePgno w1) [m + 1..<length cur + 1]" "w' = (if length cur \<noteq> m then walCleanupHash os w1 else w1)"
    unfolding w1(2) by simp_all
  have "undone = drop m cur"
  proof (rule nth_equalityI)
    fix i assume "i < length undone"
    then have i: "m + i < length cur" using e(1) m by (simp del: upt_Suc)
    then have "undone ! i = walFramePgno w1 (m + 1 + i)" using e(1) by (simp add: nth_map_upt del: upt_Suc)
    also have "\<dots> = (cur @ rest) ! (m + i)" using walFramePgno_inv [OF w1(1), of "m + 1 + i"] i by simp
    finally show "undone ! i = drop m cur ! i" using i m by (simp add: nth_append)
  qed (use e(1) m in \<open>simp del: upt_Suc\<close>)
  moreover have "wal_view w' (take m cur) \<and> same_wal w1 w'"
  proof (cases "length cur = m")
    case True
    then show ?thesis using e(2) w1 by (auto simp: wal_view_def)
  next
    case False
    have "take m (cur @ rest) = take m cur" using m by simp
    then show ?thesis using cleanup_view [OF w1(1), of os] w1(2) False e(2) m by simp
  qed
  ultimately show ?thesis by (simp add: m_def [symmetric] same_wal_def w1_def)
qed

lemma savepointUndo_view:
  assumes "wal_view w cur" "sp_nCkpt sp = nCkpt w" "sp_mxFrame sp \<le> length cur" "sqlite3WalSavepointUndo os w sp = (sp', w')"
  shows "sp' = sp \<and> wal_view w' (take (sp_mxFrame sp) cur) \<and> same_wal (w\<lparr>hdr := hdr w'\<rparr>) w'"
proof -
  obtain rest where r: "wi_inv w (cur @ rest)" "mxFrame (hdr w) = length cur" using assms(1) by (auto simp: wal_view_def)
  show ?thesis
  proof (cases "sp_mxFrame sp < length cur")
    case True
    define w1 where "w1 = w\<lparr>hdr := (hdr w)\<lparr>mxFrame := sp_mxFrame sp, aFrameCksum := sp_cksum sp\<rparr>\<rparr>"
    have w1: "wi_inv w1 (cur @ rest)" "mxFrame (hdr w1) = sp_mxFrame sp" using r(1) by (simp_all add: w1_def wi_inv_def)
    have "sqlite3WalSavepointUndo os w sp = (sp, walCleanupHash os w1)"
      using assms(2) True r(2) by (simp add: sqlite3WalSavepointUndo_def w1_def Let_def)
    then have "sp' = sp" "w' = walCleanupHash os w1" using assms(4) by simp_all
    moreover have "take (sp_mxFrame sp) (cur @ rest) = take (sp_mxFrame sp) cur" using True by simp
    ultimately show ?thesis using cleanup_view [OF w1(1), of os] w1 True by (simp add: same_wal_def w1_def)
  next
    case False
    then show ?thesis using assms r(2) by (simp add: sqlite3WalSavepointUndo_def Let_def)
  qed
qed


section \<open>The index implements a list of frames\<close>

text \<open>
  What the writers do to the index, one after the other: add the frames of these pages and commit or
  not, roll back, open savepoints and return to them; and die after appending some entries, so that
  the next writer starts from the shared header.
\<close>

datatype wal_op = AddFrames cint "u32 list" u32 bool | UndoAll | SetSavepoint | RollbackTo nat | Takeover "u32 list"

fun wal_exec1 :: "wal_os \<Rightarrow> wal_op \<Rightarrow> Wal \<times> wal_savepoint list \<Rightarrow> wal_rc \<times> Wal \<times> wal_savepoint list" where
  "wal_exec1 os (AddFrames sz ks nt c) (w, sps) =
     (let (rc, w) = wal_add_frames os w sz ks nt c in (rc, w, if rc = WAL_OK \<and> c then [] else sps))"
| "wal_exec1 os UndoAll (w, sps) = (WAL_OK, snd (sqlite3WalUndo os w), [])"
| "wal_exec1 os SetSavepoint (w, sps) = (WAL_OK, w, sps @ [sqlite3WalSavepoint w])"
| "wal_exec1 os (RollbackTo i) (w, sps) =
     (if i < length sps
      then (let (sp, w) = sqlite3WalSavepointUndo os w (sps ! i) in (WAL_OK, w, take i sps @ [sp]))
      else (WAL_OK, w, sps))"
| "wal_exec1 os (Takeover ks) (w, sps) =
     (let (rc, f, w) = append_entries os w (mxFrame (hdr w)) ks in (WAL_OK, w\<lparr>hdr := live_hdr w\<rparr>, []))"

fun wal_exec :: "wal_os \<Rightarrow> wal_op list \<Rightarrow> Wal \<times> wal_savepoint list \<Rightarrow> wal_rc list \<times> Wal \<times> wal_savepoint list" where
  "wal_exec os [] st = ([], st)"
| "wal_exec os (op # ops) st =
     (let (rc, st) = wal_exec1 os op st; (rcs, st) = wal_exec os ops st in (rc # rcs, st))"

text \<open>The same on the lists of the committed and the current frames and the lengths saved.\<close>

type_synonym wal_abs = "u32 list \<times> u32 list \<times> nat list"

fun abs_step :: "wal_op \<Rightarrow> bool \<Rightarrow> wal_abs \<Rightarrow> wal_abs" where
  "abs_step (AddFrames sz ks nt c) ok (com, cur, sv) =
     (if \<not> ok then (com, cur, sv) else if c then (cur @ ks, cur @ ks, []) else (com, cur @ ks, sv))"
| "abs_step UndoAll ok (com, cur, sv) = (com, com, [])"
| "abs_step SetSavepoint ok (com, cur, sv) = (com, cur, sv @ [length cur])"
| "abs_step (RollbackTo i) ok (com, cur, sv) =
     (if i < length sv then (com, take (sv ! i) cur, take (Suc i) sv) else (com, cur, sv))"
| "abs_step (Takeover ks) ok (com, cur, sv) = (com, com, [])"

fun abs_exec :: "wal_op list \<Rightarrow> wal_rc list \<Rightarrow> wal_abs \<Rightarrow> wal_abs" where
  "abs_exec (op # ops) (rc # rcs) st = abs_exec ops rcs (abs_step op (rc = WAL_OK) st)"
| "abs_exec _ _ st = st"

fun op_pages :: "wal_op \<Rightarrow> u32 list" where
  "op_pages (AddFrames sz ks nt c) = ks"
| "op_pages (Takeover ks) = ks"
| "op_pages _ = []"

definition wal_refines :: "Wal \<Rightarrow> wal_savepoint list \<Rightarrow> wal_abs \<Rightarrow> bool" where
  "wal_refines w sps = (\<lambda>(com, cur, sv).
     wal_view w cur \<and> writeLock w \<and> mxFrame (live_hdr w) = length com \<and> prefix com cur \<and>
     map sp_mxFrame sps = sv \<and> (\<forall>sp \<in> set sps. sp_nCkpt sp = nCkpt w) \<and>
     sorted (length com # sv @ [length cur]))"

lemma wal_refines_step:
  assumes "wal_refines w sps st" "0 \<notin> set (op_pages op)" "wal_exec1 os op (w, sps) = (rc, w', sps')"
  shows "wal_refines w' sps' (abs_step op (rc = WAL_OK) st) \<and> readLock w' = readLock w \<and> minFrame w' = minFrame w"
proof -
  obtain com cur sv where st: "st = (com, cur, sv)" by (metis prod_cases3)
  have i: "wal_view w cur" "writeLock w" "mxFrame (live_hdr w) = length com" "prefix com cur" "map sp_mxFrame sps = sv"
    "\<forall>sp \<in> set sps. sp_nCkpt sp = nCkpt w" "sorted (length com # sv @ [length cur])"
    using assms(1) unfolding wal_refines_def st by auto
  show ?thesis
  proof (cases op)
    case (AddFrames sz ks nt c)
    obtain rc1 w1 where a: "wal_add_frames os w sz ks nt c = (rc1, w1)" by fastforce
    have e: "rc = rc1" "w' = w1" "sps' = (if rc = WAL_OK \<and> c then [] else sps)"
      using assms(3) AddFrames a by (auto split: if_splits)
    have "0 \<notin> set ks" using assms(2) AddFrames by simp
    note v = wal_add_frames_view [OF i(1) this a]
    have l: "sorted (length com # sv @ [length (cur @ ks)])" using i(7) by (auto simp: sorted_append)
    show ?thesis
    proof (cases "rc = WAL_OK")
      case True
      have m: "mxFrame (hdr w') = length (cur @ ks)" using v(1) True e by (simp add: wal_view_def)
      have p: "prefix com (cur @ ks)" using i(4) by simp
      show ?thesis
        using v True e i(2,3,5,6) l m p AddFrames unfolding wal_refines_def st by (cases c) simp_all
    next
      case False
      then show ?thesis using v e i AddFrames unfolding wal_refines_def st by auto
    qed
  next
    case UndoAll
    obtain undone w1 where u: "sqlite3WalUndo os w = (undone, w1)" by fastforce
    have c: "take (length com) cur = com" "length com \<le> length cur" using i(4) by (auto simp: prefix_def)
    have e: "rc = WAL_OK" "w' = w1" "sps' = []" using assms(3) UndoAll u by auto
    show ?thesis
      using undo_view [OF i(1,2) _ u] c i(2,3) e UndoAll unfolding wal_refines_def st by (simp add: same_wal_def)
  next
    case SetSavepoint
    have e: "rc = WAL_OK" "w' = w" "sps' = sps @ [sqlite3WalSavepoint w]" using assms(3) SetSavepoint by auto
    have "mxFrame (hdr w) = length cur" using i(1) by (simp add: wal_view_def)
    then show ?thesis
      using i e SetSavepoint unfolding wal_refines_def st by (auto simp: sqlite3WalSavepoint_def sorted_append)
  next
    case (RollbackTo n)
    show ?thesis
    proof (cases "n < length sps")
      case False
      then have "length sv \<le> n" using i(5) by auto
      then show ?thesis using assms(1,3) RollbackTo False st by auto
    next
      case True
      then have n: "n < length sv" "sp_mxFrame (sps ! n) = sv ! n" using i(5) by auto
      obtain sp1 w1 where u: "sqlite3WalSavepointUndo os w (sps ! n) = (sp1, w1)" by fastforce
      have e: "rc = WAL_OK" "w' = w1" "sps' = take n sps @ [sp1]" using assms(3) RollbackTo True u by auto
      have l: "sv ! n \<le> length cur" "length com \<le> sv ! n" using i(7) n(1) by (auto simp: sorted_append)
      have "sps ! n \<in> set sps" using True by simp
      then have k: "sp_nCkpt (sps ! n) = nCkpt w" using i(6) by blast
      have v: "sp1 = sps ! n \<and> wal_view w1 (take (sv ! n) cur) \<and> same_wal (w\<lparr>hdr := hdr w1\<rparr>) w1"
        using savepointUndo_view [OF i(1) k _ u] n l by simp
      have s: "take n sps @ [sps ! n] = take (Suc n) sps" using True by (simp add: take_Suc_conv_app_nth)
      have ms: "map sp_mxFrame (take (Suc n) sps) = take (Suc n) sv" using i(5) by (auto simp: take_map)
      have p: "prefix com (take (sv ! n) cur)"
        by (rule prefix_length_prefix [OF i(4) take_is_prefix]) (use l in simp)
      have "sorted sv" using i(7) by (simp add: sorted_append)
      then have "x \<le> sv ! n" if "x \<in> set (take (Suc n) sv)" for x
        using that n(1) by (auto simp: in_set_conv_nth intro!: sorted_nth_mono)
      moreover have "sorted (take (Suc n) sv)" using i(7) by (simp add: sorted_append sorted_wrt_take)
      moreover have "\<forall>x \<in> set (take (Suc n) sv). length com \<le> x" using i(7) by (auto simp: sorted_append dest: in_set_takeD)
      ultimately have so: "sorted (length com # take (Suc n) sv @ [length (take (sv ! n) cur)])"
        using l by (auto simp: sorted_append)
      have c: "\<forall>sp \<in> set (take (Suc n) sps). sp_nCkpt sp = nCkpt w" using i(6) by (auto dest: in_set_takeD)
      show ?thesis
        using v s ms p so c i(2,3) n(1) e RollbackTo unfolding wal_refines_def st by (simp add: same_wal_def)
    qed
  next
    case (Takeover ks)
    obtain rest where r: "wi_inv w (cur @ rest)" "mxFrame (hdr w) = length cur" using i(1) by (auto simp: wal_view_def)
    obtain rc1 f w1 where a: "append_entries os w (length cur) ks = (rc1, f, w1)" by (metis prod_cases3)
    have "0 \<notin> set ks" using assms(2) Takeover by simp
    note v = append_entries_inv [OF r(1) this _ a]
    have e: "rc = WAL_OK" "w' = w1\<lparr>hdr := live_hdr w1\<rparr>" "sps' = []" using assms(3) Takeover a r(2) by auto
    obtain x where x: "cur = com @ x" using i(4) by (auto simp: prefix_def)
    have "\<exists>rest. wi_inv w1 (com @ rest)" using v r(2) x by (auto split: if_splits)
    then have "wal_view w' com" using v r(2) i(3) e by (auto simp: wal_view_def wi_inv_def same_wal_def)
    then show ?thesis using v r(2) i(2,3) e Takeover unfolding wal_refines_def st by (simp add: same_wal_def)
  qed
qed

lemma wal_refines_exec:
  assumes "wal_refines w sps st" "\<forall>op \<in> set ops. 0 \<notin> set (op_pages op)" "wal_exec os ops (w, sps) = (rcs, w', sps')"
  shows "wal_refines w' sps' (abs_exec ops rcs st) \<and> readLock w' = readLock w \<and> minFrame w' = minFrame w"
  using assms
proof (induction ops arbitrary: w sps st rcs w' sps')
  case Nil
  then show ?case by simp
next
  case (Cons op ops)
  obtain rc w1 sps1 where 1: "wal_exec1 os op (w, sps) = (rc, w1, sps1)" by (metis prod_cases3)
  obtain rcs2 w2 sps2 where 2: "wal_exec os ops (w1, sps1) = (rcs2, w2, sps2)" by (metis prod_cases3)
  have r: "rcs = rc # rcs2" "w' = w2" "sps' = sps2" using Cons.prems(3) 1 2 by simp_all
  have s: "wal_refines w1 sps1 (abs_step op (rc = WAL_OK) st) \<and> readLock w1 = readLock w \<and> minFrame w1 = minFrame w"
    by (rule wal_refines_step [OF Cons.prems(1) _ 1]) (use Cons.prems(2) in simp)
  show ?case using Cons.IH [OF s [THEN conjunct1] _ 2] Cons.prems(2) s r by simp
qed

text \<open>
  C6: The wal-index implements a list of frames. Whatever the shared pages held before, after any
  sequence of appended frames, commits, rollbacks, savepoint rollbacks and writers that died half way,
  the hash search finds for every page its last frame among those of the current transaction (from
  \<open>minFrame\<close> on), and a reader that starts from the shared header finds the last committed one; the
  search fails only if the operating system does.
\<close>

theorem wal_index_find:
  assumes "mxFrame (hdr w) = 0" "mxFrame (live_hdr w) = 0" "writeLock w" "readLock w \<noteq> 0"
    "\<forall>op \<in> set ops. 0 \<notin> set (op_pages op)" "wal_exec os ops (w, []) = (rcs, w', sps)"
    "abs_exec ops rcs ([], [], []) = (com, cur, sv)"
    "sqlite3WalFindFrame os w' pgno = (rc, f, w1)"
    "sqlite3WalFindFrame os (w'\<lparr>hdr := live_hdr w'\<rparr>) pgno = (rc', f', w2)"
  shows "(os_ok os \<longrightarrow> rc = WAL_OK \<and> rc' = WAL_OK) \<and>
    (rc = WAL_OK \<longrightarrow> f = last_frame cur pgno (minFrame w) (length cur)) \<and>
    (rc' = WAL_OK \<longrightarrow> f' = last_frame com pgno (minFrame w) (length com))"
proof -
  have "wal_refines w [] ([], [], [])" using assms by (simp add: wal_refines_def wal_view_def wi_inv_Nil exI [of _ "[]"])
  from wal_refines_exec [OF this assms(5,6)]
  have r: "wal_view w' cur" "mxFrame (live_hdr w') = length com" "prefix com cur" "readLock w' = readLock w" "minFrame w' = minFrame w"
    unfolding assms(7) by (simp_all add: wal_refines_def)
  obtain rest where rest: "wi_inv w' (cur @ rest)" "mxFrame (hdr w') = length cur" using r(1) by (auto simp: wal_view_def)
  obtain x where x: "cur = com @ x" using r(3) by (auto simp: prefix_def)
  have "last_frame (cur @ rest) pgno lo (length cur) = last_frame cur pgno lo (length cur)" for lo
    by (rule last_frame_cong) (simp add: nth_append)
  moreover have "last_frame (com @ x @ rest) pgno lo (length com) = last_frame com pgno lo (length com)" for lo
    by (rule last_frame_cong) (simp add: nth_append)
  moreover have "wi_inv (w'\<lparr>hdr := live_hdr w'\<rparr>) (com @ x @ rest)" using rest(1) x by (simp add: wi_inv_def)
  ultimately show ?thesis
    using find_frame [OF rest(1) _ assms(8)] find_frame [OF _ _ assms(9), of "com @ x @ rest"] rest r assms(4) by simp
qed


lemma append_entries_ok:
  assumes "os_ok os" "wi_inv w (pg @ rest)" "0 \<notin> set ks" "rest = [] \<or> mxFrame (hdr w) = length pg"
  shows "fst (append_entries os w (length pg) ks) = WAL_OK"
  using assms
proof (induction ks arbitrary: w pg rest)
  case (Cons k ks)
  obtain rc1 w1 where a: "walIndexAppend os w (Suc (length pg)) k = (rc1, w1)" by fastforce
  have a1: "same_wal w w1 \<and> (if rc1 = WAL_OK then wi_inv w1 (take (Suc (length pg) - 1) (pg @ rest) @ [k])
      else rc1 = fst (walIndexPage os w (walFramePage (Suc (length pg)))) \<and> wi_inv w1 (pg @ rest))"
    by (rule walIndexAppend_inv [OF Cons.prems(2) _ _ _ _ a]) (use Cons.prems(3,4) in auto)
  have ok: "rc1 = WAL_OK" using a1 walIndexPage_ok [OF Cons.prems(1)] by (metis (full_types))
  have "fst (append_entries os w1 (length (pg @ [k])) ks) = WAL_OK"
    by (rule Cons.IH [OF Cons.prems(1), of w1 _ "[]"]) (use a1 ok Cons.prems(3) in simp_all)
  then show ?case using a ok by simp
qed simp

lemma wal_add_frames_ok:
  assumes "os_ok os" "wal_view w cur" "0 \<notin> set ks"
  shows "fst (wal_add_frames os w sz ks nt c) = WAL_OK"
proof -
  obtain rest where "wi_inv w (cur @ rest)" "mxFrame (hdr w) = length cur" using assms(2) by (auto simp: wal_view_def)
  then have "fst (append_entries os w (mxFrame (hdr w)) ks) = WAL_OK"
    using append_entries_ok [OF assms(1) _ assms(3)] by simp
  then show ?thesis unfolding wal_add_frames_def
    by (cases "append_entries os w (mxFrame (hdr w)) ks") (simp add: Let_def)
qed

definition no_hdr :: WalIndexHdr where
  "no_hdr = \<lparr>iVersion = 0, iChange = 0, isInit = False, bigEndCksum = False, hdr_szPage = 0, mxFrame = 0, nPage = 0,
     aFrameCksum = (0, 0), aSalt = replicate 8 0, aCksum = (0, 0)\<rparr>"

definition new_wal :: Wal where
  "new_wal = \<lparr>apWiData = [], wi = \<lambda>_. zero_page, live_hdr = no_hdr, live_hdr2 = no_hdr,
     ckpt = \<lparr>nBackfill = 0, aReadMark = [0, 0, READMARK_NOT_USED, READMARK_NOT_USED, READMARK_NOT_USED], nBackfillAttempted = 0\<rparr>,
     exclusiveMode = WAL_NORMAL_MODE,
     readLock = 1, writeLock = True, ckptLock = False, shm_rdonly = False, file_rdonly = False, hdr = no_hdr, minFrame = 1, iReCksum = 0, szPage = 1024,
     nCkpt = 0, truncateOnCommit = False, syncHeader = True, padToSectorBoundary = True, mxWalSize = -1, iCallback = 0\<rparr>"

definition good_os :: wal_os where
  "good_os = \<lparr>os_realloc = \<lambda>_. True, os_malloc = \<lambda>_. True, os_shm_map = \<lambda>_ _. (WAL_OK, True)\<rparr>"

lemma wal_index_find_witness:
  "let w = fst (snd (wal_exec good_os [AddFrames 1024 [5, 6, 5] 6 True, AddFrames 1024 [5] 0 False] (new_wal, [])))
   in fst (snd (sqlite3WalFindFrame good_os w 5)) = 4 \<and>
      fst (snd (sqlite3WalFindFrame good_os (w\<lparr>hdr := live_hdr w\<rparr>) 5)) = 3"
proof -
  let ?ops = "[AddFrames 1024 [5, 6, 5] 6 True, AddFrames 1024 [5] 0 False]"
  have n: "mxFrame (hdr new_wal) = 0" "mxFrame (live_hdr new_wal) = 0" "writeLock new_wal" "readLock new_wal \<noteq> 0"
    "minFrame new_wal = 1" "\<forall>op \<in> set ?ops. 0 \<notin> set (op_pages op)" and os: "os_ok good_os"
    by (simp_all add: new_wal_def no_hdr_def good_os_def os_ok_def)
  obtain rc1 w1 where a1: "wal_add_frames good_os new_wal 1024 [5, 6, 5] 6 True = (rc1, w1)" by fastforce
  obtain rc2 w2 where a2: "wal_add_frames good_os w1 1024 [5] 0 False = (rc2, w2)" by fastforce
  have v0: "wal_view new_wal []" using n by (simp add: wal_view_def wi_inv_Nil exI [of _ "[]"])
  have ok1: "rc1 = WAL_OK" using wal_add_frames_ok [OF os v0, of "[5, 6, 5]" 1024 6 True] a1 by simp
  have v1: "wal_view w1 [5, 6, 5]" using wal_add_frames_view(1) [OF v0 _ a1] ok1 by simp
  have ok2: "rc2 = WAL_OK" using wal_add_frames_ok [OF os v1, of "[5]" 1024 0 False] a2 by simp
  have e: "wal_exec good_os ?ops (new_wal, []) = ([WAL_OK, WAL_OK], w2, [])"
    using a1 a2 ok1 ok2 by simp
  have b: "abs_exec ?ops [WAL_OK, WAL_OK] ([], [], []) = ([5, 6, 5], [5, 6, 5, 5], [])" by simp
  obtain rc f w3 where f: "sqlite3WalFindFrame good_os w2 5 = (rc, f, w3)" by (metis prod_cases3)
  obtain rc' f' w4 where f': "sqlite3WalFindFrame good_os (w2\<lparr>hdr := live_hdr w2\<rparr>) 5 = (rc', f', w4)" by (metis prod_cases3)
  show ?thesis using wal_index_find [OF n(1-4,6) e b f f'] os n(5) unfolding e by (simp add: f f')
qed

end
