(* ===== verification/WalLog.thy ===== *)
theory WalLog
  imports WalIndex Varint
begin

text \<open>
  The write-ahead log file of wal.c: the encoding and decoding of its frames
  (\<open>walEncodeFrame\<close>, \<open>walDecodeFrame\<close>), the recovery of the wal-index from the file
  (\<open>walIndexRecover\<close>) and the reading of a frame (\<open>sqlite3WalReadFrame\<close>). A log is described as a list
  of frames; recovery is shown to keep exactly the frames up to the last commit.
\<close>

section \<open>The file\<close>

text \<open>
  The log file is its bytes. Every write or sync is one operation; \<open>lf_faults\<close> is the number of
  operations that succeed before one fails (\<open>None\<close>: none fails), and a write that fails has written
  the first \<open>lf_partial\<close> of its bytes. All later operations fail too.
\<close>

record wal_log =
  lf_data :: "u8 list"
  lf_faults :: "nat option"
  lf_partial :: nat

definition write_at :: "nat \<Rightarrow> u8 list \<Rightarrow> u8 list \<Rightarrow> u8 list" where
  "write_at off bs f = take off (f @ replicate (off - length f) 0) @ bs @ drop (off + length bs) f"

definition log_op :: "wal_log \<Rightarrow> bool \<times> wal_log" where
  "log_op l = (case lf_faults l of
     None \<Rightarrow> (True, l) | Some 0 \<Rightarrow> (False, l) | Some (Suc n) \<Rightarrow> (True, l\<lparr>lf_faults := Some n\<rparr>))"

definition log_write :: "u8 list \<Rightarrow> nat \<Rightarrow> wal_log \<Rightarrow> wal_rc \<times> wal_log" where
  "log_write bs off l =
     (let (ok, l) = log_op l
      in if ok then (WAL_OK, l\<lparr>lf_data := write_at off bs (lf_data l)\<rparr>)
         else (WAL_IOERR, l\<lparr>lf_data := write_at off (take (lf_partial l) bs) (lf_data l)\<rparr>))"

definition log_sync :: "wal_log \<Rightarrow> wal_rc \<times> wal_log" where
  "log_sync l = (let (ok, l) = log_op l in (if ok then WAL_OK else WAL_IOERR, l))"

definition log_read :: "nat \<Rightarrow> nat \<Rightarrow> wal_log \<Rightarrow> wal_rc \<times> u8 list \<times> wal_log" where
  "log_read n off l =
     (let (ok, l) = log_op l
      in if ok \<and> off + n \<le> length (lf_data l) then (WAL_OK, take n (drop off (lf_data l)), l) else (WAL_IOERR, [], l))"

definition log_truncate :: "nat \<Rightarrow> wal_log \<Rightarrow> wal_rc \<times> wal_log" where
  "log_truncate n l =
     (let (ok, l) = log_op l in if ok then (WAL_OK, l\<lparr>lf_data := take n (lf_data l)\<rparr>) else (WAL_IOERR, l))"

definition log_size :: "wal_log \<Rightarrow> wal_rc \<times> nat \<times> wal_log" where
  "log_size l = (let (ok, l) = log_op l in (if ok then WAL_OK else WAL_IOERR, length (lf_data l), l))"

definition get4 :: "u8 list \<Rightarrow> nat \<Rightarrow> u32" where
  "get4 z i = sqlite3Get4byte (mem_of (drop i z))"

section \<open>Frames\<close>

definition WAL_FRAME_HDRSIZE :: nat where "WAL_FRAME_HDRSIZE = 24"
definition WAL_HDRSIZE :: nat where "WAL_HDRSIZE = 32"
definition WAL_MAGIC :: u32 where "WAL_MAGIC = 0x377f0682"
definition WAL_MAX_VERSION :: u32 where "WAL_MAX_VERSION = 3007000"
definition SQLITE_BIGENDIAN :: bool where "SQLITE_BIGENDIAN = False"

definition walFrameOffset :: "nat \<Rightarrow> nat \<Rightarrow> nat" where
  "walFrameOffset iFrame sz = WAL_HDRSIZE + (iFrame - 1) * (sz + WAL_FRAME_HDRSIZE)"

definition walEncodeFrame :: "Wal \<Rightarrow> u32 \<Rightarrow> u32 \<Rightarrow> u8 list \<Rightarrow> u8 list \<times> Wal" where
  "walEncodeFrame pWal iPage nTruncate aData =
     (let aFrame = sqlite3Put4byte iPage @ sqlite3Put4byte nTruncate
      in if iReCksum pWal = 0 then
           (let nativeCksum = (bigEndCksum (hdr pWal) = SQLITE_BIGENDIAN);
                c = walChecksumBytes nativeCksum aFrame (Some (aFrameCksum (hdr pWal)));
                c = walChecksumBytes nativeCksum (take (nat (szPage pWal)) aData) (Some c)
            in (aFrame @ aSalt (hdr pWal) @ sqlite3Put4byte (fst c) @ sqlite3Put4byte (snd c),
                pWal\<lparr>hdr := (hdr pWal)\<lparr>aFrameCksum := c\<rparr>\<rparr>))
         else (aFrame @ replicate 16 0, pWal))"

text \<open>The page and \<open>nTruncate\<close> of a valid frame; the checksum is updated when it was computed.\<close>

definition walDecodeFrame :: "Wal \<Rightarrow> u8 list \<Rightarrow> u8 list \<Rightarrow> (u32 \<times> u32) option \<times> Wal" where
  "walDecodeFrame pWal aData aFrame =
     (if aSalt (hdr pWal) \<noteq> take 8 (drop 8 aFrame) then (None, pWal)
      else
        (let pgno = get4 aFrame 0
         in if pgno = 0 then (None, pWal)
            else
              (let nativeCksum = (bigEndCksum (hdr pWal) = SQLITE_BIGENDIAN);
                   c = walChecksumBytes nativeCksum (take 8 aFrame) (Some (aFrameCksum (hdr pWal)));
                   c = walChecksumBytes nativeCksum (take (nat (szPage pWal)) aData) (Some c);
                   pWal = pWal\<lparr>hdr := (hdr pWal)\<lparr>aFrameCksum := c\<rparr>\<rparr>
               in if fst c \<noteq> get4 aFrame 16 \<or> snd c \<noteq> get4 aFrame 20 then (None, pWal)
                  else (Some (pgno, get4 aFrame 4), pWal))))"

section \<open>Recovery\<close>

text \<open>
  What the code gets from outside: the file system of the index, the results of the locks (the
  first argument counts the attempts), whether buffers can be allocated, random bytes and the size
  of a disk sector. Locks that are released succeed and are not modelled.
\<close>

record wal_env =
  env_os :: wal_os
  env_excl :: "nat \<Rightarrow> nat \<Rightarrow> nat \<Rightarrow> wal_rc"
  env_shared :: "nat \<Rightarrow> nat \<Rightarrow> wal_rc"
  env_malloc :: bool
  env_random :: "nat \<Rightarrow> u8 list"
  env_sector :: nat

definition walLockExclusive :: "wal_env \<Rightarrow> Wal \<Rightarrow> nat \<Rightarrow> nat \<Rightarrow> nat \<Rightarrow> wal_rc" where
  "walLockExclusive env pWal cnt lockIdx n =
     (if exclusiveMode pWal \<noteq> WAL_NORMAL_MODE then WAL_OK else env_excl env cnt lockIdx n)"

definition walLockShared :: "wal_env \<Rightarrow> Wal \<Rightarrow> nat \<Rightarrow> nat \<Rightarrow> wal_rc" where
  "walLockShared env pWal cnt lockIdx =
     (if exclusiveMode pWal \<noteq> WAL_NORMAL_MODE then WAL_OK else env_shared env cnt lockIdx)"

function recover_loop :: "wal_os \<Rightarrow> nat \<Rightarrow> nat \<Rightarrow> Wal \<Rightarrow> wal_log \<Rightarrow> nat \<Rightarrow> nat \<Rightarrow> u32 \<times> u32 \<Rightarrow>
    wal_rc \<times> Wal \<times> wal_log \<times> (u32 \<times> u32)" where
  "recover_loop os sz nSize pWal log iOffset iFrame aFrameCk =
     (if iOffset + (sz + WAL_FRAME_HDRSIZE) \<le> nSize then
        (let iFrame = iFrame + 1;
             (rc, aFrame, log) = log_read (sz + WAL_FRAME_HDRSIZE) iOffset log
         in if rc \<noteq> WAL_OK then (rc, pWal, log, aFrameCk)
            else
              (case walDecodeFrame pWal (drop WAL_FRAME_HDRSIZE aFrame) aFrame of
                 (None, pWal) \<Rightarrow> (WAL_OK, pWal, log, aFrameCk)
               | (Some (pgno, nTruncate), pWal) \<Rightarrow>
                   (let (rc, pWal) = walIndexAppend os pWal iFrame pgno
                    in if rc \<noteq> WAL_OK then (rc, pWal, log, aFrameCk)
                       else if nTruncate \<noteq> 0 then
                         recover_loop os sz nSize
                           (pWal\<lparr>hdr := (hdr pWal)\<lparr>mxFrame := iFrame, nPage := nTruncate, hdr_szPage := hdr_page_size (int sz)\<rparr>\<rparr>)
                           log (iOffset + (sz + WAL_FRAME_HDRSIZE)) iFrame (aFrameCksum (hdr pWal))
                       else recover_loop os sz nSize pWal log (iOffset + (sz + WAL_FRAME_HDRSIZE)) iFrame aFrameCk)))
      else (WAL_OK, pWal, log, aFrameCk))"
  by pat_completeness auto
termination
  by (relation "measure (\<lambda>(os, sz, n, w, l, off, f, c). n - off)") (auto simp: WAL_FRAME_HDRSIZE_def)

declare recover_loop.simps [simp del]

definition recover_finish :: "wal_rc \<Rightarrow> Wal \<Rightarrow> u32 \<times> u32 \<Rightarrow> wal_rc \<times> Wal" where
  "recover_finish rc pWal aFrameCk =
     (if rc = WAL_OK then
        (let pWal = walIndexWriteHdr (pWal\<lparr>hdr := (hdr pWal)\<lparr>aFrameCksum := aFrameCk\<rparr>\<rparr>);
             m = mxFrame (hdr pWal)
         in (rc, pWal\<lparr>ckpt := \<lparr>nBackfill = 0,
               aReadMark = 0 # (if m \<noteq> 0 then m else READMARK_NOT_USED) # replicate (WAL_NREADER - 2) READMARK_NOT_USED,
               nBackfillAttempted = m\<rparr>\<rparr>))
      else (rc, pWal))"

definition walIndexRecover :: "wal_env \<Rightarrow> nat \<Rightarrow> Wal \<Rightarrow> wal_log \<Rightarrow> wal_rc \<times> Wal \<times> wal_log" where
  "walIndexRecover env cnt pWal log =
     (let iLock = 1 + (if ckptLock pWal then 1 else 0); nLock = 8 - iLock;
          rc = walLockExclusive env pWal cnt iLock nLock
      in if rc \<noteq> WAL_OK then (rc, pWal, log)
         else
           (let pWal = pWal\<lparr>hdr := no_hdr\<rparr>; (rc, nSize, log) = log_size log
            in if rc \<noteq> WAL_OK then (rc, pWal, log)
               else if nSize > WAL_HDRSIZE then
                 (let (rc, aBuf, log) = log_read WAL_HDRSIZE 0 log
                  in if rc \<noteq> WAL_OK then (rc, pWal, log)
                     else
                       (let magic = get4 aBuf 0; sz = sint (get4 aBuf 8)
                        in if magic AND 0xFFFFFFFE \<noteq> WAL_MAGIC \<or> sz AND (sz - 1) \<noteq> 0 \<or> sz > 65536 \<or> sz < 512 then
                             (let (rc, pWal) = recover_finish WAL_OK pWal (0, 0) in (rc, pWal, log))
                           else
                             (let c = walChecksumBytes ((magic AND 1 \<noteq> 0) = SQLITE_BIGENDIAN) (take (WAL_HDRSIZE - 8) aBuf) None;
                                  pWal = pWal\<lparr>hdr := (hdr pWal)\<lparr>bigEndCksum := (magic AND 1 \<noteq> 0),
                                      aSalt := take 8 (drop 16 aBuf), aFrameCksum := c\<rparr>,
                                    szPage := sz, nCkpt := get4 aBuf 12\<rparr>
                              in if fst c \<noteq> get4 aBuf 24 \<or> snd c \<noteq> get4 aBuf 28 then
                                   (let (rc, pWal) = recover_finish WAL_OK pWal (0, 0) in (rc, pWal, log))
                                 else if get4 aBuf 4 \<noteq> WAL_MAX_VERSION then (WAL_CANTOPEN, pWal, log)
                                 else if \<not> env_malloc env then (WAL_NOMEM, pWal, log)
                                 else
                                   (let (rc, pWal, log, ck) =
                                          recover_loop (env_os env) (nat sz) nSize pWal log WAL_HDRSIZE 0 (0, 0);
                                        (rc, pWal) = recover_finish rc pWal ck
                                    in (rc, pWal, log)))))
               else (let (rc, pWal) = recover_finish WAL_OK pWal (0, 0) in (rc, pWal, log))))"

definition sqlite3WalReadFrame :: "Wal \<Rightarrow> wal_log \<Rightarrow> nat \<Rightarrow> nat \<Rightarrow> wal_rc \<times> u8 list \<times> wal_log" where
  "sqlite3WalReadFrame pWal log iRead nOut =
     (let sz = uint (hdr_szPage (hdr pWal));
          sz = nat ((sz AND 0xfe00) + push_bit 16 (sz AND 0x0001));
          iOffset = walFrameOffset iRead sz + WAL_FRAME_HDRSIZE
      in log_read (if nOut > sz then sz else nOut) iOffset log)"


section \<open>The log as a list of frames\<close>

text \<open>A frame: page, size of the database after it if it commits, else 0, and content.\<close>

type_synonym frame = "u32 \<times> u32 \<times> u8 list"

fun next_cksum :: "bool \<Rightarrow> u32 \<times> u32 \<Rightarrow> frame \<Rightarrow> u32 \<times> u32" where
  "next_cksum nv c (p, n, d) =
     walChecksumBytes nv d (Some (walChecksumBytes nv (sqlite3Put4byte p @ sqlite3Put4byte n) (Some c)))"

fun frame_hdr :: "bool \<Rightarrow> u8 list \<Rightarrow> u32 \<times> u32 \<Rightarrow> frame \<Rightarrow> u8 list" where
  "frame_hdr nv salt c (p, n, d) =
     sqlite3Put4byte p @ sqlite3Put4byte n @ salt @
     sqlite3Put4byte (fst (next_cksum nv c (p, n, d))) @ sqlite3Put4byte (snd (next_cksum nv c (p, n, d)))"

fun log_bytes :: "bool \<Rightarrow> u8 list \<Rightarrow> u32 \<times> u32 \<Rightarrow> frame list \<Rightarrow> u8 list" where
  "log_bytes nv salt c [] = []"
| "log_bytes nv salt c (f # fs) = frame_hdr nv salt c f @ snd (snd f) @ log_bytes nv salt (next_cksum nv c f) fs"

fun log_cksum :: "bool \<Rightarrow> u32 \<times> u32 \<Rightarrow> frame list \<Rightarrow> u32 \<times> u32" where
  "log_cksum nv c [] = c"
| "log_cksum nv c (f # fs) = log_cksum nv (next_cksum nv c f) fs"

definition frame_ok :: "nat \<Rightarrow> frame \<Rightarrow> bool" where
  "frame_ok sz f \<longleftrightarrow> fst f \<noteq> 0 \<and> length (snd (snd f)) = sz"

lemma length_put4 [simp]: "length (sqlite3Put4byte v) = 4"
  by (simp add: sqlite3Put4byte_def)

lemma get4_put4: "drop i z = sqlite3Put4byte v @ y \<Longrightarrow> get4 z i = v"
  unfolding get4_def by (rule get4byte_put4byte) (simp only: mem_at_mem_of)

lemma length_frame_hdr [simp]: "length salt = 8 \<Longrightarrow> length (frame_hdr nv salt c f) = WAL_FRAME_HDRSIZE"
  by (cases f) (simp add: WAL_FRAME_HDRSIZE_def)

lemma length_log_bytes:
  "length salt = 8 \<Longrightarrow> list_all (frame_ok sz) fs \<Longrightarrow> length (log_bytes nv salt c fs) = length fs * (sz + WAL_FRAME_HDRSIZE)"
  by (induction fs arbitrary: c) (simp_all add: frame_ok_def)

lemma log_bytes_append: "log_bytes nv salt c (fs @ gs) = log_bytes nv salt c fs @ log_bytes nv salt (log_cksum nv c fs) gs"
  by (induction fs arbitrary: c) simp_all

lemma log_cksum_append: "log_cksum nv c (fs @ gs) = log_cksum nv (log_cksum nv c fs) gs"
  by (induction fs arbitrary: c) simp_all

text \<open>What the handle knows of the log: its salt, byte order, page size and the checksum so far.\<close>

definition log_state :: "Wal \<Rightarrow> bool \<Rightarrow> u8 list \<Rightarrow> nat \<Rightarrow> u32 \<times> u32 \<Rightarrow> bool" where
  "log_state w nv salt sz c \<longleftrightarrow> (bigEndCksum (hdr w) = SQLITE_BIGENDIAN) = nv \<and> aSalt (hdr w) = salt \<and> length salt = 8 \<and>
     szPage w = int sz \<and> aFrameCksum (hdr w) = c"

lemma encode_frame:
  assumes "log_state w nv salt sz c" "iReCksum w = 0" "length d = sz"
  shows "walEncodeFrame w p n d = (frame_hdr nv salt c (p, n, d), w\<lparr>hdr := (hdr w)\<lparr>aFrameCksum := next_cksum nv c (p, n, d)\<rparr>\<rparr>)"
  using assms by (simp add: walEncodeFrame_def log_state_def Let_def)

lemma decode_frame:
  assumes "log_state w nv salt sz c" "length d = sz" "p \<noteq> 0"
  shows "walDecodeFrame w d (frame_hdr nv salt c (p, n, d) @ d) =
    (Some (p, n), w\<lparr>hdr := (hdr w)\<lparr>aFrameCksum := next_cksum nv c (p, n, d)\<rparr>\<rparr>)"
proof -
  let ?c = "next_cksum nv c (p, n, d)"
  let ?f = "frame_hdr nv salt c (p, n, d) @ d"
  have l: "length salt = 8" using assms(1) by (simp add: log_state_def)
  have "get4 ?f 0 = p" by (rule get4_put4 [where y = "sqlite3Put4byte n @ salt @ sqlite3Put4byte (fst ?c) @ sqlite3Put4byte (snd ?c) @ d"]) simp
  moreover have "get4 ?f 4 = n"
    by (rule get4_put4 [where y = "salt @ sqlite3Put4byte (fst ?c) @ sqlite3Put4byte (snd ?c) @ d"]) simp
  moreover have "get4 ?f 16 = fst ?c"
    by (rule get4_put4 [where y = "sqlite3Put4byte (snd ?c) @ d"]) (simp add: l)
  moreover have "get4 ?f 20 = snd ?c"
    by (rule get4_put4 [where y = d]) (simp add: l)
  moreover have "take 8 ?f = sqlite3Put4byte p @ sqlite3Put4byte n" "take 8 (drop 8 ?f) = salt" by (simp_all add: l)
  ultimately show ?thesis
    using assms unfolding walDecodeFrame_def by (simp add: log_state_def Let_def del: frame_hdr.simps)
qed


section \<open>What recovery reads\<close>

lemma log_op_none: "lf_faults l = None \<Longrightarrow> log_op l = (True, l)"
  by (simp add: log_op_def)

lemma log_read_none:
  "lf_faults l = None \<Longrightarrow> off + n \<le> length (lf_data l) \<Longrightarrow> log_read n off l = (WAL_OK, take n (drop off (lf_data l)), l)"
  by (simp add: log_read_def log_op_none)

lemma log_read_mid:
  "lf_faults l = None \<Longrightarrow> lf_data l = a @ b @ c \<Longrightarrow> length a = off \<Longrightarrow> length b = n \<Longrightarrow> log_read n off l = (WAL_OK, b, l)"
  by (subst log_read_none) auto

text \<open>The last commit among the frames: its number, the size of the database, and its checksum.\<close>

fun commit_info :: "bool \<Rightarrow> nat \<Rightarrow> u32 \<times> u32 \<Rightarrow> frame list \<Rightarrow> nat \<times> u32 \<times> (u32 \<times> u32) \<Rightarrow> nat \<times> u32 \<times> (u32 \<times> u32)" where
  "commit_info nv i c [] r = r"
| "commit_info nv i c (f # fs) r =
     commit_info nv (Suc i) (next_cksum nv c f) fs
       (if fst (snd f) \<noteq> 0 then (Suc i, fst (snd f), next_cksum nv c f) else r)"

text \<open>A handle that has indexed the frames of the pages \<open>pg\<close>, with the commit information \<open>r\<close>.\<close>

definition rec_state :: "Wal \<Rightarrow> bool \<Rightarrow> u8 list \<Rightarrow> nat \<Rightarrow> u32 \<times> u32 \<Rightarrow> u32 list \<Rightarrow> nat \<times> u32 \<times> (u32 \<times> u32) \<Rightarrow> bool" where
  "rec_state w nv salt sz c pg r \<longleftrightarrow> log_state w nv salt sz c \<and> wi_inv w pg \<and>
     mxFrame (hdr w) = fst r \<and> nPage (hdr w) = fst (snd r) \<and> fst r \<le> length pg \<and>
     (fst r \<noteq> 0 \<longrightarrow> hdr_szPage (hdr w) = hdr_page_size (int sz))"

lemma decode_cases:
  "walDecodeFrame w a f = (None, w) \<or> (\<exists>c. walDecodeFrame w a f = (None, w\<lparr>hdr := (hdr w)\<lparr>aFrameCksum := c\<rparr>\<rparr>)) \<or>
   (\<exists>p n c. p \<noteq> 0 \<and> walDecodeFrame w a f = (Some (p, n), w\<lparr>hdr := (hdr w)\<lparr>aFrameCksum := c\<rparr>\<rparr>))"
  by (auto simp: walDecodeFrame_def Let_def simp del: split_paired_Ex split_paired_All)

lemma append_ok:
  assumes "os_ok os" "wi_inv w pg" "p \<noteq> 0"
  shows "\<exists>w'. walIndexAppend os w (Suc (length pg)) p = (WAL_OK, w') \<and> same_wal w w' \<and> wi_inv w' (pg @ [p])"
proof -
  obtain rc w' where a: "walIndexAppend os w (Suc (length pg)) p = (rc, w')" by fastforce
  have i: "same_wal w w' \<and> (if rc = WAL_OK then wi_inv w' (take (Suc (length pg) - 1) pg @ [p])
      else rc = fst (walIndexPage os w (walFramePage (Suc (length pg)))) \<and> wi_inv w' pg)"
    by (rule walIndexAppend_inv [OF assms(2,3) _ _ _ a]) simp_all
  then have "rc = WAL_OK" using walIndexPage_ok [OF assms(1)] by (metis (full_types))
  then show ?thesis using a i by simp
qed

lemma recover_step:
  assumes "os_ok os" "lf_faults log = None" "lf_data log = pre @ frame_hdr nv salt c (p, n, d) @ d @ rest"
    "frame_ok sz (p, n, d)" "rec_state w nv salt sz c pg (m, np, ck)"
  shows "\<exists>w'. recover_loop os sz (length (lf_data log)) w log (length pre) (length pg) ck =
      recover_loop os sz (length (lf_data log)) w' log (length pre + (sz + WAL_FRAME_HDRSIZE)) (Suc (length pg))
        (if n \<noteq> 0 then next_cksum nv c (p, n, d) else ck) \<and>
    rec_state w' nv salt sz (next_cksum nv c (p, n, d)) (pg @ [p])
      (if n \<noteq> 0 then (Suc (length pg), n, next_cksum nv c (p, n, d)) else (m, np, ck)) \<and> nCkpt w' = nCkpt w"
proof -
  let ?c = "next_cksum nv c (p, n, d)"
  let ?f = "frame_hdr nv salt c (p, n, d) @ d"
  have w: "log_state w nv salt sz c" "wi_inv w pg" "mxFrame (hdr w) = m" "nPage (hdr w) = np" "m \<le> length pg"
    "m \<noteq> 0 \<longrightarrow> hdr_szPage (hdr w) = hdr_page_size (int sz)"
    using assms(5) by (simp_all add: rec_state_def)
  have l: "length salt = 8" "length d = sz" "p \<noteq> 0" using w(1) assms(4) by (simp_all add: log_state_def frame_ok_def)
  have lf: "length (frame_hdr nv salt c (p, n, d)) = WAL_FRAME_HDRSIZE" by (rule length_frame_hdr [OF l(1)])
  have len: "length pre + (sz + WAL_FRAME_HDRSIZE) \<le> length (lf_data log)" unfolding assms(3) using l lf by simp
  have rd: "log_read (sz + WAL_FRAME_HDRSIZE) (length pre) log = (WAL_OK, ?f, log)"
    using log_read_none [OF assms(2) len] unfolding assms(3) using l lf by (simp add: add.commute del: frame_hdr.simps)
  have dr: "drop WAL_FRAME_HDRSIZE ?f = d" using lf by (simp del: frame_hdr.simps)
  define w1 where "w1 = w\<lparr>hdr := (hdr w)\<lparr>aFrameCksum := ?c\<rparr>\<rparr>"
  have dec: "walDecodeFrame w d ?f = (Some (p, n), w1)"
    unfolding w1_def by (rule decode_frame [OF w(1) l(2,3)])
  have "wi_inv w1 pg" using w(2) by (simp add: w1_def wi_inv_def)
  from append_ok [OF assms(1) this l(3)] obtain w2 where w2: "walIndexAppend os w1 (Suc (length pg)) p = (WAL_OK, w2)"
    "same_wal w1 w2" "wi_inv w2 (pg @ [p])" by blast
  have h: "hdr w2 = (hdr w)\<lparr>aFrameCksum := ?c\<rparr>" "szPage w2 = szPage w" "nCkpt w2 = nCkpt w"
    using w2(2) by (simp_all add: same_wal_def w1_def)
  define w3 where "w3 = (if n \<noteq> 0 then w2\<lparr>hdr := (hdr w2)\<lparr>mxFrame := Suc (length pg), nPage := n, hdr_szPage := hdr_page_size (int sz)\<rparr>\<rparr> else w2)"
  have "recover_loop os sz (length (lf_data log)) w log (length pre) (length pg) ck =
      recover_loop os sz (length (lf_data log)) w3 log (length pre + (sz + WAL_FRAME_HDRSIZE)) (Suc (length pg)) (if n \<noteq> 0 then ?c else ck)"
    unfolding recover_loop.simps [of os sz "length (lf_data log)" w log "length pre" "length pg" ck]
    using len rd dr dec w2(1) h(1) by (simp add: w3_def del: frame_hdr.simps next_cksum.simps)
  moreover have "rec_state w3 nv salt sz ?c (pg @ [p]) (if n \<noteq> 0 then (Suc (length pg), n, ?c) else (m, np, ck)) \<and> nCkpt w3 = nCkpt w"
    using w h w2(3) unfolding rec_state_def log_state_def w3_def by (simp add: wi_inv_def del: next_cksum.simps)
  ultimately show ?thesis by blast
qed

lemma recover_frames:
  assumes "os_ok os" "lf_faults log = None"
  shows "lf_data log = pre @ log_bytes nv salt c fs @ rest \<Longrightarrow> list_all (frame_ok sz) fs \<Longrightarrow>
    rec_state w nv salt sz c pg (m, np, ck) \<Longrightarrow>
    \<exists>w'. recover_loop os sz (length (lf_data log)) w log (length pre) (length pg) ck =
      recover_loop os sz (length (lf_data log)) w' log (length pre + length (log_bytes nv salt c fs)) (length (pg @ map fst fs))
        (snd (snd (commit_info nv (length pg) c fs (m, np, ck)))) \<and>
    rec_state w' nv salt sz (log_cksum nv c fs) (pg @ map fst fs) (commit_info nv (length pg) c fs (m, np, ck)) \<and> nCkpt w' = nCkpt w"
proof (induction fs arbitrary: pre c w pg m np ck)
  case Nil
  then show ?case by auto
next
  case (Cons f fs)
  obtain p n d where f: "f = (p, n, d)" by (metis prod_cases3)
  have l: "length salt = 8" "length d = sz" using Cons.prems(2,3) f by (simp_all add: rec_state_def log_state_def frame_ok_def)
  have data: "lf_data log = pre @ frame_hdr nv salt c (p, n, d) @ d @ (log_bytes nv salt (next_cksum nv c (p, n, d)) fs @ rest)"
    using Cons.prems(1) f by simp
  have ok: "frame_ok sz (p, n, d)" using Cons.prems(2) f by simp
  let ?c = "next_cksum nv c (p, n, d)"
  define r where "r = (if n \<noteq> 0 then (Suc (length pg), n, ?c) else (m, np, ck))"
  obtain m1 np1 ck1 where r1: "r = (m1, np1, ck1)" by (metis prod_cases3)
  have ck1: "(if n \<noteq> 0 then ?c else ck) = ck1" using r1 by (auto simp: r_def split: if_splits)
  obtain w1 where w1: "recover_loop os sz (length (lf_data log)) w log (length pre) (length pg) ck =
      recover_loop os sz (length (lf_data log)) w1 log (length pre + (sz + WAL_FRAME_HDRSIZE)) (Suc (length pg)) ck1"
    "rec_state w1 nv salt sz ?c (pg @ [p]) (m1, np1, ck1)" "nCkpt w1 = nCkpt w"
    using recover_step [OF assms data ok Cons.prems(3)] unfolding ck1 r_def [symmetric] r1 by blast
  define pre1 where "pre1 = pre @ frame_hdr nv salt c (p, n, d) @ d"
  have lp: "length pre1 = length pre + (sz + WAL_FRAME_HDRSIZE)" using l by (simp add: pre1_def del: frame_hdr.simps)
  have data1: "lf_data log = pre1 @ log_bytes nv salt ?c fs @ rest" using data by (simp add: pre1_def)
  from Cons.IH [OF data1 _ w1(2)] Cons.prems(2) obtain w2 where w2:
    "recover_loop os sz (length (lf_data log)) w1 log (length pre1) (length (pg @ [p])) ck1 =
      recover_loop os sz (length (lf_data log)) w2 log (length pre1 + length (log_bytes nv salt ?c fs)) (length ((pg @ [p]) @ map fst fs))
        (snd (snd (commit_info nv (length (pg @ [p])) ?c fs (m1, np1, ck1))))"
    "rec_state w2 nv salt sz (log_cksum nv ?c fs) ((pg @ [p]) @ map fst fs) (commit_info nv (length (pg @ [p])) ?c fs (m1, np1, ck1))"
    "nCkpt w2 = nCkpt w1" by auto
  have ci: "commit_info nv (length pg) c (f # fs) (m, np, ck) = commit_info nv (length (pg @ [p])) ?c fs (m1, np1, ck1)"
    using r1 by (cases "n = 0") (auto simp add: f r_def simp del: next_cksum.simps)
  have lb: "length pre + length (log_bytes nv salt c (f # fs)) = length pre1 + length (log_bytes nv salt ?c fs)"
    using l lp f by (simp del: frame_hdr.simps next_cksum.simps)
  show ?case
    using w1(1,3) w2 lp unfolding ci lb by (intro exI [of _ w2]) (simp add: f del: next_cksum.simps)
qed


text \<open>Recovery stops at the first bytes that are not a valid frame.\<close>

definition frame_valid :: "bool \<Rightarrow> u8 list \<Rightarrow> nat \<Rightarrow> u32 \<times> u32 \<Rightarrow> u8 list \<Rightarrow> bool" where
  "frame_valid nv salt sz c z \<longleftrightarrow> sz + WAL_FRAME_HDRSIZE \<le> length z \<and> take 8 (drop 8 z) = salt \<and> get4 z 0 \<noteq> 0 \<and>
     (let c = walChecksumBytes nv (take sz (drop WAL_FRAME_HDRSIZE z)) (Some (walChecksumBytes nv (take 8 z) (Some c)))
      in fst c = get4 z 16 \<and> snd c = get4 z 20)"

lemma get4_take: "i + 4 \<le> n \<Longrightarrow> get4 (take n z) i = get4 z i"
proof -
  assume "i + 4 \<le> n"
  then have "mem_of (drop i (take n z)) k = mem_of (drop i z) k" if "k < 4" for k
    using that by (auto simp: mem_of_def drop_take)
  then show ?thesis by (simp add: get4_def sqlite3Get4byte_def)
qed

lemma recover_stop:
  assumes "lf_faults log = None" "lf_data log = pre @ rest" "\<not> frame_valid nv salt sz c rest"
    "rec_state w nv salt sz c pg r"
  shows "\<exists>w' c'. recover_loop os sz (length (lf_data log)) w log (length pre) (length pg) ck = (WAL_OK, w', log, ck) \<and>
    rec_state w' nv salt sz c' pg r \<and> nCkpt w' = nCkpt w"
proof (cases "sz + WAL_FRAME_HDRSIZE \<le> length rest")
  case False
  then have "recover_loop os sz (length (lf_data log)) w log (length pre) (length pg) ck = (WAL_OK, w, log, ck)"
    using assms(2) by (subst recover_loop.simps) simp
  then show ?thesis using assms(4) by (intro exI [of _ w] exI [of _ c]) simp
next
  case True
  define fr where "fr = take (sz + WAL_FRAME_HDRSIZE) rest"
  have len: "length pre + (sz + WAL_FRAME_HDRSIZE) \<le> length (lf_data log)" using True assms(2) by simp
  have rd: "log_read (sz + WAL_FRAME_HDRSIZE) (length pre) log = (WAL_OK, fr, log)"
    using log_read_none [OF assms(1) len] unfolding assms(2) by (simp add: fr_def)
  have g: "get4 fr 0 = get4 rest 0" "get4 fr 16 = get4 rest 16" "get4 fr 20 = get4 rest 20"
    unfolding fr_def by (rule get4_take; simp add: WAL_FRAME_HDRSIZE_def)+
  have t: "take 8 fr = take 8 rest" "take 8 (drop 8 fr) = take 8 (drop 8 rest)"
    "drop WAL_FRAME_HDRSIZE fr = take sz (drop WAL_FRAME_HDRSIZE rest)"
    by (simp_all add: fr_def WAL_FRAME_HDRSIZE_def drop_take)
  have "fst (walDecodeFrame w (drop WAL_FRAME_HDRSIZE fr) fr) = None"
    using assms(3,4) True unfolding frame_valid_def rec_state_def log_state_def
    by (auto simp: walDecodeFrame_def Let_def g t)
  then obtain w' where w': "walDecodeFrame w (drop WAL_FRAME_HDRSIZE fr) fr = (None, w')"
    "w' = w \<or> (\<exists>c. w' = w\<lparr>hdr := (hdr w)\<lparr>aFrameCksum := c\<rparr>\<rparr>)"
    using decode_cases [of w "drop WAL_FRAME_HDRSIZE fr" fr] by auto
  have "recover_loop os sz (length (lf_data log)) w log (length pre) (length pg) ck = (WAL_OK, w', log, ck)"
    using len rd w'(1) by (subst recover_loop.simps) simp
  moreover have "\<exists>c'. rec_state w' nv salt sz c' pg r" "nCkpt w' = nCkpt w"
    using assms(4) w'(2) unfolding rec_state_def log_state_def by (auto simp: wi_inv_def)
  ultimately show ?thesis by blast
qed

text \<open>Any bytes are valid frames followed by something that is not a valid frame.\<close>

lemma put4byte_get4byte: "sqlite3Put4byte (sqlite3Get4byte p) = [p 0, p 1, p 2, p 3]"
proof -
  have "ucast (drop_bit 24 (sqlite3Get4byte p)) = p 0" "ucast (drop_bit 16 (sqlite3Get4byte p)) = p 1"
    "ucast (drop_bit 8 (sqlite3Get4byte p)) = p 2" "ucast (sqlite3Get4byte p) = p 3"
    unfolding sqlite3Get4byte_def by (rule bit_word_eqI; auto simp: bit_simps dest: bit_imp_le_length)+
  then show ?thesis by (simp add: sqlite3Put4byte_def)
qed

lemma put4_get4: "i + 4 \<le> length z \<Longrightarrow> sqlite3Put4byte (get4 z i) = take 4 (drop i z)"
  unfolding get4_def put4byte_get4byte
  by (rule nth_equalityI) (auto simp: mem_of_def less_Suc_eq numeral_eq_Suc)

lemma frame_valid_frame:
  assumes "frame_valid nv salt sz c z"
  shows "\<exists>f rest. z = frame_hdr nv salt c f @ snd (snd f) @ rest \<and> frame_ok sz f \<and> length rest < length z"
proof -
  define p n d where "p = get4 z 0" and "n = get4 z 4" and "d = take sz (drop WAL_FRAME_HDRSIZE z)"
  have l: "sz + 24 \<le> length z" using assms by (simp add: frame_valid_def WAL_FRAME_HDRSIZE_def)
  have s: "take 8 (drop 8 z) = salt" "p \<noteq> 0" using assms by (simp_all add: frame_valid_def p_def)
  have pn: "sqlite3Put4byte p = take 4 z" "sqlite3Put4byte n = take 4 (drop 4 z)"
    using put4_get4 [of 0 z] put4_get4 [of 4 z] l by (simp_all add: p_def n_def)
  have t8: "sqlite3Put4byte p @ sqlite3Put4byte n = take 8 z" unfolding pn using take_add [of 4 4 z] by simp
  have ck: "next_cksum nv c (p, n, d) = (get4 z 16, get4 z 20)"
    using assms by (simp add: frame_valid_def Let_def t8 d_def prod_eq_iff)
  have g: "sqlite3Put4byte (get4 z 16) = take 4 (drop 16 z)" "sqlite3Put4byte (get4 z 20) = take 4 (drop 20 z)"
    using put4_get4 [of 16 z] put4_get4 [of 20 z] l by simp_all
  have "frame_hdr nv salt c (p, n, d) = take 8 z @ take 8 (drop 8 z) @ take 4 (drop 16 z) @ take 4 (drop 20 z)"
    unfolding frame_hdr.simps ck fst_conv snd_conv g s t8 [symmetric] by simp
  also have "\<dots> = take 24 z" using take_add [of 8 16 z] take_add [of 8 8 "drop 8 z"] take_add [of 4 4 "drop 16 z"] by simp
  finally have h: "frame_hdr nv salt c (p, n, d) = take 24 z" .
  have "z = frame_hdr nv salt c (p, n, d) @ d @ drop sz (drop 24 z)" unfolding h
    by (simp only: d_def WAL_FRAME_HDRSIZE_def append_take_drop_id)
  moreover have "frame_ok sz (p, n, d)" using l s by (simp add: frame_ok_def d_def WAL_FRAME_HDRSIZE_def)
  moreover have "length (drop sz (drop 24 z)) < length z" using l by simp
  ultimately show ?thesis by (metis snd_conv)
qed

lemma log_split:
  "\<exists>gs tail. z = log_bytes nv salt c gs @ tail \<and> list_all (frame_ok sz) gs \<and> \<not> frame_valid nv salt sz (log_cksum nv c gs) tail"
proof (induction "length z" arbitrary: z c rule: less_induct)
  case less
  show ?case
  proof (cases "frame_valid nv salt sz c z")
    case True
    then obtain f rest where f: "z = frame_hdr nv salt c f @ snd (snd f) @ rest" "frame_ok sz f" "length rest < length z"
      using frame_valid_frame by blast
    from less [OF f(3)] obtain gs tail where g: "rest = log_bytes nv salt (next_cksum nv c f) gs @ tail" "list_all (frame_ok sz) gs"
      "\<not> frame_valid nv salt sz (log_cksum nv (next_cksum nv c f) gs) tail" by blast
    show ?thesis
      by (rule exI [of _ "f # gs"], rule exI [of _ tail]) (use f g in simp)
  next
    case False
    show ?thesis by (rule exI [of _ "[]"], rule exI [of _ z]) (use False in simp)
  qed
qed

section \<open>Recovery from a whole log\<close>

definition wal_header :: "bool \<Rightarrow> u8 list \<Rightarrow> nat \<Rightarrow> u32 \<Rightarrow> u8 list" where
  "wal_header be salt sz nc =
     (let b = sqlite3Put4byte (WAL_MAGIC OR (if be then 1 else 0)) @ sqlite3Put4byte WAL_MAX_VERSION @
              sqlite3Put4byte (of_nat sz) @ sqlite3Put4byte nc @ salt;
          c = walChecksumBytes (be = SQLITE_BIGENDIAN) b None
      in b @ sqlite3Put4byte (fst c) @ sqlite3Put4byte (snd c))"

definition header_cksum :: "bool \<Rightarrow> u8 list \<Rightarrow> nat \<Rightarrow> u32 \<Rightarrow> u32 \<times> u32" where
  "header_cksum be salt sz nc =
     walChecksumBytes (be = SQLITE_BIGENDIAN) (take 24 (wal_header be salt sz nc)) None"

definition page_sizes :: "nat list" where
  "page_sizes = [512, 1024, 2048, 4096, 8192, 16384, 32768, 65536]"

lemma page_size_ok:
  assumes "sz \<in> set page_sizes"
  shows "sint (of_nat sz :: u32) = int sz" "int sz AND (int sz - 1) = 0" "512 \<le> sz" "sz \<le> 65536"
    "nat ((uint (hdr_page_size (int sz)) AND 0xfe00) + push_bit 16 (uint (hdr_page_size (int sz)) AND 0x0001)) = sz"
  using assms by (auto simp: page_sizes_def hdr_page_size_def)

lemma recover_header:
  assumes "lf_data log = wal_header be salt sz nc @ body" "body \<noteq> []" "length salt = 8" "sz \<in> set page_sizes"
    "lf_faults log = None" "\<forall>i n. walLockExclusive env w cnt i n = WAL_OK" "env_malloc env"
  shows "walIndexRecover env cnt w log =
    (let w0 = w\<lparr>hdr := no_hdr\<lparr>bigEndCksum := be, aSalt := salt, aFrameCksum := header_cksum be salt sz nc\<rparr>,
           szPage := int sz, nCkpt := nc\<rparr>;
         (rc, w1, log, ck) = recover_loop (env_os env) sz (length (lf_data log)) w0 log WAL_HDRSIZE 0 (0, 0);
         (rc, w1) = recover_finish rc w1 ck
     in (rc, w1, log))"
proof -
  let ?m = "WAL_MAGIC OR (if be then 1 else 0)"
  let ?b = "sqlite3Put4byte ?m @ sqlite3Put4byte WAL_MAX_VERSION @ sqlite3Put4byte (of_nat sz) @ sqlite3Put4byte nc @ salt"
  let ?c = "walChecksumBytes (be = SQLITE_BIGENDIAN) ?b None"
  let ?h = "wal_header be salt sz nc"
  have h: "?h = ?b @ sqlite3Put4byte (fst ?c) @ sqlite3Put4byte (snd ?c)" by (simp add: wal_header_def Let_def)
  have lh: "length ?h = WAL_HDRSIZE" unfolding h using assms(3) by (simp add: WAL_HDRSIZE_def)
  have t24: "take 24 ?h = ?b" unfolding h using assms(3) by simp
  have g: "get4 ?h 0 = ?m" "get4 ?h 4 = WAL_MAX_VERSION" "get4 ?h 8 = of_nat sz" "get4 ?h 12 = nc"
    "get4 ?h 24 = fst ?c" "get4 ?h 28 = snd ?c" "take 8 (drop 16 ?h) = salt"
    unfolding h using assms(3) by (auto intro!: get4_put4)
  have data: "lf_data log = ?h @ body" "length (lf_data log) > WAL_HDRSIZE" using assms(1,2) lh by simp_all
  have ls: "log_size log = (WAL_OK, length (lf_data log), log)" using assms(5) by (simp add: log_size_def log_op_none)
  have rd: "log_read WAL_HDRSIZE 0 log = (WAL_OK, ?h, log)"
    using log_read_none [OF assms(5), of 0 WAL_HDRSIZE] data lh by simp
  have m: "?m AND 0xFFFFFFFE = WAL_MAGIC" "(?m AND 1 \<noteq> 0) = be" by (simp_all add: WAL_MAGIC_def)
  have c: "walChecksumBytes (be = SQLITE_BIGENDIAN) (take (WAL_HDRSIZE - 8) ?h) None = header_cksum be salt sz nc" "?c = header_cksum be salt sz nc"
    by (simp_all add: header_cksum_def WAL_HDRSIZE_def t24)
  have s: "sint (of_nat sz :: u32) = int sz" "int sz AND (int sz - 1) = 0" "\<not> int sz > 65536" "\<not> int sz < 512"
    using page_size_ok(1-4) [OF assms(4)] by simp_all
  have ck: "\<not> (fst ?c \<noteq> get4 ?h 24 \<or> snd ?c \<noteq> get4 ?h 28)" using g by simp
  show ?thesis
    unfolding walIndexRecover_def Let_def using assms(6,7) data(2) ls rd m s g c
    by (simp split: prod.splits)
qed


section \<open>Recovery keeps exactly the committed frames\<close>

text \<open>The frames up to the last commit, and the pages they hold.\<close>

fun committed :: "frame list \<Rightarrow> frame list" where
  "committed [] = []"
| "committed (f # fs) = (if committed fs = [] \<and> fst (snd f) = 0 then [] else f # committed fs)"

definition log_content :: "frame list \<Rightarrow> u32 \<rightharpoonup> u8 list" where
  "log_content fs = map_of (rev (map (\<lambda>(p, n, d). (p, d)) fs))"

lemma committed_prefix: "\<exists>ms. fs = committed fs @ ms"
  by (induction fs) auto

lemma commit_info_eq:
  "commit_info nv i c fs r = (if committed fs = [] then r
    else (i + length (committed fs), fst (snd (last (committed fs))), log_cksum nv c (committed fs)))"
  by (induction fs arbitrary: i c r) (simp_all del: next_cksum.simps)

lemma last_frame_snoc: "n \<le> length ks \<Longrightarrow> last_frame (ks @ ks') k lo n = last_frame ks k lo n"
  by (induction n) (simp_all add: nth_append)

lemma log_content_last:
  "log_content fs p = (let i = last_frame (map fst fs) p 1 (length fs) in if i = 0 then None else Some (snd (snd (fs ! (i - 1)))))"
proof (induction fs rule: rev_induct)
  case Nil
  then show ?case by (simp add: log_content_def)
next
  case (snoc f fs)
  have l: "last_frame (map fst (fs @ [f])) p 1 (length (fs @ [f])) =
      (if fst f = p then Suc (length fs) else last_frame (map fst fs) p 1 (length fs))"
    using last_frame_snoc [of "length fs" "map fst fs" "[fst f]" p 1] by (simp add: nth_append)
  have lt: "last_frame (map fst fs) p 1 (length fs) \<le> length fs"
    using last_frame_cases [of "map fst fs" p 1 "length fs"] by linarith
  have c: "log_content (fs @ [f]) p = (if fst f = p then Some (snd (snd f)) else log_content fs p)"
    by (cases f) (simp add: log_content_def)
  show ?case
    unfolding c l using snoc lt by (auto simp: Let_def nth_append)
qed

lemma read_frame:
  assumes "lf_faults log = None" "lf_data log = h @ log_bytes nv salt c fs @ tail" "length h = WAL_HDRSIZE" "length salt = 8"
    "list_all (frame_ok sz) fs" "sz \<in> set page_sizes" "0 < i" "i \<le> length fs" "hdr_szPage (hdr r) = hdr_page_size (int sz)"
  shows "sqlite3WalReadFrame r log i sz = (WAL_OK, snd (snd (fs ! (i - 1))), log)"
proof -
  define f c1 gs where "f = fs ! (i - 1)" and "c1 = log_cksum nv c (take (i - 1) fs)" and "gs = drop i fs"
  have fs: "fs = take (i - 1) fs @ f # gs" unfolding f_def gs_def using assms(7,8) id_take_nth_drop [of "i - 1" fs] by simp
  have lt: "length (take (i - 1) fs) = i - 1" using assms(7,8) by simp
  have okt: "list_all (frame_ok sz) (take (i - 1) fs)" "frame_ok sz f"
    using assms(5) fs by (metis list_all_append, metis list_all_append list.pred_inject(2))
  have "log_bytes nv salt c fs = log_bytes nv salt c (take (i - 1) fs) @ frame_hdr nv salt c1 f @ snd (snd f) @ log_bytes nv salt (next_cksum nv c1 f) gs"
    by (subst fs) (simp add: log_bytes_append c1_def)
  then have d: "lf_data log = (h @ log_bytes nv salt c (take (i - 1) fs) @ frame_hdr nv salt c1 f) @ snd (snd f) @ log_bytes nv salt (next_cksum nv c1 f) gs @ tail"
    using assms(2) by simp
  have off: "length (h @ log_bytes nv salt c (take (i - 1) fs) @ frame_hdr nv salt c1 f) = walFrameOffset i sz + WAL_FRAME_HDRSIZE"
    using assms(3,4) length_log_bytes [OF assms(4) okt(1), of nv c] lt by (simp add: walFrameOffset_def)
  have sz: "length (snd (snd f)) = sz" using okt(2) by (simp add: frame_ok_def)
  have "log_read sz (walFrameOffset i sz + WAL_FRAME_HDRSIZE) log = (WAL_OK, snd (snd f), log)"
    by (rule log_read_mid [OF assms(1) d off sz])
  then show ?thesis
    unfolding sqlite3WalReadFrame_def assms(9) Let_def page_size_ok(5) [OF assms(6)] f_def by simp
qed

text \<open>A log file with these frames, and the checksum of its last frame.\<close>

definition log_file :: "bool \<Rightarrow> u8 list \<Rightarrow> nat \<Rightarrow> u32 \<Rightarrow> frame list \<Rightarrow> u8 list" where
  "log_file be salt sz nc fs = wal_header be salt sz nc @ log_bytes (be = SQLITE_BIGENDIAN) salt (header_cksum be salt sz nc) fs"

definition file_cksum :: "bool \<Rightarrow> u8 list \<Rightarrow> nat \<Rightarrow> u32 \<Rightarrow> frame list \<Rightarrow> u32 \<times> u32" where
  "file_cksum be salt sz nc fs = log_cksum (be = SQLITE_BIGENDIAN) (header_cksum be salt sz nc) fs"

text \<open>
  A reader of the recovered index: it takes the header and looks for every page, and finds exactly
  what the frames \<open>fs\<close> of the log hold.
\<close>

definition reads_content :: "wal_os \<Rightarrow> Wal \<Rightarrow> wal_log \<Rightarrow> nat \<Rightarrow> (u32 \<rightharpoonup> u8 list) \<Rightarrow> bool" where
  "reads_content os r log sz m \<longleftrightarrow> (\<forall>p. \<exists>i r'. sqlite3WalFindFrame os r p = (WAL_OK, i, r') \<and>
     (case m p of None \<Rightarrow> i = 0 | Some d \<Rightarrow> i \<noteq> 0 \<and> sqlite3WalReadFrame r' log i sz = (WAL_OK, d, log)))"

lemma length_wal_header: "length salt = 8 \<Longrightarrow> length (wal_header be salt sz nc) = WAL_HDRSIZE"
  by (simp add: wal_header_def Let_def WAL_HDRSIZE_def)

lemma reads_content_log:
  assumes "os_ok os" "lf_faults log = None" "lf_data log = log_file be salt sz nc fs @ tail" "length salt = 8"
    "list_all (frame_ok sz) fs" "sz \<in> set page_sizes" "wi_inv r (map fst fs @ ms)" "mxFrame (hdr r) = length fs"
    "readLock r \<noteq> 0" "minFrame r = 1" "fs \<noteq> [] \<longrightarrow> hdr_szPage (hdr r) = hdr_page_size (int sz)"
  shows "reads_content os r log sz (log_content fs)"
  unfolding reads_content_def
proof
  fix p
  obtain rc i r' where f: "sqlite3WalFindFrame os r p = (rc, i, r')" by (metis prod_cases3)
  note g = find_frame [OF assms(7) _ f]
  have lf: "last_frame (map fst fs @ ms) p 1 (length fs) = last_frame (map fst fs) p 1 (length fs)"
    by (rule last_frame_snoc) simp
  have i: "rc = WAL_OK" "i = last_frame (map fst fs) p 1 (length fs)" "hdr r' = hdr r"
    using g assms(1,8,9,10) lf by (simp_all add: same_wal_def)
  have "case log_content fs p of None \<Rightarrow> i = 0 | Some d \<Rightarrow> i \<noteq> 0 \<and> sqlite3WalReadFrame r' log i sz = (WAL_OK, d, log)"
  proof (cases "i = 0")
    case True
    then show ?thesis using i(2) log_content_last [of fs p] by simp
  next
    case False
    have le: "i \<le> length fs" using last_frame_cases [of "map fst fs" p 1 "length fs"] i(2) by linarith
    then have ne: "fs \<noteq> []" using False by auto
    have "sqlite3WalReadFrame r' log i sz = (WAL_OK, snd (snd (fs ! (i - 1))), log)"
      by (rule read_frame [OF assms(2) _ length_wal_header [OF assms(4)] assms(4-6) _ le])
        (use assms(3,11) i(3) ne False in \<open>simp_all add: log_file_def\<close>)
    then show ?thesis using False i(2) log_content_last [of fs p] by simp
  qed
  then show "\<exists>i r'. sqlite3WalFindFrame os r p = (WAL_OK, i, r') \<and>
     (case log_content fs p of None \<Rightarrow> i = 0 | Some d \<Rightarrow> i \<noteq> 0 \<and> sqlite3WalReadFrame r' log i sz = (WAL_OK, d, log))"
    using f i(1) by blast
qed

text \<open>The shared header is complete after recovery, and any handle that reads it takes it over.\<close>

lemma wi_inv_reader [simp]: "wi_inv (w\<lparr>readLock := a, minFrame := b\<rparr>) pg = wi_inv w pg"
  by (simp add: wi_inv_def)

lemma hdr_bytes_cksum [simp]: "hdr_bytes (h\<lparr>aCksum := c\<rparr>) = hdr_bytes h"
  by (simp add: hdr_bytes_def)

lemma tryHdr_write: "walIndexTryHdr (walIndexWriteHdr w) = (False, False, walIndexWriteHdr w)"
  by (simp add: walIndexTryHdr_def walIndexWriteHdr_def Let_def)

definition recovered :: "Wal \<Rightarrow> frame list \<Rightarrow> bool" where
  "recovered w fs \<longleftrightarrow> live_hdr w = hdr w \<and> live_hdr2 w = hdr w \<and> isInit (hdr w) \<and>
     aCksum (hdr w) = walChecksumBytes True (hdr_bytes (hdr w)) None \<and> iVersion (hdr w) = WALINDEX_MAX_VERSION \<and>
     mxFrame (hdr w) = length fs \<and> nPage (hdr w) = (if fs = [] then 0 else fst (snd (last fs))) \<and>
     (\<exists>ms. wi_inv w (map fst fs @ ms)) \<and>
     nBackfill (ckpt w) = 0 \<and> aReadMark (ckpt w) ! 0 = 0 \<and> aReadMark (ckpt w) ! 1 = (if fs = [] then READMARK_NOT_USED else length fs)"

lemma recover_finish_eq:
  assumes "recover_finish WAL_OK w ck = (rc, w')" "mxFrame (hdr w) = length fs"
    "nPage (hdr w) = (if fs = [] then 0 else fst (snd (last fs)))" "wi_inv w (map fst fs @ ms)"
  shows "rc = WAL_OK \<and> recovered w' fs \<and> aFrameCksum (hdr w') = ck \<and> hdr_szPage (hdr w') = hdr_szPage (hdr w) \<and>
    aSalt (hdr w') = aSalt (hdr w) \<and> bigEndCksum (hdr w') = bigEndCksum (hdr w) \<and> szPage w' = szPage w \<and> nCkpt w' = nCkpt w"
  using assms unfolding recover_finish_def walIndexWriteHdr_def
  by (auto simp: recovered_def Let_def wi_inv_def WAL_NREADER_def)

lemma recovered_tryHdr:
  assumes "recovered w fs"
  shows "\<exists>ch r. walIndexTryHdr (w\<lparr>hdr := h\<rparr>) = (False, ch, r) \<and> hdr r = hdr w \<and> (\<forall>pg. wi_inv r pg = wi_inv w pg)"
  using assms by (auto simp: recovered_def walIndexTryHdr_def Let_def wi_inv_def)

lemma recovery_index:
  assumes os: "os_ok (env_os env)" "\<forall>cnt i n. env_excl env cnt i n = WAL_OK" "env_malloc env" "lf_faults log = None"
    and data: "lf_data log = log_file be salt sz nc fs @ tail"
    and fmt: "length salt = 8" "sz \<in> set page_sizes" "list_all (frame_ok sz) fs"
    and stop: "\<not> frame_valid (be = SQLITE_BIGENDIAN) salt sz (file_cksum be salt sz nc fs) tail"
  shows "\<exists>w'. walIndexRecover env cnt w log = (WAL_OK, w', log) \<and> recovered w' (committed fs) \<and>
    (committed fs \<noteq> [] \<longrightarrow> aFrameCksum (hdr w') = file_cksum be salt sz nc (committed fs) \<and> aSalt (hdr w') = salt \<and>
      hdr_szPage (hdr w') = hdr_page_size (int sz))"
proof -
  let ?nv = "be = SQLITE_BIGENDIAN"
  let ?c = "header_cksum be salt sz nc"
  define body where "body = log_bytes ?nv salt ?c fs @ tail"
  have lock: "\<forall>i n. walLockExclusive env w cnt i n = WAL_OK" using os(2) by (simp add: walLockExclusive_def)
  obtain ms where ms: "fs = committed fs @ ms" using committed_prefix by blast
  show ?thesis
  proof (cases "body = []")
    case True
    have e: "fs = []" using True by (cases fs) (auto simp: body_def WAL_FRAME_HDRSIZE_def dest: arg_cong [of _ _ length])
    have "length (lf_data log) = WAL_HDRSIZE"
      using data True length_wal_header [OF fmt(1)] by (simp add: log_file_def body_def [symmetric])
    then have ls: "log_size log = (WAL_OK, WAL_HDRSIZE, log)" using os(4) by (simp add: log_size_def log_op_none)
    obtain rc w3 where w3: "recover_finish WAL_OK (w\<lparr>hdr := no_hdr\<rparr>) (0, 0) = (rc, w3)" by fastforce
    have "walIndexRecover env cnt w log = (rc, w3, log)"
      using lock ls w3 unfolding walIndexRecover_def Let_def by simp
    then show ?thesis
      using recover_finish_eq [OF w3, of "[]" "[]"] by (simp add: e no_hdr_def wi_inv_def)
  next
    case False
    define w0 where "w0 = w\<lparr>hdr := no_hdr\<lparr>bigEndCksum := be, aSalt := salt, aFrameCksum := ?c\<rparr>, szPage := int sz, nCkpt := nc\<rparr>"
    have d: "lf_data log = wal_header be salt sz nc @ body" using data by (simp add: log_file_def body_def)
    have r0: "rec_state w0 ?nv salt sz ?c [] (0, 0, (0, 0))"
      using fmt(1) by (simp add: rec_state_def log_state_def w0_def wi_inv_def no_hdr_def)
    from recover_frames [OF os(1,4) _ fmt(3) r0, of "wal_header be salt sz nc" tail] d obtain w1 where w1:
      "recover_loop (env_os env) sz (length (lf_data log)) w0 log WAL_HDRSIZE 0 (0, 0) =
        recover_loop (env_os env) sz (length (lf_data log)) w1 log
          (length (wal_header be salt sz nc @ log_bytes ?nv salt ?c fs)) (length (map fst fs)) (snd (snd (commit_info ?nv 0 ?c fs (0, 0, (0, 0)))))"
      "rec_state w1 ?nv salt sz (log_cksum ?nv ?c fs) (map fst fs) (commit_info ?nv 0 ?c fs (0, 0, (0, 0)))"
      using length_wal_header [OF fmt(1)] by (auto simp: body_def)
    have d1: "lf_data log = (wal_header be salt sz nc @ log_bytes ?nv salt ?c fs) @ tail" using d by (simp add: body_def)
    from recover_stop [OF os(4) d1 stop [unfolded file_cksum_def] w1(2)] obtain w2 c' where w2:
      "recover_loop (env_os env) sz (length (lf_data log)) w0 log WAL_HDRSIZE 0 (0, 0) =
         (WAL_OK, w2, log, snd (snd (commit_info ?nv 0 ?c fs (0, 0, (0, 0)))))"
      "rec_state w2 ?nv salt sz c' (map fst fs) (commit_info ?nv 0 ?c fs (0, 0, (0, 0)))"
      unfolding w1(1) by blast
    obtain rc w3 where w3: "recover_finish WAL_OK w2 (snd (snd (commit_info ?nv 0 ?c fs (0, 0, (0, 0))))) = (rc, w3)" by fastforce
    have s2: "mxFrame (hdr w2) = length (committed fs)" "nPage (hdr w2) = (if committed fs = [] then 0 else fst (snd (last (committed fs))))"
      "wi_inv w2 (map fst (committed fs) @ map fst ms)" "aSalt (hdr w2) = salt"
      "committed fs \<noteq> [] \<longrightarrow> hdr_szPage (hdr w2) = hdr_page_size (int sz)"
      using w2(2) ms by (auto simp: rec_state_def log_state_def commit_info_eq simp flip: map_append split: if_splits)
    have "walIndexRecover env cnt w log = (rc, w3, log)"
      unfolding recover_header [OF d False fmt(1,2) os(4) lock os(3)] w0_def [symmetric] Let_def w2(1) by (simp add: w3)
    then show ?thesis
      using recover_finish_eq [OF w3 s2(1-3)] s2(4,5) by (simp add: commit_info_eq file_cksum_def)
  qed
qed

lemma recovered_reads:
  assumes os: "os_ok (env_os env)" "lf_faults log = None"
    and data: "lf_data log = log_file be salt sz nc fs @ tail"
    and fmt: "length salt = 8" "sz \<in> set page_sizes" "list_all (frame_ok sz) fs"
    and w': "recovered w' (committed fs)" "committed fs \<noteq> [] \<longrightarrow> hdr_szPage (hdr w') = hdr_page_size (int sz)"
  shows "\<exists>ch r. walIndexTryHdr (w'\<lparr>hdr := h\<rparr>) = (False, ch, r) \<and> hdr r = hdr w' \<and>
       reads_content (env_os env) (r\<lparr>readLock := 1, minFrame := 1\<rparr>) log sz (log_content (committed fs))"
proof -
  let ?nv = "be = SQLITE_BIGENDIAN"
  let ?c = "header_cksum be salt sz nc"
  obtain ms where ms: "fs = committed fs @ ms" using committed_prefix by blast
  have okc: "list_all (frame_ok sz) (committed fs)" using fmt(3) ms by (metis list_all_append)
  obtain ch r where r: "walIndexTryHdr (w'\<lparr>hdr := h\<rparr>) = (False, ch, r)" "hdr r = hdr w'" "\<forall>pg. wi_inv r pg = wi_inv w' pg"
    using recovered_tryHdr [OF w'(1)] by blast
  obtain mm where m: "wi_inv w' (map fst (committed fs) @ mm)" "mxFrame (hdr w') = length (committed fs)"
    using w'(1) by (auto simp: recovered_def)
  have "lf_data log = log_file be salt sz nc (committed fs) @ (log_bytes ?nv salt (log_cksum ?nv ?c (committed fs)) ms @ tail)"
    using data ms by (metis append.assoc log_bytes_append log_file_def)
  then have "reads_content (env_os env) (r\<lparr>readLock := 1, minFrame := 1\<rparr>) log sz (log_content (committed fs))"
    by (rule reads_content_log [OF os _ fmt(1) okc fmt(2), where ms = mm])
      (use m r w'(2) in simp_all)
  then show ?thesis using r by blast
qed

text \<open>
  C1: recovery. Take a log file that holds the frames \<open>fs\<close> and after them anything that is not a valid
  next frame. Recovery succeeds, indexes exactly the frames up to the last commit (none, when there
  is no commit), publishes a header that every other handle accepts, and a reader then finds for
  every page the last content committed for it, and no frame for a page that has none.
\<close>

theorem wal_recovery:
  assumes os: "os_ok (env_os env)" "\<forall>cnt i n. env_excl env cnt i n = WAL_OK" "env_malloc env" "lf_faults log = None"
    and data: "lf_data log = log_file be salt sz nc fs @ tail"
    and fmt: "length salt = 8" "sz \<in> set page_sizes" "list_all (frame_ok sz) fs"
    and stop: "\<not> frame_valid (be = SQLITE_BIGENDIAN) salt sz (file_cksum be salt sz nc fs) tail"
  shows "\<exists>w'. walIndexRecover env cnt w log = (WAL_OK, w', log) \<and> recovered w' (committed fs) \<and>
    (committed fs \<noteq> [] \<longrightarrow> aFrameCksum (hdr w') = file_cksum be salt sz nc (committed fs) \<and> aSalt (hdr w') = salt) \<and>
    (\<forall>h. \<exists>ch r. walIndexTryHdr (w'\<lparr>hdr := h\<rparr>) = (False, ch, r) \<and> hdr r = hdr w' \<and>
       reads_content (env_os env) (r\<lparr>readLock := 1, minFrame := 1\<rparr>) log sz (log_content (committed fs)))"
proof -
  obtain w' where w': "walIndexRecover env cnt w log = (WAL_OK, w', log)" "recovered w' (committed fs)"
    "committed fs \<noteq> [] \<longrightarrow> aFrameCksum (hdr w') = file_cksum be salt sz nc (committed fs) \<and> aSalt (hdr w') = salt \<and>
      hdr_szPage (hdr w') = hdr_page_size (int sz)" using recovery_index [OF os data fmt stop] by blast
  have "\<exists>ch r. walIndexTryHdr (w'\<lparr>hdr := h\<rparr>) = (False, ch, r) \<and> hdr r = hdr w' \<and>
       reads_content (env_os env) (r\<lparr>readLock := 1, minFrame := 1\<rparr>) log sz (log_content (committed fs))" for h
    by (rule recovered_reads [OF os(1,4) data fmt w'(2)]) (use w'(3) in blast)
  then show ?thesis using w' by blast
qed

definition good_env :: wal_env where
  "good_env = \<lparr>env_os = good_os, env_excl = \<lambda>_ _ _. WAL_OK, env_shared = \<lambda>_ _. WAL_OK, env_malloc = True,
     env_random = \<lambda>n. replicate n 7, env_sector = 4096\<rparr>"

theorem wal_recovery_witness:
  "let fs = [(1, 0, replicate 512 3), (2, 2, replicate 512 4), (1, 0, replicate 512 5)];
       log = \<lparr>lf_data = log_file False [1, 2, 3, 4, 5, 6, 7, 8] 512 0 fs @ [0, 0], lf_faults = None, lf_partial = 0\<rparr>;
       (rc, w', log') = walIndexRecover good_env 0 new_wal log
   in rc = WAL_OK \<and> mxFrame (hdr w') = 2 \<and> nPage (hdr w') = 2"
proof -
  define fs :: "frame list" where "fs = [(1, 0, replicate 512 3), (2, 2, replicate 512 4), (1, 0, replicate 512 5)]"
  define salt :: "u8 list" where "salt = [1, 2, 3, 4, 5, 6, 7, 8]"
  define log where "log = \<lparr>lf_data = log_file False salt 512 0 fs @ [0, 0], lf_faults = None, lf_partial = 0\<rparr>"
  have "os_ok (env_os good_env)" "\<forall>cnt i n. env_excl good_env cnt i n = WAL_OK" "env_malloc good_env" "lf_faults log = None"
    by (simp_all add: good_env_def good_os_def os_ok_def log_def)
  moreover have "lf_data log = log_file False salt 512 0 fs @ [0, 0]" "length salt = 8" "512 \<in> set page_sizes"
    "list_all (frame_ok 512) fs" "\<not> frame_valid (False = SQLITE_BIGENDIAN) salt 512 (file_cksum False salt 512 0 fs) [0, 0]"
    by (simp_all add: log_def salt_def page_sizes_def fs_def frame_ok_def frame_valid_def)
  moreover have "committed fs = take 2 fs" by (simp add: fs_def numeral_2_eq_2)
  ultimately obtain w' where "walIndexRecover good_env 0 new_wal log = (WAL_OK, w', log)" "recovered w' (take 2 fs)"
    using wal_recovery [of good_env log False salt 512 0 fs "[0, 0]" 0 new_wal] by metis
  then show ?thesis
    unfolding Let_def salt_def [symmetric] fs_def [symmetric] log_def [symmetric]
    by (simp add: recovered_def) (simp add: fs_def)
qed

end
