(* ===== verification/WalTrans.thy ===== *)
theory WalTrans
  imports WalLog
begin

text \<open>
  Transactions on the write-ahead log (wal.c): opening a snapshot (\<open>sqlite3WalBeginReadTransaction\<close>),
  becoming the writer, and writing the pages of a transaction (\<open>sqlite3WalFrames\<close>), with every
  write to the file possibly failing part-way. Each function is one step with respect to the other
  connections. Theory \<open>WalCommit\<close> holds what a whole transaction leaves behind.
\<close>

section \<open>Snapshots\<close>

text \<open>
  Reading the header of the index, and rebuilding the index when it is damaged. \<open>changed\<close> is
  \<open>*pChanged\<close>; \<open>cnt\<close> is the number of the attempt.
\<close>

definition walIndexReadHdr :: "wal_env \<Rightarrow> nat \<Rightarrow> bool \<Rightarrow> Wal \<Rightarrow> wal_log \<Rightarrow> wal_rc \<times> bool \<times> Wal \<times> wal_log" where
  "walIndexReadHdr env cnt changed pWal log =
     (let (rc, pWal) = walIndexPage (env_os env) pWal 0
      in if rc \<noteq> WAL_OK then (rc, changed, pWal, log)
         else
           (let (badHdr, ch, pWal) = (if apWiData pWal ! 0 then walIndexTryHdr pWal else (True, False, pWal));
                changed = (changed \<or> ch);
                (rc, badHdr, changed, pWal, log) =
                  (if \<not> badHdr then (rc, badHdr, changed, pWal, log)
                   else if shm_rdonly pWal then
                     (let rc = walLockShared env pWal cnt 0
                      in (if rc = WAL_OK then WAL_READONLY_RECOVERY else rc, badHdr, changed, pWal, log))
                   else
                     (let rc = walLockExclusive env pWal cnt 0 1
                      in if rc \<noteq> WAL_OK then (rc, badHdr, changed, pWal, log)
                         else
                           (let (rc, pWal) = walIndexPage (env_os env) (pWal\<lparr>writeLock := True\<rparr>) 0;
                                (rc, badHdr, changed, pWal, log) =
                                  (if rc \<noteq> WAL_OK then (rc, badHdr, changed, pWal, log)
                                   else
                                     (let (badHdr, ch, pWal) = walIndexTryHdr pWal
                                      in if badHdr then
                                           (let (rc, pWal, log) = walIndexRecover env cnt pWal log in (rc, badHdr, True, pWal, log))
                                         else (rc, badHdr, changed \<or> ch, pWal, log)))
                            in (rc, badHdr, changed, pWal\<lparr>writeLock := False\<rparr>, log))))
            in (if \<not> badHdr \<and> iVersion (hdr pWal) \<noteq> WALINDEX_MAX_VERSION then WAL_CANTOPEN else rc, changed, pWal, log)))"

text \<open>The largest read mark that is not beyond the snapshot, with its index (0: none).\<close>

fun pick_mark :: "nat list \<Rightarrow> nat \<Rightarrow> nat list \<Rightarrow> nat \<times> nat \<Rightarrow> nat \<times> nat" where
  "pick_mark marks iMax [] (mxReadMark, mxI) = (mxReadMark, mxI)"
| "pick_mark marks iMax (i # is) (mxReadMark, mxI) =
     (if mxReadMark \<le> marks ! i \<and> marks ! i \<le> iMax then pick_mark marks iMax is (marks ! i, i)
      else pick_mark marks iMax is (mxReadMark, mxI))"

text \<open>Set the first read mark that can be locked; \<open>Inl\<close> is an error other than busy.\<close>

fun claim_mark :: "wal_env \<Rightarrow> nat \<Rightarrow> Wal \<Rightarrow> nat list \<Rightarrow> wal_rc \<Rightarrow> nat \<times> nat \<Rightarrow> wal_rc \<times> (nat \<times> nat) option \<times> Wal" where
  "claim_mark env cnt pWal [] rc m = (rc, Some m, pWal)"
| "claim_mark env cnt pWal (i # is) rc m =
     (let rc = walLockExclusive env pWal cnt (3 + i) 1
      in if rc = WAL_OK then
           (rc, Some (mxFrame (hdr pWal), i),
            pWal\<lparr>ckpt := (ckpt pWal)\<lparr>aReadMark := (aReadMark (ckpt pWal))[i := mxFrame (hdr pWal)]\<rparr>\<rparr>)
         else if rc \<noteq> WAL_BUSY then (rc, None, pWal)
         else claim_mark env cnt pWal is rc m)"

definition walTryBeginRead :: "wal_env \<Rightarrow> nat \<Rightarrow> bool \<Rightarrow> bool \<Rightarrow> Wal \<Rightarrow> wal_log \<Rightarrow> wal_rc \<times> bool \<times> Wal \<times> wal_log" where
  "walTryBeginRead env cnt useWal changed pWal log =
     (if cnt > 100 then (WAL_PROTOCOL, changed, pWal, log)
      else
        (let (rc, changed, pWal, log) =
               (if useWal then (WAL_OK, changed, pWal, log)
                else
                  (let (rc, changed, pWal, log) = walIndexReadHdr env cnt changed pWal log
                   in if rc = WAL_BUSY then
                        (if \<not> apWiData pWal ! 0 then (WAL_RETRY, changed, pWal, log)
                         else
                           (let rc = walLockShared env pWal cnt 2
                            in (if rc = WAL_OK then WAL_RETRY else if rc = WAL_BUSY then WAL_BUSY_RECOVERY else rc,
                                changed, pWal, log)))
                      else (rc, changed, pWal, log)))
         in if rc \<noteq> WAL_OK then (rc, changed, pWal, log)
            else
              (let direct = (\<not> useWal \<and> nBackfill (ckpt pWal) = mxFrame (hdr pWal));
                   rc = (if direct then walLockShared env pWal cnt 3 else WAL_BUSY)
               in if direct \<and> rc = WAL_OK then
                    (if live_hdr pWal \<noteq> hdr pWal then (WAL_RETRY, changed, pWal, log)
                     else (WAL_OK, changed, pWal\<lparr>readLock := 0\<rparr>, log))
                  else if direct \<and> rc \<noteq> WAL_BUSY then (rc, changed, pWal, log)
                  else
                    (let (mxReadMark, mxI) = pick_mark (aReadMark (ckpt pWal)) (mxFrame (hdr pWal)) [1..<WAL_NREADER] (0, 0);
                         (rc, m, pWal) =
                           (if \<not> shm_rdonly pWal \<and> (mxReadMark < mxFrame (hdr pWal) \<or> mxI = 0)
                            then claim_mark env cnt pWal [1..<WAL_NREADER] (if direct then rc else WAL_OK) (mxReadMark, mxI)
                            else (if direct then rc else WAL_OK, Some (mxReadMark, mxI), pWal))
                     in case m of
                          None \<Rightarrow> (rc, changed, pWal, log)
                        | Some (mxReadMark, mxI) \<Rightarrow>
                            if mxI = 0 then (if rc = WAL_BUSY then WAL_RETRY else WAL_READONLY_CANTLOCK, changed, pWal, log)
                            else
                              (let rc = walLockShared env pWal cnt (3 + mxI)
                               in if rc \<noteq> WAL_OK then (if rc = WAL_BUSY then WAL_RETRY else rc, changed, pWal, log)
                                  else
                                    (let pWal = pWal\<lparr>minFrame := nBackfill (ckpt pWal) + 1\<rparr>
                                     in if aReadMark (ckpt pWal) ! mxI \<noteq> mxReadMark \<or> live_hdr pWal \<noteq> hdr pWal
                                        then (WAL_RETRY, changed, pWal, log)
                                        else (WAL_OK, changed, pWal\<lparr>readLock := int mxI\<rparr>, log)))))))"

text \<open>The attempts: the hundred and first gives up.\<close>

function begin_read :: "wal_env \<Rightarrow> nat \<Rightarrow> bool \<Rightarrow> bool \<Rightarrow> Wal \<Rightarrow> wal_log \<Rightarrow> wal_rc \<times> bool \<times> Wal \<times> wal_log" where
  "begin_read env cnt useWal changed pWal log =
     (let cnt = cnt + 1; (rc, changed, pWal, log) = walTryBeginRead env cnt useWal changed pWal log
      in if rc = WAL_RETRY then begin_read env cnt useWal changed pWal log else (rc, changed, pWal, log))"
  by pat_completeness auto
termination
  by (relation "measure (\<lambda>(env, cnt, u, ch, w, l). 101 - cnt)") (auto simp: walTryBeginRead_def split: if_splits)

declare begin_read.simps [simp del]

definition sqlite3WalBeginReadTransaction :: "wal_env \<Rightarrow> Wal \<Rightarrow> wal_log \<Rightarrow> wal_rc \<times> bool \<times> Wal \<times> wal_log" where
  "sqlite3WalBeginReadTransaction env pWal log = begin_read env 0 False False pWal log"

definition sqlite3WalEndWriteTransaction :: "Wal \<Rightarrow> wal_rc \<times> Wal" where
  "sqlite3WalEndWriteTransaction pWal =
     (WAL_OK, if writeLock pWal then pWal\<lparr>writeLock := False, iReCksum := 0, truncateOnCommit := False\<rparr> else pWal)"

definition sqlite3WalEndReadTransaction :: "Wal \<Rightarrow> Wal" where
  "sqlite3WalEndReadTransaction pWal =
     (let pWal = snd (sqlite3WalEndWriteTransaction pWal)
      in if readLock pWal \<ge> 0 then pWal\<lparr>readLock := -1\<rparr> else pWal)"

definition sqlite3WalDbsize :: "Wal option \<Rightarrow> u32" where
  "sqlite3WalDbsize pWal = (case pWal of None \<Rightarrow> 0 | Some w \<Rightarrow> if readLock w \<ge> 0 then nPage (hdr w) else 0)"

definition sqlite3WalBeginWriteTransaction :: "wal_env \<Rightarrow> Wal \<Rightarrow> wal_rc \<times> Wal" where
  "sqlite3WalBeginWriteTransaction env pWal =
     (if shm_rdonly pWal \<or> file_rdonly pWal then (WAL_READONLY, pWal)
      else
        (let rc = walLockExclusive env pWal 0 0 1
         in if rc \<noteq> WAL_OK then (rc, pWal)
            else if hdr pWal \<noteq> live_hdr pWal then (WAL_BUSY_SNAPSHOT, pWal\<lparr>writeLock := False\<rparr>)
            else (WAL_OK, pWal\<lparr>writeLock := True\<rparr>)))"

section \<open>Writing\<close>

definition walRestartHdr :: "Wal \<Rightarrow> u8 list \<Rightarrow> Wal" where
  "walRestartHdr pWal salt1 =
     (let h = (hdr pWal)\<lparr>mxFrame := 0, aSalt := sqlite3Put4byte (1 + get4 (aSalt (hdr pWal)) 0) @ salt1\<rparr>;
          pWal = walIndexWriteHdr (pWal\<lparr>nCkpt := nCkpt pWal + 1, hdr := h\<rparr>)
      in pWal\<lparr>ckpt := \<lparr>nBackfill = 0,
           aReadMark = (aReadMark (ckpt pWal) ! 0) # 0 # replicate (WAL_NREADER - 2) READMARK_NOT_USED,
           nBackfillAttempted = 0\<rparr>\<rparr>)"

definition walRestartLog :: "wal_env \<Rightarrow> Wal \<Rightarrow> wal_log \<Rightarrow> wal_rc \<times> Wal \<times> wal_log" where
  "walRestartLog env pWal log =
     (if readLock pWal \<noteq> 0 then (WAL_OK, pWal, log)
      else
        (let rc = (if nBackfill (ckpt pWal) > 0 then walLockExclusive env pWal 0 4 (WAL_NREADER - 1) else WAL_BUSY)
         in if rc \<noteq> WAL_OK \<and> rc \<noteq> WAL_BUSY then (rc, pWal, log)
            else
              (let pWal = (if rc = WAL_OK then walRestartHdr pWal (env_random env 4) else pWal);
                   (rc, _, pWal, log) = begin_read env 0 True False (pWal\<lparr>readLock := -1\<rparr>) log
               in (rc, pWal, log))))"

definition WAL_SYNC_TRANSACTIONS :: u32 where "WAL_SYNC_TRANSACTIONS = 0x20"

text \<open>Write bytes, with a sync at \<open>iSyncPoint\<close> when the write reaches it.\<close>

definition walWriteToLog :: "nat \<Rightarrow> u8 list \<Rightarrow> nat \<Rightarrow> wal_log \<Rightarrow> wal_rc \<times> wal_log" where
  "walWriteToLog iSyncPoint pContent iOffset log =
     (if iOffset < iSyncPoint \<and> iOffset + length pContent \<ge> iSyncPoint then
        (let iFirstAmt = iSyncPoint - iOffset;
             (rc, log) = log_write (take iFirstAmt pContent) iOffset log
         in if rc \<noteq> WAL_OK then (rc, log)
            else
              (let (rc, log) = log_sync log
               in if length pContent - iFirstAmt = 0 \<or> rc \<noteq> WAL_OK then (rc, log)
                  else log_write (drop iFirstAmt pContent) (iOffset + iFirstAmt) log))
      else log_write pContent iOffset log)"

definition walWriteOneFrame :: "nat \<Rightarrow> Wal \<Rightarrow> wal_log \<Rightarrow> u32 \<times> u8 list \<Rightarrow> u32 \<Rightarrow> nat \<Rightarrow> wal_rc \<times> Wal \<times> wal_log" where
  "walWriteOneFrame iSyncPoint pWal log pPage nTruncate iOffset =
     (let (aFrame, pWal) = walEncodeFrame pWal (fst pPage) nTruncate (snd pPage);
          (rc, log) = walWriteToLog iSyncPoint aFrame iOffset log
      in if rc \<noteq> WAL_OK then (rc, pWal, log)
         else (let (rc, log) = walWriteToLog iSyncPoint (snd pPage) (iOffset + WAL_FRAME_HDRSIZE) log in (rc, pWal, log)))"

text \<open>The frames from \<open>iRead\<close>, \<open>n\<close> of them.\<close>

fun rewrite_loop :: "nat \<Rightarrow> Wal \<Rightarrow> wal_log \<Rightarrow> nat \<Rightarrow> nat \<Rightarrow> wal_rc \<times> Wal \<times> wal_log" where
  "rewrite_loop sz pWal log iRead 0 = (WAL_OK, pWal, log)"
| "rewrite_loop sz pWal log iRead (Suc n) =
     (let iOff = walFrameOffset iRead sz; (rc, aBuf, log) = log_read (sz + WAL_FRAME_HDRSIZE) iOff log
      in if rc \<noteq> WAL_OK then (rc, pWal, log)
         else
           (let (aFrame, pWal) = walEncodeFrame pWal (get4 aBuf 0) (get4 aBuf 4) (drop WAL_FRAME_HDRSIZE aBuf);
                (rc, log) = log_write aFrame iOff log
            in if rc \<noteq> WAL_OK then (rc, pWal, log) else rewrite_loop sz pWal log (iRead + 1) n))"

definition walRewriteChecksums :: "wal_env \<Rightarrow> Wal \<Rightarrow> wal_log \<Rightarrow> nat \<Rightarrow> wal_rc \<times> Wal \<times> wal_log" where
  "walRewriteChecksums env pWal log iLast =
     (if \<not> env_malloc env then (WAL_NOMEM, pWal, log)
      else
        (let sz = nat (szPage pWal); iRead = iReCksum pWal;
             iCksumOff = (if iRead = 1 then 24 else walFrameOffset (iRead - 1) sz + 16);
             (rc, aBuf, log) = log_read 8 iCksumOff log;
             pWal = pWal\<lparr>hdr := (hdr pWal)\<lparr>aFrameCksum := (get4 aBuf 0, get4 aBuf 4)\<rparr>, iReCksum := 0\<rparr>
         in if rc \<noteq> WAL_OK then (rc, pWal, log) else rewrite_loop sz pWal log iRead (iLast + 1 - iRead)))"

definition walLimitSize :: "nat \<Rightarrow> wal_log \<Rightarrow> wal_log" where
  "walLimitSize nMax log =
     (let (rx, sz, log) = log_size log
      in if rx = WAL_OK \<and> sz > nMax then snd (log_truncate nMax log) else log)"

text \<open>
  The pages of the list: the number of the last frame, the offset after it, and the pages that
  were appended (\<open>PGHDR_WAL_APPEND\<close>).
\<close>

fun write_pages :: "wal_os \<Rightarrow> nat \<Rightarrow> u32 \<Rightarrow> bool \<Rightarrow> nat \<Rightarrow> Wal \<Rightarrow> wal_log \<Rightarrow> nat \<Rightarrow> nat \<Rightarrow> u32 list \<Rightarrow>
    (u32 \<times> u8 list) list \<Rightarrow> wal_rc \<times> nat \<times> nat \<times> u32 list \<times> Wal \<times> wal_log" where
  "write_pages os sz nTruncate isCommit iFirst pWal log iFrame iOffset appended [] = (WAL_OK, iFrame, iOffset, appended, pWal, log)"
| "write_pages os sz nTruncate isCommit iFirst pWal log iFrame iOffset appended (p # pList) =
     (let (iWrite, pWal) =
            (if iFirst \<noteq> 0 \<and> (pList \<noteq> [] \<or> \<not> isCommit)
             then (let (rc, iRead, pWal) = sqlite3WalFindFrame os pWal (fst p) in (if rc = WAL_OK then iRead else 0, pWal))
             else (0, pWal))
      in if iFirst \<noteq> 0 \<and> (pList \<noteq> [] \<or> \<not> isCommit) \<and> iWrite \<ge> iFirst then
           (let pWal = (if iReCksum pWal = 0 \<or> iWrite < iReCksum pWal then pWal\<lparr>iReCksum := iWrite\<rparr> else pWal);
                (rc, log) = log_write (snd p) (walFrameOffset iWrite sz + WAL_FRAME_HDRSIZE) log
            in if rc \<noteq> WAL_OK then (rc, iFrame, iOffset, appended, pWal, log)
               else write_pages os sz nTruncate isCommit iFirst pWal log iFrame iOffset appended pList)
         else
           (let nDbSize = (if isCommit \<and> pList = [] then nTruncate else 0);
                (rc, pWal, log) = walWriteOneFrame 0 pWal log p nDbSize iOffset
            in if rc \<noteq> WAL_OK then (rc, iFrame + 1, iOffset, appended, pWal, log)
               else write_pages os sz nTruncate isCommit iFirst pWal log (iFrame + 1) (iOffset + (sz + WAL_FRAME_HDRSIZE))
                      (appended @ [fst p]) pList))"

text \<open>Copies of the last frame up to the sync point; the number of copies.\<close>

function pad_loop :: "nat \<Rightarrow> nat \<Rightarrow> u32 \<Rightarrow> u32 \<times> u8 list \<Rightarrow> Wal \<Rightarrow> wal_log \<Rightarrow> nat \<Rightarrow> nat \<Rightarrow> wal_rc \<times> nat \<times> Wal \<times> wal_log" where
  "pad_loop iSyncPoint sz nTruncate pLast pWal log iOffset nExtra =
     (if iOffset < iSyncPoint then
        (let (rc, pWal, log) = walWriteOneFrame iSyncPoint pWal log pLast nTruncate iOffset
         in if rc \<noteq> WAL_OK then (rc, nExtra, pWal, log)
            else pad_loop iSyncPoint sz nTruncate pLast pWal log (iOffset + (sz + WAL_FRAME_HDRSIZE)) (nExtra + 1))
      else (WAL_OK, nExtra, pWal, log))"
  by pat_completeness auto
termination
  by (relation "measure (\<lambda>(s, sz, n, p, w, l, off, x). s - off)") (auto simp: WAL_FRAME_HDRSIZE_def)

declare pad_loop.simps [simp del]

text \<open>The header of the file, written with the first frame.\<close>

definition write_wal_header :: "wal_env \<Rightarrow> Wal \<Rightarrow> wal_log \<Rightarrow> nat \<Rightarrow> u32 \<Rightarrow> wal_rc \<times> Wal \<times> wal_log" where
  "write_wal_header env pWal log sz sync_flags =
     (let salt = (if nCkpt pWal = 0 then env_random env 8 else aSalt (hdr pWal));
          aWalHdr = sqlite3Put4byte (WAL_MAGIC OR (if SQLITE_BIGENDIAN then 1 else 0)) @ sqlite3Put4byte WAL_MAX_VERSION @
            sqlite3Put4byte (of_nat sz) @ sqlite3Put4byte (nCkpt pWal) @ salt;
          aCksum = walChecksumBytes True aWalHdr None;
          pWal = pWal\<lparr>hdr := (hdr pWal)\<lparr>aSalt := salt, bigEndCksum := SQLITE_BIGENDIAN, aFrameCksum := aCksum\<rparr>,
            szPage := int sz, truncateOnCommit := True\<rparr>;
          (rc, log) = log_write (aWalHdr @ sqlite3Put4byte (fst aCksum) @ sqlite3Put4byte (snd aCksum)) 0 log
      in if rc \<noteq> WAL_OK then (rc, pWal, log)
         else if syncHeader pWal \<and> sync_flags \<noteq> 0 then (let (rc, log) = log_sync log in (rc, pWal, log))
         else (rc, pWal, log))"

text \<open>
  The padding and the sync at the end of a transaction: whether the function returns at once, and
  the number of extra frames. A failing sync does not return at once.
\<close>

definition sync_commit :: "wal_env \<Rightarrow> Wal \<Rightarrow> wal_log \<Rightarrow> nat \<Rightarrow> u32 \<Rightarrow> u32 \<times> u8 list \<Rightarrow> nat \<Rightarrow> bool \<times> wal_rc \<times> nat \<times> Wal \<times> wal_log" where
  "sync_commit env pWal log sz nTruncate pLast iOffset =
     (let (rc, nExtra, bSync, pWal, log) =
            (if padToSectorBoundary pWal then
               (let iSyncPoint = (iOffset + env_sector env - 1) div env_sector env * env_sector env;
                    (rc, nExtra, pWal, log) = pad_loop iSyncPoint sz nTruncate pLast pWal log iOffset 0
                in (rc, nExtra, iSyncPoint = iOffset, pWal, log))
             else (WAL_OK, 0, True, pWal, log))
      in if rc \<noteq> WAL_OK then (True, rc, nExtra, pWal, log)
         else if bSync then (let (rc, log) = log_sync log in (False, rc, nExtra, pWal, log))
         else (False, rc, nExtra, pWal, log))"

definition limit_log :: "Wal \<Rightarrow> wal_log \<Rightarrow> nat \<Rightarrow> Wal \<times> wal_log" where
  "limit_log pWal log iEnd =
     (if truncateOnCommit pWal \<and> mxWalSize pWal \<ge> 0 then
        (pWal\<lparr>truncateOnCommit := False\<rparr>,
         walLimitSize (if int iEnd > mxWalSize pWal then iEnd else nat (mxWalSize pWal)) log)
      else (pWal, log))"

text \<open>What happens before the pages: a new start for a log that is all checkpointed, and the header.\<close>

definition frames_begin :: "wal_env \<Rightarrow> Wal \<Rightarrow> wal_log \<Rightarrow> nat \<Rightarrow> u32 \<Rightarrow> wal_rc \<times> Wal \<times> wal_log" where
  "frames_begin env pWal log sz sync_flags =
     (let (rc, pWal, log) = walRestartLog env pWal log
      in if rc \<noteq> WAL_OK then (rc, pWal, log)
         else if mxFrame (hdr pWal) = 0 then write_wal_header env pWal log sz sync_flags
         else (WAL_OK, pWal, log))"

text \<open>And after the pages: the checksums, the sync, the size of the file and the index.\<close>

definition frames_end :: "wal_env \<Rightarrow> Wal \<Rightarrow> wal_log \<Rightarrow> nat \<Rightarrow> (u32 \<times> u8 list) list \<Rightarrow> u32 \<Rightarrow> bool \<Rightarrow> u32 \<Rightarrow> nat \<Rightarrow> nat \<Rightarrow> u32 list \<Rightarrow>
    wal_rc \<times> Wal \<times> wal_log" where
  "frames_end env pWal log sz pList nTruncate isCommit sync_flags iFrame iOffset appended =
     (let (rc, pWal, log) =
            (if isCommit \<and> iReCksum pWal \<noteq> 0 then walRewriteChecksums env pWal log iFrame else (WAL_OK, pWal, log))
      in if rc \<noteq> WAL_OK then (rc, pWal, log)
         else
           (let (stop, rc, nExtra, pWal, log) =
                  (if isCommit \<and> sync_flags AND WAL_SYNC_TRANSACTIONS \<noteq> 0
                   then sync_commit env pWal log sz nTruncate (last pList) iOffset
                   else (False, WAL_OK, 0, pWal, log))
            in if stop then (rc, pWal, log)
               else
                 (let (pWal, log) =
                        (if isCommit then limit_log pWal log (walFrameOffset (iFrame + nExtra + 1) sz) else (pWal, log))
                  in if rc \<noteq> WAL_OK then (rc, pWal, log)
                     else
                       (let (rc, pWal) = wal_add_frames (env_os env) pWal (int sz)
                              (appended @ replicate nExtra (fst (last pList))) nTruncate isCommit
                        in (rc, pWal, log)))))"

definition sqlite3WalFrames :: "wal_env \<Rightarrow> Wal \<Rightarrow> wal_log \<Rightarrow> nat \<Rightarrow> (u32 \<times> u8 list) list \<Rightarrow> u32 \<Rightarrow> bool \<Rightarrow> u32 \<Rightarrow>
    wal_rc \<times> Wal \<times> wal_log" where
  "sqlite3WalFrames env pWal log sz pList nTruncate isCommit sync_flags =
     (let iFirst = (if hdr pWal \<noteq> live_hdr pWal then mxFrame (live_hdr pWal) + 1 else 0);
          (rc, pWal, log) = frames_begin env pWal log sz sync_flags
      in if rc \<noteq> WAL_OK then (rc, pWal, log)
         else
           (let (rc, iFrame, iOffset, appended, pWal, log) =
                  write_pages (env_os env) sz nTruncate isCommit iFirst pWal log (mxFrame (hdr pWal))
                    (walFrameOffset (mxFrame (hdr pWal) + 1) sz) [] pList
            in if rc \<noteq> WAL_OK then (rc, pWal, log)
               else frames_end env pWal log sz pList nTruncate isCommit sync_flags iFrame iOffset appended))"


section \<open>Operations on the file\<close>

text \<open>The file still begins with these bytes.\<close>

definition keeps :: "u8 list \<Rightarrow> wal_log \<Rightarrow> bool" where
  "keeps pre log \<longleftrightarrow> take (length pre) (lf_data log) = pre"

lemma write_at_append: "length a = off \<Longrightarrow> write_at off b (a @ c) = a @ b @ drop (length b) c"
  by (simp add: write_at_def)

lemma write_at_keeps:
  assumes "take n f = pre" "length pre = n" "n \<le> off"
  shows "take n (write_at off b f) = pre"
proof -
  have "n \<le> length f" using assms(1,2) by (metis length_take min.absorb_iff2 min.commute)
  then show ?thesis using assms by (simp add: write_at_def)
qed

lemma write_at_twice:
  assumes "n \<le> length b"
  shows "write_at (off + n) (drop n b) (write_at off (take n b) f) = write_at off b f"
proof -
  define g where "g = take off (f @ replicate (off - length f) 0)"
  have g: "length g = off" by (simp add: g_def)
  have e: "write_at off (take n b) f = (g @ take n b) @ drop (off + n) f" using assms by (simp add: write_at_def g_def)
  have "length (g @ take n b) = off + n" using g assms by simp
  then have "write_at (off + n) (drop n b) (write_at off (take n b) f) = g @ take n b @ drop n b @ drop (length b - n + (off + n)) f"
    unfolding e using write_at_append [of "g @ take n b" "off + n" "drop n b" "drop (off + n) f"]
    by (simp only: append_assoc length_drop drop_drop simp_thms)
  also have "\<dots> = write_at off b f" using assms by (simp add: write_at_def g_def add.commute flip: append_assoc)
  finally show ?thesis .
qed

lemma log_op_data: "log_op l = (ok, l') \<Longrightarrow> lf_data l' = lf_data l"
  by (auto simp: log_op_def split: option.splits nat.splits)

lemma log_write_cases:
  assumes "log_write b off l = (rc, l')"
  shows "(rc = WAL_OK \<and> lf_data l' = write_at off b (lf_data l)) \<or> (rc = WAL_IOERR \<and> (\<exists>n. lf_data l' = write_at off (take n b) (lf_data l)))"
proof -
  obtain ok l1 where o: "log_op l = (ok, l1)" by fastforce
  show ?thesis using assms log_op_data [OF o] by (cases ok) (auto simp: log_write_def o)
qed

lemma log_write_ok: "log_write b off l = (WAL_OK, l') \<Longrightarrow> lf_data l' = write_at off b (lf_data l)"
  using log_write_cases by fastforce

lemma keeps_cong: "lf_data l' = lf_data l \<Longrightarrow> keeps pre l' = keeps pre l"
  by (simp add: keeps_def)

lemma log_write_keeps: "log_write b off l = (rc, l') \<Longrightarrow> keeps pre l \<Longrightarrow> length pre \<le> off \<Longrightarrow> keeps pre l'"
proof -
  assume "log_write b off l = (rc, l')" and k: "keeps pre l" "length pre \<le> off"
  then consider "lf_data l' = write_at off b (lf_data l)" | n where "lf_data l' = write_at off (take n b) (lf_data l)"
    using log_write_cases by blast
  then show ?thesis using k by cases (simp_all add: keeps_def write_at_keeps)
qed

lemma log_sync_data: "log_sync l = (rc, l') \<Longrightarrow> lf_data l' = lf_data l"
  using log_op_data [of l] by (auto simp: log_sync_def split: prod.splits)

lemma log_read_data:
  "log_read n off l = (rc, b, l') \<Longrightarrow> lf_data l' = lf_data l \<and> (rc = WAL_OK \<longrightarrow> b = take n (drop off (lf_data l)) \<and> off + n \<le> length (lf_data l))"
  using log_op_data [of l] by (auto simp: log_read_def split: prod.splits if_splits)

lemma walLimitSize_keeps: "keeps pre l \<Longrightarrow> length pre \<le> n \<Longrightarrow> keeps pre (walLimitSize n l)"
proof -
  assume k: "keeps pre l" and n: "length pre \<le> n"
  obtain ok l1 where o: "log_op l = (ok, l1)" by fastforce
  obtain ok' l2 where o': "log_op l1 = (ok', l2)" by fastforce
  show ?thesis
    using k n log_op_data [OF o] log_op_data [OF o']
    by (auto simp: walLimitSize_def log_size_def log_truncate_def o o' keeps_def min_def)
qed

lemma walWriteToLog_keeps:
  assumes "walWriteToLog s b off l = (rc, l')" "keeps pre l" "length pre \<le> off"
  shows "keeps pre l'"
proof (cases "off < s \<and> off + length b \<ge> s")
  case True
  obtain rc1 l1 where w: "log_write (take (s - off) b) off l = (rc1, l1)" by fastforce
  obtain rc2 l2 where y: "log_sync l1 = (rc2, l2)" by fastforce
  have k: "keeps pre l1" "keeps pre l2" using log_write_keeps [OF w assms(2,3)] keeps_cong [OF log_sync_data [OF y]] by simp_all
  show ?thesis
    using assms(1) True k w y log_write_keeps [of "drop (s - off) b" "off + (s - off)" l2 rc l' pre] assms(3)
    by (auto simp: walWriteToLog_def Let_def split: if_splits)
next
  case False
  then show ?thesis using assms(1) log_write_keeps [OF _ assms(2,3), of b rc l'] unfolding walWriteToLog_def if_not_P [OF False] by simp
qed

lemma walWriteToLog_ok:
  assumes "walWriteToLog s b off l = (WAL_OK, l')"
  shows "lf_data l' = write_at off b (lf_data l)"
proof (cases "off < s \<and> off + length b \<ge> s")
  case True
  define n where "n = s - off"
  have n: "n \<le> length b" "s = off + n" using True by (simp_all add: n_def, linarith)
  obtain rc1 l1 where w: "log_write (take n b) off l = (rc1, l1)" by fastforce
  obtain rc2 l2 where y: "log_sync l1 = (rc2, l2)" by fastforce
  have rc1: "rc1 = WAL_OK" using assms True w by (auto simp: walWriteToLog_def Let_def n_def split: if_splits)
  have d: "lf_data l2 = write_at off (take n b) (lf_data l)" using log_write_ok [OF w [unfolded rc1]] log_sync_data [OF y] by simp
  show ?thesis
  proof (cases "length b - n = 0")
    case True
    then have "l' = l2" "take n b = b" using assms \<open>off < s \<and> _\<close> w y rc1 by (simp_all add: walWriteToLog_def n_def [symmetric])
    then show ?thesis using d by simp
  next
    case False
    then have "log_write (drop n b) (off + n) l2 = (WAL_OK, l')"
      using assms True w y rc1 by (auto simp: walWriteToLog_def n_def [symmetric] split: if_splits)
    then show ?thesis using log_write_ok d write_at_twice [OF n(1)] by simp
  qed
next
  case False
  then show ?thesis using assms log_write_ok unfolding walWriteToLog_def if_not_P [OF False] by simp
qed

lemma walEncodeFrame_hdr: "walEncodeFrame w p n d = (fr, w') \<Longrightarrow>
    (\<exists>c. w' = w\<lparr>hdr := (hdr w)\<lparr>aFrameCksum := c\<rparr>\<rparr>)"
  by (auto simp: walEncodeFrame_def Let_def simp del: split_paired_Ex split: if_splits intro: exI [of _ "aFrameCksum (hdr w)"])

lemma walWriteOneFrame_keeps:
  assumes "walWriteOneFrame s w l pg n off = (rc, w', l')" "keeps pre l" "length pre \<le> off"
  shows "keeps pre l' \<and> (\<exists>c. w' = w\<lparr>hdr := (hdr w)\<lparr>aFrameCksum := c\<rparr>\<rparr>)"
proof -
  obtain fr w1 where e: "walEncodeFrame w (fst pg) n (snd pg) = (fr, w1)" by fastforce
  obtain rc1 l1 where a: "walWriteToLog s fr off l = (rc1, l1)" by fastforce
  obtain rc2 l2 where b: "walWriteToLog s (snd pg) (off + WAL_FRAME_HDRSIZE) l1 = (rc2, l2)" by fastforce
  have k: "keeps pre l1" "keeps pre l2"
    using walWriteToLog_keeps [OF a assms(2,3)] walWriteToLog_keeps [OF b] assms(3) by simp_all
  show ?thesis
    using assms(1) e a b k walEncodeFrame_hdr [OF e] by (auto simp: walWriteOneFrame_def split: if_splits)
qed

lemma walWriteOneFrame_ok:
  assumes "walWriteOneFrame s w l pg n off = (WAL_OK, w', l')" "walEncodeFrame w (fst pg) n (snd pg) = (fr, w1)"
    "length fr = WAL_FRAME_HDRSIZE"
  shows "w' = w1 \<and> lf_data l' = write_at off (fr @ snd pg) (lf_data l)"
proof -
  obtain rc1 l1 where a: "walWriteToLog s fr off l = (rc1, l1)" by fastforce
  have rc1: "rc1 = WAL_OK" using assms(1,2) a by (auto simp: walWriteOneFrame_def split: if_splits)
  have b: "walWriteToLog s (snd pg) (off + WAL_FRAME_HDRSIZE) l1 = (WAL_OK, l')" "w' = w1"
    using assms(1,2) a rc1 by (auto simp: walWriteOneFrame_def split: prod.splits)
  have "lf_data l1 = write_at off fr (lf_data l)" "lf_data l' = write_at (off + WAL_FRAME_HDRSIZE) (snd pg) (lf_data l1)"
    using walWriteToLog_ok a b(1) rc1 by simp_all
  then show ?thesis using write_at_twice [of WAL_FRAME_HDRSIZE "fr @ snd pg" off "lf_data l"] assms(3) b(2) by simp
qed

section \<open>A log whose last checksums are missing\<close>

declare frame_hdr.simps [simp del] next_cksum.simps [simp del]

text \<open>
  While a transaction overwrites its own frames, the headers from \<open>iReCksum\<close> on hold the page and
  size, and 16 bytes without meaning: the first \<open>k\<close> of the frames are good, the others raw.
\<close>

fun raw_frame :: "u8 list \<Rightarrow> frame \<Rightarrow> u8 list" where
  "raw_frame x (p, n, d) = sqlite3Put4byte p @ sqlite3Put4byte n @ x @ d"

fun raw_bytes :: "u8 list list \<Rightarrow> frame list \<Rightarrow> u8 list" where
  "raw_bytes (x # xs) (f # fs) = raw_frame x f @ raw_bytes xs fs"
| "raw_bytes _ _ = []"

definition log_layout :: "bool \<Rightarrow> u8 list \<Rightarrow> u32 \<times> u32 \<Rightarrow> nat \<Rightarrow> frame list \<Rightarrow> u8 list \<Rightarrow> bool" where
  "log_layout nv salt c k frs z \<longleftrightarrow> k \<le> length frs \<and> (\<exists>xs tail. length xs = length frs - k \<and> (\<forall>x \<in> set xs. length x = 16) \<and>
     z = log_bytes nv salt c (take k frs) @ raw_bytes xs (drop k frs) @ tail)"

lemma raw_bytes_append: "length xs = length fs \<Longrightarrow> raw_bytes (xs @ ys) (fs @ gs) = raw_bytes xs fs @ raw_bytes ys gs"
  by (induction xs fs rule: list_induct2) simp_all

lemma length_raw_frame: "length x = 16 \<Longrightarrow> frame_ok sz f \<Longrightarrow> length (raw_frame x f) = sz + WAL_FRAME_HDRSIZE"
  by (cases f) (simp add: frame_ok_def WAL_FRAME_HDRSIZE_def)

lemma length_raw_bytes:
  "length xs = length fs \<Longrightarrow> \<forall>x \<in> set xs. length x = 16 \<Longrightarrow> list_all (frame_ok sz) fs \<Longrightarrow>
    length (raw_bytes xs fs) = length fs * (sz + WAL_FRAME_HDRSIZE)"
  by (induction xs fs rule: list_induct2) (simp_all add: length_raw_frame)

lemma frame_hdr_raw: "length salt = 8 \<Longrightarrow> \<exists>x. length x = 16 \<and> frame_hdr nv salt c f @ snd (snd f) = raw_frame x f"
  by (cases f) (auto simp: frame_hdr.simps intro!: exI [of _ "salt @ sqlite3Put4byte (fst (next_cksum nv c f)) @ sqlite3Put4byte (snd (next_cksum nv c f))"])

lemma log_bytes_raw:
  "length salt = 8 \<Longrightarrow> \<exists>xs. length xs = length fs \<and> (\<forall>x \<in> set xs. length x = 16) \<and> log_bytes nv salt c fs = raw_bytes xs fs"
proof (induction fs arbitrary: c)
  case (Cons f fs)
  obtain xs where xs: "length xs = length fs" "\<forall>x \<in> set xs. length x = 16" "log_bytes nv salt (next_cksum nv c f) fs = raw_bytes xs fs"
    using Cons by blast
  obtain x where x: "length x = 16" "frame_hdr nv salt c f @ snd (snd f) = raw_frame x f"
    using frame_hdr_raw Cons.prems by blast
  have "log_bytes nv salt c (f # fs) = raw_bytes (x # xs) (f # fs)" using xs(3) x(2) by (metis append.assoc log_bytes.simps(2) raw_bytes.simps(1))
  then show ?case using xs(1,2) x(1) by (intro exI [of _ "x # xs"]) simp
qed simp

lemma layout_weaken:
  assumes "log_layout nv salt c k frs z" "k' \<le> k" "length salt = 8"
  shows "log_layout nv salt c k' frs z"
proof -
  obtain xs tail where z: "k \<le> length frs" "length xs = length frs - k" "\<forall>x \<in> set xs. length x = 16"
    "z = log_bytes nv salt c (take k frs) @ raw_bytes xs (drop k frs) @ tail" using assms(1) by (auto simp: log_layout_def)
  define mid where "mid = drop k' (take k frs)"
  have t: "take k frs = take k' frs @ mid" using assms(2) using append_take_drop_id [of k' "take k frs"] by (simp add: mid_def min_absorb1)
  have d: "drop k' frs = mid @ drop k frs" 
  proof -
    have "take k' frs @ drop k' frs = take k' frs @ (mid @ drop k frs)" using t append_take_drop_id [of k frs] by (metis append.assoc append_take_drop_id)
    then show ?thesis by (simp only: same_append_eq)
  qed
  obtain ys where ys: "length ys = length mid" "\<forall>x \<in> set ys. length x = 16"
    "log_bytes nv salt (log_cksum nv c (take k' frs)) mid = raw_bytes ys mid" using log_bytes_raw assms(3) by blast
  have "z = log_bytes nv salt c (take k' frs) @ raw_bytes (ys @ xs) (drop k' frs) @ tail"
    unfolding z(4) t log_bytes_append ys(3) d raw_bytes_append [OF ys(1)] by simp
  moreover have "length (ys @ xs) = length frs - k'" using ys(1) z(1,2) assms(2) by (simp add: mid_def)
  ultimately show ?thesis using ys(2) z assms(2) unfolding log_layout_def by (intro conjI exI [of _ "ys @ xs"] exI [of _ tail]) auto
qed

lemma layout_nil [simp]: "log_layout nv salt c 0 [] z"
  by (simp add: log_layout_def)

lemma layout_good: "log_layout nv salt c (length frs) frs z \<longleftrightarrow> (\<exists>tail. z = log_bytes nv salt c frs @ tail)"
  by (auto simp: log_layout_def)

text \<open>One raw frame in the middle, and what may be put in its place.\<close>

lemma layout_at:
  assumes "log_layout nv salt c k frs z" "k \<le> i" "i < length frs" "length salt = 8" "list_all (frame_ok sz) frs"
  shows "\<exists>a x b. length a = i * (sz + WAL_FRAME_HDRSIZE) \<and> length x = 16 \<and> z = a @ raw_frame x (frs ! i) @ b \<and>
    (\<forall>x' f'. length x' = 16 \<longrightarrow> log_layout nv salt c k (frs[i := f']) (a @ raw_frame x' f' @ b)) \<and>
    (i = k \<longrightarrow> log_layout nv salt c (Suc k) frs (a @ frame_hdr nv salt (log_cksum nv c (take k frs)) (frs ! i) @ snd (snd (frs ! i)) @ b))"
proof -
  obtain xs tail where z: "k \<le> length frs" "length xs = length frs - k" "\<forall>x \<in> set xs. length x = 16"
    "z = log_bytes nv salt c (take k frs) @ raw_bytes xs (drop k frs) @ tail" using assms(1) by (auto simp: log_layout_def)
  define j f gs hs where "j = i - k" and "f = frs ! i" and "gs = take (i - k) (drop k frs)" and "hs = drop (Suc i) frs"
  have d: "drop k frs = gs @ f # hs"
    unfolding f_def gs_def hs_def using assms(2,3) id_take_nth_drop [of "i - k" "drop k frs"] by (simp add: add.commute)
  have lg: "length gs = j" using assms(2,3) by (simp add: gs_def j_def)
  have jx: "j < length xs" using z(1,2) assms(2,3) by (simp add: j_def)
  define ys x ws where "ys = take j xs" and "x = xs ! j" and "ws = drop (Suc j) xs"
  have xs: "xs = ys @ x # ws" unfolding ys_def x_def ws_def using jx id_take_nth_drop by blast
  have ly: "length ys = length gs" using jx lg by (simp add: ys_def)
  have w: "length x = 16" "\<forall>y \<in> set ys. length y = 16" "\<forall>y \<in> set ws. length y = 16"
    using z(3) unfolding xs by simp_all
  have lw: "length ws = length hs" using z(1,2) assms(2,3) by (simp add: ws_def hs_def j_def)
  define a b where "a = log_bytes nv salt c (take k frs) @ raw_bytes ys gs" and "b = raw_bytes ws hs @ tail"
  have e: "z = a @ raw_frame x f @ b" unfolding z(4) d xs raw_bytes_append [OF ly] a_def b_def by simp
  have "list_all (frame_ok sz) (take k frs @ gs @ f # hs)" using assms(5) append_take_drop_id [of k frs] unfolding d by simp
  then have ok: "list_all (frame_ok sz) (take k frs)" "list_all (frame_ok sz) gs" by simp_all
  have "length a = i * (sz + WAL_FRAME_HDRSIZE)"
    using length_log_bytes [OF assms(4) ok(1), of nv c] length_raw_bytes [OF ly w(2) ok(2)] z(1) lg assms(2)
    by (simp add: a_def j_def flip: add_mult_distrib)
  moreover have "log_layout nv salt c k (frs[i := f']) (a @ raw_frame x' f' @ b)" if "length x' = 16" for x' f'
  proof -
    have t: "take k (frs[i := f']) = take k frs" using assms(2) by simp
    have d': "drop k (frs[i := f']) = gs @ f' # hs"
      using assms(2,3) d lg by (simp add: drop_update_swap j_def [symmetric] list_update_append)
    have "length (ys @ x' # ws) = length (frs[i := f']) - k" using xs z(2) by simp
    moreover have "a @ raw_frame x' f' @ b = log_bytes nv salt c (take k frs) @ raw_bytes (ys @ x' # ws) (gs @ f' # hs) @ tail"
      unfolding raw_bytes_append [OF ly] a_def b_def by simp
    ultimately show ?thesis using z(1) w lw that unfolding log_layout_def t d' by (intro conjI exI [of _ "ys @ x' # ws"] exI [of _ tail]) auto
  qed
  moreover have "log_layout nv salt c (Suc k) frs (a @ frame_hdr nv salt (log_cksum nv c (take k frs)) f @ snd (snd f) @ b)" if "i = k"
  proof -
    have g0: "gs = []" "ys = []" using lg that by (simp_all add: j_def ys_def gs_def)
    have t: "take (Suc k) frs = take k frs @ [f]" using that assms(3) by (simp add: f_def take_Suc_conv_app_nth)
    have "drop (Suc k) frs = hs" using that by (simp add: hs_def)
    then show ?thesis using w lw assms(3) that unfolding log_layout_def t
      by (intro conjI exI [of _ ws] exI [of _ tail]) (simp_all add: a_def b_def g0 log_bytes_append hs_def)
  qed
  ultimately show ?thesis using e w(1) unfolding f_def by blast
qed

text \<open>One more frame at the end, good or raw.\<close>

lemma layout_snoc:
  assumes "log_layout nv salt c k frs z" "length salt = 8" "list_all (frame_ok sz) frs"
  obtains a tail where "length a = length frs * (sz + WAL_FRAME_HDRSIZE)" "z = a @ tail"
    "\<And>x f tail'. length x = 16 \<Longrightarrow> log_layout nv salt c k (frs @ [f]) (a @ raw_frame x f @ tail')"
    "\<And>f tail'. k = length frs \<Longrightarrow> log_layout nv salt c (Suc k) (frs @ [f]) (a @ frame_hdr nv salt (log_cksum nv c frs) f @ snd (snd f) @ tail')"
proof -
  obtain xs tail where z: "k \<le> length frs" "length xs = length frs - k" "\<forall>x \<in> set xs. length x = 16"
    "z = log_bytes nv salt c (take k frs) @ raw_bytes xs (drop k frs) @ tail" using assms(1) by (auto simp: log_layout_def)
  define a where "a = log_bytes nv salt c (take k frs) @ raw_bytes xs (drop k frs)"
  have "list_all (frame_ok sz) (take k frs @ drop k frs)" using assms(3) by simp
  then have ok: "list_all (frame_ok sz) (take k frs)" "list_all (frame_ok sz) (drop k frs)" unfolding list_all_append by simp_all
  have "length a = length frs * (sz + WAL_FRAME_HDRSIZE)"
    using length_log_bytes [OF assms(2) ok(1), of nv c] length_raw_bytes [OF _ z(3) ok(2)] z(1,2)
    by (simp add: a_def flip: add_mult_distrib)
  moreover have "log_layout nv salt c k (frs @ [f]) (a @ raw_frame x f @ tail')" if "length x = 16" for x f tail'
    unfolding log_layout_def using z that
    by (intro conjI exI [of _ "xs @ [x]"] exI [of _ tail']) (auto simp: a_def raw_bytes_append)
  moreover have "log_layout nv salt c (Suc k) (frs @ [f]) (a @ frame_hdr nv salt (log_cksum nv c frs) f @ snd (snd f) @ tail')"
    if "k = length frs" for f tail'
    unfolding log_layout_def using z that
    by (intro conjI exI [of _ "[]"] exI [of _ tail']) (auto simp: a_def log_bytes_append)
  moreover have "z = a @ tail" using z(4) by (simp add: a_def)
  ultimately show thesis using that by blast
qed

section \<open>The frames of a transaction\<close>

text \<open>The file holds the frames \<open>frs\<close>, and the writer knows how to go on.\<close>

definition log_ready :: "Wal \<Rightarrow> wal_log \<Rightarrow> bool \<Rightarrow> u8 list \<Rightarrow> nat \<Rightarrow> u32 \<Rightarrow> frame list \<Rightarrow> bool" where
  "log_ready w log be salt sz nc frs \<longleftrightarrow>
     (\<exists>z. lf_data log = wal_header be salt sz nc @ z \<and>
        log_layout (be = SQLITE_BIGENDIAN) salt (header_cksum be salt sz nc)
          (if iReCksum w = 0 then length frs else iReCksum w - 1) frs z) \<and>
     length salt = 8 \<and> list_all (frame_ok sz) frs \<and> iReCksum w \<le> length frs \<and>
     log_state w (be = SQLITE_BIGENDIAN) salt sz (aFrameCksum (hdr w)) \<and>
     (iReCksum w = 0 \<longrightarrow> aFrameCksum (hdr w) = file_cksum be salt sz nc frs)"

lemma ready_cases:
  assumes "log_ready w log be salt sz nc frs"
  obtains z where "lf_data log = wal_header be salt sz nc @ z"
    "log_layout (be = SQLITE_BIGENDIAN) salt (header_cksum be salt sz nc)
       (if iReCksum w = 0 then length frs else iReCksum w - 1) frs z"
    "length salt = 8" "list_all (frame_ok sz) frs" "iReCksum w \<le> length frs"
    "log_state w (be = SQLITE_BIGENDIAN) salt sz (aFrameCksum (hdr w))"
    "iReCksum w = 0 \<longrightarrow> aFrameCksum (hdr w) = file_cksum be salt sz nc frs"
  using assms unfolding log_ready_def by (elim conjE exE) (rule that)

lemma ready_cong:
  assumes "iReCksum w' = iReCksum w" "bigEndCksum (hdr w') = bigEndCksum (hdr w)" "aSalt (hdr w') = aSalt (hdr w)"
    "szPage w' = szPage w" "aFrameCksum (hdr w') = aFrameCksum (hdr w)"
  shows "log_ready w' log be salt sz nc frs = log_ready w log be salt sz nc frs"
  by (simp only: log_ready_def log_state_def assms)

lemma ready_file: "log_ready w log be salt sz nc frs \<Longrightarrow> iReCksum w = 0 \<Longrightarrow> \<exists>tail. lf_data log = log_file be salt sz nc frs @ tail"
  by (auto simp: log_ready_def layout_good log_file_def)

lemma write_file:
  assumes "length salt = 8" "length a = n"
  shows "write_at (WAL_HDRSIZE + n) b (wal_header be salt sz nc @ a @ c) = wal_header be salt sz nc @ a @ b @ drop (length b) c"
  using write_at_append [of "wal_header be salt sz nc @ a" "WAL_HDRSIZE + n" b c] assms by (simp add: length_wal_header)

lemma ready_append:
  assumes "log_ready w log be salt sz nc frs" "p \<noteq> 0" "length d = sz"
    "walWriteOneFrame s w log (p, d) n (walFrameOffset (Suc (length frs)) sz) = (WAL_OK, w', log')"
  shows "log_ready w' log' be salt sz nc (frs @ [(p, n, d)]) \<and> iReCksum w' = iReCksum w"
proof -
  let ?nv = "be = SQLITE_BIGENDIAN"
  let ?c = "header_cksum be salt sz nc"
  define k where "k = (if iReCksum w = 0 then length frs else iReCksum w - 1)"
  obtain z where z: "lf_data log = wal_header be salt sz nc @ z" "log_layout ?nv salt ?c k frs z"
    and r: "length salt = 8" "list_all (frame_ok sz) frs" "iReCksum w \<le> length frs"
      "log_state w ?nv salt sz (aFrameCksum (hdr w))" "iReCksum w = 0 \<longrightarrow> aFrameCksum (hdr w) = file_cksum be salt sz nc frs"
    by (rule ready_cases [OF assms(1), folded k_def]) (rule that)
  obtain a tail where a: "length a = length frs * (sz + WAL_FRAME_HDRSIZE)" "z = a @ tail"
    "\<And>x f tail'. length x = 16 \<Longrightarrow> log_layout ?nv salt ?c k (frs @ [f]) (a @ raw_frame x f @ tail')"
    "\<And>f tail'. k = length frs \<Longrightarrow> log_layout ?nv salt ?c (Suc k) (frs @ [f]) (a @ frame_hdr ?nv salt (log_cksum ?nv ?c frs) f @ snd (snd f) @ tail')"
    by (rule layout_snoc [OF z(2) r(1,2)]) (rule that)
  have off: "walFrameOffset (Suc (length frs)) sz = WAL_HDRSIZE + length frs * (sz + WAL_FRAME_HDRSIZE)"
    by (simp add: walFrameOffset_def)
  have okn: "list_all (frame_ok sz) (frs @ [(p, n, d)])" using r(2) assms(2,3) by (simp add: frame_ok_def)
  obtain fr w1 where e: "walEncodeFrame w p n d = (fr, w1)" by fastforce
  show ?thesis
  proof (cases "iReCksum w = 0")
    case True
    let ?f = "(p, n, d)"
    have c: "aFrameCksum (hdr w) = log_cksum ?nv ?c frs" using r(5) True by (simp add: file_cksum_def)
    have f: "fr = frame_hdr ?nv salt (log_cksum ?nv ?c frs) ?f" "w1 = w\<lparr>hdr := (hdr w)\<lparr>aFrameCksum := next_cksum ?nv (log_cksum ?nv ?c frs) ?f\<rparr>\<rparr>"
      using encode_frame [OF r(4) True assms(3), of p n] e c by simp_all
    have "w' = w1 \<and> lf_data log' = write_at (walFrameOffset (Suc (length frs)) sz) (fr @ d) (lf_data log)"
      using walWriteOneFrame_ok [OF assms(4), of fr w1] e length_frame_hdr [OF r(1)] f(1) by simp
    then have w': "w' = w1" "lf_data log' = wal_header be salt sz nc @ a @ (fr @ d) @ drop (length (fr @ d)) tail"
      unfolding z(1) a(2) off write_file [OF r(1) a(1)] by simp_all
    have "log_layout ?nv salt ?c (Suc k) (frs @ [?f]) (a @ fr @ d @ drop (length (fr @ d)) tail)"
      using a(4) [of ?f] True unfolding f(1) k_def by simp
    then show ?thesis
      unfolding log_ready_def w' using r okn True f(2)
      by (auto simp: k_def log_state_def file_cksum_def log_cksum_append)
  next
    case False
    have f: "fr = sqlite3Put4byte p @ sqlite3Put4byte n @ replicate 16 0" "w1 = w"
      using e False by (simp_all add: walEncodeFrame_def)
    have "w' = w1 \<and> lf_data log' = write_at (walFrameOffset (Suc (length frs)) sz) (fr @ d) (lf_data log)"
      using walWriteOneFrame_ok [OF assms(4)] e f(1) by (simp add: WAL_FRAME_HDRSIZE_def)
    then have w': "w' = w" "lf_data log' = wal_header be salt sz nc @ a @ (fr @ d) @ drop (length (fr @ d)) tail"
      unfolding z(1) a(2) off write_file [OF r(1) a(1)] using f(2) by simp_all
    have "log_layout ?nv salt ?c k (frs @ [(p, n, d)]) (a @ (fr @ d) @ drop (length (fr @ d)) tail)"
      using a(3) [of "replicate 16 0" "(p, n, d)"] unfolding f(1) by simp
    then show ?thesis
      unfolding log_ready_def w' using r okn False by (auto simp: k_def)
  qed
qed

lemma list_all_update: "list_all P xs \<Longrightarrow> P x \<Longrightarrow> list_all P (xs[i := x])"
  using set_update_subset_insert [of xs i x] by (auto simp: list_all_iff)

lemma ready_overwrite:
  assumes "log_ready w log be salt sz nc frs" "0 < i" "i \<le> length frs" "frs ! (i - 1) = (p, n, d0)" "length d = sz"
    "log_write d (walFrameOffset i sz + WAL_FRAME_HDRSIZE) log = (WAL_OK, log')"
  shows "log_ready (if iReCksum w = 0 \<or> i < iReCksum w then w\<lparr>iReCksum := i\<rparr> else w) log' be salt sz nc (frs[i - 1 := (p, n, d)])"
proof -
  let ?nv = "be = SQLITE_BIGENDIAN"
  let ?c = "header_cksum be salt sz nc"
  define k where "k = (if iReCksum w = 0 then length frs else iReCksum w - 1)"
  define k' where "k' = (if iReCksum w = 0 \<or> i < iReCksum w then i - 1 else k)"
  obtain z where z: "lf_data log = wal_header be salt sz nc @ z" "log_layout ?nv salt ?c k frs z"
    and r: "length salt = 8" "list_all (frame_ok sz) frs" "iReCksum w \<le> length frs"
      "log_state w ?nv salt sz (aFrameCksum (hdr w))"
    using assms(1) unfolding log_ready_def k_def by blast
  have k': "k' \<le> k" "k' \<le> i - 1" "i - 1 < length frs" using assms(2,3) r(3) by (auto simp: k_def k'_def)
  obtain a x b where a: "length a = (i - 1) * (sz + WAL_FRAME_HDRSIZE)" "length x = 16" "z = a @ raw_frame x (p, n, d0) @ b"
    "\<And>x' f'. length x' = 16 \<Longrightarrow> log_layout ?nv salt ?c k' (frs[i - 1 := f']) (a @ raw_frame x' f' @ b)"
    using layout_at [OF layout_weaken [OF z(2) k'(1) r(1)] k'(2,3) r(1,2)] assms(4) by metis
  have f0: "length d0 = sz" "p \<noteq> 0" using r(2) k'(3) assms(4) by (auto simp: list_all_length frame_ok_def)
  let ?h = "sqlite3Put4byte p @ sqlite3Put4byte n @ x"
  have la: "length (a @ ?h) = (i - 1) * (sz + WAL_FRAME_HDRSIZE) + WAL_FRAME_HDRSIZE" using a(1,2) by (simp add: WAL_FRAME_HDRSIZE_def)
  have off: "walFrameOffset i sz + WAL_FRAME_HDRSIZE = WAL_HDRSIZE + ((i - 1) * (sz + WAL_FRAME_HDRSIZE) + WAL_FRAME_HDRSIZE)"
    by (simp add: walFrameOffset_def)
  have zz: "z = (a @ ?h) @ (d0 @ b)" using a(3) by simp
  have d: "lf_data log' = wal_header be salt sz nc @ a @ raw_frame x (p, n, d) @ b"
    using log_write_ok [OF assms(6)] unfolding z(1) zz off write_file [OF r(1) la] using f0 assms(5) by simp
  have okn: "list_all (frame_ok sz) (frs[i - 1 := (p, n, d)])"
    using r(2) f0 assms(5) by (intro list_all_update) (simp_all add: frame_ok_def)
  let ?w = "if iReCksum w = 0 \<or> i < iReCksum w then w\<lparr>iReCksum := i\<rparr> else w"
  have w: "iReCksum ?w \<noteq> 0" "iReCksum ?w - 1 = k'" "iReCksum ?w \<le> length frs"
    "log_state ?w ?nv salt sz (aFrameCksum (hdr ?w))"
    using assms(2,3) r(3,4) by (auto simp: k'_def k_def log_state_def)
  show ?thesis
    unfolding log_ready_def d using w okn r(1) a(4) [OF a(2), of "(p, n, d)"] by (intro conjI exI [of _ "a @ raw_frame x (p, n, d) @ b"]) simp_all
qed

text \<open>Rewriting the checksums from a frame on.\<close>

lemma rewrite_loop_ok:
  assumes "rewrite_loop sz w log (Suc k) (length frs - k) = (WAL_OK, w', log')"
    "lf_data log = wal_header be salt sz nc @ z" "log_layout (be = SQLITE_BIGENDIAN) salt (header_cksum be salt sz nc) k frs z"
    "k \<le> length frs" "length salt = 8" "list_all (frame_ok sz) frs" "iReCksum w = 0"
    "log_state w (be = SQLITE_BIGENDIAN) salt sz (log_cksum (be = SQLITE_BIGENDIAN) (header_cksum be salt sz nc) (take k frs))"
  shows "log_ready w' log' be salt sz nc frs \<and> iReCksum w' = 0"
  using assms
proof (induction "length frs - k" arbitrary: k w log z)
  case 0
  then have "k = length frs" by simp
  then show ?case using 0 by (simp add: log_ready_def log_state_def file_cksum_def)
next
  case (Suc n)
  let ?nv = "be = SQLITE_BIGENDIAN"
  let ?c = "header_cksum be salt sz nc"
  have k: "k < length frs" "length frs - k = Suc n" "n = length frs - Suc k" using Suc.hyps(2) by simp_all
  obtain p m d where f: "frs ! k = (p, m, d)" by (metis prod_cases3)
  have fo: "p \<noteq> 0" "length d = sz" using Suc.prems(6) k(1) f by (auto simp: list_all_length frame_ok_def)
  obtain a x b where a: "length a = k * (sz + WAL_FRAME_HDRSIZE)" "length x = 16" "z = a @ raw_frame x (p, m, d) @ b"
    "log_layout ?nv salt ?c (Suc k) frs (a @ frame_hdr ?nv salt (log_cksum ?nv ?c (take k frs)) (p, m, d) @ d @ b)"
    using layout_at [OF Suc.prems(3) le_refl k(1) Suc.prems(5,6)] unfolding f snd_conv by blast
  have off: "walFrameOffset (Suc k) sz = WAL_HDRSIZE + k * (sz + WAL_FRAME_HDRSIZE)" by (simp add: walFrameOffset_def)
  let ?off = "WAL_HDRSIZE + k * (sz + WAL_FRAME_HDRSIZE)"
  obtain rc1 buf l1 where rd: "log_read (sz + WAL_FRAME_HDRSIZE) ?off log = (rc1, buf, l1)" by (metis prod_cases3)
  obtain fr w1 where e: "walEncodeFrame w (get4 buf 0) (get4 buf 4) (drop WAL_FRAME_HDRSIZE buf) = (fr, w1)" by fastforce
  obtain rc2 l2 where wr: "log_write fr ?off l1 = (rc2, l2)" by fastforce
  have rc: "rc1 = WAL_OK" "rc2 = WAL_OK" "rewrite_loop sz w1 l2 (Suc (Suc k)) n = (WAL_OK, w', log')"
    using Suc.prems(1) rd e wr unfolding k(2) by (auto simp: off Let_def split: if_splits)
  have hl: "length (wal_header be salt sz nc @ a) = ?off" using length_wal_header [OF Suc.prems(5)] a(1) by simp
  have "buf = take (sz + WAL_FRAME_HDRSIZE) (drop ?off ((wal_header be salt sz nc @ a) @ raw_frame x (p, m, d) @ b))"
    using log_read_data [OF rd] rc(1) Suc.prems(2) a(3) by simp
  also have "\<dots> = raw_frame x (p, m, d)"
    using hl length_raw_frame [OF a(2), of sz "(p, m, d)"] fo by (simp add: frame_ok_def)
  finally have buf: "buf = raw_frame x (p, m, d)" .
  have g: "get4 buf 0 = p" "get4 buf 4 = m" "drop WAL_FRAME_HDRSIZE buf = d"
    unfolding buf using a(2) by (auto intro!: get4_put4 simp: WAL_FRAME_HDRSIZE_def)
  let ?n = "next_cksum ?nv (log_cksum ?nv ?c (take k frs)) (p, m, d)"
  have fr: "fr = frame_hdr ?nv salt (log_cksum ?nv ?c (take k frs)) (p, m, d)" "w1 = w\<lparr>hdr := (hdr w)\<lparr>aFrameCksum := ?n\<rparr>\<rparr>"
    using e encode_frame [OF Suc.prems(8,7) fo(2), of p m] unfolding g by simp_all
  have data1: "lf_data l1 = wal_header be salt sz nc @ a @ raw_frame x (p, m, d) @ b"
    using log_read_data [OF rd] Suc.prems(2) a(3) by simp
  have "lf_data l2 = write_at ?off fr (lf_data l1)" using log_write_ok wr rc(2) by simp
  then have data2: "lf_data l2 = wal_header be salt sz nc @ (a @ fr @ d @ b)"
    unfolding data1 write_file [OF Suc.prems(5) a(1)] using a(2) length_frame_hdr [OF Suc.prems(5)] fr(1) by (simp add: WAL_FRAME_HDRSIZE_def)
  have lay: "log_layout ?nv salt ?c (Suc k) frs (a @ fr @ d @ b)" using a(4) unfolding fr(1) .
  have ck: "log_cksum ?nv ?c (take (Suc k) frs) = ?n" using k(1) f by (simp add: take_Suc_conv_app_nth log_cksum_append)
  have "log_state w1 ?nv salt sz (log_cksum ?nv ?c (take (Suc k) frs))" "iReCksum w1 = 0"
    using Suc.prems(7,8) unfolding fr(2) ck by (simp_all add: log_state_def)
  then show ?case
    using Suc.hyps(1) [OF k(3) _ data2 lay _ Suc.prems(5,6), of w1] rc(3) k by simp
qed

lemma header_cksum_bytes:
  assumes "length salt = 8"
  shows "\<exists>pre. length pre = 24 \<and> wal_header be salt sz nc =
    pre @ sqlite3Put4byte (fst (header_cksum be salt sz nc)) @ sqlite3Put4byte (snd (header_cksum be salt sz nc))"
proof -
  let ?b = "sqlite3Put4byte (WAL_MAGIC OR (if be then 1 else 0)) @ sqlite3Put4byte WAL_MAX_VERSION @
    sqlite3Put4byte (of_nat sz) @ sqlite3Put4byte nc @ salt"
  let ?c = "walChecksumBytes (be = SQLITE_BIGENDIAN) ?b None"
  have h: "wal_header be salt sz nc = ?b @ sqlite3Put4byte (fst ?c) @ sqlite3Put4byte (snd ?c)" by (simp add: wal_header_def Let_def)
  have "header_cksum be salt sz nc = ?c" unfolding header_cksum_def h using assms by simp
  then show ?thesis using h assms by (intro exI [of _ ?b]) simp
qed

lemma good_cksum_bytes:
  assumes "log_layout nv salt (header_cksum be salt sz nc) k frs z" "length salt = 8" "list_all (frame_ok sz) frs"
    and c: "c = log_cksum nv (header_cksum be salt sz nc) (take k frs)"
  shows "\<exists>pre post. wal_header be salt sz nc @ z = pre @ (sqlite3Put4byte (fst c) @ sqlite3Put4byte (snd c)) @ post \<and>
    length pre = (if k = 0 then 24 else walFrameOffset k sz + 16)"
proof (cases k)
  case 0
  obtain pre where p: "length pre = 24" "wal_header be salt sz nc =
      pre @ sqlite3Put4byte (fst (header_cksum be salt sz nc)) @ sqlite3Put4byte (snd (header_cksum be salt sz nc))"
    using header_cksum_bytes [OF assms(2)] by blast
  show ?thesis by (rule exI [of _ pre], rule exI [of _ z]) (use 0 p c in simp)
next
  case (Suc j)
  let ?c = "header_cksum be salt sz nc"
  have j: "j < length frs" using assms(1) Suc by (simp add: log_layout_def)
  obtain rest where z: "z = log_bytes nv salt ?c (take k frs) @ rest" using assms(1) by (auto simp: log_layout_def)
  obtain p n d where f: "frs ! j = (p, n, d)" by (metis prod_cases3)
  have tk: "take k frs = take j frs @ [(p, n, d)]" using j f Suc by (simp add: take_Suc_conv_app_nth)
  have okj: "list_all (frame_ok sz) (take j frs)" using assms(3) by (simp add: list_all_length)
  let ?c' = "log_cksum nv ?c (take j frs)"
  have cn: "c = next_cksum nv ?c' (p, n, d)" unfolding c tk log_cksum_append by simp
  define pre where "pre = wal_header be salt sz nc @ log_bytes nv salt ?c (take j frs) @ sqlite3Put4byte p @ sqlite3Put4byte n @ salt"
  have "length pre = walFrameOffset k sz + 16"
    using length_log_bytes [OF assms(2) okj, of nv ?c] j assms(2) length_wal_header [OF assms(2)] Suc by (simp add: pre_def walFrameOffset_def)
  moreover have "wal_header be salt sz nc @ z = pre @ (sqlite3Put4byte (fst c) @ sqlite3Put4byte (snd c)) @ d @ rest"
    unfolding z tk log_bytes_append cn pre_def by (simp add: frame_hdr.simps)
  ultimately show ?thesis using Suc by (intro exI [of _ pre] exI [of _ "d @ rest"]) simp
qed

lemma rewrite_checksums_ok:
  assumes "log_ready w log be salt sz nc frs" "iReCksum w \<noteq> 0" "walRewriteChecksums env w log (length frs) = (WAL_OK, w', log')"
  shows "log_ready w' log' be salt sz nc frs \<and> iReCksum w' = 0"
proof -
  let ?nv = "be = SQLITE_BIGENDIAN"
  let ?c = "header_cksum be salt sz nc"
  define k where "k = iReCksum w - 1"
  obtain z where z: "lf_data log = wal_header be salt sz nc @ z" "log_layout ?nv salt ?c k frs z"
    and r: "length salt = 8" "list_all (frame_ok sz) frs" "iReCksum w \<le> length frs"
      "log_state w ?nv salt sz (aFrameCksum (hdr w))"
    by (rule ready_cases [OF assms(1), unfolded if_not_P [OF assms(2)], folded k_def]) (rule that)
  have k: "iReCksum w = Suc k" "k \<le> length frs" "length frs + 1 - Suc k = length frs - k" using assms(2) r(3) by (simp_all add: k_def)
  let ?ck = "log_cksum ?nv ?c (take k frs)"
  let ?off = "if k = 0 then 24 else walFrameOffset k sz + 16"
  obtain rc buf l1 where rd: "log_read 8 ?off log = (rc, buf, l1)" by (metis prod_cases3)
  let ?w = "w\<lparr>hdr := (hdr w)\<lparr>aFrameCksum := (get4 buf 0, get4 buf 4)\<rparr>, iReCksum := 0\<rparr>"
  have sz: "nat (szPage w) = sz" using r(4) by (simp add: log_state_def)
  have rc: "rc = WAL_OK" "rewrite_loop sz ?w l1 (Suc k) (length frs - k) = (WAL_OK, w', log')"
    using assms(3) rd unfolding walRewriteChecksums_def k(1) sz Let_def by (auto simp: k(3) split: if_splits)
  obtain pre post where pp: "lf_data log = pre @ (sqlite3Put4byte (fst ?ck) @ sqlite3Put4byte (snd ?ck)) @ post" "length pre = ?off"
    using good_cksum_bytes [OF z(2) r(1,2) refl] z(1) by auto
  have buf: "buf = sqlite3Put4byte (fst ?ck) @ sqlite3Put4byte (snd ?ck)"
    using log_read_data [OF rd] rc(1) pp(2) unfolding pp(1) by simp
  have "get4 buf 0 = fst ?ck" "get4 buf 4 = snd ?ck"
    unfolding buf by (rule get4_put4 [where y = "sqlite3Put4byte (snd ?ck)"], simp, rule get4_put4 [where y = "[]"], simp)
  then have "log_state ?w ?nv salt sz ?ck" using r(4) by (simp add: log_state_def)
  then show ?thesis
    using rewrite_loop_ok [OF rc(2) _ z(2) k(2) r(1,2)] log_read_data [OF rd] z(1) by simp
qed

section \<open>Writing the pages\<close>

text \<open>What the writer leaves alone: all but the checksum, \<open>iReCksum\<close> and the mapping of the index.\<close>

definition same_writer :: "Wal \<Rightarrow> Wal \<Rightarrow> bool" where
  "same_writer w w' \<longleftrightarrow> (\<exists>c i. same_wal (w\<lparr>hdr := (hdr w)\<lparr>aFrameCksum := c\<rparr>, iReCksum := i\<rparr>) w')"

lemma same_writerI: "same_wal (w\<lparr>hdr := (hdr w)\<lparr>aFrameCksum := c\<rparr>, iReCksum := i\<rparr>) w' \<Longrightarrow> same_writer w w'"
  unfolding same_writer_def by blast

lemma same_writer_same_wal: "same_wal w w' \<Longrightarrow> same_writer w w'"
  by (rule same_writerI [where c = "aFrameCksum (hdr w)" and i = "iReCksum w"]) (simp add: same_wal_def)

lemma same_writer_refl [simp]: "same_writer w w"
  by (rule same_writer_same_wal) simp

lemma same_writer_trans: "same_writer u v \<Longrightarrow> same_writer v w \<Longrightarrow> same_writer u w"
  unfolding same_writer_def [of u v] same_writer_def [of v w]
  by (elim exE, rule same_writerI) (simp add: same_wal_def, blast?)

lemma same_writer_cksum [simp]: "same_writer w (w\<lparr>hdr := (hdr w)\<lparr>aFrameCksum := c\<rparr>\<rparr>)" "same_writer w (w\<lparr>iReCksum := i\<rparr>)"
  by (rule same_writerI [where c = c and i = "iReCksum w"], simp add: same_wal_def, rule same_writerI [where c = "aFrameCksum (hdr w)" and i = i], simp add: same_wal_def)

lemma same_writer_facts:
  assumes "same_writer w w'"
  shows "live_hdr w' = live_hdr w" "mxFrame (hdr w') = mxFrame (hdr w)" "readLock w' = readLock w" "minFrame w' = minFrame w"
    "szPage w' = szPage w" "writeLock w' = writeLock w"
proof -
  obtain c i where "same_wal (w\<lparr>hdr := (hdr w)\<lparr>aFrameCksum := c\<rparr>, iReCksum := i\<rparr>) w'" using assms unfolding same_writer_def by blast
  then show "live_hdr w' = live_hdr w" "mxFrame (hdr w') = mxFrame (hdr w)" "readLock w' = readLock w" "minFrame w' = minFrame w"
    "szPage w' = szPage w" "writeLock w' = writeLock w"
    by (simp_all add: same_wal_def)
qed

lemma same_wal_ready: "same_wal w w' \<Longrightarrow> log_ready w' log be salt sz nc frs = log_ready w log be salt sz nc frs"
  by (simp add: same_wal_def log_ready_def log_state_def)

text \<open>The content after some pages are written.\<close>

lemma log_content_append: "log_content (fs @ gs) = log_content fs ++ log_content gs"
  by (simp add: log_content_def)

lemma log_content_snoc [simp]: "log_content (fs @ [(p, n, d)]) = (log_content fs)(p \<mapsto> d)"
  by (simp add: log_content_def)

lemma log_content_notin: "p \<notin> fst ` set fs \<Longrightarrow> log_content fs p = None"
proof -
  assume "p \<notin> fst ` set fs"
  then have "p \<notin> fst ` set (rev (map (\<lambda>(p, n, d). (p, d)) fs))" by (force simp: image_def)
  then show ?thesis unfolding log_content_def by (simp add: map_of_eq_None_iff)
qed

lemma log_content_update:
  assumes "i < length fs" "fst (fs ! i) = p" "p \<notin> fst ` set (drop (Suc i) fs)"
  shows "log_content (fs[i := (p, n, d)]) = (log_content fs)(p \<mapsto> d)"
proof -
  have fs: "fs = take i fs @ fs ! i # drop (Suc i) fs" by (rule id_take_nth_drop [OF assms(1)])
  have up: "fs[i := (p, n, d)] = take i fs @ (p, n, d) # drop (Suc i) fs" by (rule upd_conv_take_nth_drop [OF assms(1)])
  obtain m e where f: "fs ! i = (p, m, e)" using assms(2) by (metis prod.collapse)
  have c: "log_content (take i fs @ (p, k, x) # drop (Suc i) fs) = (log_content (take i fs))(p \<mapsto> x) ++ log_content (drop (Suc i) fs)" for k x
    using log_content_append [of "take i fs @ [(p, k, x)]" "drop (Suc i) fs"] by simp
  have n: "log_content (drop (Suc i) fs) p = None" by (rule log_content_notin [OF assms(3)])
  have "log_content fs = log_content (take i fs @ (p, m, e) # drop (Suc i) fs)" using fs f by simp
  then show ?thesis unfolding up c using n by (auto simp: map_add_def fun_eq_iff split: option.splits)
qed

text \<open>The frame that is overwritten.\<close>

lemma overwrite_frame:
  assumes "wi_inv w (ks @ rest)" "mxFrame (hdr w) = length ks" "readLock w \<noteq> 0" "sqlite3WalFindFrame os w p = (rc, i, w')"
  shows "same_wal w w' \<and> wi_inv w' (ks @ rest) \<and> (rc = WAL_OK \<longrightarrow> i = last_frame ks p (minFrame w) (length ks))"
proof -
  have "last_frame (ks @ rest) p (minFrame w) (length ks) = last_frame ks p (minFrame w) (length ks)" by (rule last_frame_snoc) simp
  then show ?thesis using find_frame [OF assms(1) _ assms(4)] assms(2,3) by simp
qed

text \<open>
  In the middle of a transaction: the committed frames \<open>fs\<close>, the frames \<open>us\<close> of the transaction that
  the index knows of, and \<open>frs\<close>, all the frames in the file.
\<close>

definition txn_inv :: "Wal \<Rightarrow> wal_log \<Rightarrow> bool \<Rightarrow> u8 list \<Rightarrow> nat \<Rightarrow> u32 \<Rightarrow> frame list \<Rightarrow> u32 list \<Rightarrow> u32 list \<Rightarrow> frame list \<Rightarrow> bool" where
  "txn_inv w log be salt sz nc fs us rest frs \<longleftrightarrow>
     log_ready w log be salt sz nc frs \<and> take (length fs) frs = fs \<and> (iReCksum w = 0 \<or> length fs < iReCksum w) \<and>
     wi_inv w (map fst fs @ us @ rest) \<and> mxFrame (hdr w) = length fs + length us \<and> readLock w \<noteq> 0 \<and>
     minFrame w \<le> Suc (length fs) \<and> (\<exists>ns. map fst frs = map fst fs @ us @ ns)"

lemma length_log_file:
  "length salt = 8 \<Longrightarrow> list_all (frame_ok sz) fs \<Longrightarrow> length (log_file be salt sz nc fs) = walFrameOffset (Suc (length fs)) sz"
  by (simp add: log_file_def length_wal_header length_log_bytes walFrameOffset_def)

lemma txn_keeps:
  assumes "txn_inv w log be salt sz nc fs us rest frs"
  shows "keeps (log_file be salt sz nc fs) log" "length (log_file be salt sz nc fs) = walFrameOffset (Suc (length fs)) sz"
proof -
  let ?nv = "be = SQLITE_BIGENDIAN"
  let ?c = "header_cksum be salt sz nc"
  have r: "log_ready w log be salt sz nc frs" "take (length fs) frs = fs" "iReCksum w = 0 \<or> length fs < iReCksum w"
    using assms by (simp_all add: txn_inv_def)
  define k where "k = (if iReCksum w = 0 then length frs else iReCksum w - 1)"
  obtain z where z: "lf_data log = wal_header be salt sz nc @ z" "log_layout ?nv salt ?c k frs z" "length salt = 8" "list_all (frame_ok sz) frs"
    by (rule ready_cases [OF r(1), folded k_def]) (rule that)
  have ok: "list_all (frame_ok sz) fs" using z(4) r(2) by (metis append_take_drop_id list_all_append)
  have k: "length fs \<le> k" using r(2,3) by (auto simp: k_def dest: arg_cong [of _ _ length])
  obtain tail where "z = log_bytes ?nv salt ?c (take (length fs) frs) @ tail"
    using layout_weaken [OF z(2) k z(3)] by (auto simp: log_layout_def)
  then have "lf_data log = log_file be salt sz nc fs @ tail" using z(1) r(2) by (simp add: log_file_def)
  then show "keeps (log_file be salt sz nc fs) log" by (simp add: keeps_def)
  show "length (log_file be salt sz nc fs) = walFrameOffset (Suc (length fs)) sz" by (rule length_log_file [OF z(3) ok])
qed

lemma walFrameOffset_mono: "i \<le> j \<Longrightarrow> walFrameOffset i sz \<le> walFrameOffset j sz"
  unfolding walFrameOffset_def by (intro add_left_mono mult_le_mono1 diff_le_mono)

text \<open>One page appended, one page overwritten.\<close>

lemma txn_append:
  assumes "txn_inv w log be salt sz nc fs us rest frs" "p \<noteq> 0" "length d = sz"
    "walWriteOneFrame s w log (p, d) n (walFrameOffset (Suc (length frs)) sz) = (rc, w', log')"
  shows "same_writer w w' \<and> keeps (log_file be salt sz nc fs) log' \<and>
    (rc = WAL_OK \<longrightarrow> txn_inv w' log' be salt sz nc fs us rest (frs @ [(p, n, d)]))"
proof -
  note k = txn_keeps [OF assms(1)]
  have i: "log_ready w log be salt sz nc frs" "take (length fs) frs = fs" "wi_inv w (map fst fs @ us @ rest)"
    "\<exists>ns. map fst frs = map fst fs @ us @ ns"
    using assms(1) by (simp_all add: txn_inv_def)
  have le: "length fs \<le> length frs" using i(2) by (metis length_take min.cobounded1)
  have "walFrameOffset (Suc (length fs)) sz \<le> walFrameOffset (Suc (length frs)) sz" using le by (simp add: walFrameOffset_mono)
  then obtain c where w': "keeps (log_file be salt sz nc fs) log'" "w' = w\<lparr>hdr := (hdr w)\<lparr>aFrameCksum := c\<rparr>\<rparr>"
    using walWriteOneFrame_keeps [OF assms(4) k(1)] k(2) by auto
  have "txn_inv w' log' be salt sz nc fs us rest (frs @ [(p, n, d)])" if "rc = WAL_OK"
    using ready_append [OF i(1) assms(2,3) assms(4) [unfolded that]] assms(1) i(3,4) le
    unfolding txn_inv_def w'(2) by (auto simp: wi_inv_def)
  then show ?thesis using w' by simp
qed

lemma txn_overwrite:
  assumes "txn_inv w log be salt sz nc fs us rest frs" "length fs < i" "i \<le> length frs" "fst (frs ! (i - 1)) = p"
    "p \<notin> fst ` set (drop i frs)" "length d = sz" "log_write d (walFrameOffset i sz + WAL_FRAME_HDRSIZE) log = (rc, log')"
  shows "keeps (log_file be salt sz nc fs) log' \<and>
    (rc = WAL_OK \<longrightarrow> (\<exists>frs'. txn_inv (if iReCksum w = 0 \<or> i < iReCksum w then w\<lparr>iReCksum := i\<rparr> else w) log' be salt sz nc fs us rest frs' \<and>
       map fst frs' = map fst frs \<and> log_content frs' = (log_content frs)(p \<mapsto> d)))"
proof -
  note k = txn_keeps [OF assms(1)]
  obtain n d0 where f: "frs ! (i - 1) = (p, n, d0)" using assms(4) by (metis prod.collapse)
  have i: "log_ready w log be salt sz nc frs" "take (length fs) frs = fs" using assms(1) by (simp_all add: txn_inv_def)
  have "walFrameOffset (Suc (length fs)) sz \<le> walFrameOffset i sz + WAL_FRAME_HDRSIZE"
    using walFrameOffset_mono [of "Suc (length fs)" i sz] assms(2) by simp
  then have kp: "keeps (log_file be salt sz nc fs) log'" using log_write_keeps [OF assms(7) k(1)] k(2) by simp
  let ?w = "if iReCksum w = 0 \<or> i < iReCksum w then w\<lparr>iReCksum := i\<rparr> else w"
  let ?frs = "frs[i - 1 := (p, n, d)]"
  have m: "map fst ?frs = map fst frs" using f by (metis fst_conv list_update_id map_update)
  have "txn_inv ?w log' be salt sz nc fs us rest ?frs" if "rc = WAL_OK"
  proof -
    have "log_ready ?w log' be salt sz nc ?frs"
      by (rule ready_overwrite [OF i(1) _ assms(3) f assms(6) assms(7) [unfolded that]]) (use assms(2) in simp)
    moreover have "take (length fs) ?frs = fs" using i(2) assms(2) by simp
    moreover have "iReCksum ?w = 0 \<or> length fs < iReCksum ?w" using assms(1,2) by (auto simp: txn_inv_def)
    ultimately show ?thesis using assms(1) m unfolding txn_inv_def by (simp add: wi_inv_def)
  qed
  moreover have "log_content ?frs = (log_content frs)(p \<mapsto> d)"
    by (rule log_content_update) (use assms(2-5) in auto)
  ultimately show ?thesis using kp m by blast
qed

text \<open>All the pages of a list.\<close>

lemma txn_same_wal: "same_wal w w' \<Longrightarrow> wi_inv w' (map fst fs @ us @ rest) \<Longrightarrow>
    txn_inv w log be salt sz nc fs us rest frs \<Longrightarrow> txn_inv w' log be salt sz nc fs us rest frs"
  by (simp add: txn_inv_def same_wal_ready) (simp add: same_wal_def)

text \<open>The frame with a page that \<open>sqlite3WalFrames\<close> overwrites, or 0.\<close>

definition overwritten :: "wal_os \<Rightarrow> bool \<Rightarrow> Wal \<Rightarrow> u32 \<Rightarrow> nat \<times> Wal" where
  "overwritten os look pWal p =
     (if look then (let (rc, iRead, pWal) = sqlite3WalFindFrame os pWal p in (if rc = WAL_OK then iRead else 0, pWal)) else (0, pWal))"

lemma overwritten_ok:
  assumes "os_ok os" "txn_inv w log be salt sz nc fs us rest frs" "overwritten os look w p = (i, w')"
  shows "same_writer w w' \<and> iReCksum w' = iReCksum w \<and> txn_inv w' log be salt sz nc fs us rest frs \<and>
    (look \<longrightarrow> (if Suc (length fs) \<le> i then i \<le> length fs + length us \<and> (map fst fs @ us) ! (i - 1) = p \<and> p \<notin> set (drop i (map fst fs @ us))
       else p \<notin> set us))"
proof (cases look)
  case False
  then show ?thesis using assms by (auto simp: overwritten_def)
next
  case True
  let ?ks = "map fst fs @ us"
  obtain rc j w1 where f: "sqlite3WalFindFrame os w p = (rc, j, w1)" by (metis prod_cases3)
  have w: "wi_inv w (?ks @ rest)" "mxFrame (hdr w) = length ?ks" "readLock w \<noteq> 0" "minFrame w \<le> Suc (length fs)"
    using assms(2) by (simp_all add: txn_inv_def)
  have s: "same_wal w w1" "wi_inv w1 (?ks @ rest)" "rc = WAL_OK" "j = last_frame ?ks p (minFrame w) (length ?ks)"
    using overwrite_frame [OF w(1-3) f] find_frame [OF w(1) _ f] assms(1) w(2) by auto
  have i: "w' = w1" "i = j" using assms(3) True f s(3) by (simp_all add: overwritten_def)
  have c: "i = 0 \<and> (\<forall>v. 0 < v \<and> v \<le> length ?ks \<and> minFrame w \<le> v \<longrightarrow> ?ks ! (v - 1) \<noteq> p) \<or>
    i \<le> length ?ks \<and> 0 < i \<and> ?ks ! (i - 1) = p \<and> (\<forall>v. i < v \<and> v \<le> length ?ks \<longrightarrow> ?ks ! (v - 1) \<noteq> p)"
    using last_frame_cases [of ?ks p "minFrame w" "length ?ks"] s(4) i(2) by blast
  have cc: "if Suc (length fs) \<le> i then i \<le> length ?ks \<and> ?ks ! (i - 1) = p \<and> p \<notin> set (drop i ?ks) else p \<notin> set us"
  proof (cases "Suc (length fs) \<le> i")
    case True
    then have c': "i \<le> length ?ks" "?ks ! (i - 1) = p" "\<And>v. i < v \<Longrightarrow> v \<le> length ?ks \<Longrightarrow> ?ks ! (v - 1) \<noteq> p" using c by auto
    have "drop i ?ks ! n \<noteq> p" if "n < length (drop i ?ks)" for n
      using c'(1) c'(3) [of "Suc (i + n)"] that by (simp del: drop_append)
    then have "p \<notin> set (drop i ?ks)" by (metis in_set_conv_nth)
    then show ?thesis using c' True by simp
  next
    case False
    have "us ! n \<noteq> p" if "n < length us" for n
    proof -
      have v: "?ks ! (Suc (length fs + n) - 1) = us ! n" by (simp add: nth_append)
      have "i < Suc (length fs + n)" "Suc (length fs + n) \<le> length ?ks" "minFrame w \<le> Suc (length fs + n)"
        using False that w(4) by auto
      then show ?thesis using c v by (metis zero_less_Suc)
    qed
    then show ?thesis using False by (metis in_set_conv_nth)
  qed
  have "iReCksum w1 = iReCksum w" using s(1) by (simp add: same_wal_def)
  moreover have "txn_inv w1 log be salt sz nc fs us rest frs" using txn_same_wal [OF s(1) _ assms(2)] s(2) by simp
  ultimately show ?thesis
    using i(1) same_writer_same_wal [OF s(1)] cc by (cases "Suc (length fs) \<le> i") (simp_all del: drop_append)
qed

lemma write_pages_ok:
  assumes "os_ok os" "iFirst = 0 \<and> us = [] \<or> iFirst = Suc (length fs)"
  shows "write_pages os sz nT isCommit iFirst w log (length frs) (walFrameOffset (Suc (length frs)) sz) app pList = (rc, iF, iO, app', w', log') \<Longrightarrow>
    txn_inv w log be salt sz nc fs us rest frs \<Longrightarrow> \<forall>(p, d) \<in> set pList. p \<noteq> 0 \<and> length d = sz \<Longrightarrow>
    map fst frs = map fst fs @ us @ app \<Longrightarrow> (pList \<noteq> [] \<Longrightarrow> set app \<inter> set us = {}) \<Longrightarrow>
    same_writer w w' \<and> keeps (log_file be salt sz nc fs) log' \<and>
    (rc = WAL_OK \<longrightarrow> (\<exists>frs'. txn_inv w' log' be salt sz nc fs us rest frs' \<and> iF = length frs' \<and>
       iO = walFrameOffset (Suc (length frs')) sz \<and> map fst frs' = map fst fs @ us @ app' \<and>
       log_content frs' = log_content frs ++ map_of (rev pList) \<and>
       (isCommit \<and> pList \<noteq> [] \<longrightarrow> frs' \<noteq> [] \<and> last frs' = (fst (last pList), nT, snd (last pList)))))"
proof (induction pList arbitrary: w log frs app)
  case Nil
  then show ?case using txn_keeps(1) by (auto intro!: exI [of _ frs])
next
  case (Cons pd pl)
  obtain p d where pd: "pd = (p, d)" by fastforce
  have pg: "p \<noteq> 0" "length d = sz" "\<forall>(p, d) \<in> set pl. p \<noteq> 0 \<and> length d = sz" using Cons.prems(3) pd by auto
  define look where "look \<longleftrightarrow> iFirst \<noteq> 0 \<and> (pl \<noteq> [] \<or> \<not> isCommit)"
  obtain i w1 where ov: "overwritten os look w p = (i, w1)" by fastforce
  note o = overwritten_ok [OF assms(1) Cons.prems(2) ov]
  have ow: "(if iFirst \<noteq> 0 \<and> (pl \<noteq> [] \<or> \<not> isCommit)
      then (let (rc, iRead, pWal) = sqlite3WalFindFrame os w (fst pd) in (if rc = WAL_OK then iRead else 0, pWal)) else (0, w)) = (i, w1)"
    using ov unfolding overwritten_def look_def pd fst_conv .
  have r: "m ++ map_of (rev (pd # pl)) = m(p \<mapsto> d) ++ map_of (rev pl)" for m :: "u32 \<rightharpoonup> u8 list"
    by (simp add: pd map_add_def fun_eq_iff split: option.splits)
  show ?case
  proof (cases "look \<and> Suc (length fs) \<le> i")
    case True
    have ks: "i \<le> length fs + length us" "(map fst fs @ us) ! (i - 1) = p" "p \<notin> set (drop i (map fst fs @ us))" "txn_inv w1 log be salt sz nc fs us rest frs"
      using o True by simp_all
    have "i - 1 - length fs < length us" "us ! (i - 1 - length fs) = p" using ks(1,2) True by (auto simp: nth_append)
    then have "p \<in> set us" using nth_mem by blast
    then have na: "p \<notin> set app" using Cons.prems(5) by auto
    have lf: "length frs = length fs + length us + length app" using arg_cong [OF Cons.prems(4), of length] by simp
    have "i - 1 < length frs" using ks(1) True lf by linarith
    then have "fst (frs ! (i - 1)) = map fst frs ! (i - 1)" by simp
    also have "\<dots> = ((map fst fs @ us) @ app) ! (i - 1)" unfolding Cons.prems(4) by simp
    also have "\<dots> = p"
    proof -
      have "i - 1 < length (map fst fs @ us)" using ks(1) True unfolding length_append length_map by linarith
      then show ?thesis using ks(2) by (simp only: nth_append [of "map fst fs @ us"] if_True)
    qed
    finally have fp: "fst (frs ! (i - 1)) = p" .
    have "drop i (map fst frs) = drop i (map fst fs @ us) @ app" unfolding Cons.prems(4) using ks(1) by simp
    then have "p \<notin> set (drop i (map fst frs))" using ks(3) na by simp
    then have np: "p \<notin> fst ` set (drop i frs)" by (simp add: drop_map)
    define w2 where "w2 = (if iReCksum w1 = 0 \<or> i < iReCksum w1 then w1\<lparr>iReCksum := i\<rparr> else w1)"
    obtain rc1 log1 where wr: "log_write d (walFrameOffset i sz + WAL_FRAME_HDRSIZE) log = (rc1, log1)" by fastforce
    have s2: "same_writer w w2" using o same_writer_trans [of w w1 w2] by (simp add: w2_def)
    note ov2 = txn_overwrite [OF ks(4) _ _ fp np pg(2) wr, folded w2_def]
    have kp: "keeps (log_file be salt sz nc fs) log1" using ov2 True ks(1) lf by simp
    have e: "(rc, iF, iO, app', w', log') = (if rc1 \<noteq> WAL_OK then (rc1, length frs, walFrameOffset (Suc (length frs)) sz, app, w2, log1)
        else write_pages os sz nT isCommit iFirst w2 log1 (length frs) (walFrameOffset (Suc (length frs)) sz) app pl)"
    proof -
      have cond: "iFirst \<noteq> 0 \<and> (pl \<noteq> [] \<or> \<not> isCommit) \<and> iFirst \<le> i" using True assms(2) by (auto simp: look_def)
      show ?thesis
        using Cons.prems(1) unfolding write_pages.simps ow unfolding Let_def split_conv if_P [OF cond] w2_def [symmetric] pd snd_conv wr
        by (cases "rc1 = WAL_OK") auto
    qed
    show ?thesis
    proof (cases "rc1 = WAL_OK")
      case False
      then show ?thesis using e s2 kp by simp
    next
      case ok: True
      obtain frs1 where f1: "txn_inv w2 log1 be salt sz nc fs us rest frs1" "map fst frs1 = map fst frs" "log_content frs1 = (log_content frs)(p \<mapsto> d)"
        using ov2 ok True ks(1) lf by auto
      have lf1: "length frs1 = length frs" using arg_cong [OF f1(2), of length] by simp
      have pl: "pl \<noteq> [] \<or> \<not> isCommit" using True by (simp add: look_def)
      have "write_pages os sz nT isCommit iFirst w2 log1 (length frs1) (walFrameOffset (Suc (length frs1)) sz) app pl = (rc, iF, iO, app', w', log')"
        using e ok unfolding lf1 by simp
      then have ih: "same_writer w2 w' \<and> keeps (log_file be salt sz nc fs) log' \<and>
        (rc = WAL_OK \<longrightarrow> (\<exists>frs'. txn_inv w' log' be salt sz nc fs us rest frs' \<and> iF = length frs' \<and>
         iO = walFrameOffset (Suc (length frs')) sz \<and> map fst frs' = map fst fs @ us @ app' \<and>
         log_content frs' = log_content frs1 ++ map_of (rev pl) \<and>
         (isCommit \<and> pl \<noteq> [] \<longrightarrow> frs' \<noteq> [] \<and> last frs' = (fst (last pl), nT, snd (last pl)))))"
        by (rule Cons.IH [OF _ f1(1) pg(3)]) (use f1(2) Cons.prems(4,5) in auto)
      have l: "isCommit \<and> pd # pl \<noteq> [] \<longleftrightarrow> isCommit \<and> pl \<noteq> []" "pl \<noteq> [] \<Longrightarrow> last (pd # pl) = last pl" using pl by auto
      have s: "same_writer w w'" using ih same_writer_trans [OF s2] by blast
      show ?thesis unfolding r f1(3) [symmetric] l(1) using ih l(2) s by (cases "pl = []") simp_all
    qed
  next
    case False
    define n where "n = (if isCommit \<and> pl = [] then nT else 0)"
    obtain rc1 w2 log1 where wr: "walWriteOneFrame 0 w1 log (p, d) n (walFrameOffset (Suc (length frs)) sz) = (rc1, w2, log1)" by (metis prod_cases3)
    have inv1: "txn_inv w1 log be salt sz nc fs us rest frs" "same_writer w w1" using o by simp_all
    note ap = txn_append [OF inv1(1) pg(1,2) wr]
    have s2: "same_writer w w2" using ap same_writer_trans [OF inv1(2)] by blast
    let ?frs = "frs @ [(p, n, d)]"
    have off: "walFrameOffset (Suc (length frs)) sz + (sz + WAL_FRAME_HDRSIZE) = walFrameOffset (Suc (length ?frs)) sz"
      by (simp add: walFrameOffset_def)
    have c: "\<not> (iFirst \<noteq> 0 \<and> (pl \<noteq> [] \<or> \<not> isCommit) \<and> iFirst \<le> i)" using False assms(2) by (auto simp: look_def)
    have e: "(rc, iF, iO, app', w', log') = (if rc1 \<noteq> WAL_OK then (rc1, length frs + 1, walFrameOffset (Suc (length frs)) sz, app, w2, log1)
        else write_pages os sz nT isCommit iFirst w2 log1 (length ?frs) (walFrameOffset (Suc (length ?frs)) sz) (app @ [p]) pl)"
      using Cons.prems(1) unfolding write_pages.simps ow
      unfolding Let_def split_conv if_not_P [OF c] n_def [symmetric] pd fst_conv wr off
      by (cases "rc1 = WAL_OK") auto
    show ?thesis
    proof (cases "rc1 = WAL_OK")
      case False
      then show ?thesis using e s2 ap by simp
    next
      case ok: True
      have np: "pl \<noteq> [] \<Longrightarrow> set (app @ [p]) \<inter> set us = {}"
        using o False assms(2) Cons.prems(5) by (auto simp: look_def split: if_splits)
      have inv2: "txn_inv w2 log1 be salt sz nc fs us rest ?frs" using ap ok by simp
      have wp: "write_pages os sz nT isCommit iFirst w2 log1 (length ?frs) (walFrameOffset (Suc (length ?frs)) sz) (app @ [p]) pl = (rc, iF, iO, app', w', log')"
        using e ok by simp
      have ih': "same_writer w2 w' \<and> keeps (log_file be salt sz nc fs) log' \<and>
        (rc = WAL_OK \<longrightarrow> (\<exists>frs'. txn_inv w' log' be salt sz nc fs us rest frs' \<and> iF = length frs' \<and>
         iO = walFrameOffset (Suc (length frs')) sz \<and> map fst frs' = map fst fs @ us @ app' \<and>
         log_content frs' = log_content ?frs ++ map_of (rev pl) \<and>
         (isCommit \<and> pl \<noteq> [] \<longrightarrow> frs' \<noteq> [] \<and> last frs' = (fst (last pl), nT, snd (last pl)))))"
        by (rule Cons.IH [OF wp inv2 pg(3) _ np]) (use Cons.prems(4) in simp_all)
      show ?thesis
      proof (cases "pl = []")
        case True
        then have "n = (if isCommit then nT else 0)" "rc = WAL_OK" "iF = length ?frs" "iO = walFrameOffset (Suc (length ?frs)) sz"
          "app' = app @ [p]" "w' = w2" "log' = log1"
          using e ok by (simp_all add: n_def)
        moreover have "log_content ?frs = log_content frs ++ map_of (rev (pd # pl))"
          unfolding r by (simp add: True)
        ultimately show ?thesis
          using True ap ok s2 Cons.prems(4) by (intro conjI impI exI [of _ ?frs]) (simp_all add: pd del: rev.simps log_content_snoc)
      next
        case False
        have l: "isCommit \<and> pd # pl \<noteq> [] \<longleftrightarrow> isCommit \<and> pl \<noteq> []" "last (pd # pl) = last pl" using False by auto
        have s: "same_writer w w'" using ih' same_writer_trans [OF s2] by blast
        show ?thesis using ih' s unfolding r l log_content_snoc by blast
      qed
    qed
  qed
qed

end
