(* ===== verification/WalCommit.thy ===== *)
theory WalCommit
  imports WalTrans
begin

text \<open>
  What a writing transaction on the write-ahead log (wal.c) leaves behind: the checksums, padding and
  sync of a commit, one call of \<open>sqlite3WalFrames\<close>, a transaction of several calls, and the
  log after it, whatever input or output fails on the way.
\<close>

section \<open>The end of a transaction\<close>

lemma txn_log:
  assumes "txn_inv w log be salt sz nc fs us rest frs" "iReCksum w = 0" "keeps (log_file be salt sz nc frs) log'"
  shows "txn_inv w log' be salt sz nc fs us rest frs"
proof -
  obtain tail where "lf_data log' = log_file be salt sz nc frs @ tail" using assms(3) unfolding keeps_def by (metis append_take_drop_id)
  then show ?thesis using assms(1,2) by (auto simp: txn_inv_def log_ready_def layout_good log_file_def)
qed

lemma txn_keeps_all:
  assumes "txn_inv w log be salt sz nc fs us rest frs" "iReCksum w = 0"
  shows "keeps (log_file be salt sz nc frs) log" "length (log_file be salt sz nc frs) = walFrameOffset (Suc (length frs)) sz"
proof -
  have r: "log_ready w log be salt sz nc frs" using assms(1) by (simp add: txn_inv_def)
  obtain tail where "lf_data log = log_file be salt sz nc frs @ tail" using ready_file [OF r assms(2)] by blast
  then show "keeps (log_file be salt sz nc frs) log" by (simp add: keeps_def)
  show "length (log_file be salt sz nc frs) = walFrameOffset (Suc (length frs)) sz"
    by (rule length_log_file) (use r in \<open>simp_all add: log_ready_def\<close>)
qed

lemma txn_frames_ok:
  assumes "txn_inv w log be salt sz nc fs us rest frs"
  shows "length salt = 8" "list_all (frame_ok sz) frs" "list_all (frame_ok sz) fs"
proof -
  have r: "log_ready w log be salt sz nc frs" "take (length fs) frs = fs" using assms by (simp_all add: txn_inv_def)
  then show "length salt = 8" and ok: "list_all (frame_ok sz) frs" by (simp_all add: log_ready_def)
  show "list_all (frame_ok sz) fs" using ok r(2) by (metis append_take_drop_id list_all_append)
qed

lemma pad_loop_ok:
  assumes "pad_loop s sz nT (p, d) w log (walFrameOffset (Suc (length frs)) sz) x = (rc, x', w', log')"
    "txn_inv w log be salt sz nc fs us rest frs" "iReCksum w = 0" "p \<noteq> 0" "length d = sz"
  shows "same_writer w w' \<and> keeps (log_file be salt sz nc fs) log' \<and>
    (rc = WAL_OK \<longrightarrow> iReCksum w' = 0 \<and> x \<le> x' \<and> txn_inv w' log' be salt sz nc fs us rest (frs @ replicate (x' - x) (p, nT, d)))"
  using assms
proof (induction "s - walFrameOffset (Suc (length frs)) sz" arbitrary: w log frs x rule: less_induct)
  case less
  let ?off = "walFrameOffset (Suc (length frs)) sz"
  show ?case
  proof (cases "?off < s")
    case False
    then have "(rc, x', w', log') = (WAL_OK, x, w, log)" using less.prems(1) by (simp add: pad_loop.simps [of s sz nT "(p, d)" w log ?off])
    then show ?thesis using less.prems txn_keeps(1) by simp
  next
    case True
    obtain rc1 w1 log1 where wr: "walWriteOneFrame s w log (p, d) nT ?off = (rc1, w1, log1)" by (metis prod_cases3)
    note ap = txn_append [OF less.prems(2,4,5) wr]
    let ?frs = "frs @ [(p, nT, d)]"
    have off: "?off + (sz + WAL_FRAME_HDRSIZE) = walFrameOffset (Suc (length ?frs)) sz" by (simp add: walFrameOffset_def)
    have e: "(rc, x', w', log') = (if rc1 \<noteq> WAL_OK then (rc1, x, w1, log1)
        else pad_loop s sz nT (p, d) w1 log1 (walFrameOffset (Suc (length ?frs)) sz) (x + 1))"
      using less.prems(1) True wr unfolding pad_loop.simps [of s sz nT "(p, d)" w log ?off] off by (auto split: if_splits)
    show ?thesis
    proof (cases "rc1 = WAL_OK")
      case False
      then show ?thesis using e ap by simp
    next
      case ok: True
      have "log_ready w log be salt sz nc frs" using less.prems(2) by (simp add: txn_inv_def)
      then have r1: "iReCksum w1 = 0" using ready_append [OF _ less.prems(4,5) wr [unfolded ok]] less.prems(3) by simp
      have lt: "s - walFrameOffset (Suc (length ?frs)) sz < s - ?off" using True unfolding off [symmetric] by (simp add: WAL_FRAME_HDRSIZE_def)
      have "pad_loop s sz nT (p, d) w1 log1 (walFrameOffset (Suc (length ?frs)) sz) (x + 1) = (rc, x', w', log')" using e ok by simp
      note ih = less.hyps [OF lt this _ r1 less.prems(4,5)]
      have ih: "same_writer w1 w' \<and> keeps (log_file be salt sz nc fs) log' \<and>
        (rc = WAL_OK \<longrightarrow> iReCksum w' = 0 \<and> x + 1 \<le> x' \<and> txn_inv w' log' be salt sz nc fs us rest (?frs @ replicate (x' - (x + 1)) (p, nT, d)))"
        by (rule ih) (use ap ok in simp)
      have "?frs @ replicate (x' - (x + 1)) (p, nT, d) = frs @ replicate (x' - x) (p, nT, d)" if "x + 1 \<le> x'"
      proof -
        have "x' - x = Suc (x' - (x + 1))" using that by simp
        then show ?thesis by simp
      qed
      then show ?thesis using ih ap same_writer_trans [of w w1 w'] by auto
    qed
  qed
qed

lemma log_content_repeat: "last frs = (p, n, d) \<Longrightarrow> frs \<noteq> [] \<Longrightarrow> log_content (frs @ replicate k (p, n, d)) = log_content frs"
proof -
  assume l: "last frs = (p, n, d)" "frs \<noteq> []"
  then have "frs = butlast frs @ [(p, n, d)]" by (metis append_butlast_last_id)
  then have "log_content frs = (log_content (butlast frs))(p \<mapsto> d)" by (metis log_content_snoc)
  then have f: "log_content frs p = Some d" by simp
  show ?thesis
  proof (induction k)
    case (Suc k)
    have e: "frs @ replicate (Suc k) (p, n, d) = (frs @ replicate k (p, n, d)) @ [(p, n, d)]" by (simp add: replicate_append_same)
    have "log_content (frs @ replicate (Suc k) (p, n, d)) = (log_content frs)(p \<mapsto> d)" unfolding e log_content_snoc Suc ..
    then show ?case by (simp only: fun_upd_idem [of "log_content frs" p "Some d", OF f])
  qed simp
qed

lemma sync_commit_ok:
  assumes "sync_commit env w log sz nT (p, d) (walFrameOffset (Suc (length frs)) sz) = (stop, rc, x, w', log')"
    "txn_inv w log be salt sz nc fs us rest frs" "iReCksum w = 0" "p \<noteq> 0" "length d = sz"
  shows "same_writer w w' \<and> keeps (log_file be salt sz nc fs) log' \<and>
    (\<not> stop \<longrightarrow> iReCksum w' = 0 \<and> txn_inv w' log' be salt sz nc fs us rest (frs @ replicate x (p, nT, d))) \<and> (stop \<longrightarrow> rc \<noteq> WAL_OK)"
proof -
  let ?off = "walFrameOffset (Suc (length frs)) sz"
  have sy: "keeps P l = keeps P l'" "log_sync l = (c, l') \<Longrightarrow> txn_inv v l be salt sz nc fs us rest hs = txn_inv v l' be salt sz nc fs us rest hs"
    if "log_sync l = (c, l')" for P l l' c v hs
    using log_sync_data [OF that] by (simp_all add: keeps_def txn_inv_def log_ready_def)
  show ?thesis
  proof (cases "padToSectorBoundary w")
    case False
    obtain c l1 where y: "log_sync log = (c, l1)" by fastforce
    then have "(stop, rc, x, w', log') = (False, c, 0, w, l1)" using assms(1) False by (simp add: sync_commit_def)
    then show ?thesis using assms(2,3) sy [OF y] y txn_keeps(1) [OF assms(2)] by simp
  next
    case True
    define s where "s = (?off + env_sector env - 1) div env_sector env * env_sector env"
    obtain rc1 x1 w1 l1 where pl: "pad_loop s sz nT (p, d) w log ?off 0 = (rc1, x1, w1, l1)" by (metis prod_cases4)
    note pk = pad_loop_ok [OF pl assms(2-5)]
    obtain c l2 where y: "log_sync l1 = (c, l2)" by fastforce
    have e: "(stop, rc, x, w', log') = (if rc1 \<noteq> WAL_OK then (True, rc1, x1, w1, l1) else if s = ?off then (False, c, x1, w1, l2) else (False, rc1, x1, w1, l1))"
      using assms(1) unfolding sync_commit_def if_P [OF True] Let_def s_def [symmetric] pl split_conv y by (auto split: if_splits)
    show ?thesis using e pk sy [OF y] y by (cases "rc1 = WAL_OK"; cases "s = ?off") auto
  qed
qed

section \<open>One call of \<open>sqlite3WalFrames\<close>\<close>

text \<open>
  A writer between two calls: \<open>fs\<close> are the committed frames, \<open>us\<close> the pages of the other frames of
  its transaction, \<open>m\<close> what the frames hold. When there is no frame yet, the next call writes the
  header of the file with what the handle says.
\<close>

definition wal_writer :: "wal_env \<Rightarrow> Wal \<Rightarrow> wal_log \<Rightarrow> bool \<Rightarrow> u8 list \<Rightarrow> nat \<Rightarrow> u32 \<Rightarrow> frame list \<Rightarrow> u32 list \<Rightarrow> (u32 \<rightharpoonup> u8 list) \<Rightarrow> bool" where
  "wal_writer env w log be salt sz nc fs us m \<longleftrightarrow>
     mxFrame (live_hdr w) = length fs \<and>
     (if fs = [] \<and> us = [] then
        mxFrame (hdr w) = 0 \<and> iReCksum w = 0 \<and> (if readLock w = 0 then nBackfill (ckpt w) = 0 else minFrame w \<le> 1) \<and>
        m = Map.empty \<and> be = SQLITE_BIGENDIAN \<and> nc = nCkpt w \<and> length salt = 8 \<and> salt = (if nCkpt w = 0 then env_random env 8 else aSalt (hdr w))
      else (\<exists>rest frs. txn_inv w log be salt sz nc fs us rest frs \<and> map fst frs = map fst fs @ us \<and> log_content frs = m))"

lemma header_eq:
  fixes salt :: "u8 list" and sz :: nat and nc :: u32
  defines "b \<equiv> sqlite3Put4byte (WAL_MAGIC OR (if SQLITE_BIGENDIAN then 1 else 0)) @ sqlite3Put4byte WAL_MAX_VERSION @
      sqlite3Put4byte (of_nat sz) @ sqlite3Put4byte nc @ salt"
  assumes "length salt = 8"
  shows "walChecksumBytes True b None = header_cksum SQLITE_BIGENDIAN salt sz nc"
    "b @ sqlite3Put4byte (fst (header_cksum SQLITE_BIGENDIAN salt sz nc)) @ sqlite3Put4byte (snd (header_cksum SQLITE_BIGENDIAN salt sz nc)) =
      wal_header SQLITE_BIGENDIAN salt sz nc"
proof -
  let ?c = "walChecksumBytes True b None"
  have h: "wal_header SQLITE_BIGENDIAN salt sz nc = b @ sqlite3Put4byte (fst ?c) @ sqlite3Put4byte (snd ?c)"
    by (simp add: wal_header_def Let_def b_def)
  show c: "?c = header_cksum SQLITE_BIGENDIAN salt sz nc" unfolding header_cksum_def h using assms(2) by (simp add: b_def)
  show "b @ sqlite3Put4byte (fst (header_cksum SQLITE_BIGENDIAN salt sz nc)) @ sqlite3Put4byte (snd (header_cksum SQLITE_BIGENDIAN salt sz nc)) =
      wal_header SQLITE_BIGENDIAN salt sz nc"
    unfolding h c ..
qed

lemma writer_empty:
  assumes "wal_writer env w log be salt sz nc [] [] m"
  shows "mxFrame (hdr w) = 0" "iReCksum w = 0" "if readLock w = 0 then nBackfill (ckpt w) = 0 else minFrame w \<le> 1"
    "m = Map.empty" "be = SQLITE_BIGENDIAN" "nc = nCkpt w" "length salt = 8" "(if nCkpt w = 0 then env_random env 8 else aSalt (hdr w)) = salt"
  using assms unfolding wal_writer_def simp_thms if_True by (blast dest: sym)+

lemma write_wal_header_ok:
  assumes "wal_writer env w log be salt sz nc [] [] m" "readLock w \<noteq> 0" "write_wal_header env w log sz sync = (rc, w', log')"
  shows "live_hdr w' = live_hdr w \<and> (rc = WAL_OK \<longrightarrow> txn_inv w' log' be salt sz nc [] [] [] [])"
proof -
  have w: "mxFrame (hdr w) = 0" "iReCksum w = 0" "minFrame w \<le> 1" "m = Map.empty" "be = SQLITE_BIGENDIAN" "nc = nCkpt w"
    "readLock w \<noteq> 0" "length salt = 8" "(if nCkpt w = 0 then env_random env 8 else aSalt (hdr w)) = salt"
    using writer_empty [OF assms(1)] assms(2) by simp_all
  let ?c = "header_cksum SQLITE_BIGENDIAN salt sz (nCkpt w)"
  define w1 where "w1 = w\<lparr>hdr := (hdr w)\<lparr>aSalt := salt, bigEndCksum := SQLITE_BIGENDIAN, aFrameCksum := ?c\<rparr>, szPage := int sz, truncateOnCommit := True\<rparr>"
  obtain rc1 l1 where wr: "log_write (wal_header SQLITE_BIGENDIAN salt sz (nCkpt w)) 0 log = (rc1, l1)" by fastforce
  obtain rc2 l2 where sy: "log_sync l1 = (rc2, l2)" by fastforce
  have e: "(rc, w', log') = (if rc1 \<noteq> WAL_OK then (rc1, w1, l1)
      else if syncHeader w1 \<and> sync \<noteq> 0 then (rc2, w1, l2) else (rc1, w1, l1))"
    using assms(3) [symmetric] unfolding write_wal_header_def w(9) unfolding Let_def header_eq [OF w(8)] wr split_conv w1_def [symmetric] sy .
  have "txn_inv w1 l be salt sz nc [] [] [] []" if "rc1 = WAL_OK" "lf_data l = lf_data l1" for l
  proof -
    have "lf_data l = wal_header be salt sz nc @ drop (length (wal_header be salt sz nc)) (lf_data log)"
      using log_write_ok [OF wr [unfolded that(1)]] that(2) w(5,6) by (simp add: write_at_def)
    then show ?thesis
      using w by (auto simp: txn_inv_def log_ready_def layout_good log_state_def w1_def file_cksum_def wi_inv_Nil)
  qed
  moreover have "live_hdr w1 = live_hdr w" by (simp add: w1_def)
  moreover consider "w' = w1" "log' = l1" "rc = rc1" | "w' = w1" "log' = l2" "rc1 = WAL_OK" using e by (auto split: if_splits)
  ultimately show ?thesis using w(4) log_sync_data [OF sy] by metis
qed

text \<open>Only the checksum and \<open>iReCksum\<close> change.\<close>

definition cksum_only :: "Wal \<Rightarrow> Wal \<Rightarrow> bool" where
  "cksum_only w w' \<longleftrightarrow> (\<exists>c i. w' = w\<lparr>hdr := (hdr w)\<lparr>aFrameCksum := c\<rparr>, iReCksum := i\<rparr>)"

lemma cksum_onlyI: "w' = w\<lparr>hdr := (hdr w)\<lparr>aFrameCksum := c\<rparr>, iReCksum := i\<rparr> \<Longrightarrow> cksum_only w w'"
  unfolding cksum_only_def by blast

lemma cksum_only_refl [simp]: "cksum_only w w"
  by (rule cksum_onlyI [where c = "aFrameCksum (hdr w)" and i = "iReCksum w"]) simp

lemma cksum_only_trans: "cksum_only u v \<Longrightarrow> cksum_only v w \<Longrightarrow> cksum_only u w"
  unfolding cksum_only_def [of u v] cksum_only_def [of v w] by (elim exE, rule cksum_onlyI) simp

lemma cksum_only_facts:
  assumes "cksum_only w w'"
  shows "same_writer w w'" "wi_inv w' pg = wi_inv w pg"
proof -
  obtain c i where w': "w' = w\<lparr>hdr := (hdr w)\<lparr>aFrameCksum := c\<rparr>, iReCksum := i\<rparr>" using assms unfolding cksum_only_def by blast
  show "same_writer w w'" by (rule same_writerI [where c = c and i = i]) (simp add: w')
  show "wi_inv w' pg = wi_inv w pg" by (simp add: w' wi_inv_def)
qed

lemma rewrite_loop_keeps:
  assumes "rewrite_loop sz w log iRead n = (rc, w', log')" "keeps pre log" "length pre \<le> walFrameOffset iRead sz"
  shows "keeps pre log' \<and> cksum_only w w'"
  using assms
proof (induction n arbitrary: w log iRead)
  case (Suc n)
  obtain rc1 buf l1 where rd: "log_read (sz + WAL_FRAME_HDRSIZE) (walFrameOffset iRead sz) log = (rc1, buf, l1)" by (metis prod_cases3)
  obtain fr w1 where e: "walEncodeFrame w (get4 buf 0) (get4 buf 4) (drop WAL_FRAME_HDRSIZE buf) = (fr, w1)" by fastforce
  obtain rc2 l2 where wr: "log_write fr (walFrameOffset iRead sz) l1 = (rc2, l2)" by fastforce
  have k: "keeps pre l1" "keeps pre l2"
    using keeps_cong [of l1 log] log_read_data [OF rd] log_write_keeps [OF wr _ Suc.prems(3)] Suc.prems(2) by simp_all
  have s: "cksum_only w w1" using walEncodeFrame_hdr [OF e] by (elim exE) (rule cksum_onlyI [where i = "iReCksum w"], simp)
  have o: "length pre \<le> walFrameOffset (iRead + 1) sz" using Suc.prems(3) walFrameOffset_mono [of iRead "iRead + 1" sz] by simp
  have c: "(rc, w', log') = (if rc1 \<noteq> WAL_OK then (rc1, w, l1) else if rc2 \<noteq> WAL_OK then (rc2, w1, l2) else rewrite_loop sz w1 l2 (iRead + 1) n)"
    using Suc.prems(1) [symmetric] unfolding rewrite_loop.simps Let_def rd split_conv e wr .
  consider "w' = w" "log' = l1" | "w' = w1" "log' = l2" | "rewrite_loop sz w1 l2 (iRead + 1) n = (rc, w', log')"
    using c by (auto split: if_splits)
  then show ?case
  proof cases
    case 3
    then show ?thesis using Suc.IH [OF 3 k(2) o] cksum_only_trans [OF s] by simp
  qed (use k s in simp_all)
qed simp

lemma rewrite_checksums_keeps:
  assumes "walRewriteChecksums env w log iLast = (rc, w', log')" "keeps pre log" "length pre \<le> walFrameOffset (iReCksum w) (nat (szPage w))"
  shows "keeps pre log' \<and> cksum_only w w'"
proof (cases "env_malloc env")
  case False
  then show ?thesis using assms(1,2) by (simp add: walRewriteChecksums_def)
next
  case True
  let ?sz = "nat (szPage w)"
  obtain rc1 buf l1 where rd: "log_read 8 (if iReCksum w = 1 then 24 else walFrameOffset (iReCksum w - 1) ?sz + 16) log = (rc1, buf, l1)"
    by (metis prod_cases3)
  define w1 where "w1 = w\<lparr>hdr := (hdr w)\<lparr>aFrameCksum := (get4 buf 0, get4 buf 4)\<rparr>, iReCksum := 0\<rparr>"
  have s: "cksum_only w w1"
    by (rule cksum_onlyI [where i = 0]) (simp add: w1_def)
  have k: "keeps pre l1" using keeps_cong [of l1 log] log_read_data [OF rd] assms(2) by simp
  have "(rc, w', log') = (if rc1 \<noteq> WAL_OK then (rc1, w1, l1) else rewrite_loop ?sz w1 l1 (iReCksum w) (iLast + 1 - iReCksum w))"
    using assms(1) [symmetric] unfolding walRewriteChecksums_def Let_def rd split_conv w1_def by (simp add: True)
  then consider "w' = w1" "log' = l1" | "rewrite_loop ?sz w1 l1 (iReCksum w) (iLast + 1 - iReCksum w) = (rc, w', log')"
    by (auto split: if_splits)
  then show ?thesis
  proof cases
    case 2
    then show ?thesis using rewrite_loop_keeps [OF 2 k assms(3)] cksum_only_trans [OF s] by simp
  qed (use k s in simp)
qed

text \<open>The rewriting step of a commit.\<close>

lemma txn_rewrite:
  assumes "txn_inv w log be salt sz nc fs us rest frs" "iReCksum w \<noteq> 0"
    "walRewriteChecksums env w log (length frs) = (rc, w', log')"
  shows "same_writer w w' \<and> keeps (log_file be salt sz nc fs) log' \<and>
    (rc = WAL_OK \<longrightarrow> iReCksum w' = 0 \<and> txn_inv w' log' be salt sz nc fs us rest frs)"
proof -
  have r: "log_ready w log be salt sz nc frs" "length fs < iReCksum w" "szPage w = int sz"
    using assms(1,2) by (auto simp: txn_inv_def log_ready_def log_state_def)
  have "length (log_file be salt sz nc fs) \<le> walFrameOffset (iReCksum w) (nat (szPage w))"
    using txn_keeps(2) [OF assms(1)] walFrameOffset_mono [of "Suc (length fs)" "iReCksum w" sz] r(2,3) by simp
  note k = rewrite_checksums_keeps [OF assms(3) txn_keeps(1) [OF assms(1)] this]
  have "txn_inv w' log' be salt sz nc fs us rest frs \<and> iReCksum w' = 0" if "rc = WAL_OK"
    using rewrite_checksums_ok [OF r(1) assms(2) assms(3) [unfolded that]] assms(1) cksum_only_facts [of w w'] same_writer_facts [of w w'] k
    by (simp add: txn_inv_def)
  then show ?thesis using k cksum_only_facts by blast
qed

text \<open>The frames enter the index, and a commit the shared header.\<close>

lemma add_frames_hdr:
  assumes "wi_inv w (cur @ rest)" "mxFrame (hdr w) = length cur" "0 \<notin> set ks" "wal_add_frames os w sz ks nt c = (WAL_OK, w')"
  shows "iReCksum w' = iReCksum w \<and> szPage w' = szPage w \<and> aSalt (hdr w') = aSalt (hdr w) \<and> bigEndCksum (hdr w') = bigEndCksum (hdr w) \<and>
    aFrameCksum (hdr w') = aFrameCksum (hdr w) \<and> hdr_szPage (hdr w') = hdr_page_size sz \<and> (c \<longrightarrow> nPage (hdr w') = nt)"
proof -
  obtain rc1 f w1 where a: "append_entries os w (length cur) ks = (rc1, f, w1)" by (metis prod_cases3)
  have s: "same_wal w w1" using append_entries_inv [OF assms(1,3) _ a] assms(2) by simp
  define w2 where "w2 = w1\<lparr>hdr := (hdr w1)\<lparr>hdr_szPage := hdr_page_size sz, mxFrame := f\<rparr>\<rparr>"
  define w3 where "w3 = (walIndexWriteHdr (w2\<lparr>hdr := (hdr w2)\<lparr>iChange := iChange (hdr w2) + 1, nPage := nt\<rparr>\<rparr>))\<lparr>iCallback := f\<rparr>"
  have e: "w' = (if c then w3 else w2)"
    using assms(4) unfolding wal_add_frames_def assms(2) a w3_def w2_def Let_def split_conv by (cases "rc1 = WAL_OK") simp_all
  have "same_wal w w1 \<longrightarrow> iReCksum w3 = iReCksum w \<and> szPage w3 = szPage w \<and> aSalt (hdr w3) = aSalt (hdr w) \<and>
      bigEndCksum (hdr w3) = bigEndCksum (hdr w) \<and> aFrameCksum (hdr w3) = aFrameCksum (hdr w) \<and> hdr_szPage (hdr w3) = hdr_page_size sz \<and> nPage (hdr w3) = nt"
    by (simp add: w3_def w2_def walIndexWriteHdr_def Let_def same_wal_def)
  moreover have "same_wal w w1 \<longrightarrow> iReCksum w2 = iReCksum w \<and> szPage w2 = szPage w \<and> aSalt (hdr w2) = aSalt (hdr w) \<and>
      bigEndCksum (hdr w2) = bigEndCksum (hdr w) \<and> aFrameCksum (hdr w2) = aFrameCksum (hdr w) \<and> hdr_szPage (hdr w2) = hdr_page_size sz"
    by (simp add: w2_def same_wal_def)
  ultimately show ?thesis using e s by (cases c) simp_all
qed

lemma txn_add_frames:
  assumes "txn_inv w log be salt sz nc fs us rest frs" "map fst frs = map fst fs @ us @ ks"
    "wal_add_frames os w (int sz) ks nt c = (WAL_OK, w')"
  shows "(\<exists>rest. txn_inv w' log be salt sz nc fs (us @ ks) rest frs) \<and> iReCksum w' = iReCksum w \<and>
    live_hdr w' = (if c then hdr w' else live_hdr w) \<and> hdr_szPage (hdr w') = hdr_page_size (int sz) \<and> (c \<longrightarrow> nPage (hdr w') = nt)"
proof -
  let ?cur = "map fst fs @ us"
  have w: "wi_inv w (?cur @ rest)" "mxFrame (hdr w) = length ?cur" "log_ready w log be salt sz nc frs"
    using assms(1) by (simp_all add: txn_inv_def)
  have ok: "list_all (frame_ok sz) frs" using w(3) by (simp add: log_ready_def)
  have "0 \<notin> set (map fst frs)" using ok by (auto simp: list_all_iff frame_ok_def)
  then have nz: "0 \<notin> set ks" unfolding assms(2) by simp
  have v: "wal_view w ?cur" using w by (auto simp: wal_view_def)
  note a = wal_add_frames_view [OF v nz assms(3)]
  note h = add_frames_hdr [OF w(1,2) nz assms(3)]
  have "wal_view w' (?cur @ ks)" "live_hdr w' = (if c then hdr w' else live_hdr w)" using a(1) by simp_all
  moreover from this(1) obtain rest' where r: "wi_inv w' ((?cur @ ks) @ rest')" "mxFrame (hdr w') = length (?cur @ ks)" by (auto simp: wal_view_def)
  moreover have l: "log_ready w' log be salt sz nc frs" using w(3) h ready_cong [of w' w] by simp
  moreover have "txn_inv w' log be salt sz nc fs (us @ ks) rest' frs"
  proof -
    have "map fst frs = map fst fs @ (us @ ks) @ []" using assms(2) by simp
    then have "\<exists>ns. map fst frs = map fst fs @ (us @ ks) @ ns" by blast
    moreover have "wi_inv w' (map fst fs @ (us @ ks) @ rest')" "mxFrame (hdr w') = length fs + length (us @ ks)" using r by simp_all
    moreover have "iReCksum w' = iReCksum w" using h by blast
    ultimately show ?thesis using l assms(1) a(2) unfolding txn_inv_def by simp
  qed
  ultimately show ?thesis using h by blast
qed

lemma limit_log_ok:
  assumes "txn_inv w log be salt sz nc fs us rest frs" "iReCksum w = 0" "limit_log w log (walFrameOffset (Suc (length frs)) sz) = (w', log')"
  shows "txn_inv w' log' be salt sz nc fs us rest frs \<and> iReCksum w' = 0 \<and> live_hdr w' = live_hdr w"
proof -
  note k = txn_keeps_all [OF assms(1,2)]
  have t: "txn_inv (w\<lparr>truncateOnCommit := False\<rparr>) log be salt sz nc fs us rest frs"
    using assms(1) ready_cong [of "w\<lparr>truncateOnCommit := False\<rparr>" w] by (simp add: txn_inv_def wi_inv_def)
  show ?thesis
  proof (cases "truncateOnCommit w \<and> mxWalSize w \<ge> 0")
    case False
    then have "(w', log') = (w, log)" using assms(3) unfolding limit_log_def if_not_P [OF False] by simp
    then show ?thesis using assms(1,2) by simp
  next
    case True
    let ?n = "if int (walFrameOffset (Suc (length frs)) sz) > mxWalSize w then walFrameOffset (Suc (length frs)) sz else nat (mxWalSize w)"
    have e: "(w', log') = (w\<lparr>truncateOnCommit := False\<rparr>, walLimitSize ?n log)"
      using assms(3) [symmetric] unfolding limit_log_def if_P [OF True] .
    have "keeps (log_file be salt sz nc frs) (walLimitSize ?n log)"
      by (rule walLimitSize_keeps [OF k(1)]) (use k(2) in auto)
    then have "txn_inv (w\<lparr>truncateOnCommit := False\<rparr>) (walLimitSize ?n log) be salt sz nc fs us rest frs"
      using txn_log [OF t _] assms(2) by simp
    then show ?thesis using e assms(2) by simp
  qed
qed

text \<open>A read lock taken on the header the handle already has changes nothing else.\<close>

lemma claim_mark_only:
  "claim_mark env cnt w js rc m = (rc', m', w') \<Longrightarrow>
    (\<exists>marks. w' = w\<lparr>ckpt := (ckpt w)\<lparr>aReadMark := marks\<rparr>\<rparr>) \<and> (m' = None \<longrightarrow> rc' \<noteq> WAL_OK)"
proof (induction js arbitrary: rc)
  case Nil
  then show ?case by (auto intro: exI [of _ "aReadMark (ckpt w)"])
next
  case (Cons i js)
  show ?case
  proof (cases "walLockExclusive env w cnt (3 + i) 1 = WAL_BUSY")
    case True
    then have "claim_mark env cnt w js WAL_BUSY m = (rc', m', w')" using Cons.prems by simp
    then show ?thesis by (rule Cons.IH)
  next
    case False
    then show ?thesis
      using Cons.prems
      by (cases "walLockExclusive env w cnt (3 + i) 1 = WAL_OK")
        (auto simp: Let_def intro: exI [of _ "aReadMark (ckpt w)"])
  qed
qed

definition same_snapshot :: "Wal \<Rightarrow> Wal \<Rightarrow> bool" where
  "same_snapshot w w' \<longleftrightarrow> (\<exists>marks r m. w' = w\<lparr>ckpt := (ckpt w)\<lparr>aReadMark := marks\<rparr>, readLock := r, minFrame := m\<rparr>)"

lemma same_snapshotI: "w' = w\<lparr>ckpt := (ckpt w)\<lparr>aReadMark := marks\<rparr>, readLock := r, minFrame := m\<rparr> \<Longrightarrow> same_snapshot w w'"
  unfolding same_snapshot_def by blast

lemma same_snapshot_refl [simp]: "same_snapshot w w"
  by (rule same_snapshotI [where marks = "aReadMark (ckpt w)" and r = "readLock w" and m = "minFrame w"]) simp

lemma same_snapshot_trans: "same_snapshot u v \<Longrightarrow> same_snapshot v w \<Longrightarrow> same_snapshot u w"
  unfolding same_snapshot_def [of u v] same_snapshot_def [of v w] by (elim exE, rule same_snapshotI) simp

lemma same_snapshot_facts:
  assumes "same_snapshot w w'"
  shows "hdr w' = hdr w" "live_hdr w' = live_hdr w" "iReCksum w' = iReCksum w" "nCkpt w' = nCkpt w"
    "nBackfill (ckpt w') = nBackfill (ckpt w)"
  using assms unfolding same_snapshot_def by (elim exE, simp)+

lemma try_read_again:
  assumes "walTryBeginRead env cnt True ch w log = (rc, ch', w', log')"
  shows "log' = log \<and> same_snapshot w w' \<and> (rc = WAL_OK \<longrightarrow> readLock w' > 0 \<and> minFrame w' = nBackfill (ckpt w) + 1)"
proof (cases "cnt > 100")
  case True
  then show ?thesis using assms by (simp add: walTryBeginRead_def)
next
  case False
  obtain a b where pm: "pick_mark (aReadMark (ckpt w)) (mxFrame (hdr w)) [1..<WAL_NREADER] (0, 0) = (a, b)" by fastforce
  obtain rc1 m w1 where cm: "(if \<not> shm_rdonly w \<and> (a < mxFrame (hdr w) \<or> b = 0) then claim_mark env cnt w [1..<WAL_NREADER] WAL_OK (a, b)
      else (WAL_OK, Some (a, b), w)) = (rc1, m, w1)" by (metis prod_cases3)
  obtain marks where w1: "w1 = w\<lparr>ckpt := (ckpt w)\<lparr>aReadMark := marks\<rparr>\<rparr>" "m = None \<longrightarrow> rc1 \<noteq> WAL_OK"
  proof (cases "\<not> shm_rdonly w \<and> (a < mxFrame (hdr w) \<or> b = 0)")
    case True
    have "claim_mark env cnt w [1..<WAL_NREADER] WAL_OK (a, b) = (rc1, m, w1)" using cm unfolding if_P [OF True] .
    then show thesis using claim_mark_only that by blast
  next
    case False
    have "(rc1, m, w1) = (WAL_OK, Some (a, b), w)" using cm unfolding if_not_P [OF False] by (rule sym)
    then show thesis using that [of "aReadMark (ckpt w)"] by simp
  qed
  have s: "same_snapshot w w1" "\<And>x. same_snapshot w (w1\<lparr>minFrame := x\<rparr>)" "\<And>x y. same_snapshot w (w1\<lparr>minFrame := x, readLock := y\<rparr>)"
    unfolding w1(1)
    subgoal by (rule same_snapshotI [where marks = marks and r = "readLock w" and m = "minFrame w"]) simp
    subgoal for x by (rule same_snapshotI [where marks = marks and r = "readLock w" and m = x]) simp
    subgoal for x y by (rule same_snapshotI [where marks = marks and r = y and m = x]) simp
    done
  have e: "(rc, ch', w', log') = (case m of None \<Rightarrow> (rc1, ch, w1, log)
     | Some (a, b) \<Rightarrow> if b = 0 then (if rc1 = WAL_BUSY then WAL_RETRY else WAL_READONLY_CANTLOCK, ch, w1, log)
        else (let rc = walLockShared env w1 cnt (3 + b)
              in if rc \<noteq> WAL_OK then (if rc = WAL_BUSY then WAL_RETRY else rc, ch, w1, log)
                 else (let w2 = w1\<lparr>minFrame := nBackfill (ckpt w1) + 1\<rparr>
                       in if aReadMark (ckpt w2) ! b \<noteq> a \<or> live_hdr w2 \<noteq> hdr w2 then (WAL_RETRY, ch, w2, log)
                          else (WAL_OK, ch, w2\<lparr>readLock := int b\<rparr>, log))))"
    using assms [symmetric]
    unfolding walTryBeginRead_def if_not_P [OF False] Let_def split_conv simp_thms not_True_eq_False if_True if_False pm cm .
  show ?thesis
  proof (cases m)
    case None
    then show ?thesis using e s w1(2) by simp
  next
    case (Some ab)
    obtain c d where ab: "ab = (c, d)" by fastforce
    have n: "nBackfill (ckpt w1) = nBackfill (ckpt w)" by (simp add: w1(1))
    consider "d = 0" | "d \<noteq> 0" "walLockShared env w1 cnt (3 + d) \<noteq> WAL_OK" | "d \<noteq> 0" "walLockShared env w1 cnt (3 + d) = WAL_OK" by blast
    then show ?thesis
      by cases (use e s n in \<open>simp_all add: Some ab Let_def split: if_splits\<close>)
  qed
qed

lemma begin_read_again:
  "begin_read env cnt True ch w log = (rc, ch', w', log') \<Longrightarrow>
    log' = log \<and> same_snapshot w w' \<and> (rc = WAL_OK \<longrightarrow> readLock w' > 0 \<and> minFrame w' = nBackfill (ckpt w) + 1)"
proof (induction "101 - cnt" arbitrary: cnt ch w rule: less_induct)
  case less
  obtain rc1 ch1 w1 log1 where t: "walTryBeginRead env (cnt + 1) True ch w log = (rc1, ch1, w1, log1)" by (metis prod_cases4)
  note a = try_read_again [OF t]
  have e: "(rc, ch', w', log') = (if rc1 = WAL_RETRY then begin_read env (cnt + 1) True ch1 w1 log1 else (rc1, ch1, w1, log1))"
    using less.prems [symmetric] unfolding begin_read.simps [of env cnt True ch w log] Let_def t split_conv .
  show ?case
  proof (cases "rc1 = WAL_RETRY")
    case False
    then show ?thesis using e a by simp
  next
    case True
    have "cnt + 1 \<le> 100" using t True by (auto simp: walTryBeginRead_def split: if_splits)
    then have "101 - (cnt + 1) < 101 - cnt" by simp
    then show ?thesis
      using less.hyps [of "cnt + 1" ch1 w1] e a True same_snapshot_trans [of w w1 w'] same_snapshot_facts [of w w1] by simp
  qed
qed

text \<open>Before the pages.\<close>

lemma restart_noop: "readLock w \<noteq> 0 \<Longrightarrow> walRestartLog env w log = (WAL_OK, w, log)"
  by (simp add: walRestartLog_def)

lemma restart_empty:
  assumes "wal_writer env w log be salt sz nc [] [] m" "walRestartLog env w log = (rc, w', log')"
  shows "log' = log \<and> live_hdr w' = live_hdr w \<and> (rc = WAL_OK \<longrightarrow> wal_writer env w' log be salt sz nc [] [] m \<and> readLock w' \<noteq> 0)"
proof (cases "readLock w = 0")
  case False
  then show ?thesis using assms restart_noop [OF False, of env log] by simp
next
  case True
  obtain rc1 ch w1 log1 where b: "begin_read env 0 True False (w\<lparr>readLock := -1\<rparr>) log = (rc1, ch, w1, log1)" by (metis prod_cases4)
  note a = begin_read_again [OF b]
  note n = writer_empty [OF assms(1)]
  have l: "mxFrame (live_hdr w) = 0" using assms(1) by (simp add: wal_writer_def)
  have "(rc, w', log') = (rc1, w1, log1)"
    using assms(2) n(3) True unfolding walRestartLog_def by (simp add: b)
  moreover have "wal_writer env w1 log be salt sz nc [] [] m" if "rc1 = WAL_OK"
    unfolding wal_writer_def simp_thms if_True
    using a that n True l same_snapshot_facts [of "w\<lparr>readLock := -1\<rparr>" w1]
    by (intro conjI; cases "nCkpt w = 0"; simp)
  moreover have "rc1 = WAL_OK \<longrightarrow> readLock w1 \<noteq> 0" using a by auto
  ultimately show ?thesis using a same_snapshot_facts [of "w\<lparr>readLock := -1\<rparr>" w1] by simp
qed

lemma writer_txn:
  assumes "wal_writer env w log be salt sz nc fs us m" "fs \<noteq> [] \<or> us \<noteq> []"
  obtains rest frs where "txn_inv w log be salt sz nc fs us rest frs" "map fst frs = map fst fs @ us" "log_content frs = m"
  using assms unfolding wal_writer_def by auto

lemma frames_begin_ok:
  assumes "wal_writer env w log be salt sz nc fs us m" "frames_begin env w log sz sync = (rc, w', log')"
  shows "live_hdr w' = live_hdr w \<and> (fs \<noteq> [] \<longrightarrow> keeps (log_file be salt sz nc fs) log') \<and>
    (rc = WAL_OK \<longrightarrow> (\<exists>rest frs. txn_inv w' log' be salt sz nc fs us rest frs \<and> map fst frs = map fst fs @ us \<and> log_content frs = m))"
proof (cases "fs = [] \<and> us = []")
  case True
  obtain rc1 w1 log1 where r: "walRestartLog env w log = (rc1, w1, log1)" by (metis prod_cases3)
  have wr: "wal_writer env w log be salt sz nc [] [] m" using assms(1) True by simp
  note a = restart_empty [OF wr r]
  obtain rc2 w2 log2 where h: "write_wal_header env w1 log sz sync = (rc2, w2, log2)" by (metis prod_cases3)
  show ?thesis
  proof (cases "rc1 = WAL_OK")
    case False
    then show ?thesis using assms(2) r a True by (simp add: frames_begin_def)
  next
    case ok: True
    then have b: "wal_writer env w1 log be salt sz nc [] [] m" "readLock w1 \<noteq> 0" using a by simp_all
    have "(rc, w', log') = (rc2, w2, log2)" using assms(2) ok r a h writer_empty(1) [OF b(1)] by (simp add: frames_begin_def)
    moreover have "m = log_content []" using writer_empty(4) [OF b(1)] by (simp add: log_content_def)
    ultimately show ?thesis using write_wal_header_ok [OF b h] a True by (auto intro!: exI [of _ "[]"])
  qed
next
  case False
  then obtain rest frs where t: "txn_inv w log be salt sz nc fs us rest frs" "map fst frs = map fst fs @ us" "log_content frs = m"
    using writer_txn [OF assms(1)] by blast
  have "readLock w \<noteq> 0" "mxFrame (hdr w) = length fs + length us" using t(1) by (simp_all add: txn_inv_def)
  then have "(rc, w', log') = (WAL_OK, w, log)"
    using assms(2) False by (auto simp: frames_begin_def restart_noop)
  then show ?thesis using t txn_keeps(1) [OF t(1)] by blast
qed

section \<open>Without faults\<close>

definition no_fault :: "wal_log \<Rightarrow> bool" where
  "no_fault l \<longleftrightarrow> lf_faults l = None"

lemma no_fault_write: "no_fault l \<Longrightarrow> log_write b off l = (rc, l') \<Longrightarrow>
    rc = WAL_OK \<and> no_fault l' \<and> length (lf_data l) \<le> length (lf_data l')"
  by (auto simp: no_fault_def log_write_def log_op_none write_at_def)

lemma no_fault_sync: "no_fault l \<Longrightarrow> log_sync l = (rc, l') \<Longrightarrow> rc = WAL_OK \<and> no_fault l'"
  by (auto simp: no_fault_def log_sync_def log_op_none)

lemma no_fault_read: "no_fault l \<Longrightarrow> log_read n off l = (rc, b, l') \<Longrightarrow> off + n \<le> length (lf_data l) \<Longrightarrow> rc = WAL_OK \<and> l' = l"
  by (auto simp: no_fault_def log_read_none)

lemma no_fault_limit: "no_fault l \<Longrightarrow> limit_log w l n = (w', l') \<Longrightarrow> no_fault l'"
  by (auto simp: no_fault_def limit_log_def walLimitSize_def log_size_def log_truncate_def log_op_none split: if_splits)

lemma no_fault_to_log: "no_fault l \<Longrightarrow> walWriteToLog s b off l = (rc, l') \<Longrightarrow> rc = WAL_OK \<and> no_fault l'"
proof -
  assume q: "no_fault l" and w: "walWriteToLog s b off l = (rc, l')"
  show ?thesis
  proof (cases "off < s \<and> off + length b \<ge> s")
    case False
    then show ?thesis using w no_fault_write [OF q] unfolding walWriteToLog_def if_not_P [OF False] by blast
  next
    case True
    obtain rc1 l1 where a: "log_write (take (s - off) b) off l = (rc1, l1)" by fastforce
    obtain rc2 l2 where y: "log_sync l1 = (rc2, l2)" by fastforce
    have q2: "rc1 = WAL_OK" "rc2 = WAL_OK" "no_fault l2" using no_fault_write [OF q a] no_fault_sync [OF _ y] by blast+
    have "(if length b - (s - off) = 0 then (WAL_OK, l2) else log_write (drop (s - off) b) s l2) = (rc, l')"
      using w q2 a y True unfolding walWriteToLog_def if_P [OF True] Let_def by auto
    then show ?thesis using q2 no_fault_write [OF q2(3)] by (cases "length b - (s - off) = 0") auto
  qed
qed

lemma no_fault_frame: "no_fault l \<Longrightarrow> walWriteOneFrame s w l pg n off = (rc, w', l') \<Longrightarrow> rc = WAL_OK \<and> no_fault l'"
proof -
  assume q: "no_fault l" and w: "walWriteOneFrame s w l pg n off = (rc, w', l')"
  obtain fr w1 where e: "walEncodeFrame w (fst pg) n (snd pg) = (fr, w1)" by fastforce
  obtain rc1 l1 where a: "walWriteToLog s fr off l = (rc1, l1)" by fastforce
  obtain rc2 l2 where b: "walWriteToLog s (snd pg) (off + WAL_FRAME_HDRSIZE) l1 = (rc2, l2)" by fastforce
  have "rc1 = WAL_OK" "rc2 = WAL_OK" "no_fault l2" using no_fault_to_log [OF q a] no_fault_to_log [OF _ b] by blast+
  then show ?thesis using w e a b by (simp add: walWriteOneFrame_def)
qed

lemma no_fault_pages:
  "no_fault log \<Longrightarrow> write_pages os sz nT c i1 w log iF iO app pl = (rc, iF', iO', app', w', log') \<Longrightarrow> rc = WAL_OK \<and> no_fault log'"
proof (induction pl arbitrary: w log iF iO app)
  case (Cons pd pl)
  obtain i w1 where ow: "(if i1 \<noteq> 0 \<and> (pl \<noteq> [] \<or> \<not> c)
      then (let (rc, iRead, pWal) = sqlite3WalFindFrame os w (fst pd) in (if rc = WAL_OK then iRead else 0, pWal)) else (0, w)) = (i, w1)" by fastforce
  note e = Cons.prems(2) [symmetric, unfolded write_pages.simps, unfolded ow, unfolded Let_def split_conv]
  show ?case
  proof (cases "i1 \<noteq> 0 \<and> (pl \<noteq> [] \<or> \<not> c) \<and> i1 \<le> i")
    case True
    obtain rc1 log1 where l: "log_write (snd pd) (walFrameOffset i sz + WAL_FRAME_HDRSIZE) log = (rc1, log1)" by fastforce
    have q: "rc1 = WAL_OK" "no_fault log1" using no_fault_write [OF Cons.prems(1) l] by blast+
    show ?thesis using e [unfolded if_P [OF True] l split_conv] q Cons.IH [OF q(2)] by simp
  next
    case False
    obtain rc1 w2 log1 where l: "walWriteOneFrame 0 w1 log pd (if c \<and> pl = [] then nT else 0) iO = (rc1, w2, log1)" by (metis prod_cases3)
    have q: "rc1 = WAL_OK" "no_fault log1" using no_fault_frame [OF Cons.prems(1) l] by blast+
    show ?thesis using e [unfolded if_not_P [OF False] l split_conv] q Cons.IH [OF q(2)] by simp
  qed
qed simp

lemma no_fault_pad:
  "no_fault log \<Longrightarrow> pad_loop s sz nT pg w log off x = (rc, x', w', log') \<Longrightarrow> rc = WAL_OK \<and> no_fault log'"
proof (induction "s - off" arbitrary: w log off x rule: less_induct)
  case less
  obtain rc1 w1 log1 where wr: "walWriteOneFrame s w log pg nT off = (rc1, w1, log1)" by (metis prod_cases3)
  have q: "rc1 = WAL_OK" "no_fault log1" using no_fault_frame [OF less.prems(1) wr] by blast+
  have e: "(rc, x', w', log') = (if off < s then pad_loop s sz nT pg w1 log1 (off + (sz + WAL_FRAME_HDRSIZE)) (x + 1) else (WAL_OK, x, w, log))"
    using less.prems(2) q wr unfolding pad_loop.simps [of s sz nT pg w log off] by (auto split: if_splits)
  show ?case
  proof (cases "off < s")
    case True
    then have "s - (off + (sz + WAL_FRAME_HDRSIZE)) < s - off" by (simp add: WAL_FRAME_HDRSIZE_def)
    then show ?thesis using less.hyps [OF _ q(2)] e True by simp
  qed (use e less.prems(1) in simp)
qed

lemma no_fault_sync_commit:
  "no_fault log \<Longrightarrow> sync_commit env w log sz nT pg off = (stop, rc, x, w', log') \<Longrightarrow> \<not> stop \<and> rc = WAL_OK \<and> no_fault log'"
proof -
  assume q: "no_fault log" and c: "sync_commit env w log sz nT pg off = (stop, rc, x, w', log')"
  obtain s where s: "s = (off + env_sector env - 1) div env_sector env * env_sector env" by simp
  obtain rc1 x1 w1 l1 where p: "pad_loop s sz nT pg w log off 0 = (rc1, x1, w1, l1)" by (metis prod_cases4)
  obtain rc2 l2 where y: "log_sync l1 = (rc2, l2)" by fastforce
  obtain rc3 l3 where y': "log_sync log = (rc3, l3)" by fastforce
  have k: "rc1 = WAL_OK" "no_fault l1" "rc2 = WAL_OK" "no_fault l2" "rc3 = WAL_OK" "no_fault l3"
    using no_fault_pad [OF q p] no_fault_sync [OF _ y] no_fault_sync [OF q y'] by blast+
  show ?thesis
    using c k y y' p unfolding sync_commit_def s [symmetric] Let_def by (cases "padToSectorBoundary w"; cases "s = off") auto
qed

lemma ready_length:
  assumes "log_ready w log be salt sz nc frs"
  shows "walFrameOffset (Suc (length frs)) sz \<le> length (lf_data log)"
proof -
  define k where "k = (if iReCksum w = 0 then length frs else iReCksum w - 1)"
  obtain z where z: "lf_data log = wal_header be salt sz nc @ z" "log_layout (be = SQLITE_BIGENDIAN) salt (header_cksum be salt sz nc) k frs z"
    "length salt = 8" "list_all (frame_ok sz) frs"
    by (rule ready_cases [OF assms, folded k_def]) (rule that)
  obtain a tail where "length a = length frs * (sz + WAL_FRAME_HDRSIZE)" "z = a @ tail"
    by (rule layout_snoc [OF z(2-4)]) (rule that)
  then show ?thesis using z(1) length_wal_header [OF z(3)] by (simp add: walFrameOffset_def)
qed

lemma no_fault_rewrite_loop:
  "no_fault log \<Longrightarrow> walFrameOffset (iRead + n) sz \<le> length (lf_data log) \<Longrightarrow> 0 < iRead \<Longrightarrow>
    rewrite_loop sz w log iRead n = (rc, w', log') \<Longrightarrow> rc = WAL_OK \<and> no_fault log'"
proof (induction n arbitrary: w log iRead)
  case (Suc n)
  have off: "walFrameOffset iRead sz + (sz + WAL_FRAME_HDRSIZE) = walFrameOffset (iRead + 1) sz"
    using Suc.prems(3) by (cases iRead) (simp_all add: walFrameOffset_def)
  have le: "walFrameOffset iRead sz + (sz + WAL_FRAME_HDRSIZE) \<le> length (lf_data log)"
    using Suc.prems(2) walFrameOffset_mono [of "iRead + 1" "iRead + Suc n" sz] unfolding off by simp
  obtain rc1 buf l1 where rd: "log_read (sz + WAL_FRAME_HDRSIZE) (walFrameOffset iRead sz) log = (rc1, buf, l1)" by (metis prod_cases3)
  obtain fr w1 where e: "walEncodeFrame w (get4 buf 0) (get4 buf 4) (drop WAL_FRAME_HDRSIZE buf) = (fr, w1)" by fastforce
  obtain rc2 l2 where wr: "log_write fr (walFrameOffset iRead sz) l1 = (rc2, l2)" by fastforce
  have q1: "rc1 = WAL_OK" "l1 = log" using no_fault_read [OF Suc.prems(1) rd le] by simp_all
  have q2: "rc2 = WAL_OK" "no_fault l2" "length (lf_data log) \<le> length (lf_data l2)"
    using no_fault_write [OF Suc.prems(1)] wr unfolding q1(2) by blast+
  have "rewrite_loop sz w1 l2 (iRead + 1) n = (rc, w', log')"
    using Suc.prems(4) [symmetric] q1(1) q2(1) unfolding rewrite_loop.simps Let_def rd split_conv e wr by simp
  then show ?case using Suc.IH [OF q2(2), of "iRead + 1" w1] Suc.prems(2) q2(3) by simp
qed simp

lemma no_fault_rewrite:
  assumes "no_fault log" "env_malloc env" "log_ready w log be salt sz nc frs" "iReCksum w \<noteq> 0"
    "walRewriteChecksums env w log (length frs) = (rc, w', log')"
  shows "rc = WAL_OK \<and> no_fault log'"
proof -
  define off where "off = (if iReCksum w = 1 then 24 else walFrameOffset (iReCksum w - 1) sz + 16)"
  have r: "szPage w = int sz" "iReCksum w \<le> length frs" using assms(3) by (auto simp: log_ready_def log_state_def)
  note l = ready_length [OF assms(3)]
  have "off + 8 \<le> walFrameOffset (iReCksum w) sz"
  proof (cases "iReCksum w = 1")
    case True
    then show ?thesis by (simp add: off_def walFrameOffset_def WAL_HDRSIZE_def)
  next
    case False
    then obtain j where "iReCksum w = Suc (Suc j)" using assms(4) by (metis One_nat_def not0_implies_Suc)
    then show ?thesis by (simp add: off_def walFrameOffset_def WAL_FRAME_HDRSIZE_def)
  qed
  then have le: "off + 8 \<le> length (lf_data log)" using l walFrameOffset_mono [of "iReCksum w" "Suc (length frs)" sz] r(2) by simp
  obtain rc1 buf l1 where rd: "log_read 8 off log = (rc1, buf, l1)" by (metis prod_cases3)
  have q: "rc1 = WAL_OK" "l1 = log" using no_fault_read [OF assms(1) rd le] by simp_all
  define w1 where "w1 = w\<lparr>hdr := (hdr w)\<lparr>aFrameCksum := (get4 buf 0, get4 buf 4)\<rparr>, iReCksum := 0\<rparr>"
  have "rewrite_loop sz w1 log (iReCksum w) (length frs + 1 - iReCksum w) = (rc, w', log')"
    using assms(2,5) q(1) unfolding walRewriteChecksums_def r(1) nat_int Let_def off_def [symmetric] rd split_conv q(2) w1_def by simp
  then show ?thesis
    by (rule no_fault_rewrite_loop [OF assms(1), rotated 2]) (use l r(2) assms(4) in simp_all)
qed

lemma add_frames_done:
  assumes "txn_inv w log be salt sz nc fs us rest frs" "map fst frs = map fst fs @ us @ ks" "os_ok os"
    "wal_add_frames os w (int sz) ks nt c = (rc, w')"
  shows "rc = WAL_OK"
proof -
  have w: "wi_inv w ((map fst fs @ us) @ rest)" "mxFrame (hdr w) = length (map fst fs @ us)"
    using assms(1) by (simp_all add: txn_inv_def)
  have "0 \<notin> set (map fst frs)" using txn_frames_ok(2) [OF assms(1)] by (auto simp: list_all_iff frame_ok_def)
  then have nz: "0 \<notin> set ks" unfolding assms(2) by simp
  have v: "wal_view w (map fst fs @ us)" using w by (auto simp: wal_view_def)
  show ?thesis using wal_add_frames_ok [OF assms(3) v nz, of "int sz" nt c] assms(4) by simp
qed

lemma no_fault_header:
  "no_fault log \<Longrightarrow> write_wal_header env w log sz sync = (rc, w', log') \<Longrightarrow> rc = WAL_OK \<and> no_fault log' \<and> readLock w' = readLock w"
  by (auto simp: write_wal_header_def Let_def split: prod.splits if_splits dest: no_fault_write no_fault_sync)

lemma no_fault_begin:
  assumes "no_fault log" "readLock w \<noteq> 0" "frames_begin env w log sz sync = (rc, w', log')"
  shows "rc = WAL_OK \<and> no_fault log' \<and> readLock w' = readLock w"
  using assms(3) no_fault_header [OF assms(1)] assms(1) unfolding frames_begin_def restart_noop [OF assms(2)] Let_def split_conv
  by (cases "mxFrame (hdr w) = 0") auto

text \<open>After the pages: a call that only spills, and a commit.\<close>

lemma frames_spill:
  assumes "txn_inv w log be salt sz nc fs us rest frs" "map fst frs = map fst fs @ us @ app"
    "frames_end env w log sz pList nT False sync (length frs) off app = (rc, w', log')"
  shows "log' = log \<and> (rc = WAL_OK \<longrightarrow> (\<exists>rest. txn_inv w' log be salt sz nc fs (us @ app) rest frs) \<and> live_hdr w' = live_hdr w) \<and>
    (os_ok (env_os env) \<longrightarrow> rc = WAL_OK)"
proof -
  obtain rc1 w1 where a: "wal_add_frames (env_os env) w (int sz) app nT False = (rc1, w1)" by fastforce
  have "(rc, w', log') = (rc1, w1, log)" using assms(3) by (simp add: frames_end_def a)
  then show ?thesis using txn_add_frames [OF assms(1,2), of "env_os env" nT False w'] add_frames_done [OF assms(1,2)] a by auto
qed

text \<open>A transaction is in the log: all the frames are committed, and the index says so.\<close>

definition txn_done :: "Wal \<Rightarrow> wal_log \<Rightarrow> bool \<Rightarrow> u8 list \<Rightarrow> nat \<Rightarrow> u32 \<Rightarrow> frame list \<Rightarrow> u32 \<Rightarrow> frame list \<Rightarrow> bool" where
  "txn_done w log be salt sz nc fs nT frs \<longleftrightarrow> (\<exists>rest. txn_inv w log be salt sz nc frs [] rest frs) \<and> iReCksum w = 0 \<and>
     live_hdr w = hdr w \<and> hdr_szPage (hdr w) = hdr_page_size (int sz) \<and> nPage (hdr w) = nT \<and>
     take (length fs) frs = fs \<and> frs \<noteq> [] \<and> fst (snd (last frs)) = nT"

lemma txn_doneI:
  assumes "txn_inv w log be salt sz nc fs us rest frs" "map fst frs = map fst fs @ us" "iReCksum w = 0"
    "live_hdr w = hdr w" "hdr_szPage (hdr w) = hdr_page_size (int sz)" "nPage (hdr w) = nT" "frs \<noteq> []" "fst (snd (last frs)) = nT"
  shows "txn_done w log be salt sz nc fs nT frs"
proof -
  have "length frs = length fs + length us" using assms(2) by (metis length_append length_map)
  moreover have "wi_inv w (map fst frs @ rest)" using assms(1) unfolding assms(2) by (simp add: txn_inv_def)
  ultimately have "txn_inv w log be salt sz nc frs [] rest frs"
    using assms(1,3) by (simp add: txn_inv_def)
  then show ?thesis using assms by (auto simp: txn_done_def txn_inv_def)
qed

lemma frames_commit:
  assumes "txn_inv w log be salt sz nc fs us rest frs" "map fst frs = map fst fs @ us @ app"
    "frs \<noteq> []" "last frs = (p, nT, d)" "last pList = (p, d)" "p \<noteq> 0" "length d = sz"
    "frames_end env w log sz pList nT True sync (length frs) (walFrameOffset (Suc (length frs)) sz) app = (rc, w', log')"
  shows "keeps (log_file be salt sz nc fs) log' \<and>
    (rc = WAL_OK \<longrightarrow> (\<exists>frs'. txn_done w' log' be salt sz nc fs nT frs' \<and> log_content frs' = log_content frs)) \<and>
    (no_fault log \<and> os_ok (env_os env) \<and> env_malloc env \<longrightarrow> rc = WAL_OK \<and> no_fault log')"
proof -
  note fe = assms(8) [unfolded frames_end_def simp_thms if_True assms(5) fst_conv]
  obtain rc1 w1 log1 where s1: "(if iReCksum w \<noteq> 0 then walRewriteChecksums env w log (length frs) else (WAL_OK, w, log)) = (rc1, w1, log1)"
    by (metis prod_cases3)
  have a1: "keeps (log_file be salt sz nc fs) log1 \<and> (rc1 = WAL_OK \<longrightarrow> iReCksum w1 = 0 \<and> txn_inv w1 log1 be salt sz nc fs us rest frs) \<and>
    (no_fault log \<and> os_ok (env_os env) \<and> env_malloc env \<longrightarrow> rc1 = WAL_OK \<and> no_fault log1)"
  proof (cases "iReCksum w = 0")
    case True
    then show ?thesis using s1 assms(1) txn_keeps(1) [OF assms(1)] by auto
  next
    case False
    then have "walRewriteChecksums env w log (length frs) = (rc1, w1, log1)" using s1 by simp
    then show ?thesis using txn_rewrite [OF assms(1) False] no_fault_rewrite [OF _ _ _ False] assms(1) unfolding txn_inv_def by blast
  qed
  show ?thesis
  proof (cases "rc1 = WAL_OK")
    case False
    then have "log' = log1" "rc \<noteq> WAL_OK" using fe unfolding s1 by simp_all
    then show ?thesis using a1 False by auto
  next
    case rc1: True
    let ?off = "walFrameOffset (Suc (length frs)) sz"
    have t1: "txn_inv w1 log1 be salt sz nc fs us rest frs" "iReCksum w1 = 0" using a1 rc1 by simp_all
    obtain stop rc2 x w2 log2 where s2: "(if sync AND WAL_SYNC_TRANSACTIONS \<noteq> 0 then sync_commit env w1 log1 sz nT (p, d) ?off
        else (False, WAL_OK, 0, w1, log1)) = (stop, rc2, x, w2, log2)" by (metis prod_cases5)
    have a2: "keeps (log_file be salt sz nc fs) log2 \<and> (stop \<longrightarrow> rc2 \<noteq> WAL_OK) \<and>
      (\<not> stop \<longrightarrow> iReCksum w2 = 0 \<and> txn_inv w2 log2 be salt sz nc fs us rest (frs @ replicate x (p, nT, d))) \<and>
      (no_fault log1 \<longrightarrow> \<not> stop \<and> rc2 = WAL_OK \<and> no_fault log2)"
    proof (cases "sync AND WAL_SYNC_TRANSACTIONS \<noteq> 0")
      case True
      then have "sync_commit env w1 log1 sz nT (p, d) ?off = (stop, rc2, x, w2, log2)" using s2 by simp
      then show ?thesis using sync_commit_ok [OF _ t1 assms(6,7)] no_fault_sync_commit by blast
    next
      case False
      then have "(False, WAL_OK, 0, w1, log1) = (stop, rc2, x, w2, log2)" using s2 by simp
      then show ?thesis using t1 a1 by auto
    qed
    show ?thesis
    proof (cases stop)
      case True
      then have "log' = log2" "rc = rc2" using fe rc1 unfolding s1 by (simp_all add: s2)
      then show ?thesis using a1 a2 True by auto
    next
      case False
      let ?frs = "frs @ replicate x (p, nT, d)"
      have t2: "txn_inv w2 log2 be salt sz nc fs us rest ?frs" "iReCksum w2 = 0" using a2 False by simp_all
      obtain w3 log3 where s3: "limit_log w2 log2 (walFrameOffset (Suc (length ?frs)) sz) = (w3, log3)" by fastforce
      note a3 = limit_log_ok [OF t2 s3]
      then have t3: "txn_inv w3 log3 be salt sz nc fs us rest ?frs" "iReCksum w3 = 0" by simp_all
      obtain rc4 w4 where s4: "wal_add_frames (env_os env) w3 (int sz) (app @ replicate x p) nT True = (rc4, w4)" by fastforce
      have e: "(rc, w', log') = (if rc2 \<noteq> WAL_OK then (rc2, w3, log3) else (rc4, w4, log3))"
        using fe rc1 False s2 s3 s4 unfolding s1 by (cases "rc2 = WAL_OK") simp_all
      have k: "keeps (log_file be salt sz nc fs) log'" using e txn_keeps(1) [OF t3(1)] by (simp split: if_splits)
      have "txn_done w' log' be salt sz nc fs nT ?frs \<and> log_content ?frs = log_content frs" if ok: "rc = WAL_OK"
      proof -
        have r: "rc4 = WAL_OK" "w' = w4" "log' = log3" using e ok by (auto split: if_splits)
        have m: "map fst ?frs = map fst fs @ us @ (app @ replicate x p)" using assms(2) by simp
        obtain rest' where t4: "txn_inv w' log' be salt sz nc fs (us @ app @ replicate x p) rest' ?frs" "iReCksum w' = 0"
          "live_hdr w' = hdr w'" "hdr_szPage (hdr w') = hdr_page_size (int sz)" "nPage (hdr w') = nT"
          using txn_add_frames [OF t3(1) m s4 [unfolded r(1)]] t3(2) unfolding r by auto
        have "fst (snd (last ?frs)) = nT" using assms(4) by (cases x) (simp_all)
        then have "txn_done w' log' be salt sz nc fs nT ?frs"
          by (rule txn_doneI [OF t4(1) _ t4(2-5), rotated 2]) (use m assms(3) in simp_all)
        then show ?thesis using log_content_repeat [OF assms(4,3)] by blast
      qed
      moreover have "rc = WAL_OK \<and> no_fault log'" if "no_fault log" "os_ok (env_os env)" "env_malloc env"
      proof -
        have "map fst ?frs = map fst fs @ us @ (app @ replicate x p)" using assms(2) by simp
        then have "rc4 = WAL_OK" using add_frames_done [OF t3(1) _ that(2) s4] by blast
        moreover have "rc2 = WAL_OK" "no_fault log2" using a1 a2 that by blast+
        ultimately show ?thesis using e no_fault_limit [OF _ s3] by simp
      qed
      ultimately show ?thesis using k by blast
    qed
  qed
qed

text \<open>One call.\<close>

lemma frames_call:
  assumes "os_ok (env_os env)" "wal_writer env w log be salt sz nc fs us m" "\<forall>(p, d) \<in> set pList. p \<noteq> 0 \<and> length d = sz" "pList \<noteq> []"
    "sqlite3WalFrames env w log sz pList nT c sync = (rc, w', log')"
  shows "(fs \<noteq> [] \<longrightarrow> keeps (log_file be salt sz nc fs) log') \<and>
    (rc = WAL_OK \<longrightarrow>
      (if c then \<exists>frs. txn_done w' log' be salt sz nc fs nT frs \<and> log_content frs = m ++ map_of (rev pList)
       else \<exists>us'. wal_writer env w' log' be salt sz nc fs us' (m ++ map_of (rev pList)))) \<and>
    (no_fault log \<and> env_malloc env \<and> readLock w \<noteq> 0 \<longrightarrow> rc = WAL_OK \<and> no_fault log' \<and> (\<not> c \<longrightarrow> readLock w' \<noteq> 0))"
proof -
  define i1 where "i1 = (if hdr w \<noteq> live_hdr w then mxFrame (live_hdr w) + 1 else 0)"
  have live: "mxFrame (live_hdr w) = length fs" using assms(2) by (simp add: wal_writer_def)
  have i1: "i1 = 0 \<and> us = [] \<or> i1 = Suc (length fs)"
  proof (cases "us = []")
    case False
    obtain rest frs where "txn_inv w log be salt sz nc fs us rest frs" by (rule writer_txn [OF assms(2)]) (use False in auto)
    then have "mxFrame (hdr w) = length fs + length us" by (simp add: txn_inv_def)
    then have "hdr w \<noteq> live_hdr w" using live False by auto
    then show ?thesis using live by (simp add: i1_def)
  qed (simp add: i1_def live)
  obtain rc1 w1 log1 where s1: "frames_begin env w log sz sync = (rc1, w1, log1)" by (metis prod_cases3)
  note a1 = frames_begin_ok [OF assms(2) s1]
  show ?thesis
  proof (cases "rc1 = WAL_OK")
    case False
    then have "log' = log1" "rc \<noteq> WAL_OK" using assms(5) unfolding sqlite3WalFrames_def s1 by simp_all
    then show ?thesis using a1 no_fault_begin [OF _ _ s1] False by blast
  next
    case True
    then obtain rest frs where t1: "txn_inv w1 log1 be salt sz nc fs us rest frs" "map fst frs = map fst fs @ us" "log_content frs = m"
      using a1 by blast
    have mx: "mxFrame (hdr w1) = length frs" using t1(1,2) by (metis length_append length_map txn_inv_def)
    obtain rc2 iF iO app w2 log2 where s2: "write_pages (env_os env) sz nT c i1 w1 log1 (length frs) (walFrameOffset (Suc (length frs)) sz) [] pList =
        (rc2, iF, iO, app, w2, log2)" by (metis prod_cases6)
    note a2 = write_pages_ok [OF assms(1) i1 s2 t1(1) assms(3)]
    have a2: "same_writer w1 w2 \<and> keeps (log_file be salt sz nc fs) log2 \<and>
      (rc2 = WAL_OK \<longrightarrow> (\<exists>frs'. txn_inv w2 log2 be salt sz nc fs us rest frs' \<and> iF = length frs' \<and>
       iO = walFrameOffset (Suc (length frs')) sz \<and> map fst frs' = map fst fs @ us @ app \<and>
       log_content frs' = m ++ map_of (rev pList) \<and>
       (c \<and> pList \<noteq> [] \<longrightarrow> frs' \<noteq> [] \<and> last frs' = (fst (last pList), nT, snd (last pList)))))"
      using a2 t1(2,3) by simp
    have e: "(rc, w', log') = (if rc2 \<noteq> WAL_OK then (rc2, w2, log2) else frames_end env w2 log2 sz pList nT c sync iF iO app)"
      using assms(5) [symmetric] True unfolding sqlite3WalFrames_def i1_def [symmetric] s1 by (simp add: mx s2)
    show ?thesis
    proof (cases "rc2 = WAL_OK")
      case False
      then show ?thesis using e a2 no_fault_begin [OF _ _ s1] no_fault_pages [OF _ s2] by auto
    next
      case rc2: True
      then obtain frs' where t2: "txn_inv w2 log2 be salt sz nc fs us rest frs'" "iF = length frs'" "iO = walFrameOffset (Suc (length frs')) sz"
        "map fst frs' = map fst fs @ us @ app" "log_content frs' = m ++ map_of (rev pList)"
        "c \<Longrightarrow> frs' \<noteq> [] \<and> last frs' = (fst (last pList), nT, snd (last pList))" using a2 assms(4) by blast
      have fe: "frames_end env w2 log2 sz pList nT c sync (length frs') (walFrameOffset (Suc (length frs')) sz) app = (rc, w', log')"
        using e rc2 t2(2,3) by simp
      show ?thesis
      proof (cases c)
        case True
        have l: "fst (last pList) \<noteq> 0" "length (snd (last pList)) = sz" using assms(3) last_in_set [OF assms(4)] by (cases "last pList"; force)+
        have fe: "frames_end env w2 log2 sz pList nT True sync (length frs') (walFrameOffset (Suc (length frs')) sz) app = (rc, w', log')"
          using fe True by simp
        note f = frames_commit [OF t2(1,4) _ _ _ l fe]
        show ?thesis using f True t2(5) t2(6) [OF True] no_fault_begin [OF _ _ s1] no_fault_pages [OF _ s2] assms(1) by simp
      next
        case False
        have fe: "frames_end env w2 log2 sz pList nT False sync (length frs') (walFrameOffset (Suc (length frs')) sz) app = (rc, w', log')"
          using fe False by simp
        note f = frames_spill [OF t2(1,4) fe]
        have g: "log' = log2" "rc = WAL_OK" "rc = WAL_OK \<longrightarrow> (\<exists>rest. txn_inv w' log2 be salt sz nc fs (us @ app) rest frs') \<and> live_hdr w' = live_hdr w2"
          using f assms(1) by simp_all
        have "frs' \<noteq> []"
        proof
          assume "frs' = []"
          then have "map_of (rev pList) = Map.empty" using t2(5) by (simp add: log_content_def)
          then show False using assms(4) by simp
        qed
        then have ne: "\<not> (fs = [] \<and> us @ app = [])" using t2(4) by auto
        have "live_hdr w2 = live_hdr w" using a1 a2 same_writer_facts(1) by metis
        then have "wal_writer env w' log' be salt sz nc fs (us @ app) (m ++ map_of (rev pList))" if "rc = WAL_OK"
          using g that live t2(4,5) ne unfolding wal_writer_def if_not_P [OF ne] by auto
        moreover have "readLock w' \<noteq> 0" using g(2,3) by (auto simp: txn_inv_def)
        ultimately show ?thesis using False a2 g(1,2) no_fault_begin [OF _ _ s1] no_fault_pages [OF _ s2] by auto
      qed
    qed
  qed
qed

section \<open>A transaction\<close>

text \<open>
  What the pager asks for during one write transaction: some calls that move pages out of the cache, and
  the call that commits. It stops at the first error.
\<close>

fun wal_spills :: "wal_env \<Rightarrow> Wal \<Rightarrow> wal_log \<Rightarrow> nat \<Rightarrow> u32 \<Rightarrow> (u32 \<times> u8 list) list list \<Rightarrow> wal_rc \<times> Wal \<times> wal_log" where
  "wal_spills env w log sz sync [] = (WAL_OK, w, log)"
| "wal_spills env w log sz sync (pl # pls) =
     (let (rc, w, log) = sqlite3WalFrames env w log sz pl 0 False sync
      in if rc \<noteq> WAL_OK then (rc, w, log) else wal_spills env w log sz sync pls)"

definition wal_transaction :: "wal_env \<Rightarrow> Wal \<Rightarrow> wal_log \<Rightarrow> nat \<Rightarrow> (u32 \<times> u8 list) list list \<Rightarrow> (u32 \<times> u8 list) list \<Rightarrow> u32 \<Rightarrow> u32 \<Rightarrow>
    wal_rc \<times> Wal \<times> wal_log" where
  "wal_transaction env w log sz spills pList nTruncate sync =
     (let (rc, w, log) = wal_spills env w log sz sync spills
      in if rc \<noteq> WAL_OK then (rc, w, log) else sqlite3WalFrames env w log sz pList nTruncate True sync)"

definition pages_ok :: "nat \<Rightarrow> (u32 \<times> u8 list) list \<Rightarrow> bool" where
  "pages_ok sz pl \<longleftrightarrow> pl \<noteq> [] \<and> (\<forall>(p, d) \<in> set pl. p \<noteq> 0 \<and> length d = sz)"

lemma writer_keeps: "wal_writer env w log be salt sz nc fs us m \<Longrightarrow> fs \<noteq> [] \<Longrightarrow> keeps (log_file be salt sz nc fs) log"
  by (erule writer_txn) (auto intro: txn_keeps(1))

lemma map_add_rev: "m ++ map_of (rev (a @ b)) = (m ++ map_of (rev a)) ++ map_of (rev b)"
  by simp

lemma wal_spills_ok:
  assumes "os_ok (env_os env)"
  shows "wal_writer env w log be salt sz nc fs us m \<Longrightarrow> \<forall>pl \<in> set pls. pages_ok sz pl \<Longrightarrow>
    wal_spills env w log sz sync pls = (rc, w', log') \<Longrightarrow>
    (fs \<noteq> [] \<longrightarrow> keeps (log_file be salt sz nc fs) log') \<and>
    (rc = WAL_OK \<longrightarrow> (\<exists>us'. wal_writer env w' log' be salt sz nc fs us' (m ++ map_of (rev (concat pls))))) \<and>
    (no_fault log \<and> env_malloc env \<and> readLock w \<noteq> 0 \<longrightarrow> rc = WAL_OK \<and> no_fault log' \<and> readLock w' \<noteq> 0)"
proof (induction pls arbitrary: w log us m)
  case Nil
  then show ?case using writer_keeps by auto
next
  case (Cons pl pls)
  have pl: "\<forall>(p, d) \<in> set pl. p \<noteq> 0 \<and> length d = sz" "pl \<noteq> []" "\<forall>pl \<in> set pls. pages_ok sz pl"
    using Cons.prems(2) by (simp_all add: pages_ok_def)
  obtain rc1 w1 log1 where c: "sqlite3WalFrames env w log sz pl 0 False sync = (rc1, w1, log1)" by (metis prod_cases3)
  note f = frames_call [OF assms Cons.prems(1) pl(1,2) c, unfolded if_False]
  have e: "(rc, w', log') = (if rc1 \<noteq> WAL_OK then (rc1, w1, log1) else wal_spills env w1 log1 sz sync pls)"
    using Cons.prems(3) by (simp add: c)
  show ?case
  proof (cases "rc1 = WAL_OK")
    case False
    then show ?thesis using e f by auto
  next
    case True
    then obtain us' where us': "wal_writer env w1 log1 be salt sz nc fs us' (m ++ map_of (rev pl))" using f by blast
    show ?thesis using Cons.IH [OF us' pl(3)] e True f unfolding concat.simps map_add_rev by auto
  qed
qed

lemma wal_transaction_done:
  assumes "os_ok (env_os env)" "wal_writer env w log be salt sz nc fs us m" "\<forall>pl \<in> set spills. pages_ok sz pl" "pages_ok sz pList"
    "wal_transaction env w log sz spills pList nT sync = (rc, w', log')"
  shows "(fs \<noteq> [] \<longrightarrow> keeps (log_file be salt sz nc fs) log') \<and>
    (rc = WAL_OK \<longrightarrow> (\<exists>frs. txn_done w' log' be salt sz nc fs nT frs \<and> log_content frs = m ++ map_of (rev (concat spills @ pList)))) \<and>
    (no_fault log \<and> env_malloc env \<and> readLock w \<noteq> 0 \<longrightarrow> rc = WAL_OK)"
proof -
  obtain rc1 w1 log1 where c: "wal_spills env w log sz sync spills = (rc1, w1, log1)" by (metis prod_cases3)
  note f = wal_spills_ok [OF assms(1-3) c]
  have e: "(rc, w', log') = (if rc1 \<noteq> WAL_OK then (rc1, w1, log1) else sqlite3WalFrames env w1 log1 sz pList nT True sync)"
    using assms(5) by (simp add: wal_transaction_def c)
  show ?thesis
  proof (cases "rc1 = WAL_OK")
    case False
    then show ?thesis using e f by auto
  next
    case True
    then obtain us' where us': "wal_writer env w1 log1 be salt sz nc fs us' (m ++ map_of (rev (concat spills)))" using f by blast
    have pl: "\<forall>(p, d) \<in> set pList. p \<noteq> 0 \<and> length d = sz" "pList \<noteq> []" using assms(4) by (simp_all add: pages_ok_def)
    have c: "sqlite3WalFrames env w1 log1 sz pList nT True sync = (rc, w', log')" using e True by simp
    show ?thesis using frames_call [OF assms(1) us' pl c, unfolded if_True] f unfolding map_add_rev by blast
  qed
qed

section \<open>The log after a crash\<close>

lemma committed_append: "committed (fs @ gs) = (if committed gs = [] then committed fs else fs @ committed gs)"
  by (induction fs) auto

lemma committed_last: "frs \<noteq> [] \<Longrightarrow> fst (snd (last frs)) \<noteq> 0 \<Longrightarrow> committed frs = frs"
  using committed_append [of "butlast frs" "[last frs]"] by simp

text \<open>
  Whoever recovers the log later, with the faults gone, gets an index with the frames \<open>fs\<close> and perhaps
  more committed frames after them, and its readers find the content of those frames.
\<close>

definition survives :: "wal_log \<Rightarrow> nat \<Rightarrow> frame list \<Rightarrow> bool" where
  "survives log sz fs \<longleftrightarrow>
     (\<forall>env cnt v. os_ok (env_os env) \<and> (\<forall>cnt i n. env_excl env cnt i n = WAL_OK) \<and> env_malloc env \<longrightarrow>
       (\<exists>v' gs. walIndexRecover env cnt v (log\<lparr>lf_faults := None\<rparr>) = (WAL_OK, v', log\<lparr>lf_faults := None\<rparr>) \<and>
         recovered v' (fs @ gs) \<and>
         (\<forall>h. \<exists>ch r. walIndexTryHdr (v'\<lparr>hdr := h\<rparr>) = (False, ch, r) \<and> hdr r = hdr v' \<and>
            reads_content (env_os env) (r\<lparr>readLock := 1, minFrame := 1\<rparr>) (log\<lparr>lf_faults := None\<rparr>) sz (log_content (fs @ gs)))))"

lemma log_survives:
  assumes "keeps (log_file be salt sz nc fs) log" "length salt = 8" "sz \<in> set page_sizes" "list_all (frame_ok sz) fs" "committed fs = fs"
  shows "survives log sz fs"
proof -
  let ?nv = "be = SQLITE_BIGENDIAN"
  let ?log = "log\<lparr>lf_faults := None\<rparr>"
  obtain z where z: "lf_data log = log_file be salt sz nc fs @ z" using assms(1) unfolding keeps_def by (metis append_take_drop_id)
  obtain gs tail where g: "z = log_bytes ?nv salt (file_cksum be salt sz nc fs) gs @ tail" "list_all (frame_ok sz) gs"
    "\<not> frame_valid ?nv salt sz (log_cksum ?nv (file_cksum be salt sz nc fs) gs) tail"
    using log_split [of z ?nv salt "file_cksum be salt sz nc fs" sz] by blast
  have d: "lf_data ?log = log_file be salt sz nc (fs @ gs) @ tail" using z g(1) by (simp add: log_file_def log_bytes_append file_cksum_def)
  have s: "\<not> frame_valid ?nv salt sz (file_cksum be salt sz nc (fs @ gs)) tail" using g(3) by (simp add: file_cksum_def log_cksum_append)
  have ok: "list_all (frame_ok sz) (fs @ gs)" using assms(4) g(2) by simp
  have c: "committed (fs @ gs) = fs @ committed gs" using assms(5) by (simp add: committed_append)
  show ?thesis
    unfolding survives_def
  proof (intro allI impI)
    fix env :: wal_env and cnt v
    assume "os_ok (env_os env) \<and> (\<forall>cnt i n. env_excl env cnt i n = WAL_OK) \<and> env_malloc env"
    then have e: "os_ok (env_os env)" "\<forall>cnt i n. env_excl env cnt i n = WAL_OK" "env_malloc env" "lf_faults ?log = None" by simp_all
    note r = recovery_index [OF e d assms(2,3) ok s, of cnt v, unfolded c]
    obtain v' where v': "walIndexRecover env cnt v ?log = (WAL_OK, v', ?log)" "recovered v' (fs @ committed gs)"
      "fs @ committed gs \<noteq> [] \<longrightarrow> hdr_szPage (hdr v') = hdr_page_size (int sz)" using r by blast
    note rr = recovered_reads [OF e(1,4) d assms(2,3) ok, unfolded c, OF v'(2,3)]
    show "\<exists>v' gs. walIndexRecover env cnt v ?log = (WAL_OK, v', ?log) \<and> recovered v' (fs @ gs) \<and>
       (\<forall>h. \<exists>ch r. walIndexTryHdr (v'\<lparr>hdr := h\<rparr>) = (False, ch, r) \<and> hdr r = hdr v' \<and>
          reads_content (env_os env) (r\<lparr>readLock := 1, minFrame := 1\<rparr>) ?log sz (log_content (fs @ gs)))"
      by (rule exI [of _ v'], rule exI [of _ "committed gs"]) (intro conjI v'(1,2) allI rr)
  qed
qed

lemma txn_done_reads:
  assumes "txn_done w log be salt sz nc fs nT frs" "os_ok os" "sz \<in> set page_sizes" "i \<noteq> 0"
  shows "reads_content os (w\<lparr>hdr := live_hdr w, readLock := i, minFrame := 1\<rparr>) (log\<lparr>lf_faults := None\<rparr>) sz (log_content frs)"
proof -
  obtain rest where t: "txn_inv w log be salt sz nc frs [] rest frs" "iReCksum w = 0" "live_hdr w = hdr w"
    "hdr_szPage (hdr w) = hdr_page_size (int sz)" using assms(1) by (auto simp: txn_done_def)
  have r: "log_ready w log be salt sz nc frs" "wi_inv w (map fst frs @ rest)" "mxFrame (hdr w) = length frs" using t(1) by (simp_all add: txn_inv_def)
  obtain z where z: "lf_data log = log_file be salt sz nc frs @ z" using ready_file [OF r(1) t(2)] by blast
  show ?thesis
    by (rule reads_content_log [OF assms(2) _ _ _ _ assms(3), where ms = rest])
      (use z r t(3,4) assms(4) txn_frames_ok [OF t(1)] in simp_all)
qed



end
