(* ===== verification/WalIterator.thy ===== *)
theory WalIterator
  imports WalCommit
begin

text \<open>
  The order in which a checkpoint visits the pages of the log (wal.c): the merge sort
  \<open>walMergesort\<close> of the frames of one page of the wal-index, and the iterator that merges the sorted
  pages. The main facts: the sort keeps the last frame of every database page, and the iterator visits
  every database page once, in ascending order, with its last frame.
\<close>

section \<open>The merge sort\<close>

text \<open>
  The lists are lists of indices into \<open>aContent\<close>. \<open>walMerge\<close> returns the list that the code puts in place
  of both.
\<close>

function walMerge :: "(nat \<Rightarrow> u32) \<Rightarrow> nat list \<Rightarrow> nat list \<Rightarrow> nat list" where
  "walMerge aContent aLeft aRight =
     (if aRight \<noteq> [] \<or> aLeft \<noteq> [] then
        (let left = (aLeft \<noteq> [] \<and> (aRight = [] \<or> aContent (hd aLeft) < aContent (hd aRight)));
             logpage = (if left then hd aLeft else hd aRight);
             aLeft' = (if left then tl aLeft else aLeft);
             aRight' = (if left then aRight else tl aRight);
             dbpage = aContent logpage
         in logpage # walMerge aContent (if aLeft' \<noteq> [] \<and> aContent (hd aLeft') = dbpage then tl aLeft' else aLeft') aRight')
      else [])"
  by pat_completeness auto
termination
  by (relation "measure (\<lambda>(c, l, r). length l + length r)") (auto simp: neq_Nil_conv split: if_splits)

declare walMerge.simps [simp del]

text \<open>
  The sublists: \<open>aSub\<close> has one for every bit that is set in the number of elements read so far. The inner
  loop merges while the bit of \<open>iList\<close> is set.
\<close>

lemma next_bit: "odd (n div 2 ^ k) \<Longrightarrow> n div 2 ^ Suc k < n div (2 ^ k :: nat)"
  by (simp only: power_Suc2 div_mult2_eq) (auto intro!: div_less_dividend odd_pos)

function merge_subs :: "(nat \<Rightarrow> u32) \<Rightarrow> nat \<Rightarrow> nat \<Rightarrow> nat list list \<Rightarrow> nat list \<Rightarrow> nat \<times> nat list" where
  "merge_subs aContent iList iSub aSub aMerge =
     (if odd (iList div 2 ^ iSub) then merge_subs aContent iList (iSub + 1) aSub (walMerge aContent (aSub ! iSub) aMerge)
      else (iSub, aMerge))"
  by pat_completeness auto
termination
  by (relation "measure (\<lambda>(c, i, s, a, m). i div 2 ^ s)") (use next_bit in auto)

declare merge_subs.simps [simp del]

text \<open>The elements; the last \<open>iSub\<close>, the last merged list, and \<open>aSub\<close>.\<close>

fun read_list :: "(nat \<Rightarrow> u32) \<Rightarrow> nat list \<Rightarrow> nat \<Rightarrow> nat \<times> nat list \<times> nat list list \<Rightarrow> nat \<times> nat list \<times> nat list list" where
  "read_list aContent [] iList r = r"
| "read_list aContent (a # aList) iList (iSub, aMerge, aSub) =
     (let (iSub, aMerge) = merge_subs aContent iList 0 aSub [a]
      in read_list aContent aList (iList + 1) (iSub, aMerge, aSub[iSub := aMerge]))"

fun merge_rest :: "(nat \<Rightarrow> u32) \<Rightarrow> nat \<Rightarrow> nat list list \<Rightarrow> nat list \<Rightarrow> nat list \<Rightarrow> nat list" where
  "merge_rest aContent nList aSub [] aMerge = aMerge"
| "merge_rest aContent nList aSub (iSub # is) aMerge =
     merge_rest aContent nList aSub is (if odd (nList div 2 ^ iSub) then walMerge aContent (aSub ! iSub) aMerge else aMerge)"

definition walMergesort :: "(nat \<Rightarrow> u32) \<Rightarrow> nat list \<Rightarrow> nat list" where
  "walMergesort aContent aList =
     (let (iSub, aMerge, aSub) = read_list aContent aList 0 (0, [], replicate 13 [])
      in merge_rest aContent (length aList) aSub [iSub + 1..<13] aMerge)"

section \<open>The iterator\<close>

record wal_segment =
  iNext :: nat
  aIndex :: "nat list"
  seg_aPgno :: "nat \<Rightarrow> u32"
  seg_iZero :: nat

record wal_iterator =
  iPrior :: u32
  aSegment :: "wal_segment list"

function seg_skip :: "u32 \<Rightarrow> wal_segment \<Rightarrow> wal_segment" where
  "seg_skip iMin pSegment =
     (if iNext pSegment < length (aIndex pSegment) \<and> \<not> seg_aPgno pSegment (aIndex pSegment ! iNext pSegment) > iMin
      then seg_skip iMin (pSegment\<lparr>iNext := iNext pSegment + 1\<rparr>) else pSegment)"
  by pat_completeness auto
termination
  by (relation "measure (\<lambda>(m, s). length (aIndex s) - iNext s)") auto

declare seg_skip.simps [simp del]

text \<open>The segments from \<open>n - 1\<close> down to 0; the smallest page so far and its frame.\<close>

fun scan_segments :: "u32 \<Rightarrow> nat \<Rightarrow> wal_segment list \<Rightarrow> u32 \<times> nat \<Rightarrow> wal_segment list \<times> u32 \<times> nat" where
  "scan_segments iMin 0 segs r = (segs, r)"
| "scan_segments iMin (Suc i) segs (iRet, iFrame) =
     (let s = seg_skip iMin (segs ! i);
          iPg = seg_aPgno s (aIndex s ! iNext s)
      in scan_segments iMin i (segs[i := s])
           (if iNext s < length (aIndex s) \<and> iPg < iRet then (iPg, seg_iZero s + aIndex s ! iNext s) else (iRet, iFrame)))"

text \<open>Whether there is no more page; the page and, unless there is none, its frame.\<close>

definition walIteratorNext :: "wal_iterator \<Rightarrow> nat \<Rightarrow> bool \<times> u32 \<times> nat \<times> wal_iterator" where
  "walIteratorNext p iFrame =
     (let (segs, iRet, iFrame) = scan_segments (iPrior p) (length (aSegment p)) (aSegment p) (0xFFFFFFFF, iFrame)
      in (iRet = 0xFFFFFFFF, iRet, iFrame, \<lparr>iPrior = iRet, aSegment = segs\<rparr>))"

text \<open>The segments from \<open>i\<close> on, \<open>n\<close> of them; \<open>aPgno\<close> is 0-based after its increment.\<close>

fun init_segments :: "wal_os \<Rightarrow> Wal \<Rightarrow> nat \<Rightarrow> nat \<Rightarrow> nat \<Rightarrow> wal_rc \<times> Wal \<times> wal_segment list" where
  "init_segments os pWal iLast i 0 = (WAL_OK, pWal, [])"
| "init_segments os pWal iLast i (Suc n) =
     (let (rc, iZero, pWal) = walHashGet os pWal i
      in if rc \<noteq> WAL_OK then (rc, pWal, [])
         else
           (let nEntry = (if n = 0 then iLast - iZero else if i = 0 then HASHTABLE_NPAGE_ONE else HASHTABLE_NPAGE);
                content = (\<lambda>j. aPgno pWal i (j + 1));
                s = \<lparr>iNext = 0, aIndex = walMergesort content [0..<nEntry], seg_aPgno = content, seg_iZero = iZero + 1\<rparr>;
                (rc, pWal, ss) = init_segments os pWal iLast (i + 1) n
            in (rc, pWal, s # ss)))"

definition walIteratorInit :: "wal_env \<Rightarrow> Wal \<Rightarrow> wal_rc \<times> Wal \<times> wal_iterator" where
  "walIteratorInit env pWal =
     (let iLast = mxFrame (hdr pWal); nSegment = walFramePage iLast + 1
      in if \<not> env_malloc env then (WAL_NOMEM, pWal, \<lparr>iPrior = 0, aSegment = []\<rparr>)
         else
           (let (rc, pWal, segs) = init_segments (env_os env) pWal iLast 0 nSegment
            in (rc, pWal, \<lparr>iPrior = 0, aSegment = segs\<rparr>)))"

section \<open>Merging keeps the last index of every content\<close>

definition last_of :: "(nat \<Rightarrow> u32) \<Rightarrow> nat list \<Rightarrow> nat set \<Rightarrow> bool" where
  "last_of c xs S \<longleftrightarrow> sorted_wrt (\<lambda>i j. c i < c j) xs \<and> set xs \<subseteq> S \<and> (\<forall>j \<in> S. \<exists>i \<in> set xs. c i = c j \<and> j \<le> i)"

lemma last_of_cong: "last_of c xs S \<Longrightarrow> (\<And>j. j \<in> S \<Longrightarrow> c j = d j) \<Longrightarrow> last_of d xs S"
proof -
  assume l: "last_of c xs S" and e: "\<And>j. j \<in> S \<Longrightarrow> c j = d j"
  then have x: "\<forall>i \<in> set xs. c i = d i" by (auto simp: last_of_def)
  then have "sorted_wrt (\<lambda>i j. d i < d j) xs"
    using l by (auto simp: last_of_def intro: sorted_wrt_mono_rel [of xs "\<lambda>i j. c i < c j"])
  then show ?thesis using l e x unfolding last_of_def by force
qed

lemma walMerge_Nil [simp]: "walMerge c [] rs = rs"
  by (induction rs) (simp_all add: walMerge.simps [of c "[]" "_ # _"] walMerge.simps [of c "[]" "[]"])

lemma walMerge_right: "\<not> c l < c r \<Longrightarrow> walMerge c (l # ls) (r # rs) = r # walMerge c (if c l = c r then ls else l # ls) rs"
  by (simp add: walMerge.simps [of c "l # ls"])

lemma walMerge_left:
  "rs = [] \<or> c l < c (hd rs) \<Longrightarrow> \<forall>x \<in> set ls. c l < c x \<Longrightarrow> walMerge c (l # ls) rs = l # walMerge c ls rs"
  by (cases ls) (auto simp: walMerge.simps [of c "l # _"] Let_def)

lemma walMerge_sorted:
  assumes "sorted_wrt (\<lambda>i j. c i < c j) ls" "sorted_wrt (\<lambda>i j. c i < c j) rs"
  shows "sorted_wrt (\<lambda>i j. c i < c j) (walMerge c ls rs) \<and> set (walMerge c ls rs) = set rs \<union> {l \<in> set ls. \<forall>r \<in> set rs. c r \<noteq> c l}"
  using assms
proof (induction "length ls + length rs" arbitrary: ls rs rule: less_induct)
  case less
  show ?case
  proof (cases ls)
    case Nil
    then show ?thesis using less.prems by simp
  next
    case (Cons l ls')
    have l: "\<forall>x \<in> set ls'. c l < c x" "sorted_wrt (\<lambda>i j. c i < c j) ls'" using less.prems(1) Cons by simp_all
    show ?thesis
    proof (cases "rs = [] \<or> c l < c (hd rs)")
      case True
      have lr: "\<forall>r \<in> set rs. c l < c r" using True less.prems(2) by (cases rs) auto
      have ih: "sorted_wrt (\<lambda>i j. c i < c j) (walMerge c ls' rs) \<and> set (walMerge c ls' rs) = set rs \<union> {l \<in> set ls'. \<forall>r \<in> set rs. c r \<noteq> c l}"
        by (rule less.hyps) (use Cons l(2) less.prems(2) in simp_all)
      have "\<forall>x \<in> set (walMerge c ls' rs). c l < c x" using ih l(1) lr by blast
      then show ?thesis using ih lr unfolding Cons walMerge_left [OF True l(1)] by fastforce
    next
      case False
      then obtain r rs' where r: "rs = r # rs'" "\<not> c l < c r" by (cases rs) auto
      have rr: "\<forall>x \<in> set rs'. c r < c x" "sorted_wrt (\<lambda>i j. c i < c j) rs'" using less.prems(2) r by simp_all
      define ls2 where "ls2 = (if c l = c r then ls' else l # ls')"
      have l2: "sorted_wrt (\<lambda>i j. c i < c j) ls2" "length ls2 \<le> length ls" "\<forall>x \<in> set ls2. c r < c x"
        using l Cons less.prems(1) r(2) by (auto simp: ls2_def)
      have ih: "sorted_wrt (\<lambda>i j. c i < c j) (walMerge c ls2 rs') \<and> set (walMerge c ls2 rs') = set rs' \<union> {l \<in> set ls2. \<forall>r \<in> set rs'. c r \<noteq> c l}"
        by (rule less.hyps) (use l2 rr(2) r(1) in simp_all)
      have "\<forall>x \<in> set (walMerge c ls2 rs'). c r < c x" using ih l2(3) rr(1) by blast
      moreover have "{x \<in> set ls. \<forall>y \<in> set rs. c y \<noteq> c x} = {x \<in> set ls2. \<forall>y \<in> set rs'. c y \<noteq> c x}"
      proof -
        have "x \<in> set ls \<and> c r \<noteq> c x \<longleftrightarrow> x \<in> set ls2" for x using l2(3) l(1) r(2) by (cases "x = l") (auto simp: Cons ls2_def)
        then show ?thesis by (auto simp: r(1))
      qed
      ultimately show ?thesis using ih unfolding Cons r(1) walMerge_right [OF r(2)] ls2_def [symmetric] by simp
    qed
  qed
qed

lemma last_of_merge:
  assumes "last_of c ls L" "last_of c rs R" "\<forall>l \<in> L. \<forall>r \<in> R. l \<le> r"
  shows "last_of c (walMerge c ls rs) (L \<union> R)"
proof -
  have s: "sorted_wrt (\<lambda>i j. c i < c j) (walMerge c ls rs)" "set (walMerge c ls rs) = set rs \<union> {l \<in> set ls. \<forall>r \<in> set rs. c r \<noteq> c l}"
    using walMerge_sorted [of c ls rs] assms(1,2) by (simp_all add: last_of_def)
  have sub: "set ls \<subseteq> L" "set rs \<subseteq> R" using assms(1,2) by (simp_all add: last_of_def)
  have "\<exists>i \<in> set (walMerge c ls rs). c i = c j \<and> j \<le> i" if j: "j \<in> L \<union> R" for j
  proof (cases "j \<in> R")
    case True
    then show ?thesis using assms(2) s(2) by (auto simp: last_of_def)
  next
    case False
    then have jL: "j \<in> L" using j by blast
    then obtain i where i: "i \<in> set ls" "c i = c j" "j \<le> i" using assms(1) by (auto simp: last_of_def)
    show ?thesis
    proof (cases "\<exists>r \<in> set rs. c r = c i")
      case True
      then obtain r where r: "r \<in> set rs" "c r = c i" by blast
      then have "j \<le> r" using assms(3) jL sub(2) by blast
      then show ?thesis using r i(2) s(2) by auto
    next
      case False
      then show ?thesis using i s(2) by auto
    qed
  qed
  then show ?thesis using s sub unfolding last_of_def by auto
qed

section \<open>The binary counter of sublists\<close>

text \<open>The elements at the positions from \<open>a\<close> to \<open>b\<close>, and \<open>m\<close> with its low bits cleared.\<close>

definition blk :: "nat list \<Rightarrow> nat \<Rightarrow> nat \<Rightarrow> nat set" where
  "blk xs a b = (!) xs ` {a..<b}"

definition hi_bits :: "nat \<Rightarrow> nat \<Rightarrow> nat" where
  "hi_bits m k = m div 2 ^ k * 2 ^ k"

definition subs_ok :: "(nat \<Rightarrow> u32) \<Rightarrow> nat list \<Rightarrow> nat \<Rightarrow> nat list list \<Rightarrow> bool" where
  "subs_ok c xs m aSub \<longleftrightarrow> length aSub = 13 \<and>
     (\<forall>k < 13. odd (m div 2 ^ k) \<longrightarrow> last_of c (aSub ! k) (blk xs (hi_bits m (Suc k)) (hi_bits m k)))"

lemma hi_bits_0 [simp]: "hi_bits m 0 = m"
  by (simp add: hi_bits_def)

lemma hi_bits_even: "even (m div 2 ^ k) \<Longrightarrow> hi_bits m (Suc k) = hi_bits m k"
  by (auto simp: hi_bits_def power_Suc2 div_mult2_eq simp del: power_Suc elim!: evenE)

lemma hi_bits_Suc: "hi_bits m (Suc k) \<le> hi_bits m k"
proof -
  have "m div 2 ^ Suc k = m div 2 ^ k div 2" by (simp only: power_Suc2 div_mult2_eq)
  then have "hi_bits m (Suc k) = m div 2 ^ k div 2 * 2 * 2 ^ k" by (simp only: hi_bits_def power_Suc mult.assoc)
  also have "\<dots> \<le> m div 2 ^ k * 2 ^ k" by (intro mult_le_mono1) simp
  finally show ?thesis by (simp only: hi_bits_def)
qed

lemma hi_bits_le: "hi_bits m k \<le> m"
  by (simp add: hi_bits_def)

lemma blk_split: "a \<le> b \<Longrightarrow> b \<le> d \<Longrightarrow> blk xs a d = blk xs a b \<union> blk xs b d"
  by (simp add: blk_def ivl_disj_un_two(3) flip: image_Un)

lemma last_of_blocks:
  assumes "sorted xs" "d \<le> length xs" "a \<le> b" "b \<le> d" "last_of c ls (blk xs a b)" "last_of c rs (blk xs b d)"
  shows "last_of c (walMerge c ls rs) (blk xs a d)"
proof -
  have "\<forall>l \<in> blk xs a b. \<forall>r \<in> blk xs b d. l \<le> r"
    using assms(1,2) by (auto simp: blk_def intro!: sorted_nth_mono)
  then show ?thesis using last_of_merge [OF assms(5,6)] blk_split [OF assms(3,4)] by simp
qed

lemma merge_subs_ok:
  assumes "subs_ok c xs m aSub" "sorted xs" "m < length xs" "length xs \<le> 4096"
  shows "last_of c aMerge (blk xs (hi_bits m s) (Suc m)) \<Longrightarrow> merge_subs c m s aSub aMerge = (s', aMerge') \<Longrightarrow>
    last_of c aMerge' (blk xs (hi_bits m s') (Suc m)) \<and> even (m div 2 ^ s') \<and> (\<forall>k. s \<le> k \<and> k < s' \<longrightarrow> odd (m div 2 ^ k))"
proof (induction "m div 2 ^ s" arbitrary: s aMerge rule: less_induct)
  case less
  show ?case
  proof (cases "odd (m div 2 ^ s)")
    case False
    then have "(s', aMerge') = (s, aMerge)" using less.prems(2) by (simp add: merge_subs.simps [of c m s])
    then show ?thesis using False less.prems(1) by simp
  next
    case True
    have e: "merge_subs c m (Suc s) aSub (walMerge c (aSub ! s) aMerge) = (s', aMerge')"
      using True less.prems(2) by (simp add: merge_subs.simps [of c m s])
    have "s < 13"
    proof (rule ccontr)
      assume "\<not> s < 13"
      then have "(2 :: nat) ^ 13 \<le> 2 ^ s" by (intro power_increasing) simp_all
      then have "m div 2 ^ s = 0" using assms(3,4) by (intro div_less) simp
      then show False using True by simp
    qed
    then have "last_of c (aSub ! s) (blk xs (hi_bits m (Suc s)) (hi_bits m s))" using assms(1) True by (simp add: subs_ok_def)
    then have "last_of c (walMerge c (aSub ! s) aMerge) (blk xs (hi_bits m (Suc s)) (Suc m))"
      using last_of_blocks [OF assms(2) _ hi_bits_Suc _ _ less.prems(1)] assms(3) hi_bits_le [of m s] by simp
    note ih = less.hyps [OF next_bit [OF True] this e]
    have "odd (m div 2 ^ k)" if "s \<le> k" "k < s'" for k
      using ih True that by (cases "k = s") simp_all
    then show ?thesis using ih by blast
  qed
qed

lemma low_ones: "\<forall>k < s. odd (m div 2 ^ k) \<Longrightarrow> Suc m = (m div 2 ^ s + 1) * 2 ^ s"
proof (induction s)
  case (Suc s)
  have "Suc m = (m div 2 ^ s + 1) * 2 ^ s" using Suc by simp
  moreover have "m div 2 ^ s + 1 = 2 * (m div 2 ^ s div 2 + 1)" using Suc.prems by (auto elim!: oddE)
  ultimately have "Suc m = (m div 2 ^ s div 2 + 1) * (2 ^ s * 2)" by (metis mult.assoc mult.commute)
  then show ?case unfolding power_Suc2 div_mult2_eq .
qed simp

lemma carry:
  assumes "\<forall>k < s. odd (m div 2 ^ k)" "even (m div 2 ^ s)"
  shows "k < s \<Longrightarrow> even (Suc m div 2 ^ k)" "s < k \<Longrightarrow> Suc m div 2 ^ k = m div 2 ^ k" "hi_bits (Suc m) s = Suc m"
proof -
  have m: "Suc m = (m div 2 ^ s + 1) * 2 ^ s" by (rule low_ones [OF assms(1)])
  show "hi_bits (Suc m) s = Suc m" unfolding hi_bits_def m by simp
  show "even (Suc m div 2 ^ k)" if "k < s"
  proof -
    have "(2 :: nat) ^ s = 2 ^ k * (2 * 2 ^ (s - Suc k))" using that by (simp flip: power_add power_Suc)
    then have "Suc m = 2 ^ k * ((m div 2 ^ s + 1) * (2 * 2 ^ (s - Suc k)))" using m by (metis mult.left_commute)
    then have "Suc m div 2 ^ k = (m div 2 ^ s + 1) * (2 * 2 ^ (s - Suc k))" by (metis nonzero_mult_div_cancel_left power_not_zero zero_neq_numeral)
    then show ?thesis by simp
  qed
  show "Suc m div 2 ^ k = m div 2 ^ k" if "s < k"
  proof -
    have k: "(2 :: nat) ^ k = 2 ^ s * (2 * 2 ^ (k - Suc s))" using that by (simp flip: power_add power_Suc)
    have "Suc m div 2 ^ s = m div 2 ^ s + 1" by (subst m) simp
    then have "Suc m div 2 ^ s div 2 = m div 2 ^ s div 2" using assms(2) by (auto elim!: evenE)
    then show ?thesis by (simp only: k div_mult2_eq)
  qed
qed

lemma subs_ok_Suc:
  assumes "subs_ok c xs m aSub" "\<forall>k < s. odd (m div 2 ^ k)" "even (m div 2 ^ s)" "s < 13"
    "last_of c aMerge (blk xs (hi_bits m s) (Suc m))"
  shows "subs_ok c xs (Suc m) (aSub[s := aMerge]) \<and> last_of c aMerge (blk xs (hi_bits (Suc m) (Suc s)) (Suc m))"
proof -
  note r = carry [OF assms(2,3)]
  have h: "hi_bits (Suc m) k = hi_bits m k" if "s < k" for k using r(2) [OF that] by (simp add: hi_bits_def)
  have b: "last_of c aMerge (blk xs (hi_bits (Suc m) (Suc s)) (Suc m))"
    using assms(5) h [of "Suc s"] hi_bits_even [OF assms(3)] by simp
  have "last_of c (aSub[s := aMerge] ! k) (blk xs (hi_bits (Suc m) (Suc k)) (hi_bits (Suc m) k))"
    if k: "k < 13" "odd (Suc m div 2 ^ k)" for k
  proof -
    consider "k < s" | "k = s" | "s < k" by linarith
    then show ?thesis
    proof cases
      case 1
      then show ?thesis using r(1) k(2) by blast
    next
      case 2
      then show ?thesis using b r(3) assms(1,4) by (simp add: subs_ok_def)
    next
      case 3
      then show ?thesis using assms(1) k r(2) [OF 3] h [OF 3] h [of "Suc k"] by (simp add: subs_ok_def)
    qed
  qed
  then show ?thesis using b assms(1) by (simp add: subs_ok_def)
qed

lemma read_list_ok:
  assumes "sorted xs" "length xs \<le> 4096"
  shows "read_list c (drop m xs) m (s, aMerge, aSub) = (s', aMerge', aSub') \<Longrightarrow> m \<le> length xs \<Longrightarrow> subs_ok c xs m aSub \<Longrightarrow>
    (0 < m \<longrightarrow> last_of c aMerge (blk xs (hi_bits m (Suc s)) m)) \<Longrightarrow>
    subs_ok c xs (length xs) aSub' \<and> (xs \<noteq> [] \<longrightarrow> last_of c aMerge' (blk xs (hi_bits (length xs) (Suc s')) (length xs)))"
proof (induction "length xs - m" arbitrary: m s aMerge aSub)
  case 0
  then show ?case by (simp flip: length_greater_0_conv)
next
  case (Suc n)
  have m: "m < length xs" using Suc.hyps(2) by simp
  have d: "drop m xs = xs ! m # drop (Suc m) xs" by (simp add: Cons_nth_drop_Suc m)
  obtain s2 aM2 where ms: "merge_subs c m 0 aSub [xs ! m] = (s2, aM2)" by fastforce
  have "last_of c [xs ! m] (blk xs (hi_bits m 0) (Suc m))" by (simp add: last_of_def blk_def)
  note k = merge_subs_ok [OF Suc.prems(3) assms(1) m assms(2) this ms]
  have "s2 < 13"
  proof (rule ccontr)
    assume "\<not> s2 < 13"
    then have "0 \<le> (12 :: nat) \<and> 12 < s2" by simp
    then have "odd (m div 2 ^ 12)" using k by blast
    then show False using m assms(2) by simp
  qed
  then have i: "subs_ok c xs (Suc m) (aSub[s2 := aM2])" "last_of c aM2 (blk xs (hi_bits (Suc m) (Suc s2)) (Suc m))"
    using subs_ok_Suc [OF Suc.prems(3), of s2 aM2] k by simp_all
  have "read_list c (drop (Suc m) xs) (Suc m) (s2, aM2, aSub[s2 := aM2]) = (s', aMerge', aSub')"
    using Suc.prems(1) ms unfolding d by simp
  then show ?case by (rule Suc.hyps(1) [rotated]) (use i m Suc.hyps(2) in simp_all)
qed

lemma merge_rest_ok:
  assumes "subs_ok c xs (length xs) aSub" "sorted xs"
  shows "k \<le> 13 \<Longrightarrow> last_of c aMerge (blk xs (hi_bits (length xs) k) (length xs)) \<Longrightarrow>
    last_of c (merge_rest c (length xs) aSub [k..<13] aMerge) (blk xs (hi_bits (length xs) 13) (length xs))"
proof (induction "13 - k" arbitrary: k aMerge)
  case (Suc n)
  let ?n = "length xs"
  have k: "k < 13" using Suc.hyps(2) by simp
  have u: "[k..<13] = k # [Suc k..<13]" using k by (simp add: upt_conv_Cons)
  define aM where "aM = (if odd (?n div 2 ^ k) then walMerge c (aSub ! k) aMerge else aMerge)"
  have "last_of c aM (blk xs (hi_bits ?n (Suc k)) ?n)"
  proof (cases "odd (?n div 2 ^ k)")
    case True
    then have "last_of c (aSub ! k) (blk xs (hi_bits ?n (Suc k)) (hi_bits ?n k))" using assms(1) k by (simp add: subs_ok_def)
    then show ?thesis
      using last_of_blocks [OF assms(2) le_refl hi_bits_Suc hi_bits_le _ Suc.prems(2)] True by (simp add: aM_def)
  next
    case False
    then show ?thesis using hi_bits_even [of ?n k] Suc.prems(2) by (simp add: aM_def)
  qed
  from Suc.hyps(1) [of "Suc k", OF _ _ this] show ?case using Suc.hyps(2) k unfolding u by (simp add: aM_def)
qed simp

lemma walMergesort_last:
  assumes "sorted xs" "length xs \<le> 4096" "xs \<noteq> []"
  shows "last_of c (walMergesort c xs) (set xs)"
proof -
  obtain s aM aSub where r: "read_list c (drop 0 xs) 0 (0, [], replicate 13 []) = (s, aM, aSub)" by (metis prod_cases3)
  have "subs_ok c xs 0 (replicate 13 [])" by (simp add: subs_ok_def)
  then have i: "subs_ok c xs (length xs) aSub" "last_of c aM (blk xs (hi_bits (length xs) (Suc s)) (length xs))"
    using read_list_ok [OF assms(1,2) r] assms(3) by simp_all
  have h: "hi_bits (length xs) 13 = 0" using assms(2) by (simp add: hi_bits_def)
  have s: "set xs = blk xs 0 (length xs)" by (auto simp: blk_def set_conv_nth)
  have e: "walMergesort c xs = merge_rest c (length xs) aSub [Suc s..<13] aM" using r by (simp add: walMergesort_def)
  show ?thesis
  proof (cases "Suc s \<le> 13")
    case True
    show ?thesis using merge_rest_ok [OF i(1) assms(1) True i(2)] unfolding e s h .
  next
    case False
    then have "(2 :: nat) ^ 13 \<le> 2 ^ Suc s" by (intro power_increasing) simp_all
    then have "hi_bits (length xs) (Suc s) = 0" using assms(2) unfolding hi_bits_def by (subst div_less) simp_all
    then show ?thesis using i(2) False unfolding e s by simp
  qed
qed

section \<open>The iterator visits every page with its last frame\<close>

text \<open>The number of frames in segment \<open>b\<close>, and what the segment is.\<close>

definition seg_count :: "u32 list \<Rightarrow> nat \<Rightarrow> nat" where
  "seg_count pg b = min (wal_size b) (length pg - wal_iZero b)"

definition seg_ok :: "u32 list \<Rightarrow> nat \<Rightarrow> u32 \<Rightarrow> wal_segment \<Rightarrow> bool" where
  "seg_ok pg b prior s \<longleftrightarrow> seg_iZero s = wal_iZero b + 1 \<and>
     last_of (\<lambda>j. pg ! (wal_iZero b + j)) (aIndex s) {0..<seg_count pg b} \<and>
     (\<forall>j < seg_count pg b. seg_aPgno s j = pg ! (wal_iZero b + j)) \<and>
     (\<forall>k < iNext s. k < length (aIndex s) \<longrightarrow> seg_aPgno s (aIndex s ! k) \<le> prior)"

definition iter_ok :: "u32 list \<Rightarrow> wal_iterator \<Rightarrow> bool" where
  "iter_ok pg it \<longleftrightarrow> length pg \<le> wal_iZero (length (aSegment it)) \<and> (\<forall>b < length (aSegment it). seg_ok pg b (iPrior it) (aSegment it ! b))"

lemma seg_skip_ok:
  assumes "seg_ok pg b prior s" "prior \<le> iMin"
  shows "seg_ok pg b iMin (seg_skip iMin s) \<and>
    (iNext (seg_skip iMin s) < length (aIndex (seg_skip iMin s)) \<longrightarrow>
      iMin < seg_aPgno (seg_skip iMin s) (aIndex (seg_skip iMin s) ! iNext (seg_skip iMin s)))"
proof -
  have "seg_ok pg b iMin s" using assms by (auto simp: seg_ok_def)
  then show ?thesis
  proof (induction "length (aIndex s) - iNext s" arbitrary: s rule: less_induct)
    case less
    show ?case
    proof (cases "iNext s < length (aIndex s) \<and> \<not> seg_aPgno s (aIndex s ! iNext s) > iMin")
      case True
      then have "seg_ok pg b iMin (s\<lparr>iNext := iNext s + 1\<rparr>)" using less.prems by (auto simp: seg_ok_def less_Suc_eq not_less)
      moreover have "length (aIndex (s\<lparr>iNext := iNext s + 1\<rparr>)) - iNext (s\<lparr>iNext := iNext s + 1\<rparr>) < length (aIndex s) - iNext s"
        using conjunct1 [OF True] by (simp add: diff_less_mono2)
      ultimately show ?thesis using less.hyps unfolding seg_skip.simps [of iMin s] if_P [OF True] by blast
    next
      case False
      then show ?thesis using less.prems unfolding seg_skip.simps [of iMin s] if_not_P [OF False] by auto
    qed
  qed
qed

text \<open>The smallest page after \<open>iMin\<close> among the frames after \<open>lo\<close>, with its last frame.\<close>

definition next_page :: "u32 list \<Rightarrow> u32 \<Rightarrow> nat \<Rightarrow> u32 \<times> nat \<Rightarrow> bool" where
  "next_page pg iMin lo r \<longleftrightarrow> (\<forall>j. lo \<le> j \<and> j < length pg \<and> iMin < pg ! j \<longrightarrow> fst r \<le> pg ! j) \<and>
     (fst r = 0xFFFFFFFF \<or> (\<exists>j. lo \<le> j \<and> j < length pg \<and> pg ! j = fst r \<and> iMin < fst r \<and> snd r = Suc j \<and>
       (\<forall>i. j < i \<and> i < length pg \<longrightarrow> pg ! i \<noteq> fst r)))"

text \<open>The candidate of a segment.\<close>

lemma seg_candidate:
  assumes "seg_ok pg b iMin s" "iNext s < length (aIndex s)" "iMin < seg_aPgno s (aIndex s ! iNext s)"
  defines "j \<equiv> aIndex s ! iNext s"
  shows "j < seg_count pg b" "seg_aPgno s j = pg ! (wal_iZero b + j)"
    "i < seg_count pg b \<Longrightarrow> iMin < pg ! (wal_iZero b + i) \<Longrightarrow> pg ! (wal_iZero b + j) \<le> pg ! (wal_iZero b + i)"
    "i < seg_count pg b \<Longrightarrow> pg ! (wal_iZero b + i) = pg ! (wal_iZero b + j) \<Longrightarrow> i \<le> j"
proof -
  let ?c = "\<lambda>j. pg ! (wal_iZero b + j)"
  have l: "sorted_wrt (\<lambda>i j. ?c i < ?c j) (aIndex s)" "set (aIndex s) \<subseteq> {0..<seg_count pg b}"
    "\<forall>j \<in> {0..<seg_count pg b}. \<exists>i \<in> set (aIndex s). ?c i = ?c j \<and> j \<le> i"
    and a: "\<forall>j < seg_count pg b. seg_aPgno s j = ?c j" "\<forall>k < iNext s. k < length (aIndex s) \<longrightarrow> seg_aPgno s (aIndex s ! k) \<le> iMin"
    using assms(1) by (simp_all add: seg_ok_def last_of_def)
  have js: "j \<in> set (aIndex s)" using assms(2) by (simp add: j_def)
  then show jc: "j < seg_count pg b" using l(2) by auto
  then show cj: "seg_aPgno s j = ?c j" using a(1) by simp
  have pos: "iNext s \<le> q" if "q < length (aIndex s)" "iMin < ?c (aIndex s ! q)" for q
  proof (rule ccontr)
    assume "\<not> iNext s \<le> q"
    then have "seg_aPgno s (aIndex s ! q) \<le> iMin" using a(2) that(1) by simp
    moreover have "aIndex s ! q < seg_count pg b" using l(2) that(1) nth_mem by fastforce
    ultimately show False using a(1) that(2) by (simp add: not_less)
  qed
  have ord: "?c (aIndex s ! p) < ?c (aIndex s ! q)" if "p < q" "q < length (aIndex s)" for p q
    using sorted_wrt_nth_less [OF l(1) that] .
  show "?c j \<le> ?c i" if i: "i < seg_count pg b" "iMin < ?c i"
  proof -
    obtain e where e: "e \<in> set (aIndex s)" "?c e = ?c i" using bspec [OF l(3), of i] i(1) by auto
    then obtain q where q: "q < length (aIndex s)" "aIndex s ! q = e" by (auto simp: in_set_conv_nth)
    then have "iNext s \<le> q" using pos that(2) e(2) by simp
    then show ?thesis using ord [of "iNext s" q] q e(2) by (cases "iNext s = q") (auto simp: j_def)
  qed
  show "i \<le> j" if i: "i < seg_count pg b" "?c i = ?c j"
  proof -
    obtain e where e: "e \<in> set (aIndex s)" "?c e = ?c i" "i \<le> e" using bspec [OF l(3), of i] i(1) by auto
    then obtain q where q: "q < length (aIndex s)" "aIndex s ! q = e" by (auto simp: in_set_conv_nth)
    have "q = iNext s"
    proof (rule ccontr)
      assume "q \<noteq> iNext s"
      then have "?c (aIndex s ! q) \<noteq> ?c (aIndex s ! iNext s)" using ord [of q "iNext s"] ord [of "iNext s" q] q(1) assms(2)
        by (metis less_irrefl linorder_neqE_nat)
      then show False using q(2) e(2) that(2) by (simp add: j_def)
    qed
    then show ?thesis using q(2) e(3) by (simp add: j_def)
  qed
qed

lemma seg_empty:
  assumes "seg_ok pg b iMin s" "\<not> iNext s < length (aIndex s)" "i < seg_count pg b"
  shows "pg ! (wal_iZero b + i) \<le> iMin"
proof -
  obtain e where e: "e \<in> set (aIndex s)" "pg ! (wal_iZero b + e) = pg ! (wal_iZero b + i)"
    using assms(1,3) unfolding seg_ok_def last_of_def by force
  then obtain q where q: "q < length (aIndex s)" "aIndex s ! q = e" by (auto simp: in_set_conv_nth)
  then have "seg_aPgno s e \<le> iMin" using assms(1,2) by (auto simp: seg_ok_def)
  moreover have "e < seg_count pg b" using assms(1) e(1) by (auto simp: seg_ok_def last_of_def)
  ultimately show ?thesis using assms(1) e(2) by (simp add: seg_ok_def)
qed

lemma seg_frames: "wal_iZero b \<le> j \<Longrightarrow> j < length pg \<Longrightarrow> j < wal_iZero (Suc b) \<Longrightarrow> j - wal_iZero b < seg_count pg b"
  by (simp add: seg_count_def wal_iZero_Suc) linarith

lemma next_page_step:
  assumes "seg_ok pg b iMin s" "next_page pg iMin (wal_iZero (Suc b)) (iRet, fr)"
    "iNext s < length (aIndex s) \<longrightarrow> iMin < seg_aPgno s (aIndex s ! iNext s)"
  defines "iPg \<equiv> seg_aPgno s (aIndex s ! iNext s)"
  shows "next_page pg iMin (wal_iZero b)
    (if iNext s < length (aIndex s) \<and> iPg < iRet then (iPg, seg_iZero s + aIndex s ! iNext s) else (iRet, fr))"
proof -
  let ?z = "wal_iZero b"
  have z: "seg_iZero s = ?z + 1" "?z \<le> wal_iZero (Suc b)" using assms(1) by (simp_all add: seg_ok_def wal_iZero_Suc)
  have part: "\<exists>i < seg_count pg b. j = ?z + i" if "?z \<le> j" "j < length pg" "j < wal_iZero (Suc b)" for j
    using seg_frames [OF that] that(1) by (intro exI [of _ "j - ?z"]) simp
  have r: "iRet \<le> pg ! j" if "wal_iZero (Suc b) \<le> j" "j < length pg" "iMin < pg ! j" for j
    using assms(2) that by (simp add: next_page_def)
  show ?thesis
  proof (cases "iNext s < length (aIndex s)")
    case True
    let ?j = "aIndex s ! iNext s"
    note c = seg_candidate [OF assms(1) True]
    have m: "iMin < iPg" using assms(3) True by (simp add: iPg_def)
    have p: "iPg = pg ! (?z + ?j)" "?j < seg_count pg b" using c(1,2) m by (simp_all add: iPg_def)
    have s: "iPg \<le> pg ! j" if "?z \<le> j" "j < length pg" "j < wal_iZero (Suc b)" "iMin < pg ! j" for j
      using part [OF that(1-3)] c(3) m that(4) p(1) by (auto simp: iPg_def)
    show ?thesis
    proof (cases "iPg < iRet")
      case less: True
      have "pg ! i \<noteq> iPg" if i: "?z + ?j < i" "i < length pg" for i
      proof (cases "i < wal_iZero (Suc b)")
        case True
        obtain k where k: "k < seg_count pg b" "i = ?z + k" using part [OF _ i(2) True] i(1) by auto
        then show ?thesis using c(4) [of k] m i(1) p(1) by (auto simp: iPg_def)
      next
        case False
        then show ?thesis using r [of i] that(2) m less by (metis not_less)
      qed
      moreover have "?z + ?j < length pg" using p(2) by (simp add: seg_count_def) linarith
      moreover have "(if iNext s < length (aIndex s) \<and> iPg < iRet then (iPg, seg_iZero s + ?j) else (iRet, fr)) = (iPg, Suc (?z + ?j))"
        using True less z(1) by simp
      moreover have "iPg \<le> pg ! j" if "?z \<le> j" "j < length pg" "iMin < pg ! j" for j
        using s [of j] r [of j] that less by (metis less_imp_le not_less order_trans)
      ultimately show ?thesis
        using m p(1) unfolding next_page_def by (simp only: fst_conv snd_conv) (metis le_add1)
    next
      case False
      then have "iRet \<le> pg ! j" if "?z \<le> j" "j < length pg" "iMin < pg ! j" for j
        using s [of j] r [of j] that by (metis not_less order_trans)
      then show ?thesis using False assms(2) z(2) unfolding next_page_def by auto
    qed
  next
    case False
    have "iRet \<le> pg ! j" if "?z \<le> j" "j < length pg" "iMin < pg ! j" for j
      using seg_empty [OF assms(1) False] part [of j] r [of j] that by (metis not_less)
    then show ?thesis using False assms(2) z(2) unfolding next_page_def by auto
  qed
qed

lemma scan_segments_ok:
  "scan_segments iMin n segs r = (segs', r') \<Longrightarrow> n \<le> length segs \<Longrightarrow> prior \<le> iMin \<Longrightarrow> next_page pg iMin (wal_iZero n) r \<Longrightarrow>
    \<forall>b < n. seg_ok pg b prior (segs ! b) \<Longrightarrow>
    next_page pg iMin 0 r' \<and> length segs' = length segs \<and>
      (\<forall>b < length segs. if b < n then seg_ok pg b iMin (segs' ! b) else segs' ! b = segs ! b)"
proof (induction n arbitrary: segs r)
  case (Suc n)
  define s where "s = seg_skip iMin (segs ! n)"
  obtain iRet fr where r: "r = (iRet, fr)" by fastforce
  have k: "seg_ok pg n iMin s" "iNext s < length (aIndex s) \<longrightarrow> iMin < seg_aPgno s (aIndex s ! iNext s)"
    using seg_skip_ok [of pg n prior "segs ! n" iMin] Suc.prems(3,5) by (simp_all add: s_def)
  define r1 where "r1 = (if iNext s < length (aIndex s) \<and> seg_aPgno s (aIndex s ! iNext s) < iRet
    then (seg_aPgno s (aIndex s ! iNext s), seg_iZero s + aIndex s ! iNext s) else (iRet, fr))"
  have n: "next_page pg iMin (wal_iZero n) r1"
    using next_page_step [OF k(1) _ k(2)] Suc.prems(4) unfolding r r1_def by blast
  have e: "scan_segments iMin n (segs[n := s]) r1 = (segs', r')" using Suc.prems(1) unfolding r r1_def s_def by (simp add: Let_def)
  have ih: "next_page pg iMin 0 r' \<and> length segs' = length (segs[n := s]) \<and>
      (\<forall>b < length (segs[n := s]). if b < n then seg_ok pg b iMin (segs' ! b) else segs' ! b = segs[n := s] ! b)"
    by (rule Suc.IH [OF e _ Suc.prems(3) n]) (use Suc.prems(2,5) in auto)
  have "if b < Suc n then seg_ok pg b iMin (segs' ! b) else segs' ! b = segs ! b" if "b < length segs" for b
    using ih k(1) that Suc.prems(2) by (cases "b = n") (auto simp: less_Suc_eq)
  then show ?case using ih by simp
qed simp

lemma walIteratorNext_ok:
  assumes "iter_ok pg it" "walIteratorNext it fr = (done, p, f, it')" "0xFFFFFFFF \<notin> set pg"
  shows "iter_ok pg it' \<and> iPrior it' = p \<and>
    (if done then \<forall>k \<in> set pg. k \<le> iPrior it
     else p \<in> set pg \<and> iPrior it < p \<and> (\<forall>k \<in> set pg. iPrior it < k \<longrightarrow> p \<le> k) \<and> f = last_frame pg p 1 (length pg))"
proof -
  obtain segs iRet f1 where s: "scan_segments (iPrior it) (length (aSegment it)) (aSegment it) (0xFFFFFFFF, fr) = (segs, iRet, f1)"
    by (metis prod_cases3)
  have "(0xFFFFFFFF :: u32) = - 1" by simp
  then have max: "k \<le> 0xFFFFFFFF" for k :: u32 using word_n1_ge [of k] by metis
  have "next_page pg (iPrior it) (wal_iZero (length (aSegment it))) (0xFFFFFFFF, fr)"
    using assms(1) by (auto simp: next_page_def iter_ok_def)
  from scan_segments_ok [OF s le_refl order_refl this, unfolded fst_conv snd_conv]
  have n: "next_page pg (iPrior it) 0 (iRet, f1)" "length segs = length (aSegment it)" "\<forall>b < length segs. seg_ok pg b (iPrior it) (segs ! b)"
    using assms(1) by (simp_all add: iter_ok_def)
  have e: "done = (iRet = 0xFFFFFFFF)" "p = iRet" "f = f1" "it' = \<lparr>iPrior = iRet, aSegment = segs\<rparr>"
    using assms(2) unfolding walIteratorNext_def s by auto
  have lo: "iPrior it \<le> iRet"
    using n(1) max by (auto simp: next_page_def)
  have "iter_ok pg it'" using n(2,3) assms(1) lo unfolding e(4) iter_ok_def seg_ok_def by (auto intro: order_trans)
  moreover have "\<forall>k \<in> set pg. k \<le> iPrior it" if "iRet = 0xFFFFFFFF"
  proof
    fix k
    assume k: "k \<in> set pg"
    then obtain j where j: "j < length pg" "pg ! j = k" by (auto simp: in_set_conv_nth)
    have "k \<noteq> 0xFFFFFFFF" using k assms(3) by blast
    then have "\<not> iRet \<le> k" using that max by (metis order_antisym)
    then show "k \<le> iPrior it" using n(1) j by (auto simp: next_page_def not_less [symmetric])
  qed
  moreover have "p \<in> set pg \<and> iPrior it < p \<and> (\<forall>k \<in> set pg. iPrior it < k \<longrightarrow> p \<le> k) \<and> f = last_frame pg p 1 (length pg)"
    if ne: "iRet \<noteq> 0xFFFFFFFF"
  proof -
    obtain j where j: "j < length pg" "pg ! j = iRet" "iPrior it < iRet" "f1 = Suc j" "\<forall>i. j < i \<and> i < length pg \<longrightarrow> pg ! i \<noteq> iRet"
      using n(1) ne by (auto simp: next_page_def)
    have "last_frame pg iRet 1 (length pg) = Suc j"
    proof (rule last_frame_eq)
      show "pg ! (w - 1) \<noteq> iRet" if "Suc j < w" "w \<le> length pg" for w
      proof -
        have "j < w - 1" "w - 1 < length pg" using that by simp_all
        then show ?thesis using j(5) by blast
      qed
    qed (use j(1,2) in simp_all)
    moreover have "iRet \<le> k" if "k \<in> set pg" "iPrior it < k" for k
      using n(1) that by (auto simp: next_page_def in_set_conv_nth)
    moreover have "iRet \<in> set pg" using j(1,2) by (auto simp: in_set_conv_nth)
    ultimately show ?thesis using j(3,4) unfolding e(2,3) by simp
  qed
  ultimately show ?thesis using e by (simp split: if_splits)
qed

text \<open>The iterator at the start.\<close>

lemma init_segments_ok:
  assumes "os_ok os" "pg \<noteq> []"
  shows "init_segments os w (length pg) i n = (rc, w', segs) \<Longrightarrow> wi_inv w (pg @ rest) \<Longrightarrow> i + n = walFramePage (length pg) + 1 \<Longrightarrow>
    rc = WAL_OK \<and> same_wal w w' \<and> wi_inv w' (pg @ rest) \<and> length segs = n \<and> (\<forall>b < n. seg_ok pg (i + b) 0 (segs ! b))"
proof (induction n arbitrary: i w rc w' segs)
  case 0
  then show ?case by simp
next
  case (Suc n)
  let ?z = "wal_iZero i"
  obtain rc1 w1 where m: "walIndexPage os w i = (rc1, w1)" by fastforce
  have rc1: "rc1 = WAL_OK" using walIndexPage_ok [OF assms(1), of w i] m by simp
  have w1: "wi_inv w1 (pg @ rest)" "same_wal w w1" using wi_inv_mapped [OF Suc.prems(2) m] by simp_all
  have pos: "0 < length pg" using assms(2) by simp
  have lt: "?z < length pg" using page_below [OF pos] Suc.prems(3) by simp
  have le: "length pg \<le> wal_iZero (walFramePage (length pg)) + wal_size (walFramePage (length pg))" using walFramePage_bounds [OF pos] by simp
  define k where "k = (if n = 0 then length pg - ?z else if i = 0 then HASHTABLE_NPAGE_ONE else HASHTABLE_NPAGE)"
  have k: "k = seg_count pg i"
  proof (cases "n = 0")
    case True
    then have "walFramePage (length pg) = i" using Suc.prems(3) by simp
    then show ?thesis using le True by (simp add: k_def seg_count_def)
  next
    case False
    then have "wal_iZero (Suc i) < length pg" using page_below [OF pos] Suc.prems(3) by simp
    then show ?thesis using False by (simp add: k_def seg_count_def wal_iZero_Suc) (simp add: wal_size_def)
  qed
  define content where "content = (\<lambda>j. aPgno w1 i (j + 1))"
  have c: "content j = pg ! (?z + j)" if "j < seg_count pg i" for j
  proof -
    have p: "page_ok i (wi w1 i) (frames_in i (pg @ rest))" using w1(1) lt unfolding wi_inv_def by simp
    have j: "j < length (frames_in i (pg @ rest))" "j < wal_size i" "?z + j < length pg"
      using that lt by (simp_all add: frames_in_def seg_count_def) linarith+
    have "content j = frames_in i (pg @ rest) ! j" using p j(1,2) by (simp add: page_ok_def content_def aPgno_def)
    also have "\<dots> = (pg @ rest) ! (?z + j)" using j(2,3) lt by (simp add: frames_in_def del: drop_append)
    finally show ?thesis using j(3) by (simp add: nth_append)
  qed
  define s where "s = \<lparr>iNext = 0, aIndex = walMergesort content [0..<k], seg_aPgno = content, seg_iZero = ?z + 1\<rparr>"
  have kk: "0 < k" "k \<le> 4096" using lt wal_size_pos(1,2) [of i] unfolding k by (simp_all add: seg_count_def wal_consts min_le_iff_disj)
  have "last_of content (walMergesort content [0..<k]) {0..<k}"
    using walMergesort_last [of "[0..<k]" content] kk by simp
  then have "last_of (\<lambda>j. pg ! (?z + j)) (walMergesort content [0..<k]) {0..<k}"
    by (rule last_of_cong) (simp add: c k)
  then have s: "seg_ok pg i 0 s" using c unfolding seg_ok_def s_def k by simp
  obtain rc2 w2 ss where r: "init_segments os w1 (length pg) (i + 1) n = (rc2, w2, ss)" by (metis prod_cases3)
  have "(rc, w', segs) = (rc2, w2, s # ss)"
    using Suc.prems(1) rc1 m r unfolding init_segments.simps walHashGet_eq by (simp add: s_def content_def k_def Let_def)
  moreover have "rc2 = WAL_OK \<and> same_wal w1 w2 \<and> wi_inv w2 (pg @ rest) \<and> length ss = n \<and> (\<forall>b < n. seg_ok pg (i + 1 + b) 0 (ss ! b))"
    by (rule Suc.IH [OF r w1(1)]) (use Suc.prems(3) in simp)
  ultimately show ?case using s w1(2) same_wal_trans [of w w1 w2] by (auto simp: nth_Cons split: nat.splits)
qed

lemma walIteratorInit_ok:
  assumes "os_ok (env_os env)" "env_malloc env" "wi_inv w (pg @ rest)" "mxFrame (hdr w) = length pg" "pg \<noteq> []"
    "walIteratorInit env w = (rc, w', it)"
  shows "rc = WAL_OK \<and> same_wal w w' \<and> wi_inv w' (pg @ rest) \<and> iter_ok pg it \<and> iPrior it = 0"
proof -
  obtain rc1 w1 segs where i: "init_segments (env_os env) w (length pg) 0 (walFramePage (length pg) + 1) = (rc1, w1, segs)" by (metis prod_cases3)
  note k = init_segments_ok [OF assms(1,5) i assms(3)]
  have e: "(rc, w', it) = (rc1, w1, \<lparr>iPrior = 0, aSegment = segs\<rparr>)"
    using assms(2,4,6) i by (simp add: walIteratorInit_def)
  have "length pg \<le> wal_iZero (Suc (walFramePage (length pg)))"
    using walFramePage_bounds [of "length pg"] assms(5) by (simp add: wal_iZero_Suc)
  then show ?thesis using k e by (simp add: iter_ok_def)
qed

end
