(* ===== verification/WalCheckpoint.thy ===== *)
theory WalCheckpoint
  imports WalIterator
begin

text \<open>
  Checkpoints (wal.c): \<open>walCheckpoint\<close> copies pages from the log into the database file while other
  connections read. The database file is a file like the log, whose operations may fail too.
\<close>

section \<open>The checkpoint\<close>

datatype ckpt_mode = CHECKPOINT_PASSIVE | CHECKPOINT_FULL | CHECKPOINT_RESTART | CHECKPOINT_TRUNCATE

text \<open>
  Of the database handle: whether an interrupt has been asked for when the checkpoint comes to a page, and
  whether memory has run out. A busy handler is the number of times that it will still ask for another
  attempt, 0 without a handler; the attempts at a lock are numbered by it.
\<close>

record ckpt_db =
  isInterrupted :: "u32 \<Rightarrow> bool"
  mallocFailed :: bool

primrec walBusyLock :: "wal_env \<Rightarrow> Wal \<Rightarrow> nat \<Rightarrow> nat \<Rightarrow> nat \<Rightarrow> wal_rc \<times> nat" where
  "walBusyLock env pWal lockIdx n 0 = (walLockExclusive env pWal 0 lockIdx n, 0)"
| "walBusyLock env pWal lockIdx n (Suc xBusy) =
     (let rc = walLockExclusive env pWal (Suc xBusy) lockIdx n
      in if rc = WAL_BUSY then walBusyLock env pWal lockIdx n xBusy else (rc, Suc xBusy))"

definition walPagesize :: "Wal \<Rightarrow> nat" where
  "walPagesize pWal = nat ((uint (hdr_szPage (hdr pWal)) AND 0xfe00) + push_bit 16 (uint (hdr_szPage (hdr pWal)) AND 0x0001))"

text \<open>
  The last frame that may be copied, given the read marks; the first component tells whether the
  function is left at once.
\<close>

fun safe_frame :: "wal_env \<Rightarrow> nat list \<Rightarrow> wal_rc \<Rightarrow> Wal \<Rightarrow> nat \<Rightarrow> nat \<Rightarrow> bool \<times> wal_rc \<times> Wal \<times> nat \<times> nat" where
  "safe_frame env [] rc pWal xBusy mxSafeFrame = (False, rc, pWal, xBusy, mxSafeFrame)"
| "safe_frame env (i # is) rc pWal xBusy mxSafeFrame =
     (let y = aReadMark (ckpt pWal) ! i
      in if mxSafeFrame > y then
           (let (rc, xBusy) = walBusyLock env pWal (3 + i) 1 xBusy
            in if rc = WAL_OK then
                 safe_frame env is rc
                   (pWal\<lparr>ckpt := (ckpt pWal)\<lparr>aReadMark := (aReadMark (ckpt pWal))[i := if i = 1 then mxSafeFrame else READMARK_NOT_USED]\<rparr>\<rparr>)
                   xBusy mxSafeFrame
               else if rc = WAL_BUSY then safe_frame env is rc pWal 0 y
               else (True, rc, pWal, xBusy, mxSafeFrame))
         else safe_frame env is rc pWal xBusy mxSafeFrame)"

text \<open>The iterator moves on, whatever it holds.\<close>

lemma seg_skip_next:
  "iNext (seg_skip m s) < length (aIndex (seg_skip m s)) \<Longrightarrow> m < seg_aPgno (seg_skip m s) (aIndex (seg_skip m s) ! iNext (seg_skip m s))"
proof (induction m s rule: seg_skip.induct)
  case (1 m s)
  show ?case
  proof (cases "iNext s < length (aIndex s) \<and> \<not> seg_aPgno s (aIndex s ! iNext s) > m")
    case True
    then show ?thesis using 1 unfolding seg_skip.simps [of m s] if_P [OF True] by blast
  next
    case False
    then show ?thesis using 1 unfolding seg_skip.simps [of m s] if_not_P [OF False] by blast
  qed
qed

lemma scan_segments_next:
  "scan_segments m n segs r = (segs', r') \<Longrightarrow> fst r = 0xFFFFFFFF \<or> m < fst r \<Longrightarrow> fst r' = 0xFFFFFFFF \<or> m < fst r'"
proof (induction n arbitrary: segs r)
  case (Suc n)
  obtain iRet fr where r: "r = (iRet, fr)" by fastforce
  show ?case
    by (rule Suc.IH [OF Suc.prems(1) [unfolded r scan_segments.simps Let_def]]) (use Suc.prems(2) seg_skip_next [of m "segs ! n"] r in auto)
qed simp

lemma walIteratorNext_prior: "walIteratorNext it f = (False, p, f', it') \<Longrightarrow> iPrior it < iPrior it'"
  using scan_segments_next [of "iPrior it" "length (aSegment it)" "aSegment it" "(0xFFFFFFFF, f)"]
  by (auto simp: walIteratorNext_def split: prod.splits)

lemma walIteratorNext_less:
  "(False, p, f', it') = walIteratorNext it f \<Longrightarrow> 4294967296 - unat (iPrior it') < 4294967296 - unat (iPrior it)"
  using walIteratorNext_prior [of it f p f' it'] unsigned_less [of "iPrior it'", where ?'a = nat] by (simp add: word_less_nat_alt)

function copy_pages :: "ckpt_db \<Rightarrow> nat \<Rightarrow> nat \<Rightarrow> nat \<Rightarrow> u32 \<Rightarrow> wal_iterator \<Rightarrow> nat \<Rightarrow> wal_log \<Rightarrow> wal_log \<Rightarrow> wal_rc \<times> wal_log \<times> wal_log" where
  "copy_pages db sz backfilled mxSafeFrame mxPage pIter iFrame log dbf =
     (let (done, iDbpage, iFrame, pIter) = walIteratorNext pIter iFrame
      in if done then (WAL_OK, log, dbf)
         else if isInterrupted db iDbpage then (if mallocFailed db then WAL_NOMEM else WAL_INTERRUPT, log, dbf)
         else if iFrame \<le> backfilled \<or> iFrame > mxSafeFrame \<or> iDbpage > mxPage then
           copy_pages db sz backfilled mxSafeFrame mxPage pIter iFrame log dbf
         else
           (let (rc, zBuf, log) = log_read sz (walFrameOffset iFrame sz + WAL_FRAME_HDRSIZE) log
            in if rc \<noteq> WAL_OK then (rc, log, dbf)
               else
                 (let (rc, dbf) = log_write zBuf ((unat iDbpage - 1) * sz) dbf
                  in if rc \<noteq> WAL_OK then (rc, log, dbf)
                     else copy_pages db sz backfilled mxSafeFrame mxPage pIter iFrame log dbf)))"
  by pat_completeness auto
termination
  by (relation "measure (\<lambda>(db, sz, b, s, m, it, f, l, d). 2 ^ 32 - unat (iPrior it))") (simp, (auto dest: walIteratorNext_less)+)

declare copy_pages.simps [simp del]

text \<open>The part under the lock of read slot 0.\<close>

definition backfill_pages :: "ckpt_db \<Rightarrow> Wal \<Rightarrow> wal_iterator \<Rightarrow> u32 \<Rightarrow> nat \<Rightarrow> nat \<Rightarrow> u32 \<Rightarrow> wal_log \<Rightarrow> wal_log \<Rightarrow>
    wal_rc \<times> Wal \<times> wal_log \<times> wal_log" where
  "backfill_pages db pWal pIter sync_flags sz mxSafeFrame mxPage log dbf =
     (let pWal = pWal\<lparr>ckpt := (ckpt pWal)\<lparr>nBackfillAttempted := mxSafeFrame\<rparr>\<rparr>;
          (rc, log) = (if sync_flags \<noteq> 0 then log_sync log else (WAL_OK, log));
          (rc, dbf) = (if rc = WAL_OK then (let (rc, nSize, dbf) = log_size dbf in (rc, dbf)) else (rc, dbf));
          (rc, log, dbf) =
            (if rc = WAL_OK then copy_pages db sz (nBackfill (ckpt pWal)) mxSafeFrame mxPage pIter 0 log dbf else (rc, log, dbf))
      in if rc \<noteq> WAL_OK then (rc, pWal, log, dbf)
         else
           (let (rc, dbf) =
                  (if mxSafeFrame = mxFrame (live_hdr pWal) then
                     (let (rc, dbf) = log_truncate (unat (nPage (hdr pWal)) * sz) dbf
                      in if rc = WAL_OK \<and> sync_flags \<noteq> 0 then log_sync dbf else (rc, dbf))
                   else (rc, dbf))
            in (rc, if rc = WAL_OK then pWal\<lparr>ckpt := (ckpt pWal)\<lparr>nBackfill := mxSafeFrame\<rparr>\<rparr> else pWal, log, dbf)))"

text \<open>The end of a checkpoint that is not passive.\<close>

definition ckpt_restart :: "wal_env \<Rightarrow> ckpt_mode \<Rightarrow> nat \<Rightarrow> Wal \<Rightarrow> wal_log \<Rightarrow> wal_rc \<times> Wal \<times> wal_log" where
  "ckpt_restart env eMode xBusy pWal log =
     (if nBackfill (ckpt pWal) < mxFrame (hdr pWal) then (WAL_BUSY, pWal, log)
      else if eMode = CHECKPOINT_RESTART \<or> eMode = CHECKPOINT_TRUNCATE then
        (let (rc, xBusy) = walBusyLock env pWal 4 (WAL_NREADER - 1) xBusy
         in if rc = WAL_OK \<and> eMode = CHECKPOINT_TRUNCATE then
              (let pWal = walRestartHdr pWal (env_random env 4); (rc, log) = log_truncate 0 log in (rc, pWal, log))
            else (rc, pWal, log))
      else (WAL_OK, pWal, log))"

text \<open>What comes before: the iterator, the safe frames and the backfill. The first component: leave at once.\<close>

definition ckpt_backfill :: "wal_env \<Rightarrow> ckpt_db \<Rightarrow> nat \<Rightarrow> u32 \<Rightarrow> Wal \<Rightarrow> wal_log \<Rightarrow> wal_log \<Rightarrow>
    bool \<times> wal_rc \<times> nat \<times> Wal \<times> wal_log \<times> wal_log" where
  "ckpt_backfill env db xBusy sync_flags pWal log dbf =
     (let sz = walPagesize pWal
      in if nBackfill (ckpt pWal) < mxFrame (hdr pWal) then
           (let (rc, pWal, pIter) = walIteratorInit env pWal
            in if rc \<noteq> WAL_OK then (True, rc, xBusy, pWal, log, dbf)
               else
                 (let mxPage = nPage (hdr pWal);
                      (out, rc, pWal, xBusy, mxSafeFrame) =
                        safe_frame env [1..<WAL_NREADER] rc pWal xBusy (mxFrame (hdr pWal))
                  in if out then (True, rc, xBusy, pWal, log, dbf)
                     else
                       (let (rc, xBusy) =
                              (if nBackfill (ckpt pWal) < mxSafeFrame then walBusyLock env pWal 3 1 xBusy else (rc, xBusy));
                            (rc, pWal, log, dbf) =
                              (if nBackfill (ckpt pWal) < mxSafeFrame \<and> rc = WAL_OK
                               then backfill_pages db pWal pIter sync_flags sz mxSafeFrame mxPage log dbf
                               else (rc, pWal, log, dbf))
                        in (False, if rc = WAL_BUSY then WAL_OK else rc, xBusy, pWal, log, dbf))))
         else (False, WAL_OK, xBusy, pWal, log, dbf))"

definition walCheckpoint :: "wal_env \<Rightarrow> ckpt_db \<Rightarrow> ckpt_mode \<Rightarrow> nat \<Rightarrow> u32 \<Rightarrow> Wal \<Rightarrow> wal_log \<Rightarrow> wal_log \<Rightarrow>
    wal_rc \<times> Wal \<times> wal_log \<times> wal_log" where
  "walCheckpoint env db eMode xBusy sync_flags pWal log dbf =
     (let (out, rc, xBusy, pWal, log, dbf) = ckpt_backfill env db xBusy sync_flags pWal log dbf
      in if \<not> out \<and> rc = WAL_OK \<and> eMode \<noteq> CHECKPOINT_PASSIVE then
           (let (rc, pWal, log) = ckpt_restart env eMode xBusy pWal log in (rc, pWal, log, dbf))
         else (rc, pWal, log, dbf))"

text \<open>
  The part under the locks: the header of the index, the checkpoint, and the results \<open>pnLog\<close> and \<open>pnCkpt\<close>,
  \<open>None\<close> if they are not set.
\<close>

definition ckpt_locked :: "wal_env \<Rightarrow> ckpt_db \<Rightarrow> ckpt_mode \<Rightarrow> nat \<Rightarrow> u32 \<Rightarrow> nat \<Rightarrow> wal_rc \<Rightarrow> Wal \<Rightarrow> wal_log \<Rightarrow> wal_log \<Rightarrow>
    wal_rc \<times> Wal \<times> wal_log \<times> wal_log \<times> (nat \<times> nat) option" where
  "ckpt_locked env db eMode xBusy sync_flags nBuf rc pWal log dbf =
     (let (rc, isChanged, pWal, log) = (if rc = WAL_OK then walIndexReadHdr env 0 False pWal log else (rc, False, pWal, log));
          (rc, pWal, log, dbf, out) =
            (if rc \<noteq> WAL_OK then (rc, pWal, log, dbf, None)
             else
               (let (rc, pWal, log, dbf) =
                      (if mxFrame (hdr pWal) \<noteq> 0 \<and> walPagesize pWal \<noteq> nBuf then (WAL_CORRUPT, pWal, log, dbf)
                       else walCheckpoint env db eMode xBusy sync_flags pWal log dbf)
                in (rc, pWal, log, dbf, if rc = WAL_OK \<or> rc = WAL_BUSY then Some (mxFrame (hdr pWal), nBackfill (ckpt pWal)) else None)))
      in (rc, if isChanged then pWal\<lparr>hdr := no_hdr\<rparr> else pWal, log, dbf, out))"

text \<open>The call: the checkpoint lock, and the writer lock unless the checkpoint is passive.\<close>

definition sqlite3WalCheckpoint :: "wal_env \<Rightarrow> ckpt_db \<Rightarrow> ckpt_mode \<Rightarrow> nat \<Rightarrow> u32 \<Rightarrow> nat \<Rightarrow> Wal \<Rightarrow> wal_log \<Rightarrow> wal_log \<Rightarrow>
    wal_rc \<times> Wal \<times> wal_log \<times> wal_log \<times> (nat \<times> nat) option" where
  "sqlite3WalCheckpoint env db eMode xBusy sync_flags nBuf pWal log dbf =
     (if shm_rdonly pWal \<or> file_rdonly pWal then (WAL_READONLY, pWal, log, dbf, None)
      else
        (let rc = walLockExclusive env pWal 0 1 1
         in if rc \<noteq> WAL_OK then (rc, pWal, log, dbf, None)
            else
              (let pWal = pWal\<lparr>ckptLock := True\<rparr>;
                   (rc, xBusy) = (if eMode \<noteq> CHECKPOINT_PASSIVE then walBusyLock env pWal 0 1 xBusy else (WAL_OK, xBusy));
                   pWal = (if eMode \<noteq> CHECKPOINT_PASSIVE \<and> rc = WAL_OK then pWal\<lparr>writeLock := True\<rparr> else pWal);
                   (rc, eMode2, xBusy2) =
                     (if eMode \<noteq> CHECKPOINT_PASSIVE \<and> rc = WAL_BUSY then (WAL_OK, CHECKPOINT_PASSIVE, 0) else (rc, eMode, xBusy));
                   (rc, pWal, log, dbf, out) = ckpt_locked env db eMode2 xBusy2 sync_flags nBuf rc pWal log dbf;
                   pWal = (snd (sqlite3WalEndWriteTransaction pWal))\<lparr>ckptLock := False\<rparr>
               in (if rc = WAL_OK \<and> eMode \<noteq> eMode2 then WAL_BUSY else rc, pWal, log, dbf, out))))"

section \<open>Pages of the database file\<close>

text \<open>A read beyond the end of the file gives zeros.\<close>

definition file_byte :: "u8 list \<Rightarrow> nat \<Rightarrow> u8" where
  "file_byte data i = (if i < length data then data ! i else 0)"

definition db_page :: "nat \<Rightarrow> u8 list \<Rightarrow> u32 \<Rightarrow> u8 list" where
  "db_page sz data p = map (\<lambda>i. file_byte data ((unat p - 1) * sz + i)) [0..<sz]"

text \<open>
  What a connection reads as page \<open>p\<close> whose snapshot ends with frame \<open>y\<close> and that looks for frames after
  \<open>b\<close>: the last such frame of the page, else the database file.
\<close>

definition snapshot_page :: "frame list \<Rightarrow> nat \<Rightarrow> u8 list \<Rightarrow> nat \<Rightarrow> nat \<Rightarrow> u32 \<Rightarrow> u8 list" where
  "snapshot_page gs sz data b y p =
     (let i = last_frame (map fst gs) p (Suc b) y in if i = 0 then db_page sz data p else snd (snd (gs ! (i - 1))))"

lemma file_byte_write: "file_byte (write_at off b f) i = (if off \<le> i \<and> i < off + length b then b ! (i - off) else file_byte f i)"
  by (auto simp: file_byte_def write_at_def nth_append min_def)

lemma page_index:
  assumes "a * sz + i = c * sz + (j :: nat)" "i < sz" "j < sz"
  shows "a = c"
proof -
  have "(a * sz + i) div sz = a" "(c * sz + j) div sz = c" using assms(2,3) by simp_all
  then show ?thesis using assms(1) by simp
qed

lemma unat_pred_inject: "p \<noteq> 0 \<Longrightarrow> q \<noteq> 0 \<Longrightarrow> unat p - 1 = unat q - 1 \<Longrightarrow> p = (q :: u32)"
  by (metis Suc_pred' bot_nat_0.not_eq_extremum unat_eq_zero word_unat_eq_iff One_nat_def)

lemma db_page_other:
  assumes "p \<noteq> q" "p \<noteq> 0" "q \<noteq> 0" "length b \<le> sz"
  shows "db_page sz (write_at ((unat q - 1) * sz) b f) p = db_page sz f p"
proof -
  have "\<not> ((unat q - 1) * sz \<le> (unat p - 1) * sz + i \<and> (unat p - 1) * sz + i < (unat q - 1) * sz + length b)" if "i < sz" for i
  proof
    assume r: "(unat q - 1) * sz \<le> (unat p - 1) * sz + i \<and> (unat p - 1) * sz + i < (unat q - 1) * sz + length b"
    then obtain j where "(unat p - 1) * sz + i = (unat q - 1) * sz + j" "j < sz"
      using assms(4) by (metis add_less_cancel_left le_add_diff_inverse less_le_trans)
    then have "unat p - 1 = unat q - 1" using page_index that by blast
    then show False using unat_pred_inject assms(1-3) by blast
  qed
  then show ?thesis by (auto simp: db_page_def file_byte_write)
qed

lemma db_page_same: "length b = sz \<Longrightarrow> db_page sz (write_at ((unat q - 1) * sz) b f) q = b"
  by (auto simp: db_page_def file_byte_write intro: nth_equalityI)

lemma db_page_take: "p \<noteq> 0 \<Longrightarrow> p \<le> np \<Longrightarrow> db_page sz (take (unat np * sz) f) p = db_page sz f p"
proof -
  assume p: "p \<noteq> 0" "p \<le> np"
  have "(unat p - 1) * sz + i < unat np * sz" if "i < sz" for i
  proof -
    have "0 < unat p" "unat p \<le> unat np" using p by (simp_all add: word_le_nat_alt unat_gt_0)
    then have "(unat p - 1 + 1) * sz \<le> unat np * sz" by (intro mult_le_mono1) simp
    then show ?thesis using that by (simp add: add_mult_distrib)
  qed
  then show ?thesis by (auto simp: db_page_def file_byte_def)
qed

section \<open>Copying\<close>

text \<open>The page is copied: its last frame among the pages \<open>pg\<close> lies between the bounds.\<close>

definition copied :: "u32 list \<Rightarrow> nat \<Rightarrow> nat \<Rightarrow> u32 \<Rightarrow> bool" where
  "copied pg nb mx p \<longleftrightarrow> nb < last_frame pg p 1 (length pg) \<and> last_frame pg p 1 (length pg) \<le> mx"

definition log_frames :: "u8 list \<Rightarrow> nat \<Rightarrow> frame list \<Rightarrow> bool" where
  "log_frames z sz gs \<longleftrightarrow> (\<forall>f. 0 < f \<and> f \<le> length gs \<longrightarrow>
     take sz (drop (walFrameOffset f sz + WAL_FRAME_HDRSIZE) z) = snd (snd (gs ! (f - 1))) \<and> length (snd (snd (gs ! (f - 1)))) = sz)"

lemma log_file_frames:
  assumes "length salt = 8" "list_all (frame_ok sz) gs" "sz \<in> set page_sizes"
  shows "log_frames (log_file be salt sz nc gs @ tail) sz gs"
  unfolding log_frames_def
proof (intro allI impI)
  fix f
  assume f: "0 < f \<and> f \<le> length gs"
  let ?log = "\<lparr>lf_data = log_file be salt sz nc gs @ tail, lf_faults = None, lf_partial = 0\<rparr>"
  let ?w = "new_wal\<lparr>hdr := no_hdr\<lparr>hdr_szPage := hdr_page_size (int sz)\<rparr>\<rparr>"
  have l: "length (snd (snd (gs ! (f - 1)))) = sz" using assms(2) f by (auto simp: list_all_length frame_ok_def)
  have "sqlite3WalReadFrame ?w ?log f sz = (WAL_OK, snd (snd (gs ! (f - 1))), ?log)"
    by (rule read_frame [where h = "wal_header be salt sz nc"]) (use assms f length_wal_header in \<open>simp_all add: log_file_def\<close>)
  then have "log_read sz (walFrameOffset f sz + WAL_FRAME_HDRSIZE) ?log = (WAL_OK, snd (snd (gs ! (f - 1))), ?log)"
    unfolding sqlite3WalReadFrame_def Let_def using page_size_ok(5) [OF assms(3)] by simp
  then show "take sz (drop (walFrameOffset f sz + WAL_FRAME_HDRSIZE) (log_file be salt sz nc gs @ tail)) = snd (snd (gs ! (f - 1))) \<and>
      length (snd (snd (gs ! (f - 1)))) = sz"
    using log_read_data l by fastforce
qed

lemma copy_pages_ok:
  assumes "0xFFFFFFFF \<notin> set pg" "0 \<notin> set pg" "length pg \<le> length gs"
  shows "copy_pages db sz nb mx mxp it fr log dbf = (rc, log', dbf') \<Longrightarrow> iter_ok pg it \<Longrightarrow> log_frames (lf_data log) sz gs \<Longrightarrow>
    lf_data log' = lf_data log \<and>
    (\<forall>p. p \<noteq> 0 \<and> (\<not> copied pg nb mx p \<or> p \<le> iPrior it) \<longrightarrow> db_page sz (lf_data dbf') p = db_page sz (lf_data dbf) p) \<and>
    (rc = WAL_OK \<longrightarrow> (\<forall>p \<in> set pg. iPrior it < p \<and> copied pg nb mx p \<and> p \<le> mxp \<longrightarrow>
       db_page sz (lf_data dbf') p = snd (snd (gs ! (last_frame pg p 1 (length pg) - 1)))))"
proof (induction "4294967296 - unat (iPrior it)" arbitrary: it fr log dbf rule: less_induct)
  case less
  obtain fin q f it' where nx: "walIteratorNext it fr = (fin, q, f, it')" by (metis prod_cases4)
  note n = walIteratorNext_ok [OF less.prems(2) nx assms(1)]
  note e = less.prems(1) [symmetric, unfolded copy_pages.simps [of db sz nb mx mxp it], unfolded nx Let_def split_conv]
  show ?case
  proof (cases fin)
    case True
    then have "(rc, log', dbf') = (WAL_OK, log, dbf)" using e by simp
    then show ?thesis using n True by (auto simp: not_less [symmetric])
  next
    case fin: False
    have q: "q \<in> set pg" "iPrior it < q" "\<forall>k \<in> set pg. iPrior it < k \<longrightarrow> q \<le> k" "f = last_frame pg q 1 (length pg)" "iter_ok pg it'" "iPrior it' = q"
      using n fin by simp_all
    have q0: "q \<noteq> 0" using q(1) assms(2) by blast
    have dec: "4294967296 - unat (iPrior it') < 4294967296 - unat (iPrior it)"
      using walIteratorNext_less [of q f it' it fr] nx fin by simp
    have new: "p = q \<or> q < p" if "p \<in> set pg" "iPrior it < p" for p using q(3) that by (metis order_le_less)
    show ?thesis
    proof (cases "isInterrupted db q")
      case True
      then have "rc \<noteq> WAL_OK" "log' = log" "dbf' = dbf" using e fin by (auto split: if_splits)
      then show ?thesis by simp
    next
      case noint: False
      show ?thesis
      proof (cases "f \<le> nb \<or> mx < f \<or> mxp < q")
        case True
        have skip: "copied pg nb mx q \<Longrightarrow> \<not> q \<le> mxp" using True q(4) by (auto simp: copied_def not_le)
        have "copy_pages db sz nb mx mxp it' f log dbf = (rc, log', dbf')" using e fin noint True by simp
        note ih = less.hyps [OF dec this q(5) less.prems(3), unfolded q(6)]
        have "p \<le> q" if "p \<le> iPrior it" for p using that q(2) by (metis order_le_less_trans order_less_imp_le)
        then show ?thesis using ih new skip by blast
      next
        case copy: False
        let ?off = "walFrameOffset f sz + WAL_FRAME_HDRSIZE"
        have f: "0 < f" "f \<le> length gs" "copied pg nb mx q" using copy q(4) last_frame_cases [of pg q 1 "length pg"] assms(3) by (auto simp: copied_def)
        obtain rc1 b log1 where rd: "log_read sz ?off log = (rc1, b, log1)" by (metis prod_cases3)
        obtain rc2 dbf1 where wr: "log_write b ((unat q - 1) * sz) dbf = (rc2, dbf1)" by fastforce
        have e2: "(rc, log', dbf') = (if rc1 \<noteq> WAL_OK then (rc1, log1, dbf) else if rc2 \<noteq> WAL_OK then (rc2, log1, dbf1)
            else copy_pages db sz nb mx mxp it' f log1 dbf1)"
          using e fin noint copy rd wr by simp
        note lr = log_read_data [OF rd]
        show ?thesis
        proof (cases "rc1 = WAL_OK")
          case False
          then show ?thesis using e2 lr by simp
        next
          case rc1: True
          then have b: "b = snd (snd (gs ! (f - 1)))" "length b = sz" using lr less.prems(3) f(1,2) by (auto simp: log_frames_def)
          have le: "p \<le> q \<and> p \<noteq> q" if "p \<le> iPrior it" for p using that q(2) by (metis order_le_less_trans order_less_imp_le order_less_irrefl)
          have other: "db_page sz (lf_data dbf1) p = db_page sz (lf_data dbf) p" if "p \<noteq> q" "p \<noteq> 0" for p
            using log_write_cases [OF wr] db_page_other [OF that q0] b(2) by (metis length_take min.cobounded1 order_refl order_trans)
          show ?thesis
          proof (cases "rc2 = WAL_OK")
            case False
            have "db_page sz (lf_data dbf1) p = db_page sz (lf_data dbf) p" if "p \<noteq> 0" "\<not> copied pg nb mx p \<or> p \<le> iPrior it" for p
              using other [OF _ that(1)] that(2) f(3) le by blast
            then show ?thesis using e2 rc1 lr False by simp
          next
            case rc2: True
            have same: "db_page sz (lf_data dbf1) q = b" using log_write_ok [OF wr [unfolded rc2]] db_page_same [OF b(2)] by simp
            have "copy_pages db sz nb mx mxp it' f log1 dbf1 = (rc, log', dbf')" using e2 rc1 rc2 by simp
            note ih = less.hyps [OF dec this q(5), unfolded q(6)]
            have ih: "lf_data log' = lf_data log1 \<and>
              (\<forall>p. p \<noteq> 0 \<and> (\<not> copied pg nb mx p \<or> p \<le> q) \<longrightarrow> db_page sz (lf_data dbf') p = db_page sz (lf_data dbf1) p) \<and>
              (rc = WAL_OK \<longrightarrow> (\<forall>p \<in> set pg. q < p \<and> copied pg nb mx p \<and> p \<le> mxp \<longrightarrow>
                db_page sz (lf_data dbf') p = snd (snd (gs ! (last_frame pg p 1 (length pg) - 1)))))"
              by (rule ih) (use lr less.prems(3) in simp)
            have "db_page sz (lf_data dbf') p = db_page sz (lf_data dbf) p" if "p \<noteq> 0" "\<not> copied pg nb mx p \<or> p \<le> iPrior it" for p
            proof -
              have "p \<noteq> q" using that(2) f(3) le by blast
              then show ?thesis using other that ih le by metis
            qed
            moreover have "db_page sz (lf_data dbf') q = snd (snd (gs ! (last_frame pg q 1 (length pg) - 1)))"
              using ih q0 same b(1) q(4) by simp
            ultimately show ?thesis using ih lr new by metis
          qed
        qed
      qed
    qed
  qed
qed

section \<open>The locks\<close>

lemma walBusyLock_held: "\<forall>cnt. walLockExclusive env w cnt idx n \<noteq> WAL_OK \<Longrightarrow> fst (walBusyLock env w idx n k) \<noteq> WAL_OK"
  by (induction k) (simp_all add: Let_def)

lemma safe_frame_ok:
  "safe_frame env js rc w xb mx = (out, rc', w', xb', mx') \<Longrightarrow> distinct js \<Longrightarrow>
    mx' \<le> mx \<and> (\<exists>marks. w' = w\<lparr>ckpt := (ckpt w)\<lparr>aReadMark := marks\<rparr>\<rparr>) \<and> (out \<longrightarrow> rc' \<noteq> WAL_OK) \<and>
    (\<not> out \<longrightarrow> (\<forall>i \<in> set js. (\<forall>cnt. walLockExclusive env w cnt (3 + i) 1 \<noteq> WAL_OK) \<longrightarrow> mx' \<le> aReadMark (ckpt w) ! i))"
proof (induction js arbitrary: rc w xb mx)
  case Nil
  then show ?case by (auto intro: exI [of _ "aReadMark (ckpt w)"])
next
  case (Cons j js)
  let ?y = "aReadMark (ckpt w) ! j"
  have d: "distinct js" "j \<notin> set js" using Cons.prems(2) by simp_all
  show ?case
  proof (cases "mx > ?y")
    case False
    then have "safe_frame env js rc w xb mx = (out, rc', w', xb', mx')" using Cons.prems(1) by simp
    from Cons.IH [OF this d(1)] show ?thesis using False by auto
  next
    case True
    obtain rc1 xb1 where l: "walBusyLock env w (3 + j) 1 xb = (rc1, xb1)" by fastforce
    have held: "rc1 \<noteq> WAL_OK" if "\<forall>cnt. walLockExclusive env w cnt (3 + j) 1 \<noteq> WAL_OK" using walBusyLock_held [OF that, of xb] l by simp
    consider "rc1 = WAL_OK" | "rc1 = WAL_BUSY" | "rc1 \<noteq> WAL_OK" "rc1 \<noteq> WAL_BUSY" by blast
    then show ?thesis
    proof cases
      case 1
      define w1 where "w1 = w\<lparr>ckpt := (ckpt w)\<lparr>aReadMark := (aReadMark (ckpt w))[j := if j = 1 then mx else READMARK_NOT_USED]\<rparr>\<rparr>"
      have "safe_frame env js rc1 w1 xb1 mx = (out, rc', w', xb', mx')" using Cons.prems(1) True l 1 by (simp add: w1_def Let_def)
      note ih = Cons.IH [OF this d(1)]
      have lk: "walLockExclusive env w1 = walLockExclusive env w" by (simp add: fun_eq_iff walLockExclusive_def w1_def)
      have "aReadMark (ckpt w1) ! i = aReadMark (ckpt w) ! i" if "i \<in> set js" for i
        using d(2) that by (cases "i = j") (auto simp: w1_def)
      then show ?thesis using ih 1 held unfolding lk by (auto simp: w1_def)
    next
      case 2
      have "safe_frame env js rc1 w 0 ?y = (out, rc', w', xb', mx')" using Cons.prems(1) True l 2 by (simp add: Let_def)
      from Cons.IH [OF this d(1)] show ?thesis using True by auto
    next
      case 3
      then have "(True, rc1, w, xb1, mx) = (out, rc', w', xb', mx')" using Cons.prems(1) True l by (simp add: Let_def)
      then show ?thesis using 3 by (auto intro: exI [of _ "aReadMark (ckpt w)"])
    qed
  qed
qed

section \<open>The backfill\<close>

lemma log_truncate_cases:
  "log_truncate n l = (rc, l') \<Longrightarrow> lf_data l' = lf_data l \<or> lf_data l' = take n (lf_data l)"
  using log_op_data [of l] by (auto simp: log_truncate_def split: prod.splits if_splits)

lemma log_size_data: "log_size l = (rc, n, l') \<Longrightarrow> lf_data l' = lf_data l"
  using log_op_data [of l] by (auto simp: log_size_def split: prod.splits)

lemma backfill_pages_ok:
  assumes "0xFFFFFFFF \<notin> set pg" "0 \<notin> set pg" "length pg \<le> length gs" "iter_ok pg it" "iPrior it = 0" "log_frames (lf_data log) sz gs"
    "backfill_pages db w it sync sz mx mxp log dbf = (rc, w', log', dbf')"
  shows "lf_data log' = lf_data log \<and>
    (\<exists>a. w' = w\<lparr>ckpt := (ckpt w)\<lparr>nBackfillAttempted := a, nBackfill := if rc = WAL_OK then mx else nBackfill (ckpt w)\<rparr>\<rparr>) \<and>
    (\<forall>p. p \<noteq> 0 \<and> \<not> copied pg (nBackfill (ckpt w)) mx p \<and> (mx = mxFrame (live_hdr w) \<longrightarrow> p \<le> nPage (hdr w)) \<longrightarrow>
       db_page sz (lf_data dbf') p = db_page sz (lf_data dbf) p) \<and>
    (rc = WAL_OK \<longrightarrow> (\<forall>p \<in> set pg. copied pg (nBackfill (ckpt w)) mx p \<and> p \<le> mxp \<and> (mx = mxFrame (live_hdr w) \<longrightarrow> p \<le> nPage (hdr w)) \<longrightarrow>
       db_page sz (lf_data dbf') p = snd (snd (gs ! (last_frame pg p 1 (length pg) - 1)))))"
proof -
  let ?nb = "nBackfill (ckpt w)"
  define w1 where "w1 = w\<lparr>ckpt := (ckpt w)\<lparr>nBackfillAttempted := mx\<rparr>\<rparr>"
  obtain rc1 log1 where s1: "(if sync \<noteq> 0 then log_sync log else (WAL_OK, log)) = (rc1, log1)" by fastforce
  obtain rc2 dbf1 where s2: "(if rc1 = WAL_OK then (let (rc, nSize, dbf) = log_size dbf in (rc, dbf)) else (rc1, dbf)) = (rc2, dbf1)" by fastforce
  obtain rc3 log2 dbf2 where s3: "(if rc2 = WAL_OK then copy_pages db sz ?nb mx mxp it 0 log1 dbf1 else (rc2, log1, dbf1)) = (rc3, log2, dbf2)"
    by (metis prod_cases3)
  obtain rc4 dbf3 where s4: "(if mx = mxFrame (live_hdr w) then
      (let (rc, dbf) = log_truncate (unat (nPage (hdr w)) * sz) dbf2 in if rc = WAL_OK \<and> sync \<noteq> 0 then log_sync dbf else (rc, dbf))
      else (rc3, dbf2)) = (rc4, dbf3)" by fastforce
  have e: "(rc, w', log', dbf') = (if rc3 \<noteq> WAL_OK then (rc3, w1, log2, dbf2)
      else (rc4, if rc4 = WAL_OK then w1\<lparr>ckpt := (ckpt w1)\<lparr>nBackfill := mx\<rparr>\<rparr> else w1, log2, dbf3))"
  proof -
    have h: "hdr w1 = hdr w" "live_hdr w1 = live_hdr w" "nBackfill (ckpt w1) = ?nb" by (simp_all add: w1_def)
    show ?thesis
      using assms(7) [symmetric] unfolding backfill_pages_def Let_def w1_def [symmetric] h s1 split_conv
      unfolding s2 [unfolded Let_def] split_conv s3 s4 [unfolded Let_def] .
  qed
  have d1: "lf_data log1 = lf_data log" using s1 log_sync_data by (cases "sync = 0") auto
  have d2: "lf_data dbf1 = lf_data dbf" using s2 log_size_data by (cases "rc1 = WAL_OK") (auto split: prod.splits)
  have c: "lf_data log2 = lf_data log \<and> (\<forall>p. p \<noteq> 0 \<and> \<not> copied pg ?nb mx p \<longrightarrow> db_page sz (lf_data dbf2) p = db_page sz (lf_data dbf) p) \<and>
    (rc3 = WAL_OK \<longrightarrow> (\<forall>p \<in> set pg. copied pg ?nb mx p \<and> p \<le> mxp \<longrightarrow>
       db_page sz (lf_data dbf2) p = snd (snd (gs ! (last_frame pg p 1 (length pg) - 1)))))"
  proof (cases "rc2 = WAL_OK")
    case True
    then have "copy_pages db sz ?nb mx mxp it 0 log1 dbf1 = (rc3, log2, dbf2)" using s3 by simp
    note k = copy_pages_ok [OF assms(1-3) this assms(4)]
    have "0 < p" if "p \<in> set pg" for p using that assms(2) by (metis word_neq_0_conv)
    then show ?thesis using k assms(5,6) unfolding d1 d2 by auto
  next
    case False
    then show ?thesis using s3 d1 d2 by auto
  qed
  have t: "db_page sz (lf_data dbf3) p = db_page sz (lf_data dbf2) p" if "p \<noteq> 0" "mx = mxFrame (live_hdr w) \<longrightarrow> p \<le> nPage (hdr w)" for p
  proof (cases "mx = mxFrame (live_hdr w)")
    case False
    then show ?thesis using s4 by simp
  next
    case True
    obtain rc5 dbf4 where tr: "log_truncate (unat (nPage (hdr w)) * sz) dbf2 = (rc5, dbf4)" by fastforce
    have "lf_data dbf3 = lf_data dbf4" using s4 True tr log_sync_data [of dbf4] by (auto split: if_splits)
    then show ?thesis using log_truncate_cases [OF tr] db_page_take [OF that(1)] that(2) True by auto
  qed
  have w: "\<exists>a. w' = w\<lparr>ckpt := (ckpt w)\<lparr>nBackfillAttempted := a, nBackfill := if rc = WAL_OK then mx else ?nb\<rparr>\<rparr>"
    using e by (intro exI [of _ mx]) (auto simp: w1_def split: if_splits)
  have nz: "p \<noteq> 0" if "p \<in> set pg" for p using that assms(2) by blast
  show ?thesis
  proof (cases "rc3 = WAL_OK")
    case False
    then show ?thesis using e c w by simp
  next
    case True
    have "log' = log2" "dbf' = dbf3" using e True by simp_all
    then show ?thesis using c w t True nz by auto
  qed
qed

section \<open>What the readers see\<close>

lemma last_frame_exists: "last_frame ks p lo n = 0 \<Longrightarrow> 0 < v \<Longrightarrow> v \<le> n \<Longrightarrow> lo \<le> v \<Longrightarrow> ks ! (v - 1) \<noteq> p"
  using last_frame_cases [of ks p lo n] by auto

lemma last_frame_found:
  assumes "last_frame ks p lo n \<noteq> 0"
  shows "0 < last_frame ks p lo n" "last_frame ks p lo n \<le> n" "lo \<le> last_frame ks p lo n" "ks ! (last_frame ks p lo n - 1) = p"
    "last_frame ks p lo n < v \<Longrightarrow> v \<le> n \<Longrightarrow> ks ! (v - 1) \<noteq> p"
  using last_frame_cases [of ks p lo n] assms by auto

lemma copied_frame:
  assumes "copied (take n ks) nb mx p" "n \<le> length ks"
  obtains v where "nb < v" "v \<le> mx" "v \<le> n" "ks ! (v - 1) = p" "\<And>u. v < u \<Longrightarrow> u \<le> n \<Longrightarrow> ks ! (u - 1) \<noteq> p" "v = last_frame (take n ks) p 1 n"
proof -
  have l: "length (take n ks) = n" using assms(2) by simp
  let ?v = "last_frame (take n ks) p 1 n"
  have v: "nb < ?v" "?v \<le> mx" using assms(1) unfolding copied_def l by simp_all
  then have "?v \<noteq> 0" by simp
  note c = last_frame_found [OF this]
  show thesis
  proof (rule that [OF v c(2)])
    show "ks ! (?v - 1) = p" using c(1,2,4) by simp
    show "ks ! (u - 1) \<noteq> p" if "?v < u" "u \<le> n" for u
    proof -
      have "u - 1 < n" using that by simp
      then show ?thesis using c(5) [OF that] by simp
    qed
  qed simp
qed

text \<open>A snapshot in use finds every page that is copied in the log.\<close>

lemma snapshot_kept:
  assumes "\<not> copied (take n (map fst gs)) nb mx p \<Longrightarrow> db_page sz data' p = db_page sz data p"
    "n \<le> length gs" "b \<le> nb" "mx \<le> y"
  shows "snapshot_page gs sz data' b y p = snapshot_page gs sz data b y p"
proof (cases "copied (take n (map fst gs)) nb mx p")
  case False
  then show ?thesis using assms(1) by (simp add: snapshot_page_def Let_def)
next
  case True
  then obtain v where v: "nb < v" "v \<le> mx" "map fst gs ! (v - 1) = p" by (rule copied_frame) (use assms(2) in simp_all)
  then have "last_frame (map fst gs) p (Suc b) y \<noteq> 0" using last_frame_exists [of "map fst gs" p "Suc b" y v] assms(3,4) by auto
  then show ?thesis by (simp add: snapshot_page_def)
qed

text \<open>After the backfill a snapshot of the whole log may skip the copied frames.\<close>

lemma snapshot_moved:
  assumes "\<not> copied (take n (map fst gs)) nb mx p \<Longrightarrow> db_page sz data' p = db_page sz data p"
    "copied (take n (map fst gs)) nb mx p \<Longrightarrow> db_page sz data' p = snd (snd (gs ! (last_frame (take n (map fst gs)) p 1 n - 1)))"
    "n \<le> length gs" "nb \<le> mx" "mx \<le> n"
  shows "snapshot_page gs sz data' mx (length gs) p = snapshot_page gs sz data nb (length gs) p"
proof -
  let ?ks = "map fst gs"
  let ?L = "length gs"
  let ?A = "last_frame ?ks p (Suc nb) ?L" and ?B = "last_frame ?ks p (Suc mx) ?L"
  consider "?B \<noteq> 0" | "?B = 0" "copied (take n ?ks) nb mx p" | "?B = 0" "\<not> copied (take n ?ks) nb mx p" by blast
  then show ?thesis
  proof cases
    case 1
    note b = last_frame_found [OF 1]
    have "?A = ?B" by (rule last_frame_eq [OF b(1,2) _ b(4,5)]) (use b(3) assms(4) in simp_all)
    then show ?thesis using 1 by (simp add: snapshot_page_def)
  next
    case 2
    obtain v where v: "nb < v" "v \<le> mx" "v \<le> n" "?ks ! (v - 1) = p" "\<And>u. v < u \<Longrightarrow> u \<le> n \<Longrightarrow> ?ks ! (u - 1) \<noteq> p"
      "v = last_frame (take n ?ks) p 1 n" by (rule copied_frame [OF 2(2)]) (use assms(3) in simp_all)
    have "?A = v"
    proof (rule last_frame_eq)
      show "?ks ! (u - 1) \<noteq> p" if "v < u" "u \<le> ?L" for u
        using v(5) [OF that(1)] last_frame_exists [OF 2(1), of u] that assms(5) by (cases "u \<le> n") auto
    qed (use v assms(3) in auto)
    then show ?thesis using 2 assms(2) v(1,6) by (simp add: snapshot_page_def)
  next
    case 3
    have "?A = 0"
    proof (rule ccontr)
      assume "?A \<noteq> 0"
      note a = last_frame_found [OF this]
      have le: "?A \<le> mx" using last_frame_exists [OF 3(1) a(1,2)] a(4) by (meson not_less_eq_eq)
      have "last_frame (take n ?ks) p 1 n = ?A"
      proof (rule last_frame_eq)
        show "take n ?ks ! (u - 1) \<noteq> p" if "?A < u" "u \<le> n" for u
          using a(5) [of u] that assms(3) by simp
      qed (use a le assms(5) in auto)
      then show False using 3(2) a(3) le assms(3) by (simp add: copied_def)
    qed
    then show ?thesis using 3 assms(1) by (simp add: snapshot_page_def)
  qed
qed

text \<open>
  A connection that reads: the slot \<open>i\<close> of its read mark, whose lock it holds, the frame \<open>b\<close> after which it
  looks, the last frame \<open>y\<close> of its snapshot, and the size \<open>np\<close> of the database in the snapshot. With slot 0
  it reads the database file only.
\<close>

definition reading :: "wal_env \<Rightarrow> Wal \<Rightarrow> frame list \<Rightarrow> nat \<times> nat \<times> nat \<times> u32 \<Rightarrow> bool" where
  "reading env w gs = (\<lambda>(i, b, y, np). i < WAL_NREADER \<and> b \<le> nBackfill (ckpt w) \<and>
     (if i = 0 then y = 0
      else aReadMark (ckpt w) ! i \<le> y \<and> y \<le> length gs \<and> (y = length gs \<longrightarrow> np \<le> nPage (live_hdr w))) \<and>
     (\<forall>cnt idx n. idx \<le> 3 + i \<and> 3 + i < idx + n \<longrightarrow> walLockExclusive env w cnt idx n \<noteq> WAL_OK))"

text \<open>The handle that checkpoints, and the log with the frames \<open>gs\<close>.\<close>

definition ckpt_ready :: "Wal \<Rightarrow> wal_log \<Rightarrow> nat \<Rightarrow> frame list \<Rightarrow> bool" where
  "ckpt_ready w log sz gs \<longleftrightarrow> (\<exists>rest. wi_inv w (map fst gs @ rest)) \<and> mxFrame (live_hdr w) = length gs \<and> mxFrame (hdr w) \<le> length gs \<and>
     (mxFrame (hdr w) = length gs \<longrightarrow> nPage (hdr w) = nPage (live_hdr w)) \<and> hdr_szPage (hdr w) = hdr_page_size (int sz) \<and>
     log_frames (lf_data log) sz gs \<and> 0xFFFFFFFF \<notin> fst ` set gs"

lemma same_wal_facts:
  assumes "same_wal w w'"
  shows "hdr w' = hdr w" "live_hdr w' = live_hdr w" "exclusiveMode w' = exclusiveMode w" "ckpt w' = ckpt w"
  using assms by (simp_all add: same_wal_def)

lemma lock_cong: "exclusiveMode w' = exclusiveMode w \<Longrightarrow> walLockExclusive env w' = walLockExclusive env w"
  by (simp add: walLockExclusive_def fun_eq_iff)

lemma walIteratorInit_nomem: "\<not> env_malloc env \<Longrightarrow> walIteratorInit env w = (WAL_NOMEM, w, \<lparr>iPrior = 0, aSegment = []\<rparr>)"
  by (simp add: walIteratorInit_def)

lemma ckpt_backfill_ok:
  assumes "os_ok (env_os env)" "sz \<in> set page_sizes" "ckpt_ready w log sz gs"
    "ckpt_backfill env db xb sync w log dbf = (out, rc, xb', w', log', dbf')"
  shows "lf_data log' = lf_data log \<and> hdr w' = hdr w \<and> live_hdr w' = live_hdr w \<and> exclusiveMode w' = exclusiveMode w \<and>
    (\<forall>rest. wi_inv w (map fst gs @ rest) \<longrightarrow> wi_inv w' (map fst gs @ rest)) \<and> (out \<longrightarrow> rc \<noteq> WAL_OK) \<and>
    (\<forall>i b y np p. reading env w gs (i, b, y, np) \<and> p \<noteq> 0 \<and> p \<le> np \<longrightarrow>
       snapshot_page gs sz (lf_data dbf') b y p = snapshot_page gs sz (lf_data dbf) b y p) \<and>
    (\<forall>p. p \<noteq> 0 \<and> p \<le> nPage (hdr w) \<longrightarrow>
       snapshot_page gs sz (lf_data dbf') (nBackfill (ckpt w')) (length gs) p = snapshot_page gs sz (lf_data dbf) (nBackfill (ckpt w)) (length gs) p)"
    (is "?same w' log' dbf'")
proof (cases "nBackfill (ckpt w) < mxFrame (hdr w)")
  case False
  then show ?thesis using assms(4) by (simp add: ckpt_backfill_def)
next
  case less: True
  let ?L = "length gs"
  let ?n = "mxFrame (hdr w)"
  let ?nb = "nBackfill (ckpt w)"
  define pg where "pg = take ?n (map fst gs)"
  have r: "\<exists>rest. wi_inv w (map fst gs @ rest)" "mxFrame (live_hdr w) = ?L" "?n \<le> ?L" "?n = ?L \<longrightarrow> nPage (hdr w) = nPage (live_hdr w)"
    "hdr_szPage (hdr w) = hdr_page_size (int sz)" "log_frames (lf_data log) sz gs" "0xFFFFFFFF \<notin> fst ` set gs"
    using assms(3) by (simp_all add: ckpt_ready_def)
  have sz: "walPagesize w = sz" using page_size_ok(5) [OF assms(2)] r(5) by (simp add: walPagesize_def)
  have pg: "length pg = ?n" "pg \<noteq> []" "0xFFFFFFFF \<notin> set pg" "0 \<notin> set pg"
  proof -
    show "length pg = ?n" "pg \<noteq> []" using r(3) less by (auto simp: pg_def)
    have sub: "set pg \<subseteq> fst ` set gs" using set_take_subset [of ?n "map fst gs"] by (simp add: pg_def)
    show "0xFFFFFFFF \<notin> set pg" using sub r(7) by blast
    show "0 \<notin> set pg" using sub r(1) by (auto simp: wi_inv_def)
  qed
  have split: "map fst gs @ rest = pg @ (drop ?n (map fst gs) @ rest)" for rest by (simp add: pg_def flip: append_assoc)
  obtain rc0 w0 it where i0: "walIteratorInit env w = (rc0, w0, it)" by (metis prod_cases3)
  show ?thesis
  proof (cases "env_malloc env")
    case False
    then have "(out, rc, xb', w', log', dbf') = (True, WAL_NOMEM, xb, w, log, dbf)"
      using assms(4) less walIteratorInit_nomem [OF False, of w] by (simp add: ckpt_backfill_def)
    then show ?thesis by simp
  next
    case True
    note init = walIteratorInit_ok [OF assms(1) True _ pg(1) [symmetric] pg(2) i0]
    have w0: "rc0 = WAL_OK" "same_wal w w0" "iter_ok pg it" "iPrior it = 0"
      using init r(1) unfolding split by blast+
    note h0 = same_wal_facts [OF w0(2)]
    have inv0: "wi_inv w0 (map fst gs @ rest)" if "wi_inv w (map fst gs @ rest)" for rest
      using init [of "drop ?n (map fst gs) @ rest"] that unfolding split by blast
    obtain out1 rc1 w1 xb1 mx where s: "safe_frame env [1..<WAL_NREADER] rc0 w0 xb (mxFrame (hdr w0)) = (out1, rc1, w1, xb1, mx)"
      by (metis prod_cases5)
    note sf = safe_frame_ok [OF s distinct_upt]
    obtain marks where w1: "w1 = w0\<lparr>ckpt := (ckpt w0)\<lparr>aReadMark := marks\<rparr>\<rparr>" using sf by blast
    have h1: "hdr w1 = hdr w" "live_hdr w1 = live_hdr w" "exclusiveMode w1 = exclusiveMode w" "nBackfill (ckpt w1) = ?nb"
      "wi_inv w1 xs = wi_inv w0 xs" for xs
      using h0 by (simp_all add: w1 wi_inv_def)
    obtain rc2 xb2 where l: "(if ?nb < mx then walBusyLock env w1 3 1 xb1 else (rc1, xb1)) = (rc2, xb2)" by fastforce
    obtain rc3 w2 log2 dbf2 where b: "(if ?nb < mx \<and> rc2 = WAL_OK then backfill_pages db w1 it sync sz mx (nPage (hdr w)) log dbf
        else (rc2, w1, log, dbf)) = (rc3, w2, log2, dbf2)" by (metis prod_cases4)
    have e: "(out, rc, xb', w', log', dbf') = (if out1 then (True, rc1, xb1, w1, log, dbf)
        else (False, if rc3 = WAL_BUSY then WAL_OK else rc3, xb2, w2, log2, dbf2))"
      using assms(4) [symmetric] unfolding ckpt_backfill_def if_P [OF less] Let_def sz i0 split_conv w0(1) simp_thms not_True_eq_False if_False
      unfolding h0(1) s [unfolded w0(1) h0(1)] split_conv h1(4) l b .
    consider "w' = w1" "log' = log" "dbf' = dbf" | "\<not> out1" "?nb < mx" "rc2 = WAL_OK" "w' = w2" "log' = log2" "dbf' = dbf2"
      using e b by (auto split: if_splits)
    then show ?thesis
    proof cases
      case 1
      then show ?thesis using h1 inv0 sf e by (auto split: if_splits)
    next
      case 2
      have bf: "backfill_pages db w1 it sync sz mx (nPage (hdr w)) log dbf = (rc3, w2, log2, dbf2)" using b 2(2,3) by simp
      have "length pg \<le> length gs" using pg(1) r(3) by simp
      note bk = backfill_pages_ok [OF pg(3,4) this w0(3,4) r(6) bf, unfolded h1(1,2,4) r(2)]
      obtain a where w2: "w2 = w1\<lparr>ckpt := (ckpt w1)\<lparr>nBackfillAttempted := a, nBackfill := if rc3 = WAL_OK then mx else ?nb\<rparr>\<rparr>"
        using bk by blast
      have mx: "mx \<le> ?n" using sf h0(1) by simp
      have same: "db_page sz (lf_data dbf2) p = db_page sz (lf_data dbf) p"
        if "\<not> copied (take ?n (map fst gs)) ?nb mx p" "p \<noteq> 0" "mx = ?L \<longrightarrow> p \<le> nPage (hdr w)" for p
        using bk that by (simp add: pg_def)
      have moved: "db_page sz (lf_data dbf2) p = snd (snd (gs ! (last_frame (take ?n (map fst gs)) p 1 ?n - 1)))"
        if cp: "copied (take ?n (map fst gs)) ?nb mx p" and ok: "p \<le> nPage (hdr w)" "rc3 = WAL_OK" for p
      proof -
        obtain v where v: "?nb < v" "v \<le> ?n" "map fst gs ! (v - 1) = p" by (rule copied_frame [OF cp]) (use r(3) in simp_all)
        then have "v - 1 < length pg" "pg ! (v - 1) = p" using pg(1) by (simp_all add: pg_def)
        then have "p \<in> set pg" by (metis nth_mem)
        then show ?thesis using bk cp ok pg(1) by (simp add: pg_def)
      qed
      have read: "snapshot_page gs sz (lf_data dbf2) b y p = snapshot_page gs sz (lf_data dbf) b y p"
        if g: "reading env w gs (i, b, y, np)" "p \<noteq> 0" "p \<le> np" for i b y np p
      proof -
        have g1: "i < WAL_NREADER" "b \<le> ?nb" "\<forall>cnt. walLockExclusive env w cnt (3 + i) 1 \<noteq> WAL_OK"
          using g(1) by (simp_all add: reading_def)
        have i: "i \<noteq> 0"
        proof
          assume "i = 0"
          then have "\<forall>cnt. walLockExclusive env w1 cnt 3 1 \<noteq> WAL_OK" using g1(3) lock_cong [OF h1(3)] by simp
          then show False using walBusyLock_held [of env w1 3 1 xb1] l 2(2,3) by simp
        qed
        then have y: "aReadMark (ckpt w) ! i \<le> y" "y \<le> ?L" "y = ?L \<longrightarrow> np \<le> nPage (live_hdr w)" using g(1) by (simp_all add: reading_def)
        have "mx \<le> aReadMark (ckpt w0) ! i" using sf 2(1) i g1(1,3) lock_cong [OF h0(3)] by simp
        then have my: "mx \<le> y" using y(1) h0(4) by simp
        have "p \<le> nPage (hdr w)" if "mx = ?L"
        proof -
          have "?n = ?L" "y = ?L" using that mx my r(3) y(2) by simp_all
          then show ?thesis using r(4) y(3) g(3) by (metis order_trans)
        qed
        then show ?thesis using snapshot_kept [OF same r(3) g1(2) my] g(2) by blast
      qed
      have new: "snapshot_page gs sz (lf_data dbf2) (nBackfill (ckpt w2)) ?L p = snapshot_page gs sz (lf_data dbf) ?nb ?L p"
        if p: "p \<noteq> 0" "p \<le> nPage (hdr w)" for p
      proof (cases "rc3 = WAL_OK")
        case True
        then show ?thesis using snapshot_moved [OF same moved r(3) _ mx] p 2(2) by (simp add: w2)
      next
        case False
        then show ?thesis using snapshot_kept [where nb = ?nb and b = ?nb and mx = mx and y = ?L, OF same r(3)] p mx r(3) by (simp add: w2)
      qed
      have "hdr w2 = hdr w" "live_hdr w2 = live_hdr w" "exclusiveMode w2 = exclusiveMode w" "wi_inv w2 xs = wi_inv w1 xs" for xs
        using h1 by (simp_all add: w2 wi_inv_def)
      then show ?thesis using 2 e bk read new inv0 h1(5) by auto
    qed
  qed
qed

lemma walRestartHdr_live: "mxFrame (live_hdr (walRestartHdr w salt1)) = 0" "nBackfill (ckpt (walRestartHdr w salt1)) = 0"
  by (simp_all add: walRestartHdr_def walIndexWriteHdr_def Let_def)

text \<open>The last part leaves all alone, or the log starts anew when all its frames are in the database file.\<close>

lemma ckpt_restart_ok:
  assumes "ckpt_restart env eMode xb w log = (rc, w', log')"
  shows "(w' = w \<and> log' = log) \<or>
    (mxFrame (hdr w) \<le> nBackfill (ckpt w) \<and> mxFrame (live_hdr w') = 0 \<and> nBackfill (ckpt w') = 0 \<and>
      \<not> (\<forall>cnt. walLockExclusive env w cnt 4 4 \<noteq> WAL_OK))"
    "rc = WAL_OK \<Longrightarrow> mxFrame (hdr w) \<le> nBackfill (ckpt w)"
proof -
  obtain rc1 xb1 where l: "walBusyLock env w 4 4 xb = (rc1, xb1)" by fastforce
  obtain rc2 log2 where t: "log_truncate 0 log = (rc2, log2)" by fastforce
  have held: "rc1 \<noteq> WAL_OK" if "\<forall>cnt. walLockExclusive env w cnt 4 4 \<noteq> WAL_OK" using walBusyLock_held [OF that, of xb] l by simp
  have e: "(rc, w', log') = (if nBackfill (ckpt w) < mxFrame (hdr w) then (WAL_BUSY, w, log)
      else if eMode = CHECKPOINT_RESTART \<or> eMode = CHECKPOINT_TRUNCATE then
        (if rc1 = WAL_OK \<and> eMode = CHECKPOINT_TRUNCATE then (rc2, walRestartHdr w (env_random env 4), log2) else (rc1, w, log))
      else (WAL_OK, w, log))"
  proof -
    have n: "WAL_NREADER - 1 = 4" by (simp add: WAL_NREADER_def)
    show ?thesis using assms [symmetric] unfolding ckpt_restart_def n Let_def l t split_conv .
  qed
  show "rc = WAL_OK \<Longrightarrow> mxFrame (hdr w) \<le> nBackfill (ckpt w)" using e by (auto split: if_splits)
  show "(w' = w \<and> log' = log) \<or>
    (mxFrame (hdr w) \<le> nBackfill (ckpt w) \<and> mxFrame (live_hdr w') = 0 \<and> nBackfill (ckpt w') = 0 \<and>
      \<not> (\<forall>cnt. walLockExclusive env w cnt 4 4 \<noteq> WAL_OK))"
  proof (cases "\<not> nBackfill (ckpt w) < mxFrame (hdr w) \<and> rc1 = WAL_OK \<and> eMode = CHECKPOINT_TRUNCATE")
    case True
    then have "w' = walRestartHdr w (env_random env 4)" using e by simp
    then show ?thesis using True held walRestartHdr_live by auto
  next
    case False
    then show ?thesis using e by (auto split: if_splits)
  qed
qed

lemma snapshot_db: "y \<le> b \<Longrightarrow> snapshot_page gs sz data b y p = db_page sz data p"
  using last_frame_below [of y "Suc b"] by (simp add: snapshot_page_def)

text \<open>
  What a checkpoint leaves behind. Its readers, in \<open>rs\<close>, see no page change, and the log and the index that a
  reader of the log uses stay as they are; a connection that opens a snapshot afterwards sees the content of
  before; and when a checkpoint that is not passive succeeds, the database file holds that content by itself.
\<close>

definition ckpt_outcome :: "frame list \<Rightarrow> nat \<Rightarrow> (nat \<times> nat \<times> nat \<times> u32) set \<Rightarrow> ckpt_mode \<Rightarrow> Wal \<Rightarrow> wal_log \<Rightarrow> wal_log \<Rightarrow>
    wal_rc \<Rightarrow> Wal \<Rightarrow> wal_log \<Rightarrow> wal_log \<Rightarrow> bool" where
  "ckpt_outcome gs sz rs eMode w log dbf rc w' log' dbf' \<longleftrightarrow>
     (\<forall>(i, b, y, np) \<in> rs. (\<forall>p. p \<noteq> 0 \<and> p \<le> np \<longrightarrow>
         snapshot_page gs sz (lf_data dbf') b y p = snapshot_page gs sz (lf_data dbf) b y p) \<and>
       (i \<noteq> 0 \<longrightarrow> lf_data log' = lf_data log \<and> live_hdr w' = live_hdr w \<and> (\<exists>rest. wi_inv w' (map fst gs @ rest)))) \<and>
     (\<forall>p. p \<noteq> 0 \<and> p \<le> nPage (hdr w) \<longrightarrow>
       snapshot_page gs sz (lf_data dbf') (nBackfill (ckpt w')) (mxFrame (live_hdr w')) p =
         snapshot_page gs sz (lf_data dbf) (nBackfill (ckpt w)) (length gs) p \<and>
       (rc = WAL_OK \<and> eMode \<noteq> CHECKPOINT_PASSIVE \<longrightarrow>
         db_page sz (lf_data dbf') p = snapshot_page gs sz (lf_data dbf) (nBackfill (ckpt w)) (length gs) p))"

lemma walCheckpoint_ok:
  assumes "os_ok (env_os env)" "sz \<in> set page_sizes" "ckpt_ready w log sz gs" "\<forall>r \<in> rs. reading env w gs r"
    "eMode \<noteq> CHECKPOINT_PASSIVE \<longrightarrow> mxFrame (hdr w) = length gs"
    "walCheckpoint env db eMode xBusy sync w log dbf = (rc, w', log', dbf')"
  shows "ckpt_outcome gs sz rs eMode w log dbf rc w' log' dbf'"
proof -
  obtain out rc1 xb1 w1 log1 dbf1 where b: "ckpt_backfill env db xBusy sync w log dbf = (out, rc1, xb1, w1, log1, dbf1)" by (metis prod_cases6)
  note k = ckpt_backfill_ok [OF assms(1-3) b]
  obtain rest where rest: "wi_inv w (map fst gs @ rest)" and live: "mxFrame (live_hdr w) = length gs"
    using assms(3) by (auto simp: ckpt_ready_def)
  have inv1: "wi_inv w1 (map fst gs @ rest)" using k rest by blast
  have reads: "snapshot_page gs sz (lf_data dbf1) b y p = snapshot_page gs sz (lf_data dbf) b y p"
    if "(i, b, y, np) \<in> rs" "p \<noteq> 0" "p \<le> np" for i b y np p
    using k assms(4) that by blast
  have new: "snapshot_page gs sz (lf_data dbf1) (nBackfill (ckpt w1)) (length gs) p = snapshot_page gs sz (lf_data dbf) (nBackfill (ckpt w)) (length gs) p"
    if "p \<noteq> 0" "p \<le> nPage (hdr w)" for p
    using k that by blast
  show ?thesis
  proof (cases "\<not> out \<and> rc1 = WAL_OK \<and> eMode \<noteq> CHECKPOINT_PASSIVE")
    case False
    have e: "(rc, w', log', dbf') = (rc1, w1, log1, dbf1)" using assms(6) unfolding walCheckpoint_def b Let_def split_conv if_not_P [OF False] by (rule sym)
    have "\<not> (rc = WAL_OK \<and> eMode \<noteq> CHECKPOINT_PASSIVE)" using e False k by auto
    then show ?thesis unfolding ckpt_outcome_def using e k reads new live inv1 by auto
  next
    case True
    obtain rc2 w2 log2 where r: "ckpt_restart env eMode xb1 w1 log1 = (rc2, w2, log2)" by (metis prod_cases3)
    have e: "rc = rc2" "w' = w2" "log' = log2" "dbf' = dbf1"
      using assms(6) unfolding walCheckpoint_def b Let_def split_conv if_P [OF True] r by simp_all
    note rk = ckpt_restart_ok [OF r]
    have n: "mxFrame (hdr w1) = length gs" using k assms(5) True by simp
    have held: "\<forall>cnt. walLockExclusive env w1 cnt 4 4 \<noteq> WAL_OK" if "(i, b, y, np) \<in> rs" "i \<noteq> 0" for i b y np
    proof -
      have "reading env w gs (i, b, y, np)" using assms(4) that(1) by blast
      then show ?thesis using that(2) k by (simp add: reading_def WAL_NREADER_def lock_cong [of w1 w])
    qed
    have m: "snapshot_page gs sz (lf_data dbf1) (nBackfill (ckpt w2)) (mxFrame (live_hdr w2)) p =
        snapshot_page gs sz (lf_data dbf) (nBackfill (ckpt w)) (length gs) p \<and>
      (rc2 = WAL_OK \<longrightarrow> db_page sz (lf_data dbf1) p = snapshot_page gs sz (lf_data dbf) (nBackfill (ckpt w)) (length gs) p)"
      if p: "p \<noteq> 0" "p \<le> nPage (hdr w)" for p
      using rk new [OF p] n k live by (auto simp: snapshot_db)
    have idx: "lf_data log2 = lf_data log \<and> live_hdr w2 = live_hdr w \<and> wi_inv w2 (map fst gs @ rest)"
      if "(i, b, y, np) \<in> rs" "i \<noteq> 0" for i b y np
      using rk(1) held [OF that] k inv1 by auto
    show ?thesis
      unfolding e ckpt_outcome_def
    proof (intro conjI allI impI)
      show "\<forall>(i, b, y, np) \<in> rs. (\<forall>p. p \<noteq> 0 \<and> p \<le> np \<longrightarrow>
          snapshot_page gs sz (lf_data dbf1) b y p = snapshot_page gs sz (lf_data dbf) b y p) \<and>
        (i \<noteq> 0 \<longrightarrow> lf_data log2 = lf_data log \<and> live_hdr w2 = live_hdr w \<and> (\<exists>rest. wi_inv w2 (map fst gs @ rest)))"
      proof (clarify, intro conjI allI impI)
        fix i b y np
        assume r: "(i, b, y, np) \<in> rs"
        show "snapshot_page gs sz (lf_data dbf1) b y p = snapshot_page gs sz (lf_data dbf) b y p" if "p \<noteq> 0 \<and> p \<le> np" for p
          using reads [OF r] that by blast
        assume "i \<noteq> 0"
        from idx [OF r this] show "lf_data log2 = lf_data log" "live_hdr w2 = live_hdr w" "\<exists>rest. wi_inv w2 (map fst gs @ rest)" by blast+
      qed
    qed (use m in blast)+
  qed
qed

section \<open>The call\<close>

text \<open>The shared header is complete.\<close>

definition live_valid :: "Wal \<Rightarrow> bool" where
  "live_valid w \<longleftrightarrow> live_hdr2 w = live_hdr w \<and> isInit (live_hdr w) \<and> aCksum (live_hdr w) = walChecksumBytes True (hdr_bytes (live_hdr w)) None"

lemma walIndexPage_mapped: "os_ok os \<Longrightarrow> walIndexPage os w 0 = (rc, w') \<Longrightarrow> apWiData w' ! 0"
  by (auto simp: os_ok_def walIndexPage_def Let_def nth_list_update split: if_splits)

lemma read_hdr_valid:
  assumes "os_ok (env_os env)" "live_valid w" "walIndexReadHdr env cnt ch w log = (rc, ch', w', log')"
  shows "log' = log \<and> hdr w' = live_hdr w \<and> live_hdr w' = live_hdr w \<and> ckpt w' = ckpt w \<and> exclusiveMode w' = exclusiveMode w \<and>
    (\<forall>pg. wi_inv w pg \<longrightarrow> wi_inv w' pg)"
proof -
  obtain rc1 w1 where p: "walIndexPage (env_os env) w 0 = (rc1, w1)" by fastforce
  have w1: "rc1 = WAL_OK" "apWiData w1 ! 0" using walIndexPage_ok [OF assms(1), of w 0] walIndexPage_mapped [OF assms(1) p] p by simp_all
  have s: "same_wal w w1" "\<forall>pg. wi_inv w pg \<longrightarrow> wi_inv w1 pg"
    using wi_inv_mapped [OF wi_inv_Nil p] wi_inv_mapped [OF _ p] by blast+
  obtain bad c w2 where t: "walIndexTryHdr w1 = (bad, c, w2)" by (metis prod_cases3)
  have s1: "live_hdr w1 = live_hdr w" "live_hdr2 w1 = live_hdr2 w" "ckpt w1 = ckpt w" "exclusiveMode w1 = exclusiveMode w"
    using s(1) by (simp_all add: same_wal_def)
  have w2: "\<not> bad" "hdr w2 = live_hdr w" "live_hdr w2 = live_hdr w" "ckpt w2 = ckpt w" "exclusiveMode w2 = exclusiveMode w"
    "\<forall>pg. wi_inv w2 pg = wi_inv w1 pg"
    using t assms(2) s1 by (auto simp: walIndexTryHdr_def live_valid_def Let_def wi_inv_def split: if_splits)
  have "w' = w2 \<and> log' = log"
    using assms(3) w1 w2(1) unfolding walIndexReadHdr_def by (simp add: p t)
  then show ?thesis using w2 s(2) by simp
qed

text \<open>What holds before the call: as \<open>ckpt_ready\<close>, for the shared header.\<close>

definition index_ready :: "Wal \<Rightarrow> wal_log \<Rightarrow> nat \<Rightarrow> frame list \<Rightarrow> bool" where
  "index_ready w log sz gs \<longleftrightarrow> (\<exists>rest. wi_inv w (map fst gs @ rest)) \<and> live_valid w \<and> mxFrame (live_hdr w) = length gs \<and>
     hdr_szPage (live_hdr w) = hdr_page_size (int sz) \<and> log_frames (lf_data log) sz gs \<and> 0xFFFFFFFF \<notin> fst ` set gs"

text \<open>Shared memory is the same.\<close>

definition shared :: "Wal \<Rightarrow> Wal \<Rightarrow> bool" where
  "shared w w' \<longleftrightarrow> live_hdr w' = live_hdr w \<and> ckpt w' = ckpt w \<and> exclusiveMode w' = exclusiveMode w \<and> (\<forall>pg. wi_inv w pg \<longrightarrow> wi_inv w' pg)"

lemma shared_refl [simp]: "shared w w"
  by (simp add: shared_def)

lemma shared_end: "shared w ((snd (sqlite3WalEndWriteTransaction w))\<lparr>ckptLock := False\<rparr>)"
  by (simp add: shared_def sqlite3WalEndWriteTransaction_def wi_inv_def)

lemma shared_private [simp]: "shared w (w\<lparr>hdr := h\<rparr>)" "shared w (w\<lparr>ckptLock := a\<rparr>)" "shared w (w\<lparr>writeLock := c\<rparr>)"
  by (simp_all add: shared_def wi_inv_def)

lemma shared_trans: "shared u v \<Longrightarrow> shared v w \<Longrightarrow> shared u w"
  by (simp add: shared_def)

lemma shared_valid: "shared w w' \<Longrightarrow> live_hdr2 w' = live_hdr2 w \<Longrightarrow> live_valid w \<Longrightarrow> live_valid w'"
  by (simp add: shared_def live_valid_def)

text \<open>The locked part either changes nothing, or it runs \<open>walCheckpoint\<close> on the header it has read.\<close>

definition ckpt_runs :: "wal_env \<Rightarrow> ckpt_db \<Rightarrow> ckpt_mode \<Rightarrow> u32 \<Rightarrow> Wal \<Rightarrow> wal_log \<Rightarrow> wal_log \<Rightarrow> wal_rc \<Rightarrow> Wal \<Rightarrow> wal_log \<Rightarrow> wal_log \<Rightarrow> bool" where
  "ckpt_runs env db eMode sync w log dbf rc w' log' dbf' \<longleftrightarrow>
     (shared w w' \<and> log' = log \<and> dbf' = dbf \<and> (rc = WAL_OK \<longrightarrow> eMode = CHECKPOINT_PASSIVE)) \<or>
     (\<exists>w1 rc1 w2 mode xb. shared w w1 \<and> hdr w1 = live_hdr w \<and> walCheckpoint env db mode xb sync w1 log dbf = (rc1, w2, log', dbf') \<and>
       shared w2 w' \<and> (rc = WAL_OK \<and> eMode \<noteq> CHECKPOINT_PASSIVE \<longrightarrow> rc1 = WAL_OK \<and> mode = eMode))"

lemma ckpt_locked_runs:
  assumes "os_ok (env_os env)" "live_valid w" "ckpt_locked env db eMode xb sync nBuf rc0 w log dbf = (rc, w', log', dbf', res)"
  shows "ckpt_runs env db eMode sync w log dbf rc w' log' dbf'"
proof (cases "rc0 = WAL_OK")
  case False
  then show ?thesis using assms(3) by (auto simp: ckpt_locked_def ckpt_runs_def)
next
  case True
  obtain rc1 ch w1 log1 where h: "walIndexReadHdr env 0 False w log = (rc1, ch, w1, log1)" by (metis prod_cases4)
  note k = read_hdr_valid [OF assms(1,2) h]
  have s: "shared w w1" "log1 = log" "hdr w1 = live_hdr w" using k by (simp_all add: shared_def)
  obtain rc2 w2 log2 dbf2 where c: "walCheckpoint env db eMode xb sync w1 log dbf = (rc2, w2, log2, dbf2)" by (metis prod_cases4)
  have z: "shared v (if ch then v\<lparr>hdr := no_hdr\<rparr> else v)" for v by simp
  note e = assms(3) [symmetric, unfolded ckpt_locked_def if_P [OF True] h Let_def split_conv]
  consider "rc1 \<noteq> WAL_OK" | "\<not> rc1 \<noteq> WAL_OK" "mxFrame (hdr w1) \<noteq> 0 \<and> walPagesize w1 \<noteq> nBuf"
    | "\<not> rc1 \<noteq> WAL_OK" "\<not> (mxFrame (hdr w1) \<noteq> 0 \<and> walPagesize w1 \<noteq> nBuf)" by blast
  then show ?thesis
  proof cases
    case 1
    then show ?thesis using e [unfolded if_P [OF 1] split_conv] shared_trans [OF s(1) z] s(2) unfolding ckpt_runs_def prod.inject by blast
  next
    case 2
    then show ?thesis
      using e [unfolded if_not_P [OF 2(1)] if_P [OF 2(2)] split_conv] shared_trans [OF s(1) z] s(2) unfolding ckpt_runs_def prod.inject by blast
  next
    case 3
    have "rc = rc2" "w' = (if ch then w2\<lparr>hdr := no_hdr\<rparr> else w2)" "log' = log2" "dbf' = dbf2"
      using e [unfolded if_not_P [OF 3(1)] if_not_P [OF 3(2)] s(2) c split_conv] unfolding prod.inject by blast+
    then show ?thesis using c s(1,3) z [of w2] unfolding ckpt_runs_def by blast
  qed
qed

lemma ckpt_runs_cong:
  assumes "ckpt_runs env db mode sync w1 log dbf rc1 w2 log' dbf'" "shared w w1" "shared w2 w'"
    "rc = WAL_OK \<and> eMode \<noteq> CHECKPOINT_PASSIVE \<longrightarrow> rc1 = WAL_OK \<and> mode = eMode"
  shows "ckpt_runs env db eMode sync w log dbf rc w' log' dbf'"
proof -
  have l: "live_hdr w1 = live_hdr w" using assms(2) by (simp add: shared_def)
  show ?thesis
    using assms(1) [unfolded ckpt_runs_def]
  proof
    assume "shared w1 w2 \<and> log' = log \<and> dbf' = dbf \<and> (rc1 = WAL_OK \<longrightarrow> mode = CHECKPOINT_PASSIVE)"
    then show ?thesis using shared_trans [OF assms(2)] shared_trans [OF _ assms(3)] assms(4) unfolding ckpt_runs_def by blast
  next
    assume "\<exists>v rc2 v' m xb. shared w1 v \<and> hdr v = live_hdr w1 \<and> walCheckpoint env db m xb sync v log dbf = (rc2, v', log', dbf') \<and>
      shared v' w2 \<and> (rc1 = WAL_OK \<and> mode \<noteq> CHECKPOINT_PASSIVE \<longrightarrow> rc2 = WAL_OK \<and> m = mode)"
    then show ?thesis using shared_trans [OF assms(2)] shared_trans [OF _ assms(3)] assms(4) l unfolding ckpt_runs_def by metis
  qed
qed

lemma ckpt_call:
  assumes "os_ok (env_os env)" "live_valid w" "sqlite3WalCheckpoint env db eMode xb sync nBuf w log dbf = (rc, w', log', dbf', res)"
  shows "ckpt_runs env db eMode sync w log dbf rc w' log' dbf'"
proof (cases "(shm_rdonly w \<or> file_rdonly w) \<or> walLockExclusive env w 0 1 1 \<noteq> WAL_OK")
  case True
  then have "rc \<noteq> WAL_OK \<and> w' = w \<and> log' = log \<and> dbf' = dbf"
    using assms(3) by (cases "shm_rdonly w \<or> file_rdonly w") (simp_all add: sqlite3WalCheckpoint_def, metis)
  then show ?thesis by (simp add: ckpt_runs_def)
next
  case False
  define w1 where "w1 = w\<lparr>ckptLock := True\<rparr>"
  obtain rc1 xb1 where l: "(if eMode \<noteq> CHECKPOINT_PASSIVE then walBusyLock env w1 0 1 xb else (WAL_OK, xb)) = (rc1, xb1)" by fastforce
  define w2 where "w2 = (if eMode \<noteq> CHECKPOINT_PASSIVE \<and> rc1 = WAL_OK then w1\<lparr>writeLock := True\<rparr> else w1)"
  obtain rc2 mode xb2 where m: "(if eMode \<noteq> CHECKPOINT_PASSIVE \<and> rc1 = WAL_BUSY then (WAL_OK, CHECKPOINT_PASSIVE, 0) else (rc1, eMode, xb1)) = (rc2, mode, xb2)"
    by (metis prod_cases3)
  obtain rc3 w3 log3 dbf3 out where c: "ckpt_locked env db mode xb2 sync nBuf rc2 w2 log dbf = (rc3, w3, log3, dbf3, out)" by (metis prod_cases5)
  have n: "\<not> (shm_rdonly w \<or> file_rdonly w)" "\<not> walLockExclusive env w 0 1 1 \<noteq> WAL_OK" using False by simp_all
  have e: "(rc, w', log', dbf', res) = (if rc3 = WAL_OK \<and> eMode \<noteq> mode then WAL_BUSY else rc3,
      (snd (sqlite3WalEndWriteTransaction w3))\<lparr>ckptLock := False\<rparr>, log3, dbf3, out)"
    using assms(3) [symmetric] unfolding sqlite3WalCheckpoint_def if_not_P [OF n(1)] unfolding Let_def if_not_P [OF n(2)]
      w1_def [symmetric] l split_conv w2_def [symmetric] m c .
  have s: "shared w w2" "live_hdr2 w2 = live_hdr2 w" by (simp_all add: w2_def w1_def shared_trans [of w "w\<lparr>ckptLock := True\<rparr>"])
  have "ckpt_runs env db mode sync w2 log dbf rc3 w3 log3 dbf3" by (rule ckpt_locked_runs [OF assms(1) shared_valid [OF s assms(2)] c])
  then have "ckpt_runs env db eMode sync w log dbf rc w' log3 dbf3"
    by (rule ckpt_runs_cong [OF _ s(1)]) (use e shared_end [of w3] in \<open>auto split: if_splits\<close>)
  then show ?thesis using e by simp
qed

text \<open>
  C3: checkpoints and readers. While other connections read (those with a read slot from 1 on, through the log, and
  those with slot 0, from the database file alone), a connection calls \<open>sqlite3WalCheckpoint\<close> in any mode; every
  operation on the two files may fail, and it may be interrupted at any page. Then no reader sees any page change, and
  the log and the index that a reader of the log uses stay as they are. A connection that opens a snapshot afterwards, and so
  looks only for the frames that are not copied yet, sees the content of before. And when a
  checkpoint that is not passive succeeds, the database file holds that content by itself.
\<close>

theorem wal_checkpoint:
  assumes "os_ok (env_os env)" "sz \<in> set page_sizes" "index_ready w log sz gs" "\<forall>r \<in> rs. reading env w gs r"
    "sqlite3WalCheckpoint env db eMode xBusy sync nBuf w log dbf = (rc, w', log', dbf', res)"
  shows "(\<forall>(i, b, y, np) \<in> rs. (\<forall>p. p \<noteq> 0 \<and> p \<le> np \<longrightarrow>
        snapshot_page gs sz (lf_data dbf') b y p = snapshot_page gs sz (lf_data dbf) b y p) \<and>
      (i \<noteq> 0 \<longrightarrow> lf_data log' = lf_data log \<and> live_hdr w' = live_hdr w \<and> (\<exists>rest. wi_inv w' (map fst gs @ rest)))) \<and>
    (\<forall>p. p \<noteq> 0 \<and> p \<le> nPage (live_hdr w) \<longrightarrow>
      snapshot_page gs sz (lf_data dbf') (nBackfill (ckpt w')) (mxFrame (live_hdr w')) p =
        snapshot_page gs sz (lf_data dbf) (nBackfill (ckpt w)) (length gs) p \<and>
      (rc = WAL_OK \<and> eMode \<noteq> CHECKPOINT_PASSIVE \<longrightarrow>
        db_page sz (lf_data dbf') p = snapshot_page gs sz (lf_data dbf) (nBackfill (ckpt w)) (length gs) p))"
proof -
  obtain rest where r: "wi_inv w (map fst gs @ rest)" "live_valid w" "mxFrame (live_hdr w) = length gs" using assms(3) by (auto simp: index_ready_def)
  consider "shared w w'" "log' = log" "dbf' = dbf" "rc = WAL_OK \<longrightarrow> eMode = CHECKPOINT_PASSIVE"
    | w1 rc1 w2 eMode2 xb2 where "shared w w1" "hdr w1 = live_hdr w" "walCheckpoint env db eMode2 xb2 sync w1 log dbf = (rc1, w2, log', dbf')"
      "shared w2 w'" "rc = WAL_OK \<and> eMode \<noteq> CHECKPOINT_PASSIVE \<longrightarrow> rc1 = WAL_OK \<and> eMode2 = eMode"
    using ckpt_call [OF assms(1) r(2) assms(5)] unfolding ckpt_runs_def by blast
  then show ?thesis
  proof cases
    case 1
    then show ?thesis using r by (auto simp: shared_def)
  next
    case c: 2
    have s: "live_hdr w1 = live_hdr w" "ckpt w1 = ckpt w" "walLockExclusive env w1 = walLockExclusive env w" "live_hdr w' = live_hdr w2" "ckpt w' = ckpt w2"
      "wi_inv w2 xs \<Longrightarrow> wi_inv w' xs" for xs
      using c(1,4) lock_cong [of w1 w] by (simp_all add: shared_def)
    have ready: "ckpt_ready w1 log sz gs" using assms(3) c(1,2) by (auto simp: index_ready_def ckpt_ready_def shared_def)
    have rd: "\<forall>r \<in> rs. reading env w1 gs r" using assms(4) unfolding reading_def s(1-3) .
    have "mxFrame (hdr w1) = length gs" using c(2) r(3) by simp
    then have o: "ckpt_outcome gs sz rs eMode2 w1 log dbf rc1 w2 log' dbf'"
      using walCheckpoint_ok [OF assms(1,2) ready rd _ c(3)] by blast
    show ?thesis
    proof (intro conjI allI impI)
      show "\<forall>(i, b, y, np) \<in> rs. (\<forall>p. p \<noteq> 0 \<and> p \<le> np \<longrightarrow>
          snapshot_page gs sz (lf_data dbf') b y p = snapshot_page gs sz (lf_data dbf) b y p) \<and>
        (i \<noteq> 0 \<longrightarrow> lf_data log' = lf_data log \<and> live_hdr w' = live_hdr w \<and> (\<exists>rest. wi_inv w' (map fst gs @ rest)))"
        using o s(1,4,6) unfolding ckpt_outcome_def by fastforce
    qed (use o s c(2,5) in \<open>auto simp: ckpt_outcome_def\<close>)
  qed
qed

text \<open>
  Two frames in the log, a reader in slot 1 whose snapshot ends with the first: page 2, which it reads from the
  database file, is not overwritten.
\<close>

lemma wal_checkpoint_witness:
  "let gs = [(1, 2, replicate 512 3), (2, 2, replicate 512 4)];
       log = \<lparr>lf_data = log_file False (replicate 8 7) 512 0 gs @ [], lf_faults = None, lf_partial = 0\<rparr>;
       env = good_env\<lparr>env_excl := \<lambda>cnt idx n. if idx \<le> 4 \<and> 4 < idx + n then WAL_BUSY else WAL_OK\<rparr>;
       w = (fst (snd (walIndexRecover good_env 0 new_wal log)))\<lparr>exclusiveMode := WAL_NORMAL_MODE,
         ckpt := \<lparr>nBackfill = 0, aReadMark = [0, 1, READMARK_NOT_USED, READMARK_NOT_USED, READMARK_NOT_USED], nBackfillAttempted = 0\<rparr>\<rparr>;
       (rc, w', log', dbf', res) = sqlite3WalCheckpoint env \<lparr>isInterrupted = \<lambda>_. False, mallocFailed = False\<rparr> CHECKPOINT_PASSIVE 0 0 512 w log
         \<lparr>lf_data = replicate 1024 9, lf_faults = None, lf_partial = 0\<rparr>
   in snapshot_page gs 512 (lf_data dbf') 0 1 2 = replicate 512 9"
proof -
  define gs :: "frame list" where "gs = [(1, 2, replicate 512 3), (2, 2, replicate 512 4)]"
  define log where "log = \<lparr>lf_data = log_file False (replicate 8 7) 512 0 gs @ [], lf_faults = None, lf_partial = 0\<rparr>"
  define env where "env = good_env\<lparr>env_excl := \<lambda>cnt idx n. if idx \<le> 4 \<and> 4 < idx + n then WAL_BUSY else WAL_OK\<rparr>"
  define w where "w = (fst (snd (walIndexRecover good_env 0 new_wal log)))\<lparr>exclusiveMode := WAL_NORMAL_MODE,
    ckpt := \<lparr>nBackfill = 0, aReadMark = [0, 1, READMARK_NOT_USED, READMARK_NOT_USED, READMARK_NOT_USED], nBackfillAttempted = 0\<rparr>\<rparr>"
  define dbf where "dbf = \<lparr>lf_data = replicate 1024 (9 :: u8), lf_faults = None, lf_partial = 0\<rparr>"
  have ok: "list_all (frame_ok 512) gs" "512 \<in> set page_sizes" "committed gs = gs" by (simp_all add: gs_def frame_ok_def page_sizes_def)
  have g: "os_ok (env_os good_env)" "\<forall>cnt i n. env_excl good_env cnt i n = WAL_OK" "env_malloc good_env" "lf_faults log = None"
    by (simp_all add: good_env_def good_os_def os_ok_def log_def)
  have d: "lf_data log = log_file False (replicate 8 7) 512 0 gs @ []" by (simp add: log_def)
  have nv: "\<not> frame_valid (False = SQLITE_BIGENDIAN) (replicate 8 7) 512 (file_cksum False (replicate 8 7) 512 0 gs) []"
    by (simp add: frame_valid_def)
  obtain v where v: "walIndexRecover good_env 0 new_wal log = (WAL_OK, v, log)" "recovered v gs" "hdr_szPage (hdr v) = hdr_page_size 512"
    using recovery_index [OF g d _ ok(2,1) nv, of 0 new_wal] ok(3) by (auto simp: gs_def)
  have wv: "hdr w = hdr v" "live_hdr w = live_hdr v" "live_hdr2 w = live_hdr2 v" "exclusiveMode w = WAL_NORMAL_MODE" "aReadMark (ckpt w) ! 1 = 1" "nBackfill (ckpt w) = 0"
    by (simp_all add: w_def v(1))
  obtain ms where ms: "wi_inv v (map fst gs @ ms)" using v(2) by (auto simp: recovered_def)
  have inv: "wi_inv w (map fst gs @ ms)" using ms by (simp add: wi_inv_def w_def v(1))
  have ready: "index_ready w log 512 gs"
    using v(2,3) inv log_file_frames [OF _ ok(1,2), of "replicate 8 7" False 0 "[]"]
    by (auto simp: index_ready_def live_valid_def wv recovered_def d) (simp add: gs_def)
  have rd: "\<forall>r \<in> {(1, 0, 1, 2)}. reading env w gs r"
    using v(2) wv(5) [unfolded One_nat_def] by (simp add: reading_def wv WAL_NREADER_def env_def walLockExclusive_def gs_def)
  have os: "os_ok (env_os env)" using g(1) by (simp add: env_def)
  obtain rc w' log' dbf' res where c: "sqlite3WalCheckpoint env \<lparr>isInterrupted = \<lambda>_. False, mallocFailed = False\<rparr> CHECKPOINT_PASSIVE 0 0 512 w log dbf =
      (rc, w', log', dbf', res)" by (metis prod_cases5)
  have "snapshot_page gs 512 (lf_data dbf') 0 1 2 = snapshot_page gs 512 (lf_data dbf) 0 1 2"
    using wal_checkpoint [OF os ok(2) ready rd c] by simp
  also have "\<dots> = replicate 512 9"
    by (rule nth_equalityI) (simp_all add: snapshot_page_def gs_def db_page_def file_byte_def dbf_def)
  finally show ?thesis unfolding Let_def gs_def [symmetric] log_def [symmetric] env_def [symmetric] w_def [symmetric] dbf_def [symmetric] by (simp add: c)
qed

end
