(* ===== verification/TokenCodes.thy ===== *)
theory TokenCodes
  imports Ctype
begin

text \<open>
  The token codes of parse.h, the character classes of tokenize.c, and the tables of the generated
  keyword recogniser, as the sources have them.
\<close>

section \<open>Token codes\<close>

type_synonym token = nat

abbreviation (input) TK_SEMI :: token where "TK_SEMI \<equiv> 1"
abbreviation (input) TK_EXPLAIN :: token where "TK_EXPLAIN \<equiv> 2"
abbreviation (input) TK_QUERY :: token where "TK_QUERY \<equiv> 3"
abbreviation (input) TK_PLAN :: token where "TK_PLAN \<equiv> 4"
abbreviation (input) TK_BEGIN :: token where "TK_BEGIN \<equiv> 5"
abbreviation (input) TK_TRANSACTION :: token where "TK_TRANSACTION \<equiv> 6"
abbreviation (input) TK_DEFERRED :: token where "TK_DEFERRED \<equiv> 7"
abbreviation (input) TK_IMMEDIATE :: token where "TK_IMMEDIATE \<equiv> 8"
abbreviation (input) TK_EXCLUSIVE :: token where "TK_EXCLUSIVE \<equiv> 9"
abbreviation (input) TK_COMMIT :: token where "TK_COMMIT \<equiv> 10"
abbreviation (input) TK_END :: token where "TK_END \<equiv> 11"
abbreviation (input) TK_ROLLBACK :: token where "TK_ROLLBACK \<equiv> 12"
abbreviation (input) TK_SAVEPOINT :: token where "TK_SAVEPOINT \<equiv> 13"
abbreviation (input) TK_RELEASE :: token where "TK_RELEASE \<equiv> 14"
abbreviation (input) TK_TO :: token where "TK_TO \<equiv> 15"
abbreviation (input) TK_TABLE :: token where "TK_TABLE \<equiv> 16"
abbreviation (input) TK_CREATE :: token where "TK_CREATE \<equiv> 17"
abbreviation (input) TK_IF :: token where "TK_IF \<equiv> 18"
abbreviation (input) TK_NOT :: token where "TK_NOT \<equiv> 19"
abbreviation (input) TK_EXISTS :: token where "TK_EXISTS \<equiv> 20"
abbreviation (input) TK_TEMP :: token where "TK_TEMP \<equiv> 21"
abbreviation (input) TK_LP :: token where "TK_LP \<equiv> 22"
abbreviation (input) TK_RP :: token where "TK_RP \<equiv> 23"
abbreviation (input) TK_AS :: token where "TK_AS \<equiv> 24"
abbreviation (input) TK_WITHOUT :: token where "TK_WITHOUT \<equiv> 25"
abbreviation (input) TK_COMMA :: token where "TK_COMMA \<equiv> 26"
abbreviation (input) TK_OR :: token where "TK_OR \<equiv> 27"
abbreviation (input) TK_AND :: token where "TK_AND \<equiv> 28"
abbreviation (input) TK_IS :: token where "TK_IS \<equiv> 29"
abbreviation (input) TK_MATCH :: token where "TK_MATCH \<equiv> 30"
abbreviation (input) TK_LIKE_KW :: token where "TK_LIKE_KW \<equiv> 31"
abbreviation (input) TK_BETWEEN :: token where "TK_BETWEEN \<equiv> 32"
abbreviation (input) TK_IN :: token where "TK_IN \<equiv> 33"
abbreviation (input) TK_ISNULL :: token where "TK_ISNULL \<equiv> 34"
abbreviation (input) TK_NOTNULL :: token where "TK_NOTNULL \<equiv> 35"
abbreviation (input) TK_NE :: token where "TK_NE \<equiv> 36"
abbreviation (input) TK_EQ :: token where "TK_EQ \<equiv> 37"
abbreviation (input) TK_GT :: token where "TK_GT \<equiv> 38"
abbreviation (input) TK_LE :: token where "TK_LE \<equiv> 39"
abbreviation (input) TK_LT :: token where "TK_LT \<equiv> 40"
abbreviation (input) TK_GE :: token where "TK_GE \<equiv> 41"
abbreviation (input) TK_ESCAPE :: token where "TK_ESCAPE \<equiv> 42"
abbreviation (input) TK_BITAND :: token where "TK_BITAND \<equiv> 43"
abbreviation (input) TK_BITOR :: token where "TK_BITOR \<equiv> 44"
abbreviation (input) TK_LSHIFT :: token where "TK_LSHIFT \<equiv> 45"
abbreviation (input) TK_RSHIFT :: token where "TK_RSHIFT \<equiv> 46"
abbreviation (input) TK_PLUS :: token where "TK_PLUS \<equiv> 47"
abbreviation (input) TK_MINUS :: token where "TK_MINUS \<equiv> 48"
abbreviation (input) TK_STAR :: token where "TK_STAR \<equiv> 49"
abbreviation (input) TK_SLASH :: token where "TK_SLASH \<equiv> 50"
abbreviation (input) TK_REM :: token where "TK_REM \<equiv> 51"
abbreviation (input) TK_CONCAT :: token where "TK_CONCAT \<equiv> 52"
abbreviation (input) TK_COLLATE :: token where "TK_COLLATE \<equiv> 53"
abbreviation (input) TK_BITNOT :: token where "TK_BITNOT \<equiv> 54"
abbreviation (input) TK_ID :: token where "TK_ID \<equiv> 55"
abbreviation (input) TK_INDEXED :: token where "TK_INDEXED \<equiv> 56"
abbreviation (input) TK_ABORT :: token where "TK_ABORT \<equiv> 57"
abbreviation (input) TK_ACTION :: token where "TK_ACTION \<equiv> 58"
abbreviation (input) TK_AFTER :: token where "TK_AFTER \<equiv> 59"
abbreviation (input) TK_ANALYZE :: token where "TK_ANALYZE \<equiv> 60"
abbreviation (input) TK_ASC :: token where "TK_ASC \<equiv> 61"
abbreviation (input) TK_ATTACH :: token where "TK_ATTACH \<equiv> 62"
abbreviation (input) TK_BEFORE :: token where "TK_BEFORE \<equiv> 63"
abbreviation (input) TK_BY :: token where "TK_BY \<equiv> 64"
abbreviation (input) TK_CASCADE :: token where "TK_CASCADE \<equiv> 65"
abbreviation (input) TK_CAST :: token where "TK_CAST \<equiv> 66"
abbreviation (input) TK_COLUMNKW :: token where "TK_COLUMNKW \<equiv> 67"
abbreviation (input) TK_CONFLICT :: token where "TK_CONFLICT \<equiv> 68"
abbreviation (input) TK_DATABASE :: token where "TK_DATABASE \<equiv> 69"
abbreviation (input) TK_DESC :: token where "TK_DESC \<equiv> 70"
abbreviation (input) TK_DETACH :: token where "TK_DETACH \<equiv> 71"
abbreviation (input) TK_EACH :: token where "TK_EACH \<equiv> 72"
abbreviation (input) TK_FAIL :: token where "TK_FAIL \<equiv> 73"
abbreviation (input) TK_FOR :: token where "TK_FOR \<equiv> 74"
abbreviation (input) TK_IGNORE :: token where "TK_IGNORE \<equiv> 75"
abbreviation (input) TK_INITIALLY :: token where "TK_INITIALLY \<equiv> 76"
abbreviation (input) TK_INSTEAD :: token where "TK_INSTEAD \<equiv> 77"
abbreviation (input) TK_NO :: token where "TK_NO \<equiv> 78"
abbreviation (input) TK_KEY :: token where "TK_KEY \<equiv> 79"
abbreviation (input) TK_OF :: token where "TK_OF \<equiv> 80"
abbreviation (input) TK_OFFSET :: token where "TK_OFFSET \<equiv> 81"
abbreviation (input) TK_PRAGMA :: token where "TK_PRAGMA \<equiv> 82"
abbreviation (input) TK_RAISE :: token where "TK_RAISE \<equiv> 83"
abbreviation (input) TK_RECURSIVE :: token where "TK_RECURSIVE \<equiv> 84"
abbreviation (input) TK_REPLACE :: token where "TK_REPLACE \<equiv> 85"
abbreviation (input) TK_RESTRICT :: token where "TK_RESTRICT \<equiv> 86"
abbreviation (input) TK_ROW :: token where "TK_ROW \<equiv> 87"
abbreviation (input) TK_TRIGGER :: token where "TK_TRIGGER \<equiv> 88"
abbreviation (input) TK_VACUUM :: token where "TK_VACUUM \<equiv> 89"
abbreviation (input) TK_VIEW :: token where "TK_VIEW \<equiv> 90"
abbreviation (input) TK_VIRTUAL :: token where "TK_VIRTUAL \<equiv> 91"
abbreviation (input) TK_WITH :: token where "TK_WITH \<equiv> 92"
abbreviation (input) TK_REINDEX :: token where "TK_REINDEX \<equiv> 93"
abbreviation (input) TK_RENAME :: token where "TK_RENAME \<equiv> 94"
abbreviation (input) TK_CTIME_KW :: token where "TK_CTIME_KW \<equiv> 95"
abbreviation (input) TK_ANY :: token where "TK_ANY \<equiv> 96"
abbreviation (input) TK_STRING :: token where "TK_STRING \<equiv> 97"
abbreviation (input) TK_JOIN_KW :: token where "TK_JOIN_KW \<equiv> 98"
abbreviation (input) TK_CONSTRAINT :: token where "TK_CONSTRAINT \<equiv> 99"
abbreviation (input) TK_DEFAULT :: token where "TK_DEFAULT \<equiv> 100"
abbreviation (input) TK_NULL :: token where "TK_NULL \<equiv> 101"
abbreviation (input) TK_PRIMARY :: token where "TK_PRIMARY \<equiv> 102"
abbreviation (input) TK_UNIQUE :: token where "TK_UNIQUE \<equiv> 103"
abbreviation (input) TK_CHECK :: token where "TK_CHECK \<equiv> 104"
abbreviation (input) TK_REFERENCES :: token where "TK_REFERENCES \<equiv> 105"
abbreviation (input) TK_AUTOINCR :: token where "TK_AUTOINCR \<equiv> 106"
abbreviation (input) TK_ON :: token where "TK_ON \<equiv> 107"
abbreviation (input) TK_INSERT :: token where "TK_INSERT \<equiv> 108"
abbreviation (input) TK_DELETE :: token where "TK_DELETE \<equiv> 109"
abbreviation (input) TK_UPDATE :: token where "TK_UPDATE \<equiv> 110"
abbreviation (input) TK_SET :: token where "TK_SET \<equiv> 111"
abbreviation (input) TK_DEFERRABLE :: token where "TK_DEFERRABLE \<equiv> 112"
abbreviation (input) TK_FOREIGN :: token where "TK_FOREIGN \<equiv> 113"
abbreviation (input) TK_DROP :: token where "TK_DROP \<equiv> 114"
abbreviation (input) TK_UNION :: token where "TK_UNION \<equiv> 115"
abbreviation (input) TK_ALL :: token where "TK_ALL \<equiv> 116"
abbreviation (input) TK_EXCEPT :: token where "TK_EXCEPT \<equiv> 117"
abbreviation (input) TK_INTERSECT :: token where "TK_INTERSECT \<equiv> 118"
abbreviation (input) TK_SELECT :: token where "TK_SELECT \<equiv> 119"
abbreviation (input) TK_VALUES :: token where "TK_VALUES \<equiv> 120"
abbreviation (input) TK_DISTINCT :: token where "TK_DISTINCT \<equiv> 121"
abbreviation (input) TK_DOT :: token where "TK_DOT \<equiv> 122"
abbreviation (input) TK_FROM :: token where "TK_FROM \<equiv> 123"
abbreviation (input) TK_JOIN :: token where "TK_JOIN \<equiv> 124"
abbreviation (input) TK_USING :: token where "TK_USING \<equiv> 125"
abbreviation (input) TK_ORDER :: token where "TK_ORDER \<equiv> 126"
abbreviation (input) TK_GROUP :: token where "TK_GROUP \<equiv> 127"
abbreviation (input) TK_HAVING :: token where "TK_HAVING \<equiv> 128"
abbreviation (input) TK_LIMIT :: token where "TK_LIMIT \<equiv> 129"
abbreviation (input) TK_WHERE :: token where "TK_WHERE \<equiv> 130"
abbreviation (input) TK_INTO :: token where "TK_INTO \<equiv> 131"
abbreviation (input) TK_FLOAT :: token where "TK_FLOAT \<equiv> 132"
abbreviation (input) TK_BLOB :: token where "TK_BLOB \<equiv> 133"
abbreviation (input) TK_INTEGER :: token where "TK_INTEGER \<equiv> 134"
abbreviation (input) TK_VARIABLE :: token where "TK_VARIABLE \<equiv> 135"
abbreviation (input) TK_CASE :: token where "TK_CASE \<equiv> 136"
abbreviation (input) TK_WHEN :: token where "TK_WHEN \<equiv> 137"
abbreviation (input) TK_THEN :: token where "TK_THEN \<equiv> 138"
abbreviation (input) TK_ELSE :: token where "TK_ELSE \<equiv> 139"
abbreviation (input) TK_INDEX :: token where "TK_INDEX \<equiv> 140"
abbreviation (input) TK_ALTER :: token where "TK_ALTER \<equiv> 141"
abbreviation (input) TK_ADD :: token where "TK_ADD \<equiv> 142"
abbreviation (input) TK_TO_TEXT :: token where "TK_TO_TEXT \<equiv> 143"
abbreviation (input) TK_TO_BLOB :: token where "TK_TO_BLOB \<equiv> 144"
abbreviation (input) TK_TO_NUMERIC :: token where "TK_TO_NUMERIC \<equiv> 145"
abbreviation (input) TK_TO_INT :: token where "TK_TO_INT \<equiv> 146"
abbreviation (input) TK_TO_REAL :: token where "TK_TO_REAL \<equiv> 147"
abbreviation (input) TK_ISNOT :: token where "TK_ISNOT \<equiv> 148"
abbreviation (input) TK_END_OF_FILE :: token where "TK_END_OF_FILE \<equiv> 149"
abbreviation (input) TK_UNCLOSED_STRING :: token where "TK_UNCLOSED_STRING \<equiv> 150"
abbreviation (input) TK_FUNCTION :: token where "TK_FUNCTION \<equiv> 151"
abbreviation (input) TK_COLUMN :: token where "TK_COLUMN \<equiv> 152"
abbreviation (input) TK_AGG_FUNCTION :: token where "TK_AGG_FUNCTION \<equiv> 153"
abbreviation (input) TK_AGG_COLUMN :: token where "TK_AGG_COLUMN \<equiv> 154"
abbreviation (input) TK_UMINUS :: token where "TK_UMINUS \<equiv> 155"
abbreviation (input) TK_UPLUS :: token where "TK_UPLUS \<equiv> 156"
abbreviation (input) TK_REGISTER :: token where "TK_REGISTER \<equiv> 157"
abbreviation (input) TK_VECTOR :: token where "TK_VECTOR \<equiv> 158"
abbreviation (input) TK_SELECT_COLUMN :: token where "TK_SELECT_COLUMN \<equiv> 159"
abbreviation (input) TK_ASTERISK :: token where "TK_ASTERISK \<equiv> 160"
abbreviation (input) TK_SPAN :: token where "TK_SPAN \<equiv> 161"
abbreviation (input) TK_SPACE :: token where "TK_SPACE \<equiv> 162"
abbreviation (input) TK_ILLEGAL :: token where "TK_ILLEGAL \<equiv> 163"

section \<open>Character classes\<close>

abbreviation (input) CC_X :: nat where "CC_X \<equiv> 0"
abbreviation (input) CC_KYWD :: nat where "CC_KYWD \<equiv> 1"
abbreviation (input) CC_ID :: nat where "CC_ID \<equiv> 2"
abbreviation (input) CC_DIGIT :: nat where "CC_DIGIT \<equiv> 3"
abbreviation (input) CC_DOLLAR :: nat where "CC_DOLLAR \<equiv> 4"
abbreviation (input) CC_VARALPHA :: nat where "CC_VARALPHA \<equiv> 5"
abbreviation (input) CC_VARNUM :: nat where "CC_VARNUM \<equiv> 6"
abbreviation (input) CC_SPACE :: nat where "CC_SPACE \<equiv> 7"
abbreviation (input) CC_QUOTE :: nat where "CC_QUOTE \<equiv> 8"
abbreviation (input) CC_QUOTE2 :: nat where "CC_QUOTE2 \<equiv> 9"
abbreviation (input) CC_PIPE :: nat where "CC_PIPE \<equiv> 10"
abbreviation (input) CC_MINUS :: nat where "CC_MINUS \<equiv> 11"
abbreviation (input) CC_LT :: nat where "CC_LT \<equiv> 12"
abbreviation (input) CC_GT :: nat where "CC_GT \<equiv> 13"
abbreviation (input) CC_EQ :: nat where "CC_EQ \<equiv> 14"
abbreviation (input) CC_BANG :: nat where "CC_BANG \<equiv> 15"
abbreviation (input) CC_SLASH :: nat where "CC_SLASH \<equiv> 16"
abbreviation (input) CC_LP :: nat where "CC_LP \<equiv> 17"
abbreviation (input) CC_RP :: nat where "CC_RP \<equiv> 18"
abbreviation (input) CC_SEMI :: nat where "CC_SEMI \<equiv> 19"
abbreviation (input) CC_PLUS :: nat where "CC_PLUS \<equiv> 20"
abbreviation (input) CC_STAR :: nat where "CC_STAR \<equiv> 21"
abbreviation (input) CC_PERCENT :: nat where "CC_PERCENT \<equiv> 22"
abbreviation (input) CC_COMMA :: nat where "CC_COMMA \<equiv> 23"
abbreviation (input) CC_AND :: nat where "CC_AND \<equiv> 24"
abbreviation (input) CC_TILDA :: nat where "CC_TILDA \<equiv> 25"
abbreviation (input) CC_DOT :: nat where "CC_DOT \<equiv> 26"
abbreviation (input) CC_ILLEGAL :: nat where "CC_ILLEGAL \<equiv> 27"

definition aiClass_table :: "nat list" where
  "aiClass_table =
     [27, 27, 27, 27, 27, 27, 27, 27, 27, 7, 7, 27, 7, 7, 27, 27, 27, 27, 27, 27, 27, 27, 27, 27,
      27, 27, 27, 27, 27, 27, 27, 27, 7, 15, 8, 5, 4, 22, 24, 8, 17, 18, 21, 20, 23, 11, 26, 16,
      3, 3, 3, 3, 3, 3, 3, 3, 3, 3, 5, 19, 12, 14, 13, 6, 5, 1, 1, 1, 1, 1, 1, 1, 1, 1, 1, 1, 1,
      1, 1, 1, 1, 1, 1, 1, 1, 1, 1, 1, 0, 1, 1, 9, 27, 27, 27, 1, 8, 1, 1, 1, 1, 1, 1, 1, 1, 1, 1,
      1, 1, 1, 1, 1, 1, 1, 1, 1, 1, 1, 1, 1, 0, 1, 1, 27, 10, 27, 25, 27, 2, 2, 2, 2, 2, 2, 2, 2,
      2, 2, 2, 2, 2, 2, 2, 2, 2, 2, 2, 2, 2, 2, 2, 2, 2, 2, 2, 2, 2, 2, 2, 2, 2, 2, 2, 2, 2, 2, 2,
      2, 2, 2, 2, 2, 2, 2, 2, 2, 2, 2, 2, 2, 2, 2, 2, 2, 2, 2, 2, 2, 2, 2, 2, 2, 2, 2, 2, 2, 2, 2,
      2, 2, 2, 2, 2, 2, 2, 2, 2, 2, 2, 2, 2, 2, 2, 2, 2, 2, 2, 2, 2, 2, 2, 2, 2, 2, 2, 2, 2, 2, 2,
      2, 2, 2, 2, 2, 2, 2, 2, 2, 2, 2, 2, 2, 2, 2, 2, 2, 2, 2, 2, 2, 2, 2, 2, 2, 2, 2]"

definition aiClass :: "u8 \<Rightarrow> nat" where
  "aiClass c = aiClass_table ! unat c"

definition IdChar :: "u8 \<Rightarrow> bool" where
  "IdChar c \<longleftrightarrow> sqlite3CtypeMap c AND 0x46 \<noteq> 0"

section \<open>The tables of the keyword recogniser\<close>

definition ascii :: "string \<Rightarrow> u8 list" where
  "ascii s = map of_char s"

definition zText :: string where
  "zText =
        ''REINDEXEDESCAPEACHECKEYBEFOREIGNOREGEXPLAINSTEADDATABASELECTABLEFTHENDEF''
      @ ''ERRABLELSEXCEPTRANSACTIONATURALTERAISEXCLUSIVEXISTSAVEPOINTERSECTRIGGERE''
      @ ''FERENCESCONSTRAINTOFFSETEMPORARYUNIQUERYWITHOUTERELEASEATTACHAVINGROUPDA''
      @ ''TEBEGINNERECURSIVEBETWEENOTNULLIKECASCADELETECASECOLLATECREATECURRENT_DA''
      @ ''TEDETACHIMMEDIATEJOINSERTMATCHPLANALYZEPRAGMABORTVALUESVIRTUALIMITWHENWH''
      @ ''ERENAMEAFTEREPLACEANDEFAULTAUTOINCREMENTCASTCOLUMNCOMMITCONFLICTCROSSCUR''
      @ ''RENT_TIMESTAMPRIMARYDEFERREDISTINCTDROPFAILFROMFULLGLOBYIFISNULLORDEREST''
      @ ''RICTRIGHTROLLBACKROWUNIONUSINGVACUUMVIEWINITIALLY''"

definition aHash :: "nat list" where
  "aHash =
     [76, 105, 117, 74, 0, 45, 0, 0, 82, 0, 77, 0, 0, 42, 12, 78, 15, 0, 116, 85, 54, 112, 0, 19,
      0, 0, 121, 0, 119, 115, 0, 22, 93, 0, 9, 0, 0, 70, 71, 0, 69, 6, 0, 48, 90, 102, 0, 118,
      101, 0, 0, 44, 0, 103, 24, 0, 17, 0, 122, 53, 23, 0, 5, 110, 25, 96, 0, 0, 124, 106, 60,
      123, 57, 28, 55, 0, 91, 0, 100, 26, 0, 99, 0, 0, 0, 95, 92, 97, 88, 109, 14, 39, 108, 0, 81,
      0, 18, 89, 111, 32, 0, 120, 80, 113, 62, 46, 84, 0, 0, 94, 40, 59, 114, 0, 36, 0, 0, 29, 0,
      86, 63, 64, 0, 20, 61, 0, 56]"

definition aNext :: "nat list" where
  "aNext =
     [0, 0, 0, 0, 4, 0, 0, 0, 0, 0, 0, 0, 0, 0, 2, 0, 0, 0, 0, 0, 0, 13, 0, 0, 0, 0, 0, 7, 0, 0,
      0, 0, 0, 0, 0, 0, 0, 0, 0, 0, 0, 0, 0, 33, 0, 21, 0, 0, 0, 0, 0, 50, 0, 43, 3, 47, 0, 0, 0,
      0, 30, 0, 58, 0, 38, 0, 0, 0, 1, 66, 0, 0, 67, 0, 41, 0, 0, 0, 0, 0, 0, 49, 65, 0, 0, 0, 0,
      31, 52, 16, 34, 10, 0, 0, 0, 0, 0, 0, 0, 11, 72, 79, 0, 8, 0, 104, 98, 0, 107, 0, 87, 0, 75,
      51, 0, 27, 37, 73, 83, 0, 35, 68, 0, 0]"

definition aLen :: "nat list" where
  "aLen =
     [7, 7, 5, 4, 6, 4, 5, 3, 6, 7, 3, 6, 6, 7, 7, 3, 8, 2, 6, 5, 4, 4, 3, 10, 4, 6, 11, 6, 2, 7,
      5, 5, 9, 6, 9, 9, 7, 10, 10, 4, 6, 2, 3, 9, 4, 2, 6, 5, 7, 4, 5, 7, 6, 6, 5, 6, 5, 5, 9, 7,
      7, 3, 2, 4, 4, 7, 3, 6, 4, 7, 6, 12, 6, 9, 4, 6, 5, 4, 7, 6, 5, 6, 7, 5, 4, 5, 6, 5, 7, 3,
      7, 13, 2, 2, 4, 6, 6, 8, 5, 17, 12, 7, 8, 8, 2, 4, 4, 4, 4, 4, 2, 2, 6, 5, 8, 5, 8, 3, 5, 5,
      6, 4, 9, 3]"

definition aOffset :: "nat list" where
  "aOffset =
     [0, 2, 2, 8, 9, 14, 16, 20, 23, 25, 25, 29, 33, 36, 41, 46, 48, 53, 54, 59, 62, 65, 67, 69,
      78, 81, 86, 91, 95, 96, 101, 105, 109, 117, 122, 128, 136, 142, 152, 159, 162, 162, 165,
      167, 167, 171, 176, 179, 184, 184, 188, 192, 199, 204, 209, 212, 218, 221, 225, 234, 240,
      240, 240, 243, 246, 250, 251, 255, 261, 265, 272, 278, 290, 296, 305, 307, 313, 318, 320,
      327, 332, 337, 343, 349, 354, 358, 361, 367, 371, 378, 380, 387, 389, 391, 400, 404, 410,
      416, 424, 429, 429, 445, 452, 459, 460, 467, 471, 475, 479, 483, 486, 488, 490, 496, 500,
      508, 513, 521, 524, 529, 534, 540, 544, 549]"

definition aCode :: "token list" where
  "aCode =
     [TK_REINDEX, TK_INDEXED, TK_INDEX, TK_DESC, TK_ESCAPE, TK_EACH, TK_CHECK, TK_KEY, TK_BEFORE,
      TK_FOREIGN, TK_FOR, TK_IGNORE, TK_LIKE_KW, TK_EXPLAIN, TK_INSTEAD, TK_ADD, TK_DATABASE,
      TK_AS, TK_SELECT, TK_TABLE, TK_JOIN_KW, TK_THEN, TK_END, TK_DEFERRABLE, TK_ELSE, TK_EXCEPT,
      TK_TRANSACTION, TK_ACTION, TK_ON, TK_JOIN_KW, TK_ALTER, TK_RAISE, TK_EXCLUSIVE, TK_EXISTS,
      TK_SAVEPOINT, TK_INTERSECT, TK_TRIGGER, TK_REFERENCES, TK_CONSTRAINT, TK_INTO, TK_OFFSET,
      TK_OF, TK_SET, TK_TEMP, TK_TEMP, TK_OR, TK_UNIQUE, TK_QUERY, TK_WITHOUT, TK_WITH,
      TK_JOIN_KW, TK_RELEASE, TK_ATTACH, TK_HAVING, TK_GROUP, TK_UPDATE, TK_BEGIN, TK_JOIN_KW,
      TK_RECURSIVE, TK_BETWEEN, TK_NOTNULL, TK_NOT, TK_NO, TK_NULL, TK_LIKE_KW, TK_CASCADE,
      TK_ASC, TK_DELETE, TK_CASE, TK_COLLATE, TK_CREATE, TK_CTIME_KW, TK_DETACH, TK_IMMEDIATE,
      TK_JOIN, TK_INSERT, TK_MATCH, TK_PLAN, TK_ANALYZE, TK_PRAGMA, TK_ABORT, TK_VALUES,
      TK_VIRTUAL, TK_LIMIT, TK_WHEN, TK_WHERE, TK_RENAME, TK_AFTER, TK_REPLACE, TK_AND,
      TK_DEFAULT, TK_AUTOINCR, TK_TO, TK_IN, TK_CAST, TK_COLUMNKW, TK_COMMIT, TK_CONFLICT,
      TK_JOIN_KW, TK_CTIME_KW, TK_CTIME_KW, TK_PRIMARY, TK_DEFERRED, TK_DISTINCT, TK_IS, TK_DROP,
      TK_FAIL, TK_FROM, TK_JOIN_KW, TK_LIKE_KW, TK_BY, TK_IF, TK_ISNULL, TK_ORDER, TK_RESTRICT,
      TK_JOIN_KW, TK_ROLLBACK, TK_ROW, TK_UNION, TK_USING, TK_VACUUM, TK_VIEW, TK_INITIALLY,
      TK_ALL]"

end
