(* ===== verification/Keywords.thy ===== *)
theory Keywords
  imports TokenCodes
begin

text \<open>
  The generated keyword recogniser of keywordhash.h, \<open>keywordCode\<close>, and the plain list of keywords
  that it implements.
\<close>

section \<open>Keywords\<close>

definition charMap :: "u8 \<Rightarrow> u8" where
  "charMap X = sqlite3UpperToLower X"

text \<open>\<open>((charMap(z[0])*4) ^ (charMap(z[n-1])*3) ^ n) % 127\<close>\<close>

definition keyword_hash :: "u8 list \<Rightarrow> nat" where
  "keyword_hash z =
     nat ((((uint (charMap (hd z)) * 4) XOR (uint (charMap (last z)) * 3)) XOR int (length z)) mod 127)"

text \<open>\<open>zKW = &zText[aOffset[i]]; while( j<n && (z[j]&~0x20)==zKW[j] ){ j++; }\<close>\<close>

definition zKW :: "nat \<Rightarrow> nat \<Rightarrow> u8 list" where
  "zKW i n = take n (drop (aOffset ! i) (ascii zText))"

definition keyword_match :: "u8 list \<Rightarrow> nat \<Rightarrow> bool" where
  "keyword_match z i \<longleftrightarrow> aLen ! i = length z \<and> map (\<lambda>c. c AND NOT 0x20) z = zKW i (length z)"

text \<open>
  The chain of a hash value, of which \<open>k\<close> is the index plus one; the links lead to smaller
  indices. The bound 124 is the number of keywords, which no entry of the tables exceeds.
\<close>

lemma aNext_le: "0 < k \<Longrightarrow> k \<le> 124 \<Longrightarrow> aNext ! (k - 1) < k"
proof -
  have "list_all (\<lambda>i. aNext ! i < Suc i) [0..<124]" by code_simp
  then show "0 < k \<Longrightarrow> k \<le> 124 \<Longrightarrow> aNext ! (k - 1) < k"
    by (auto simp: list_all_iff dest!: bspec [where x = "k - 1"])
qed

function keyword_find :: "nat \<Rightarrow> u8 list \<Rightarrow> nat option" where
  "keyword_find k z =
     (if k = 0 \<or> 124 < k then None
      else if keyword_match z (k - 1) then Some (k - 1) else keyword_find (aNext ! (k - 1)) z)"
  by pat_completeness auto
termination
  by (relation "measure fst") (use aNext_le in auto)

declare keyword_find.simps [simp del]

definition keywordCode :: "u8 list \<Rightarrow> token" where
  "keywordCode z =
     (if length z \<ge> 2 then
        (case keyword_find (aHash ! keyword_hash z) z of None \<Rightarrow> TK_ID | Some i \<Rightarrow> aCode ! i)
      else TK_ID)"

definition sqlite3KeywordCode :: "u8 list \<Rightarrow> token" where
  "sqlite3KeywordCode z = keywordCode z"

section \<open>The keyword recogniser finds the keywords\<close>

text \<open>The keywords, in the order of the comments of \<open>keywordCode\<close>, with their codes.\<close>

definition keyword_list :: "(string \<times> token) list" where
  "keyword_list =
     [(''REINDEX'', TK_REINDEX), (''INDEXED'', TK_INDEXED), (''INDEX'', TK_INDEX),
      (''DESC'', TK_DESC), (''ESCAPE'', TK_ESCAPE), (''EACH'', TK_EACH), (''CHECK'', TK_CHECK),
      (''KEY'', TK_KEY), (''BEFORE'', TK_BEFORE), (''FOREIGN'', TK_FOREIGN), (''FOR'', TK_FOR),
      (''IGNORE'', TK_IGNORE), (''REGEXP'', TK_LIKE_KW), (''EXPLAIN'', TK_EXPLAIN),
      (''INSTEAD'', TK_INSTEAD), (''ADD'', TK_ADD), (''DATABASE'', TK_DATABASE), (''AS'', TK_AS),
      (''SELECT'', TK_SELECT), (''TABLE'', TK_TABLE), (''LEFT'', TK_JOIN_KW), (''THEN'', TK_THEN),
      (''END'', TK_END), (''DEFERRABLE'', TK_DEFERRABLE), (''ELSE'', TK_ELSE),
      (''EXCEPT'', TK_EXCEPT), (''TRANSACTION'', TK_TRANSACTION), (''ACTION'', TK_ACTION),
      (''ON'', TK_ON), (''NATURAL'', TK_JOIN_KW), (''ALTER'', TK_ALTER), (''RAISE'', TK_RAISE),
      (''EXCLUSIVE'', TK_EXCLUSIVE), (''EXISTS'', TK_EXISTS), (''SAVEPOINT'', TK_SAVEPOINT),
      (''INTERSECT'', TK_INTERSECT), (''TRIGGER'', TK_TRIGGER), (''REFERENCES'', TK_REFERENCES),
      (''CONSTRAINT'', TK_CONSTRAINT), (''INTO'', TK_INTO), (''OFFSET'', TK_OFFSET),
      (''OF'', TK_OF), (''SET'', TK_SET), (''TEMPORARY'', TK_TEMP), (''TEMP'', TK_TEMP),
      (''OR'', TK_OR), (''UNIQUE'', TK_UNIQUE), (''QUERY'', TK_QUERY), (''WITHOUT'', TK_WITHOUT),
      (''WITH'', TK_WITH), (''OUTER'', TK_JOIN_KW), (''RELEASE'', TK_RELEASE),
      (''ATTACH'', TK_ATTACH), (''HAVING'', TK_HAVING), (''GROUP'', TK_GROUP),
      (''UPDATE'', TK_UPDATE), (''BEGIN'', TK_BEGIN), (''INNER'', TK_JOIN_KW),
      (''RECURSIVE'', TK_RECURSIVE), (''BETWEEN'', TK_BETWEEN), (''NOTNULL'', TK_NOTNULL),
      (''NOT'', TK_NOT), (''NO'', TK_NO), (''NULL'', TK_NULL), (''LIKE'', TK_LIKE_KW),
      (''CASCADE'', TK_CASCADE), (''ASC'', TK_ASC), (''DELETE'', TK_DELETE), (''CASE'', TK_CASE),
      (''COLLATE'', TK_COLLATE), (''CREATE'', TK_CREATE), (''CURRENT_DATE'', TK_CTIME_KW),
      (''DETACH'', TK_DETACH), (''IMMEDIATE'', TK_IMMEDIATE), (''JOIN'', TK_JOIN),
      (''INSERT'', TK_INSERT), (''MATCH'', TK_MATCH), (''PLAN'', TK_PLAN),
      (''ANALYZE'', TK_ANALYZE), (''PRAGMA'', TK_PRAGMA), (''ABORT'', TK_ABORT),
      (''VALUES'', TK_VALUES), (''VIRTUAL'', TK_VIRTUAL), (''LIMIT'', TK_LIMIT),
      (''WHEN'', TK_WHEN), (''WHERE'', TK_WHERE), (''RENAME'', TK_RENAME), (''AFTER'', TK_AFTER),
      (''REPLACE'', TK_REPLACE), (''AND'', TK_AND), (''DEFAULT'', TK_DEFAULT),
      (''AUTOINCREMENT'', TK_AUTOINCR), (''TO'', TK_TO), (''IN'', TK_IN), (''CAST'', TK_CAST),
      (''COLUMN'', TK_COLUMNKW), (''COMMIT'', TK_COMMIT), (''CONFLICT'', TK_CONFLICT),
      (''CROSS'', TK_JOIN_KW), (''CURRENT_TIMESTAMP'', TK_CTIME_KW),
      (''CURRENT_TIME'', TK_CTIME_KW), (''PRIMARY'', TK_PRIMARY), (''DEFERRED'', TK_DEFERRED),
      (''DISTINCT'', TK_DISTINCT), (''IS'', TK_IS), (''DROP'', TK_DROP), (''FAIL'', TK_FAIL),
      (''FROM'', TK_FROM), (''FULL'', TK_JOIN_KW), (''GLOB'', TK_LIKE_KW), (''BY'', TK_BY),
      (''IF'', TK_IF), (''ISNULL'', TK_ISNULL), (''ORDER'', TK_ORDER),
      (''RESTRICT'', TK_RESTRICT), (''RIGHT'', TK_JOIN_KW), (''ROLLBACK'', TK_ROLLBACK),
      (''ROW'', TK_ROW), (''UNION'', TK_UNION), (''USING'', TK_USING), (''VACUUM'', TK_VACUUM),
      (''VIEW'', TK_VIEW), (''INITIALLY'', TK_INITIALLY), (''ALL'', TK_ALL)]"

definition upper :: "u8 list \<Rightarrow> u8 list" where
  "upper z = map (\<lambda>c. c AND NOT 0x20) z"

definition keyword_lookup :: "u8 list \<Rightarrow> token" where
  "keyword_lookup z =
     (case map_of (map (\<lambda>(k, t). (ascii k, t)) keyword_list) (upper z) of None \<Rightarrow> TK_ID | Some t \<Rightarrow> t)"

text \<open>
  The tables describe these keywords: one walk along \<open>zText\<close>, whose offsets ascend, finds them all.
\<close>

fun walk :: "nat \<Rightarrow> string \<Rightarrow> nat list \<Rightarrow> nat list \<Rightarrow> string list \<Rightarrow> bool" where
  "walk p s (off # offs) (n # ns) (k # ks) =
     (p \<le> off \<and> take n (drop (off - p) s) = k \<and> length k = n \<and> walk off (drop (off - p) s) offs ns ks)"
| "walk p s [] [] [] = True"
| "walk p s _ _ _ = False"

lemma walk_nth:
  "walk p (drop p s) offs ns ks \<Longrightarrow> i < length ks \<Longrightarrow>
     take (ns ! i) (drop (offs ! i) s) = ks ! i \<and> length (ks ! i) = ns ! i"
proof (induction offs arbitrary: p ns ks i)
  case (Cons off offs)
  obtain n ns' k ks' where nk: "ns = n # ns'" "ks = k # ks'"
    using Cons.prems by (cases ns; cases ks) auto
  then have w: "walk off (drop off s) offs ns' ks'" "take n (drop off s) = k" "length k = n"
    using Cons.prems by auto
  show ?case
  proof (cases i)
    case (Suc j)
    with Cons.IH [OF w(1), of j] Cons.prems(2) nk show ?thesis by simp
  qed (use w nk in simp)
next
  case Nil
  then show ?case by (cases ns; cases ks) auto
qed

lemma tables_walk: "walk 0 zText aOffset aLen (map fst keyword_list)"
  by code_simp

lemma aCode_keywords: "aCode = map snd keyword_list"
  by (simp add: aCode_def keyword_list_def)

lemma length_tables [simp]: "length keyword_list = 124" "length aCode = 124" "length aLen = 124"
  by (simp_all add: keyword_list_def aCode_def aLen_def)

text \<open>The chain of its hash value reaches each keyword.\<close>

fun reach :: "nat list \<Rightarrow> nat \<Rightarrow> nat \<Rightarrow> nat \<Rightarrow> bool" where
  "reach nx 0 k i = False"
| "reach nx (Suc fuel) k i = (k \<noteq> 0 \<and> k \<le> 124 \<and> (k = Suc i \<or> reach nx fuel (nx ! (k - 1)) i))"

lemma charMap_code [code]: "charMap x = (if 65 \<le> x \<and> x \<le> 90 then x + 32 else x)"
  by (simp add: charMap_def UpperToLower_eq)

fun reach_all :: "nat list \<Rightarrow> nat list \<Rightarrow> nat \<Rightarrow> string list \<Rightarrow> bool" where
  "reach_all h nx i [] = True"
| "reach_all h nx i (k # ks) = (reach nx 8 (h ! keyword_hash (ascii k)) i \<and> reach_all h nx (Suc i) ks)"

lemma reach_all_nth: "reach_all h nx j ks \<Longrightarrow> i < length ks \<Longrightarrow> reach nx 8 (h ! keyword_hash (ascii (ks ! i))) (j + i)"
proof (induction h nx j ks arbitrary: i rule: reach_all.induct)
  case (2 h nx j k ks)
  then show ?case by (cases i) auto
qed simp

lemma tables_reach: "reach_all aHash aNext 0 (map fst keyword_list)"
  by code_simp

lemma keywords_distinct: "distinct (map fst keyword_list)"
  by code_simp

text \<open>Keywords are of capital letters and the underscore.\<close>

definition kw_char :: "u8 \<Rightarrow> bool" where
  "kw_char c \<longleftrightarrow> 65 \<le> c \<and> c \<le> 90 \<or> c = 95"

lemma keywords_letters: "list_all (\<lambda>k. 2 \<le> length k \<and> list_all kw_char (ascii k)) (map fst keyword_list)"
  by code_simp

lemma IdChar_iff: "IdChar x \<longleftrightarrow> sqlite3Isalnum x \<or> x = 36 \<or> x = 95 \<or> 128 \<le> x"
  unfolding IdChar_def Isalnum_iff
  by (rule CtypeMap_all [where Q = "\<lambda>x t. t AND 0x46 \<noteq> 0 \<longleftrightarrow>
        (48 \<le> x \<and> x \<le> 57 \<or> 65 \<le> x \<and> x \<le> 90 \<or> 97 \<le> x \<and> x \<le> 122) \<or> x = 36 \<or> x = 95 \<or> 128 \<le> x"]) code_simp

lemma charMap_upper: "IdChar x \<Longrightarrow> kw_char (x AND NOT 0x20) \<Longrightarrow> charMap (x AND NOT 0x20) = charMap x"
proof -
  have "sqlite3CtypeMap x AND 0x46 \<noteq> 0 \<longrightarrow> kw_char (x AND NOT 0x20) \<longrightarrow> charMap (x AND NOT 0x20) = charMap x"
    by (rule CtypeMap_all [where Q = "\<lambda>x t. t AND 0x46 \<noteq> 0 \<longrightarrow> kw_char (x AND NOT 0x20) \<longrightarrow>
          charMap (x AND NOT 0x20) = charMap x"]) code_simp
  then show "IdChar x \<Longrightarrow> kw_char (x AND NOT 0x20) \<Longrightarrow> charMap (x AND NOT 0x20) = charMap x"
    by (simp add: IdChar_def)
qed

lemma of_char_inj: "(of_char c :: u8) = of_char d \<longleftrightarrow> c = d"
proof
  assume *: "(of_char c :: u8) = of_char d"
  have u: "unat (of_char e :: u8) = of_char e" for e
  proof -
    have "(of_char e :: u8) = word_of_nat (of_char e)" by (simp only: of_nat_of_char)
    then have "unat (of_char e :: u8) = of_char e mod 256" by (simp only: unat_of_nat) simp
    then show ?thesis by (simp only: of_char_mod_256)
  qed
  have "(of_char c :: nat) = of_char d" using u [of c] u [of d] unfolding * by metis
  then show "c = d" by (simp only: of_char_eq_iff)
qed simp

lemma ascii_inj: "ascii s = ascii t \<longleftrightarrow> s = t"
  unfolding ascii_def using inj_map_eq_map [of "of_char :: char \<Rightarrow> u8" s t] by (simp add: inj_def of_char_inj)

abbreviation keyword :: "nat \<Rightarrow> u8 list" where
  "keyword i \<equiv> ascii (fst (keyword_list ! i))"

lemma keyword_match_iff: "i < 124 \<Longrightarrow> keyword_match z i \<longleftrightarrow> upper z = keyword i"
proof -
  assume i: "i < 124"
  have w: "take (aLen ! i) (drop (aOffset ! i) zText) = fst (keyword_list ! i) \<and> length (fst (keyword_list ! i)) = aLen ! i"
    using walk_nth [of 0 zText aOffset aLen "map fst keyword_list" i] tables_walk i by simp
  then have "zKW i (aLen ! i) = keyword i" by (simp add: zKW_def ascii_def take_map drop_map)
  moreover have "length (keyword i) = aLen ! i" using w by (simp add: ascii_def)
  moreover have "length (upper z) = length z" by (simp add: upper_def)
  ultimately show ?thesis unfolding keyword_match_def upper_def [symmetric] by metis
qed

lemma keyword_find_reach:
  "reach aNext f k i \<Longrightarrow> i < 124 \<Longrightarrow> upper z = keyword i \<Longrightarrow> keyword_find k z = Some i"
proof (induction f arbitrary: k)
  case (Suc f)
  from Suc.prems(1) have k: "k \<noteq> 0" "k \<le> 124" "k = Suc i \<or> reach aNext f (aNext ! (k - 1)) i" by auto
  show ?case
  proof (cases "k = Suc i")
    case True
    then show ?thesis using Suc.prems keyword_match_iff [of i z] by (subst keyword_find.simps) simp
  next
    case False
    have "keyword (k - 1) \<noteq> keyword i"
      using k(1,2) Suc.prems(2) False keywords_distinct nth_eq_iff_index_eq [of "map fst keyword_list" "k - 1" i]
      by (simp add: ascii_inj)
    then have "\<not> keyword_match z (k - 1)" using keyword_match_iff [of "k - 1" z] k(1,2) Suc.prems(3) by simp
    then show ?thesis using k False Suc.IH [OF _ Suc.prems(2,3)] by (subst keyword_find.simps) simp
  qed
qed simp

lemma keyword_find_None: "(\<And>i. i < 124 \<Longrightarrow> upper z \<noteq> keyword i) \<Longrightarrow> keyword_find k z = None"
proof (induction k z rule: keyword_find.induct)
  case (1 k z)
  show ?case
  proof (cases "k = 0 \<or> 124 < k")
    case False
    then have "k - 1 < 124" by linarith
    then have "\<not> keyword_match z (k - 1)" using keyword_match_iff [of "k - 1" z] 1(2) [of "k - 1"] by blast
    with 1 False show ?thesis by (subst keyword_find.simps) simp
  qed (simp add: keyword_find.simps)
qed

lemma keyword_hash_upper:
  assumes z: "list_all IdChar z" and i: "i < 124" "upper z = keyword i"
  shows "keyword_hash z = keyword_hash (keyword i)" and "2 \<le> length z"
proof -
  have l: "2 \<le> length (keyword i)" "list_all kw_char (keyword i)"
    using keywords_letters i(1) by (auto simp: list_all_length ascii_def)
  have len: "length (keyword i) = length z" using i(2) [symmetric] by (simp add: upper_def)
  with l show 2: "2 \<le> length z" by simp
  then have ne: "z \<noteq> []" by auto
  have *: "charMap (x AND NOT 0x20) = charMap x" if "x \<in> set z" for x
  proof (rule charMap_upper)
    show "IdChar x" using that z by (simp add: list_all_iff)
    have "x AND NOT 0x20 \<in> set (keyword i)" unfolding i(2) [symmetric] upper_def using that by (simp only: set_map image_eqI)
    then show "kw_char (x AND NOT 0x20)" using l(2) by (simp only: list_all_iff)
  qed
  have "charMap (hd (keyword i)) = charMap (hd z)" "charMap (last (keyword i)) = charMap (last z)"
    using * [of "hd z"] * [of "last z"] ne unfolding i(2) [symmetric] upper_def by (simp_all add: hd_map last_map)
  then show "keyword_hash z = keyword_hash (keyword i)" unfolding keyword_hash_def len by simp
qed

lemma keyword_lookup_Some:
  assumes "i < 124" "upper z = keyword i"
  shows "keyword_lookup z = aCode ! i"
proof -
  let ?m = "map (\<lambda>(k, t). (ascii k, t)) keyword_list"
  have "distinct (map ascii (map fst keyword_list))"
    using keywords_distinct by (simp only: distinct_map) (simp add: inj_on_def ascii_inj)
  moreover have "map ascii (map fst keyword_list) = map fst ?m" by (simp add: case_prod_beta comp_def)
  moreover have "?m ! i = (upper z, aCode ! i)"
    using assms by (simp add: aCode_keywords case_prod_beta)
  then have "(upper z, aCode ! i) \<in> set ?m"
    using assms(1) by (metis length_map length_tables(1) nth_mem)
  ultimately have "map_of ?m (upper z) = Some (aCode ! i)" by (metis map_of_eq_Some_iff)
  then show ?thesis by (simp add: keyword_lookup_def)
qed

lemma keyword_lookup_None:
  assumes "\<And>i. i < 124 \<Longrightarrow> upper z \<noteq> keyword i"
  shows "keyword_lookup z = TK_ID"
proof -
  let ?m = "map (\<lambda>(k, t). (ascii k, t)) keyword_list"
  have "map_of ?m (upper z) = None"
  proof (rule ccontr)
    assume "map_of ?m (upper z) \<noteq> None"
    then obtain k where "k \<in> set keyword_list" "upper z = ascii (fst k)"
      by (auto simp: map_of_eq_None_iff case_prod_beta)
    then obtain i where "i < 124" "upper z = keyword i" by (auto simp: in_set_conv_nth)
    with assms show False by blast
  qed
  then show ?thesis by (simp add: keyword_lookup_def)
qed

lemma keywordCode_eq:
  assumes "list_all IdChar z"
  shows "sqlite3KeywordCode z = keyword_lookup z"
proof (cases "\<exists>i < 124. upper z = keyword i")
  case True
  then obtain i where i: "i < 124" "upper z = keyword i" by blast
  have "reach aNext 8 (aHash ! keyword_hash (keyword i)) i"
    using reach_all_nth [OF tables_reach, of i] i(1) by simp
  then have "keyword_find (aHash ! keyword_hash z) z = Some i"
    using keyword_find_reach [OF _ i] keyword_hash_upper(1) [OF assms i] by simp
  then show ?thesis
    using keyword_hash_upper(2) [OF assms i] keyword_lookup_Some [OF i]
    by (simp add: sqlite3KeywordCode_def keywordCode_def)
next
  case False
  then show ?thesis
    using keyword_find_None [of z] keyword_lookup_None [of z]
    by (simp add: sqlite3KeywordCode_def keywordCode_def)
qed

text \<open>
  C36: On a text of identifier characters, the recogniser (hash, chain, and packed texts) answers what
  a search of the list of keywords for the capitalised text answers, \<open>TK_ID\<close> when there is none.
\<close>

theorem keywordCode_lookup:
  assumes "list_all IdChar z"
  shows "sqlite3KeywordCode z = keyword_lookup z"
  using assms by (rule keywordCode_eq)

lemma keywordCode_lookup_witness:
  "sqlite3KeywordCode (ascii ''Current_Time'') = keyword_lookup (ascii ''Current_Time'')"
proof -
  have "list_all IdChar (ascii ''Current_Time'')" by code_simp
  then show ?thesis by (rule keywordCode_lookup)
qed

end
