(* ===== verification/Tokenize.thy ===== *)
theory Tokenize
  imports Keywords Strings
begin

text \<open>
  The tokenizer of tokenize.c: \<open>sqlite3GetToken\<close>, one definition per case of its switch.
\<close>

section \<open>Tokens\<close>

text \<open>
  The text is a zero-terminated string, given by its bytes before the terminator: \<open>cget z i\<close> is
  \<open>z[i]\<close>. \<open>run P z i\<close> is where \<open>for(; P(z[i]); i++)\<close> ends.
\<close>

definition run :: "(u8 \<Rightarrow> bool) \<Rightarrow> u8 list \<Rightarrow> nat \<Rightarrow> nat" where
  "run P z i = i + length (takeWhile P (drop i z))"

definition ident :: "u8 list \<Rightarrow> nat \<Rightarrow> token \<times> nat" where
  "ident z i = (TK_ID, run IdChar z i)"

definition tok_space :: "u8 list \<Rightarrow> token \<times> nat" where
  "tok_space z = (TK_SPACE, run sqlite3Isspace z 1)"

definition tok_minus :: "u8 list \<Rightarrow> token \<times> nat" where
  "tok_minus z =
     (if cget z 1 = 45 then (TK_SPACE, run (\<lambda>c. c \<noteq> 0 \<and> c \<noteq> 10) z 2) else (TK_MINUS, 1))"

text \<open>\<open>for(; (c!='*' || z[i]!='/') && (c=z[i])!=0; i++){}\<close>\<close>

lemma cget_length: "cget z i \<noteq> 0 \<Longrightarrow> i < length z"
  by (auto simp: cget_def split: if_splits)

function comment_loop :: "u8 list \<Rightarrow> u8 \<Rightarrow> nat \<Rightarrow> u8 \<times> nat" where
  "comment_loop z c i =
     (if c \<noteq> 42 \<or> cget z i \<noteq> 47
      then (if cget z i \<noteq> 0 then comment_loop z (cget z i) (i + 1) else (0, i))
      else (c, i))"
  by pat_completeness auto
termination
  by (relation "measure (\<lambda>(z, c, i). length z - i)") (auto dest: cget_length)

definition tok_slash :: "u8 list \<Rightarrow> token \<times> nat" where
  "tok_slash z =
     (if cget z 1 \<noteq> 42 \<or> cget z 2 = 0 then (TK_SLASH, 1)
      else (let (c, i) = comment_loop z (cget z 2) 3 in (TK_SPACE, if c \<noteq> 0 then i + 1 else i)))"

definition tok_eq :: "u8 list \<Rightarrow> token \<times> nat" where
  "tok_eq z = (TK_EQ, if cget z 1 = 61 then 2 else 1)"

definition tok_lt :: "u8 list \<Rightarrow> token \<times> nat" where
  "tok_lt z =
     (if cget z 1 = 61 then (TK_LE, 2) else if cget z 1 = 62 then (TK_NE, 2)
      else if cget z 1 = 60 then (TK_LSHIFT, 2) else (TK_LT, 1))"

definition tok_gt :: "u8 list \<Rightarrow> token \<times> nat" where
  "tok_gt z =
     (if cget z 1 = 61 then (TK_GE, 2) else if cget z 1 = 62 then (TK_RSHIFT, 2) else (TK_GT, 1))"

definition tok_bang :: "u8 list \<Rightarrow> token \<times> nat" where
  "tok_bang z = (if cget z 1 \<noteq> 61 then (TK_ILLEGAL, 1) else (TK_NE, 2))"

definition tok_pipe :: "u8 list \<Rightarrow> token \<times> nat" where
  "tok_pipe z = (if cget z 1 \<noteq> 124 then (TK_BITOR, 1) else (TK_CONCAT, 2))"

function quote_loop :: "u8 list \<Rightarrow> u8 \<Rightarrow> nat \<Rightarrow> u8 \<times> nat" where
  "quote_loop z delim i =
     (if cget z i \<noteq> 0 then
        if cget z i = delim then (if cget z (i + 1) = delim then quote_loop z delim (i + 2) else (cget z i, i))
        else quote_loop z delim (i + 1)
      else (0, i))"
  by pat_completeness auto
termination
  by (relation "measure (\<lambda>(z, d, i). length z - i)") (auto dest: cget_length)

definition tok_quote :: "u8 list \<Rightarrow> token \<times> nat" where
  "tok_quote z =
     (let (c, i) = quote_loop z (cget z 0) 1
      in if c = 39 then (TK_STRING, i + 1) else if c \<noteq> 0 then (TK_ID, i + 1) else (TK_ILLEGAL, i))"

text \<open>The optional fraction and exponent after the digits, at offset \<open>i\<close>, and what follows.\<close>

definition tok_float :: "u8 list \<Rightarrow> token \<times> nat \<Rightarrow> token \<times> nat" where
  "tok_float z ti =
     (let (t, i) = ti;
          (t, i) = (if cget z i = 46 then (TK_FLOAT, run sqlite3Isdigit z (i + 1)) else (t, i));
          (t, i) = (if (cget z i = 101 \<or> cget z i = 69) \<and>
                       (sqlite3Isdigit (cget z (i + 1)) \<or>
                        (cget z (i + 1) = 43 \<or> cget z (i + 1) = 45) \<and> sqlite3Isdigit (cget z (i + 2)))
                    then (TK_FLOAT, run sqlite3Isdigit z (i + 2)) else (t, i))
      in if IdChar (cget z i) then (TK_ILLEGAL, run IdChar z i) else (t, i))"

definition tok_number :: "u8 list \<Rightarrow> token \<times> nat" where
  "tok_number z =
     (if cget z 0 = 48 \<and> (cget z 1 = 120 \<or> cget z 1 = 88) \<and> sqlite3Isxdigit (cget z 2)
      then (TK_INTEGER, run sqlite3Isxdigit z 3)
      else tok_float z (TK_INTEGER, run sqlite3Isdigit z 0))"

definition tok_dot :: "u8 list \<Rightarrow> token \<times> nat" where
  "tok_dot z = (if \<not> sqlite3Isdigit (cget z 1) then (TK_DOT, 1) else tok_number z)"

function bracket_loop :: "u8 list \<Rightarrow> u8 \<Rightarrow> nat \<Rightarrow> u8 \<times> nat" where
  "bracket_loop z c i =
     (if c \<noteq> 93 then (if cget z i \<noteq> 0 then bracket_loop z (cget z i) (i + 1) else (0, i)) else (c, i))"
  by pat_completeness auto
termination
  by (relation "measure (\<lambda>(z, c, i). length z - i)") (auto dest: cget_length)

definition tok_bracket :: "u8 list \<Rightarrow> token \<times> nat" where
  "tok_bracket z =
     (let (c, i) = bracket_loop z (cget z 0) 1 in (if c = 93 then TK_ID else TK_ILLEGAL, i))"

definition tok_varnum :: "u8 list \<Rightarrow> token \<times> nat" where
  "tok_varnum z = (TK_VARIABLE, run sqlite3Isdigit z 1)"

text \<open>The result is \<open>n\<close>, whether the token is illegal, and \<open>i\<close>.\<close>

function var_loop :: "u8 list \<Rightarrow> nat \<Rightarrow> nat \<Rightarrow> nat \<times> bool \<times> nat" where
  "var_loop z i n =
     (let c = cget z i
      in if c \<noteq> 0 then
           if IdChar c then var_loop z (i + 1) (n + 1)
           else if c = 40 \<and> n > 0 then
             (let i = run (\<lambda>c. c \<noteq> 0 \<and> \<not> sqlite3Isspace c \<and> c \<noteq> 41) z (i + 1)
              in if cget z i = 41 then (n, False, i + 1) else (n, True, i))
           else if c = 58 \<and> cget z (i + 1) = 58 then var_loop z (i + 2) n
           else (n, False, i)
         else (n, False, i))"
  by pat_completeness auto
termination
  by (relation "measure (\<lambda>(z, i, n). length z - i)") (auto simp: cget_def split: if_splits)

definition tok_variable :: "u8 list \<Rightarrow> token \<times> nat" where
  "tok_variable z =
     (let (n, ill, i) = var_loop z 1 0
      in (if n = 0 \<or> ill then TK_ILLEGAL else TK_VARIABLE, i))"

definition tok_keyword :: "u8 list \<Rightarrow> token \<times> nat" where
  "tok_keyword z =
     (let i = run (\<lambda>c. aiClass c \<le> CC_KYWD) z 1
      in if IdChar (cget z i) then ident z (i + 1) else (keywordCode (take i z), i))"

definition tok_x :: "u8 list \<Rightarrow> token \<times> nat" where
  "tok_x z =
     (if cget z 1 = 39 then
        (let i = run sqlite3Isxdigit z 2;
             (t, i) = (if cget z i \<noteq> 39 \<or> i mod 2 \<noteq> 0
                       then (TK_ILLEGAL, run (\<lambda>c. c \<noteq> 0 \<and> c \<noteq> 39) z i) else (TK_BLOB, i))
         in (t, if cget z i \<noteq> 0 then i + 1 else i))
      else ident z 1)"

definition sqlite3GetToken :: "u8 list \<Rightarrow> token \<times> nat" where
  "sqlite3GetToken z =
     (let k = aiClass (cget z 0)
      in if k = CC_SPACE then tok_space z
         else if k = CC_MINUS then tok_minus z
         else if k = CC_LP then (TK_LP, 1)
         else if k = CC_RP then (TK_RP, 1)
         else if k = CC_SEMI then (TK_SEMI, 1)
         else if k = CC_PLUS then (TK_PLUS, 1)
         else if k = CC_STAR then (TK_STAR, 1)
         else if k = CC_SLASH then tok_slash z
         else if k = CC_PERCENT then (TK_REM, 1)
         else if k = CC_EQ then tok_eq z
         else if k = CC_LT then tok_lt z
         else if k = CC_GT then tok_gt z
         else if k = CC_BANG then tok_bang z
         else if k = CC_PIPE then tok_pipe z
         else if k = CC_COMMA then (TK_COMMA, 1)
         else if k = CC_AND then (TK_BITAND, 1)
         else if k = CC_TILDA then (TK_BITNOT, 1)
         else if k = CC_QUOTE then tok_quote z
         else if k = CC_DOT then tok_dot z
         else if k = CC_DIGIT then tok_number z
         else if k = CC_QUOTE2 then tok_bracket z
         else if k = CC_VARNUM then tok_varnum z
         else if k = CC_DOLLAR \<or> k = CC_VARALPHA then tok_variable z
         else if k = CC_KYWD then tok_keyword z
         else if k = CC_X then tok_x z
         else if k = CC_ID then ident z 1
         else (TK_ILLEGAL, 1))"

declare comment_loop.simps [simp del] quote_loop.simps [simp del] bracket_loop.simps [simp del]
  var_loop.simps [simp del]

section \<open>Every token ends within the text\<close>

lemma run_bounds: "i \<le> length z \<Longrightarrow> i \<le> run P z i \<and> run P z i \<le> length z"
  using length_takeWhile_le [of P "drop i z"] by (simp add: run_def)

lemma run_Suc: "\<not> P 0 \<Longrightarrow> P (cget z i) \<Longrightarrow> Suc i \<le> run P z i"
proof -
  assume a: "\<not> P 0" "P (cget z i)"
  then have "i < length z" by (auto simp: cget_def split: if_splits)
  then have "drop i z = z ! i # drop (Suc i) z" by (simp add: Cons_nth_drop_Suc)
  with a \<open>i < length z\<close> show ?thesis by (simp add: run_def cget_def)
qed

lemma comment_bounds:
  "i \<le> length z \<Longrightarrow> comment_loop z c i = (c', i') \<Longrightarrow> i \<le> i' \<and> i' \<le> length z \<and> (c' \<noteq> 0 \<longrightarrow> i' < length z)"
proof (induction z c i rule: comment_loop.induct)
  case (1 z c i)
  show ?case
  proof (cases "c \<noteq> 42 \<or> cget z i \<noteq> 47")
    case True
    show ?thesis
    proof (cases "cget z i = 0")
      case False
      then have "i + 1 \<le> length z" using cget_length [of z i] by simp
      moreover have "comment_loop z (cget z i) (i + 1) = (c', i')"
        using 1(3) True False by (subst (asm) comment_loop.simps) simp
      ultimately have "i + 1 \<le> i' \<and> i' \<le> length z \<and> (c' \<noteq> 0 \<longrightarrow> i' < length z)"
        by (rule 1(1) [OF True False])
      then show ?thesis by simp
    qed (use 1(2,3) True in \<open>simp add: comment_loop.simps\<close>)
  next
    case False
    then show ?thesis using 1(3) cget_length [of z i] by (simp add: comment_loop.simps)
  qed
qed

lemma quote_bounds:
  "i \<le> length z \<Longrightarrow> quote_loop z d i = (c', i') \<Longrightarrow> i \<le> i' \<and> i' \<le> length z \<and> (c' \<noteq> 0 \<longrightarrow> i' < length z)"
proof (induction z d i rule: quote_loop.induct)
  case (1 z d i)
  note s = 1(4) [unfolded quote_loop.simps [of z d i] Let_def]
  show ?case
  proof (cases "cget z i = 0")
    case False
    note i = cget_length [OF False]
    show ?thesis
    proof (cases "cget z i = d")
      case True
      show ?thesis
      proof (cases "cget z (i + 1) = d")
        case d: True
        have "i + 2 \<le> length z" using cget_length [of z "i + 1"] d True False by simp
        then show ?thesis using 1(1) [OF False True d] s d True False by simp
      qed (use s True False i in auto)
    next
      case d: False
      show ?thesis using 1(2) [OF False d] s d False i by simp
    qed
  qed (use s 1(3) in simp)
qed

lemma bracket_bounds:
  "i \<le> length z \<Longrightarrow> bracket_loop z c i = (c', i') \<Longrightarrow> i \<le> i' \<and> i' \<le> length z"
proof (induction z c i rule: bracket_loop.induct)
  case (1 z c i)
  then show ?case
    using cget_length [of z i] bracket_loop.simps [of z c i] by (auto split: if_splits)
qed

lemma var_bounds:
  "i \<le> length z \<Longrightarrow> var_loop z i n = (n', ill, i') \<Longrightarrow> i \<le> i' \<and> i' \<le> length z"
proof (induction z i n rule: var_loop.induct)
  case (1 z i n)
  note s = 1(4) [unfolded var_loop.simps [of z i n] Let_def]
  show ?case
  proof (cases "cget z i = 0")
    case False
    note i = cget_length [OF False]
    let ?j = "run (\<lambda>c. c \<noteq> 0 \<and> \<not> sqlite3Isspace c \<and> c \<noteq> 41) z (i + 1)"
    have j: "i + 1 \<le> ?j" "?j \<le> length z" using run_bounds [of "i + 1" z] i by auto
    consider "IdChar (cget z i)" | "\<not> IdChar (cget z i)" "cget z i = 40 \<and> n > 0"
      | "\<not> IdChar (cget z i)" "\<not> (cget z i = 40 \<and> n > 0)" "cget z i = 58 \<and> cget z (i + 1) = 58"
      | "\<not> IdChar (cget z i)" "\<not> (cget z i = 40 \<and> n > 0)" "\<not> (cget z i = 58 \<and> cget z (i + 1) = 58)"
      by blast
    then show ?thesis
    proof cases
      case 1
      then show ?thesis using "1.IH"(1) [OF refl False] s i False by simp
    next
      case 2
      then show ?thesis using s j False cget_length [of z ?j] by (auto split: if_splits)
    next
      case 3
      then have "i + 2 \<le> length z" using cget_length [of z "i + 1"] by simp
      then show ?thesis using "1.IH"(2) [OF refl False 3] s False 3 by simp
    next
      case 4
      then show ?thesis using s i False by auto
    qed
  qed (use s 1(3) in simp)
qed


text \<open>Each case leaves at least one byte, and no byte after the terminator, in the token.\<close>

definition in_text :: "u8 list \<Rightarrow> token \<times> nat \<Rightarrow> bool" where
  "in_text z ti \<longleftrightarrow> 1 \<le> snd ti \<and> snd ti \<le> length z"

lemma run_in_text: "1 \<le> i \<Longrightarrow> i \<le> length z \<Longrightarrow> in_text z (t, run P z i)"
  using run_bounds [of i z P] by (simp add: in_text_def)

lemma nth1_in: "cget z 1 \<noteq> 0 \<Longrightarrow> 2 \<le> length z"
  using cget_length [of z 1] by simp

lemma tok_float_in_text:
  assumes "1 \<le> i \<or> cget z i = 46" "i \<le> length z"
  shows "in_text z (tok_float z (t, i))"
proof -
  define fi where "fi = (if cget z i = 46 then (TK_FLOAT, run sqlite3Isdigit z (i + 1)) else (t, i))"
  have "1 \<le> snd fi \<and> snd fi \<le> length z"
    using assms run_bounds [of "i + 1" z sqlite3Isdigit] cget_length [of z i] by (auto simp: fi_def)
  moreover obtain t1 i1 where fi: "fi = (t1, i1)" by fastforce
  ultimately have i1: "1 \<le> i1" "i1 \<le> length z" by simp_all
  define e where "e \<longleftrightarrow> (cget z i1 = 101 \<or> cget z i1 = 69) \<and>
     (sqlite3Isdigit (cget z (i1 + 1)) \<or>
      (cget z (i1 + 1) = 43 \<or> cget z (i1 + 1) = 45) \<and> sqlite3Isdigit (cget z (i1 + 2)))"
  have "cget z (i1 + 1) \<noteq> 0" if e
    using that by (auto simp: e_def Isdigit_iff)
  then have "i1 + 2 \<le> length z" if e using that cget_length [of z "i1 + 1"] by simp
  then have e2: "1 \<le> snd (if e then (TK_FLOAT, run sqlite3Isdigit z (i1 + 2)) else (t1, i1)) \<and>
      snd (if e then (TK_FLOAT, run sqlite3Isdigit z (i1 + 2)) else (t1, i1)) \<le> length z"
    using i1 run_bounds [of "i1 + 2" z sqlite3Isdigit] by auto
  obtain t2 i2 where ti2: "(if e then (TK_FLOAT, run sqlite3Isdigit z (i1 + 2)) else (t1, i1)) = (t2, i2)" by fastforce
  with e2 have "1 \<le> i2" "i2 \<le> length z" by simp_all
  then show ?thesis
    unfolding tok_float_def Let_def prod.case fi_def [symmetric] fi e_def [symmetric] ti2
    using run_in_text [of i2 z] by (auto simp: in_text_def)
qed

lemma tok_number_in_text:
  assumes "sqlite3Isdigit (cget z 0) \<or> cget z 0 = 46"
  shows "in_text z (tok_number z)"
proof -
  have 0: "0 < length z" using assms cget_length [of z 0] by (auto simp: Isdigit_iff)
  have x: "in_text z (TK_INTEGER, run sqlite3Isxdigit z 3)" if "sqlite3Isxdigit (cget z 2)"
  proof -
    have "cget z 2 \<noteq> 0" using that by (auto simp: Isxdigit_iff)
    then show ?thesis using cget_length [of z 2] by (intro run_in_text) simp_all
  qed
  have r: "run sqlite3Isdigit z 0 \<le> length z" using run_bounds [of 0 z] by simp
  have "1 \<le> run sqlite3Isdigit z 0 \<or> cget z (run sqlite3Isdigit z 0) = 46"
  proof (cases "sqlite3Isdigit (cget z 0)")
    case True
    then show ?thesis using run_Suc [of sqlite3Isdigit z 0] by (simp add: Isdigit_iff)
  next
    case False
    then have "run sqlite3Isdigit z 0 = 0" using 0 by (cases z) (auto simp: run_def cget_def)
    with False assms show ?thesis by simp
  qed
  from tok_float_in_text [OF this r] x show ?thesis by (simp add: tok_number_def)
qed

lemma tok_slash_in_text: "cget z 0 \<noteq> 0 \<Longrightarrow> in_text z (tok_slash z)"
proof -
  assume 0: "cget z 0 \<noteq> 0"
  obtain c i where c: "comment_loop z (cget z 2) 3 = (c, i)" by fastforce
  have "3 \<le> i \<and> i \<le> length z \<and> (c \<noteq> 0 \<longrightarrow> i < length z)" if "cget z 2 \<noteq> 0"
    using comment_bounds [OF _ c] cget_length [OF that] by simp
  then show ?thesis unfolding tok_slash_def c prod.case Let_def in_text_def using cget_length [OF 0] by (auto simp: Suc_le_eq)
qed

lemma tok_quote_in_text: "cget z 0 \<noteq> 0 \<Longrightarrow> in_text z (tok_quote z)"
proof -
  assume 0: "cget z 0 \<noteq> 0"
  obtain c i where c: "quote_loop z (cget z 0) 1 = (c, i)" by fastforce
  show ?thesis unfolding tok_quote_def c prod.case Let_def in_text_def
    using quote_bounds [OF _ c] cget_length [OF 0] by (auto simp: Suc_le_eq)
qed

lemma tok_bracket_in_text: "cget z 0 \<noteq> 0 \<Longrightarrow> in_text z (tok_bracket z)"
proof -
  assume 0: "cget z 0 \<noteq> 0"
  obtain c i where c: "bracket_loop z (cget z 0) 1 = (c, i)" by fastforce
  show ?thesis unfolding tok_bracket_def c prod.case Let_def in_text_def
    using bracket_bounds [OF _ c] cget_length [OF 0] by (simp add: Suc_le_eq)
qed

lemma tok_variable_in_text: "cget z 0 \<noteq> 0 \<Longrightarrow> in_text z (tok_variable z)"
proof -
  assume 0: "cget z 0 \<noteq> 0"
  obtain n ill i where c: "var_loop z 1 0 = (n, ill, i)" by (metis prod_cases3)
  show ?thesis unfolding tok_variable_def c prod.case Let_def in_text_def
    using var_bounds [OF _ c] cget_length [OF 0] by (simp add: Suc_le_eq)
qed

lemma tok_keyword_in_text: "cget z 0 \<noteq> 0 \<Longrightarrow> in_text z (tok_keyword z)"
proof -
  assume 0: "cget z 0 \<noteq> 0"
  let ?i = "run (\<lambda>c. aiClass c \<le> CC_KYWD) z 1"
  have i: "1 \<le> ?i" "?i \<le> length z" using run_bounds [of 1 z] cget_length [OF 0] by simp_all
  have "\<not> IdChar 0" by (simp add: IdChar_iff Isalnum_iff)
  then have "?i < length z" if "IdChar (cget z ?i)" using that cget_length [of z ?i] by metis
  then show ?thesis
    unfolding tok_keyword_def Let_def ident_def using i run_in_text [of "?i + 1" z] by (auto simp: in_text_def)
qed

lemma tok_x_in_text: "cget z 0 \<noteq> 0 \<Longrightarrow> in_text z (tok_x z)"
proof -
  assume 0: "cget z 0 \<noteq> 0"
  have step: "in_text z (t, if cget z i \<noteq> 0 then i + 1 else i)" if "1 \<le> i" "i \<le> length z" for t i
    using that cget_length [of z i] by (auto simp: in_text_def)
  show ?thesis
  proof (cases "cget z 1 = 39")
    case True
    then have "2 \<le> length z" using nth1_in [of z] by simp
    then have i: "2 \<le> run sqlite3Isxdigit z 2" "run sqlite3Isxdigit z 2 \<le> length z"
      using run_bounds [of 2 z] by simp_all
    let ?j = "run (\<lambda>c. c \<noteq> 0 \<and> c \<noteq> 39) z (run sqlite3Isxdigit z 2)"
    have j: "1 \<le> ?j" "?j \<le> length z" using run_bounds [OF i(2)] i(1) by (meson le_trans one_le_numeral)+
    define e where "e = (cget z (run sqlite3Isxdigit z 2) \<noteq> 39 \<or> run sqlite3Isxdigit z 2 mod 2 \<noteq> 0)"
    obtain t i where ti: "(if e then (TK_ILLEGAL, ?j) else (TK_BLOB, run sqlite3Isxdigit z 2)) = (t, i)" by fastforce
    then have "1 \<le> i" "i \<le> length z" using i j by (auto split: if_splits)
    then show ?thesis
      unfolding tok_x_def Let_def if_P [OF True] e_def [symmetric] ti prod.case by (rule step)
  next
    case False
    then show ?thesis using run_in_text [of 1 z] cget_length [OF 0] by (simp add: tok_x_def ident_def)
  qed
qed

text \<open>The class of every character, checked in one pass over the table.\<close>

fun class_all :: "(u8 \<Rightarrow> nat \<Rightarrow> bool) \<Rightarrow> u8 \<Rightarrow> nat list \<Rightarrow> bool" where
  "class_all Q i [] = True"
| "class_all Q i (t # ts) = (Q i t \<and> class_all Q (i + 1) ts)"

lemma class_all_nth: "class_all Q i ts \<Longrightarrow> k < length ts \<Longrightarrow> Q (i + of_nat k) (ts ! k)"
proof (induction ts arbitrary: i k)
  case (Cons t ts)
  then show ?case by (cases k) (auto simp: add.assoc [symmetric])
qed simp

lemma length_aiClass [simp]: "length aiClass_table = 256"
  by (simp add: aiClass_table_def)

lemma aiClass_all: "class_all Q 0 aiClass_table \<Longrightarrow> Q x (aiClass x)"
  using class_all_nth [of Q 0 aiClass_table "unat x"] unsigned_less [of x]
  by (simp add: aiClass_def)

lemma aiClass_digit: "aiClass c = CC_DIGIT \<longleftrightarrow> 48 \<le> c \<and> c \<le> 57"
  by (rule aiClass_all [where Q = "\<lambda>c k. k = CC_DIGIT \<longleftrightarrow> 48 \<le> c \<and> c \<le> 57"]) code_simp

lemma aiClass_dot: "aiClass c = CC_DOT \<longleftrightarrow> c = 46"
  by (rule aiClass_all [where Q = "\<lambda>c k. k = CC_DOT \<longleftrightarrow> c = 46"]) code_simp

lemma getToken_in_text:
  assumes 0: "cget z 0 \<noteq> 0"
  shows "in_text z (sqlite3GetToken z)"
proof -
  have 1: "1 \<le> length z" using cget_length [OF 0] by (simp add: Suc_le_eq)
  note 2 = nth1_in [of z]
  have one: "in_text z (t, Suc 0)" for t using 1 by (simp add: in_text_def)
  have "in_text z (tok_space z)" "in_text z (tok_varnum z)" "in_text z (ident z 1)"
    using 1 by (simp_all add: tok_space_def tok_varnum_def ident_def run_in_text)
  moreover have "in_text z (tok_minus z)"
    using 1 2 by (auto simp: tok_minus_def intro: run_in_text one)
  moreover have "in_text z (tok_eq z)" "in_text z (tok_lt z)" "in_text z (tok_gt z)" "in_text z (tok_bang z)" "in_text z (tok_pipe z)"
    using 1 2 by (auto simp: tok_eq_def tok_lt_def tok_gt_def tok_bang_def tok_pipe_def in_text_def)
  moreover have "in_text z (tok_number z)" if "aiClass (cget z 0) = CC_DIGIT"
    using that by (intro tok_number_in_text) (simp add: aiClass_digit Isdigit_iff)
  moreover have "in_text z (tok_dot z)" if "aiClass (cget z 0) = CC_DOT"
    using that tok_number_in_text [of z] one by (simp add: aiClass_dot tok_dot_def)
  ultimately show ?thesis
    unfolding sqlite3GetToken_def Let_def
    using one tok_slash_in_text [OF 0] tok_quote_in_text [OF 0] tok_bracket_in_text [OF 0]
      tok_variable_in_text [OF 0] tok_keyword_in_text [OF 0] tok_x_in_text [OF 0] by auto
qed


section \<open>The token loop of the parser\<close>

text \<open>
  \<open>sqlite3RunParser\<close> hands the tokens other than spaces and comments to the generated parser, which
  is the parameter \<open>parse\<close> on the states of \<open>engine\<close>; \<open>ok\<close> tells whether it found no error and no
  allocation failed, \<open>intr\<close> whether an interrupt is pending at an offset. At the end of the text
  come \<open>TK_SEMI\<close>, unless it was the last token, and 0, with the text of the last token. The result
  is the reason to stop, the offset of the tail, and the state of the parser.
\<close>

datatype stop = FINISHED | PARSER_STOP | TOOBIG | INTERRUPT | UNRECOGNIZED

definition end_stage :: "u8 list \<Rightarrow> nat \<Rightarrow> nat option \<Rightarrow> nat" where
  "end_stage z pos lastTok =
     3 * (length z - pos) + (if lastTok = Some 0 then 0 else if lastTok = Some TK_SEMI then 1 else 2)"

function run_parser ::
  "('p \<Rightarrow> token \<Rightarrow> u8 list \<Rightarrow> 'p) \<Rightarrow> ('p \<Rightarrow> bool) \<Rightarrow> (nat \<Rightarrow> bool) \<Rightarrow> u8 list \<Rightarrow>
     nat \<Rightarrow> nat \<Rightarrow> cint \<Rightarrow> nat option \<Rightarrow> 'p \<Rightarrow> stop \<times> nat \<times> 'p" where
  "run_parser parse ok intr z pos n mxSqlLen lastTok engine =
     (if cget z pos \<noteq> 0 then
        (let (t, n) = sqlite3GetToken (drop pos z); mxSqlLen = mxSqlLen - int n
         in if mxSqlLen < 0 then (TOOBIG, pos, engine)
            else if t \<ge> TK_SPACE then
              (if intr pos then (INTERRUPT, pos, engine)
               else if t = TK_ILLEGAL then (UNRECOGNIZED, pos, engine)
               else run_parser parse ok intr z (pos + n) n mxSqlLen lastTok engine)
            else
              (let engine = parse engine t (take n (drop pos z))
               in if ok engine then run_parser parse ok intr z (pos + n) n mxSqlLen (Some t) engine
                  else (PARSER_STOP, pos + n, engine)))
      else if lastTok = Some 0 then (FINISHED, pos, engine)
      else
        (let t = (if lastTok = Some TK_SEMI then 0 else TK_SEMI);
             engine = parse engine t (take n (drop (pos - n) z))
         in if ok engine then run_parser parse ok intr z pos n mxSqlLen (Some t) engine
            else (PARSER_STOP, pos, engine)))"
  by pat_completeness auto

lemma getToken_advances:
  assumes "cget z pos \<noteq> 0" "sqlite3GetToken (drop pos z) = (t, n)"
  shows "1 \<le> n" "pos + n \<le> length z"
proof -
  have "cget (drop pos z) 0 \<noteq> 0" using assms(1) by (auto simp: cget_def split: if_splits)
  from getToken_in_text [OF this] assms(2) show "1 \<le> n" and "pos + n \<le> length z"
    using cget_length [OF assms(1)] by (auto simp: in_text_def)
qed

lemma end_stage_advance:
  assumes "cget z pos \<noteq> 0" "sqlite3GetToken (drop pos z) = (t, n)"
  shows "end_stage z (pos + n) l' < end_stage z pos l"
  using getToken_advances [OF assms] unfolding end_stage_def by auto

termination run_parser
proof (relation "measure (\<lambda>(parse, ok, intr, z, pos, n, mx, lastTok, engine). end_stage z pos lastTok)", goal_cases)
  case (2 parse ok intr z pos n mx lastTok engine x t m mx')
  then show ?case using end_stage_advance by (auto simp: prod_eq_iff)
next
  case (3 parse ok intr z pos n mx lastTok engine x t m mx' p')
  then show ?case using end_stage_advance by (auto simp: prod_eq_iff)
qed (auto simp: end_stage_def)


declare run_parser.simps [simp del]

section \<open>The tokens of a text\<close>

function lex :: "u8 list \<Rightarrow> (token \<times> u8 list) list" where
  "lex z =
     (if cget z 0 = 0 then []
      else (let (t, n) = sqlite3GetToken z in (t, take n z) # lex (drop n z)))"
  by pat_completeness auto
termination
proof (relation "measure length", goal_cases)
  case (2 z x t n)
  then show ?case using getToken_in_text [of z] cget_length [of z 0] by (auto simp: in_text_def prod_eq_iff)
qed simp

declare lex.simps [simp del]

lemma cstring_cget: "cstring z \<Longrightarrow> cget z i = 0 \<longleftrightarrow> length z \<le> i"
  by (auto simp: cstring_def cget_def in_set_conv_nth)

lemma cstring_drop: "cstring z \<Longrightarrow> cstring (drop n z)"
  by (auto simp: cstring_def dest: in_set_dropD)

lemma keywordCode_pos: "0 < keywordCode z"
proof -
  have "list_all (\<lambda>t. 0 < t) aCode" by (simp add: aCode_def)
  moreover have "i < 124" if "keyword_find k z = Some i" for k i
    using that by (induction k z rule: keyword_find.induct) (subst (asm) (2) keyword_find.simps, auto split: if_splits)
  ultimately show ?thesis by (auto simp: keywordCode_def list_all_length split: option.split)
qed

lemma getToken_pos: "0 < fst (sqlite3GetToken z)"
proof -
  have f: "0 < fst (tok_float z ti)" if "0 < fst ti" for ti
    using that by (auto simp: tok_float_def split_def Let_def)
  have "0 < fst (tok_number z)" using f by (simp add: tok_number_def)
  moreover from this have "0 < fst (tok_dot z)" by (simp add: tok_dot_def)
  moreover have "0 < fst (tok_x z)" by (auto simp: tok_x_def ident_def Let_def split_def)
  moreover have "0 < fst (tok_quote z)" by (auto simp: tok_quote_def split_def Let_def)
  moreover have "0 < fst (tok_slash z)" by (auto simp: tok_slash_def split_def Let_def)
  moreover have "0 < fst (tok_bracket z)" "0 < fst (tok_variable z)" by (auto simp: tok_bracket_def tok_variable_def split_def Let_def)
  moreover have "0 < fst (tok_keyword z)" using keywordCode_pos by (simp add: tok_keyword_def ident_def Let_def)
  moreover have "0 < fst (tok_space z)" "0 < fst (tok_minus z)" "0 < fst (tok_eq z)" "0 < fst (tok_lt z)" "0 < fst (tok_gt z)"
    "0 < fst (tok_bang z)" "0 < fst (tok_pipe z)" "0 < fst (tok_varnum z)" "0 < fst (ident z i)" for i
    by (simp_all add: tok_space_def tok_minus_def tok_eq_def tok_lt_def tok_gt_def tok_bang_def tok_pipe_def tok_varnum_def ident_def)
  ultimately show ?thesis unfolding sqlite3GetToken_def Let_def by auto
qed

text \<open>What the parser is given: the tokens but spaces, and the end of the input.\<close>

fun stream :: "nat option \<Rightarrow> u8 list \<Rightarrow> (token \<times> u8 list) list \<Rightarrow> (token \<times> u8 list) list" where
  "stream lastTok s [] = (if lastTok = Some TK_SEMI then [(0, s)] else [(TK_SEMI, s), (0, s)])"
| "stream lastTok s ((t, x) # ts) = (if t \<ge> TK_SPACE then stream lastTok x ts else (t, x) # stream (Some t) x ts)"

fun feed :: "('p \<Rightarrow> token \<Rightarrow> u8 list \<Rightarrow> 'p) \<Rightarrow> ('p \<Rightarrow> bool) \<Rightarrow> (token \<times> u8 list) list \<Rightarrow> 'p \<Rightarrow> stop \<times> 'p" where
  "feed parse ok [] e = (FINISHED, e)"
| "feed parse ok ((t, x) # ts) e = (let e = parse e t x in if ok e then feed parse ok ts e else (PARSER_STOP, e))"

lemma run_parser_at_end:
  assumes "cstring z" "l \<noteq> Some 0"
  shows "\<exists>p. run_parser parse ok intr z (length z) n mx l e =
      (fst (feed parse ok (stream l (take n (drop (length z - n) z)) []) e), p,
       snd (feed parse ok (stream l (take n (drop (length z - n) z)) []) e)) \<and> p = length z"
proof -
  have 0: "cget z (length z) = 0" using cstring_cget [OF assms(1)] by simp
  have fin: "run_parser parse ok intr z (length z) n mx (Some 0) e = (FINISHED, length z, e)" for e
    by (subst run_parser.simps) (simp add: 0)
  have semi: "run_parser parse ok intr z (length z) n mx (Some TK_SEMI) e =
      (let e = parse e 0 (take n (drop (length z - n) z)) in if ok e then (FINISHED, length z, e) else (PARSER_STOP, length z, e))" for e
    by (subst run_parser.simps) (simp add: 0 fin Let_def)
  show ?thesis
  proof (cases "l = Some TK_SEMI")
    case True
    then show ?thesis by (simp only: semi) (simp add: Let_def)
  next
    case False
    then show ?thesis
      using assms(2) by (subst run_parser.simps) (simp only: 0 semi if_False not_True_eq_False simp_thms Let_def stream.simps feed.simps fst_conv snd_conv, simp)
  qed
qed

lemma run_parser_stream_aux:
  "cstring z \<Longrightarrow> pos \<le> length z \<Longrightarrow> n \<le> pos \<Longrightarrow> l \<noteq> Some 0 \<Longrightarrow> int (length z - pos) \<le> mx \<Longrightarrow>
   TK_ILLEGAL \<notin> fst ` set (lex (drop pos z)) \<Longrightarrow>
   \<exists>p. run_parser parse ok (\<lambda>i. False) z pos n mx l e =
      (fst (feed parse ok (stream l (take n (drop (pos - n) z)) (lex (drop pos z))) e), p,
       snd (feed parse ok (stream l (take n (drop (pos - n) z)) (lex (drop pos z))) e)) \<and>
      (fst (feed parse ok (stream l (take n (drop (pos - n) z)) (lex (drop pos z))) e) = FINISHED \<longrightarrow> p = length z)"
proof (induction "length z - pos" arbitrary: pos n l mx e rule: less_induct)
  case less
  show ?case
  proof (cases "pos = length z")
    case True
    have "lex [] = []" by (simp add: lex.simps)
    then show ?thesis using run_parser_at_end [OF less.prems(1,4), of parse ok "\<lambda>i. False" n mx e] True by auto
  next
    case False
    then have c: "cget z pos \<noteq> 0" using cstring_cget [OF less.prems(1)] less.prems(2) by simp
    obtain t m where tm: "sqlite3GetToken (drop pos z) = (t, m)" by fastforce
    note adv = getToken_advances [OF c tm]
    have c0: "cget (drop pos z) 0 \<noteq> 0" using c by (auto simp: cget_def split: if_splits)
    have lex: "lex (drop pos z) = (t, take m (drop pos z)) # lex (drop (pos + m) z)"
      using c0 by (subst lex.simps) (simp add: tm add.commute)
    have t: "t \<noteq> TK_ILLEGAL" using less.prems(6) unfolding lex by auto
    have tpos: "t \<noteq> 0" using getToken_pos [of "drop pos z"] tm by simp
    have ih: "\<exists>p. run_parser parse ok (\<lambda>i. False) z (pos + m) m (mx - int m) l' e' =
      (fst (feed parse ok (stream l' (take m (drop pos z)) (lex (drop (pos + m) z))) e'), p,
       snd (feed parse ok (stream l' (take m (drop pos z)) (lex (drop (pos + m) z))) e')) \<and>
      (fst (feed parse ok (stream l' (take m (drop pos z)) (lex (drop (pos + m) z))) e') = FINISHED \<longrightarrow> p = length z)"
      if "l' \<noteq> Some 0" for l' e'
      using less.hyps [of "pos + m" m l' "mx - int m" e'] adv that less.prems(1,2,5,6) unfolding lex by simp
    have mx: "\<not> mx - int m < 0" using adv(2) less.prems(5) by linarith
    show ?thesis
      unfolding run_parser.simps [of parse ok "\<lambda>i. False" z pos n mx l e] lex
      using c tm mx t tpos ih [OF less.prems(4)] ih [of "Some t"] by (simp add: Let_def)
  qed
qed

lemma lex_concat:
  "cstring z \<Longrightarrow> concat (map snd (lex z)) = z \<and> (\<forall>x \<in> set (lex z). snd x \<noteq> [])"
proof (induction z rule: lex.induct)
  case (1 z)
  show ?case
  proof (cases "cget z 0 = 0")
    case True
    then show ?thesis using cstring_cget [OF 1(2), of 0] by (simp add: lex.simps)
  next
    case False
    obtain t n where tn: "sqlite3GetToken z = (t, n)" by fastforce
    have "1 \<le> n" "n \<le> length z" using getToken_in_text [OF False] tn by (simp_all add: in_text_def)
    then show ?thesis
      using 1(1) [OF False refl tn [symmetric]] cstring_drop [OF 1(2), of n] False tn by (subst (1 2) lex.simps) auto
  qed
qed


section \<open>The token of a literal\<close>

lemma run_span:
  assumes "drop i z = s @ rest" "list_all P s" "rest = [] \<or> \<not> P (hd rest)"
  shows "run P z i = i + length s"
proof -
  have "takeWhile P (s @ rest) = s"
    using assms(2,3) by (cases rest) (auto simp: takeWhile_append list_all_iff)
  then show ?thesis by (simp add: run_def assms(1))
qed

lemma cget_append: "cget (s @ rest) i = (if i < length s then s ! i else cget rest (i - length s))"
  by (auto simp: cget_def nth_append)

lemma cget_0: "cget z 0 = (if z = [] then 0 else hd z)"
  by (cases z) auto

lemma cget_drop: "cget (drop i z) j = cget z (i + j)"
  by (auto simp: cget_def)

lemma quote_loop_double:
  "drop i z = double_quote q s @ q # rest \<Longrightarrow> q \<noteq> 0 \<Longrightarrow> cstring s \<Longrightarrow> rest = [] \<or> hd rest \<noteq> q \<Longrightarrow>
     quote_loop z q i = (q, i + length (double_quote q s))"
proof (induction s arbitrary: i)
  case Nil
  then have c: "cget z i = q" "cget z (i + 1) = cget rest 0"
    using cget_drop [of i z 0] cget_drop [of i z 1] by simp_all
  have "cget rest 0 \<noteq> q" using Nil.prems(2,4) by (auto simp: cget_0)
  with c Nil.prems(2) show ?case by (simp add: quote_loop.simps [of z q i])
next
  case (Cons a s)
  show ?case
  proof (cases "a = q")
    case True
    then have d: "drop i z = q # q # double_quote q s @ q # rest" using Cons.prems(1) by simp
    have c: "cget z i = q" "cget z (i + 1) = q"
      using cget_drop [of i z 0] cget_drop [of i z 1] unfolding d by simp_all
    have "drop (i + 2) z = double_quote q s @ q # rest"
      using drop_drop [of 2 i z] unfolding d by (simp add: add.commute)
    from Cons.IH [OF this] Cons.prems(2,3,4) c True show ?thesis by (simp add: quote_loop.simps [of z q i])
  next
    case False
    then have d: "drop i z = a # double_quote q s @ q # rest" using Cons.prems(1) by simp
    have c: "cget z i = a" using cget_drop [of i z 0] unfolding d by simp
    have "drop (i + 1) z = double_quote q s @ q # rest"
      using drop_drop [of 1 i z] unfolding d by simp
    from Cons.IH [OF this] Cons.prems(2,3,4) c False show ?thesis by (simp add: quote_loop.simps [of z q i])
  qed
qed

lemma aiClass_quote: "aiClass c = CC_QUOTE \<longleftrightarrow> c = 34 \<or> c = 39 \<or> c = 96"
  by (rule aiClass_all [where Q = "\<lambda>c k. k = CC_QUOTE \<longleftrightarrow> c = 34 \<or> c = 39 \<or> c = 96"]) code_simp

lemma getToken_quoted:
  assumes "q = 34 \<or> q = 39 \<or> q = 96" "cstring s" "rest = [] \<or> hd rest \<noteq> q"
  shows "sqlite3GetToken (q # double_quote q s @ q # rest) =
    (if q = 39 then TK_STRING else TK_ID, length (double_quote q s) + 2)"
proof -
  let ?z = "q # double_quote q s @ q # rest"
  have q0: "q \<noteq> 0" using assms(1) by auto
  have k: "aiClass (cget ?z 0) = CC_QUOTE" using assms(1) by (simp add: aiClass_quote)
  have "quote_loop ?z q 1 = (q, 1 + length (double_quote q s))"
    by (rule quote_loop_double [OF _ q0 assms(2,3)]) simp
  then have "tok_quote ?z = (if q = 39 then TK_STRING else TK_ID, length (double_quote q s) + 2)"
    using q0 by (simp add: tok_quote_def)
  then show ?thesis unfolding sqlite3GetToken_def Let_def k by simp
qed

lemma getToken_integer:
  assumes "s \<noteq> []" "list_all sqlite3Isdigit s" "rest = [] \<or> \<not> IdChar (hd rest) \<and> hd rest \<noteq> 46"
  shows "sqlite3GetToken (s @ rest) = (TK_INTEGER, length s)"
proof -
  let ?z = "s @ rest"
  have hd: "cget ?z 0 = hd s" "sqlite3Isdigit (hd s)" using assms(1,2) by (cases s; simp)+
  have k: "aiClass (cget ?z 0) = CC_DIGIT" unfolding aiClass_digit using hd by (simp add: Isdigit_iff)
  define e where "e = cget ?z (length s)"
  have e: "\<not> IdChar e" "e \<noteq> 46"
    using assms(3) by (auto simp: e_def cget_append cget_0 IdChar_iff Isalnum_iff)
  then have e2: "e \<noteq> 101" "e \<noteq> 69" "e \<noteq> 120" "e \<noteq> 88" by (auto simp: IdChar_iff Isalnum_iff)
  have r: "run sqlite3Isdigit ?z 0 = length s"
    using run_span [of 0 ?z s rest sqlite3Isdigit] assms(2,3) by (auto simp: IdChar_iff Isalnum_iff Isdigit_iff)
  have h: "\<not> (cget ?z 1 = 120 \<or> cget ?z 1 = 88)"
  proof (cases "length s = 1")
    case True
    then show ?thesis using e2 unfolding e_def by simp
  next
    case False
    then have "1 < length s" using assms(1) by (cases s) auto
    then have "sqlite3Isdigit (cget ?z 1)" using assms(2) by (simp add: cget_append list_all_length)
    then show ?thesis by (auto simp: Isdigit_iff)
  qed
  have n: "\<not> (cget ?z 0 = 48 \<and> (cget ?z 1 = 120 \<or> cget ?z 1 = 88) \<and> sqlite3Isxdigit (cget ?z 2))" using h by blast
  have "tok_number ?z = (TK_INTEGER, length s)"
    unfolding tok_number_def if_not_P [OF n] r using e e2 by (simp add: tok_float_def e_def [symmetric])
  then show ?thesis unfolding sqlite3GetToken_def Let_def k by simp
qed

lemma aiClass_x: "aiClass c = CC_X \<longleftrightarrow> c = 88 \<or> c = 120"
  by (rule aiClass_all [where Q = "\<lambda>c k. k = CC_X \<longleftrightarrow> c = 88 \<or> c = 120"]) code_simp

lemma getToken_blob:
  assumes "x = 88 \<or> x = 120" "list_all sqlite3Isxdigit s" "even (length s)"
  shows "sqlite3GetToken (x # 39 # s @ 39 # rest) = (TK_BLOB, length s + 3)"
proof -
  let ?z = "x # 39 # s @ 39 # rest"
  have k: "aiClass (cget ?z 0) = CC_X" using assms(1) by (simp add: aiClass_x)
  have r: "run sqlite3Isxdigit ?z 2 = 2 + length s"
    by (rule run_span [of _ _ _ "39 # rest"]) (use assms(2) in \<open>simp_all add: Isxdigit_iff\<close>)
  have c: "cget ?z (2 + length s) = 39" by (simp add: cget_append)
  have "(2 + length s) mod 2 = 0" using assms(3) by presburger
  then have "tok_x ?z = (TK_BLOB, length s + 3)" unfolding tok_x_def r c Let_def by (simp add: cget_append)
  then show ?thesis unfolding sqlite3GetToken_def Let_def k by simp
qed


text \<open>Identifiers: the classes and the capitals of their characters.\<close>

lemma IdChar_class: "IdChar c \<Longrightarrow> \<not> sqlite3Isdigit c \<Longrightarrow> c \<noteq> 36 \<Longrightarrow> aiClass c \<le> CC_ID"
proof -
  have "(48 \<le> c \<and> c \<le> 57 \<or> 65 \<le> c \<and> c \<le> 90 \<or> 97 \<le> c \<and> c \<le> 122) \<or> c = 36 \<or> c = 95 \<or> 128 \<le> c \<longrightarrow>
      \<not> (48 \<le> c \<and> c \<le> 57) \<longrightarrow> c \<noteq> 36 \<longrightarrow> aiClass c \<le> CC_ID"
    by (rule aiClass_all [where Q = "\<lambda>c k. (48 \<le> c \<and> c \<le> 57 \<or> 65 \<le> c \<and> c \<le> 90 \<or> 97 \<le> c \<and> c \<le> 122) \<or> c = 36 \<or> c = 95 \<or> 128 \<le> c \<longrightarrow>
      \<not> (48 \<le> c \<and> c \<le> 57) \<longrightarrow> c \<noteq> 36 \<longrightarrow> k \<le> CC_ID"]) code_simp
  then show "IdChar c \<Longrightarrow> \<not> sqlite3Isdigit c \<Longrightarrow> c \<noteq> 36 \<Longrightarrow> aiClass c \<le> CC_ID"
    unfolding IdChar_iff Isalnum_iff Isdigit_iff by blast
qed

lemma kywd_IdChar: "aiClass c \<le> CC_KYWD \<longleftrightarrow> kw_char (c AND NOT 0x20) \<and> IdChar c"
  unfolding IdChar_iff Isalnum_iff
  by (rule aiClass_all [where Q = "\<lambda>c k. k \<le> CC_KYWD \<longleftrightarrow> kw_char (c AND NOT 0x20) \<and>
      ((48 \<le> c \<and> c \<le> 57 \<or> 65 \<le> c \<and> c \<le> 90 \<or> 97 \<le> c \<and> c \<le> 122) \<or> c = 36 \<or> c = 95 \<or> 128 \<le> c)"]) code_simp

lemma keywords_not_x: "list_all (\<lambda>k. hd (ascii k) \<noteq> 88) (map fst keyword_list)"
  by code_simp

lemma lookup_not_keyword:
  assumes "\<not> list_all (\<lambda>c. kw_char (c AND NOT 0x20)) s \<or> s \<noteq> [] \<and> hd s AND NOT 0x20 = 88"
  shows "keyword_lookup s = TK_ID"
proof (rule keyword_lookup_None)
  fix i :: nat
  assume i: "i < 124"
  then have "list_all kw_char (keyword i)" "hd (keyword i) \<noteq> 88"
    using keywords_letters keywords_not_x by (auto simp: list_all_length)
  moreover have "\<not> (list_all kw_char (upper s) \<and> hd (upper s) \<noteq> 88)"
    using assms by (cases s) (auto simp: upper_def list_all_iff)
  ultimately show "upper s \<noteq> keyword i" by metis
qed

lemma getToken_identifier:
  assumes s: "s \<noteq> []" "list_all IdChar s" "\<not> sqlite3Isdigit (hd s)" "hd s \<noteq> 36"
    and r: "rest = [] \<or> \<not> IdChar (hd rest)" and x: "\<not> (s = [88] \<or> s = [120]) \<or> rest = [] \<or> hd rest \<noteq> 39"
  shows "sqlite3GetToken (s @ rest) = (sqlite3KeywordCode s, length s)"
proof -
  let ?z = "s @ rest"
  obtain c s' where sc: "s = c # s'" using s(1) by (cases s) auto
  have c: "cget ?z 0 = c" "IdChar c" "\<not> sqlite3Isdigit c" "c \<noteq> 36" using s(2-4) sc by simp_all
  have kw: "sqlite3KeywordCode s = keyword_lookup s" by (rule keywordCode_eq [OF s(2)])
  have id: "ident ?z i = (TK_ID, length s)" if "i \<le> length s" for i
  proof -
    have "list_all IdChar (drop i s)" using s(2) by (simp add: list_all_iff) (meson in_set_dropD)
    then have "run IdChar ?z i = i + length (drop i s)" using r that by (intro run_span [of _ _ _ rest]) simp_all
    then show ?thesis using that by (simp add: ident_def)
  qed
  have end_id: "\<not> IdChar (cget ?z (length s))"
    using r by (auto simp: cget_append cget_0 IdChar_iff Isalnum_iff)
  consider "aiClass c = CC_X" | "aiClass c = CC_KYWD" | "aiClass c = CC_ID"
    using IdChar_class [OF c(2-4)] by linarith
  then show ?thesis
  proof cases
    case 1
    then have cx: "c = 88 \<or> c = 120" by (simp add: aiClass_x)
    have "cget ?z 1 \<noteq> 39"
    proof (cases s')
      case Nil
      then show ?thesis using x cx by (auto simp: sc cget_0)
    next
      case (Cons d s'')
      then have "IdChar d" using s(2) sc by simp
      then show ?thesis by (auto simp: sc Cons IdChar_iff Isalnum_iff)
    qed
    then have "tok_x ?z = (TK_ID, length s)" using id [of 1] sc by (simp add: tok_x_def)
    moreover have "keyword_lookup s = TK_ID" by (rule lookup_not_keyword) (use cx sc in auto)
    ultimately show ?thesis unfolding sqlite3GetToken_def Let_def c(1) 1 kw by simp
  next
    case 2
    let ?P = "\<lambda>c. aiClass c \<le> CC_KYWD"
    have "tok_keyword ?z = (keyword_lookup s, length s)"
    proof (cases "list_all ?P s")
      case True
      have "rest = [] \<or> \<not> ?P (hd rest)" using r kywd_IdChar by blast
      then have "run ?P ?z 1 = 1 + length s'"
        by (intro run_span [of _ _ _ rest]) (use True sc in simp_all)
      then have i: "run ?P ?z 1 = length s" using sc by simp
      show ?thesis unfolding tok_keyword_def Let_def i using end_id kw by (simp add: sqlite3KeywordCode_def)
    next
      case False
      define i where "i = run ?P ?z 1"
      have "\<exists>d \<in> set s'. \<not> ?P d" using False 2 sc by (auto simp: list_all_iff)
      then have "takeWhile ?P (s' @ rest) = takeWhile ?P s'" "length (takeWhile ?P s') < length s'"
        by (auto simp: takeWhile_append dest: nth_length_takeWhile) (metis length_takeWhile_le order_le_imp_less_or_eq takeWhile_eq_all_conv takeWhile_eq_take take_all_iff order_refl)
      then have i: "i < length s" "1 \<le> i" by (simp_all add: i_def run_def sc)
      then have "IdChar (cget ?z i)" using s(2) by (simp add: cget_append list_all_length)
      moreover have "keyword_lookup s = TK_ID"
      proof (rule lookup_not_keyword)
        from False obtain d where d: "d \<in> set s" "\<not> ?P d" unfolding list_all_iff by blast
        then have "\<not> kw_char (d AND NOT 0x20)" using kywd_IdChar s(2) unfolding list_all_iff by blast
        then show "\<not> list_all (\<lambda>c. kw_char (c AND NOT 0x20)) s \<or> s \<noteq> [] \<and> hd s AND NOT 0x20 = 88"
          using d(1) unfolding list_all_iff by blast
      qed
      ultimately show ?thesis unfolding tok_keyword_def Let_def i_def [symmetric] using id [of "i + 1"] i by simp
    qed
    then show ?thesis unfolding sqlite3GetToken_def Let_def c(1) 2 kw by simp
  next
    case 3
    have "\<not> kw_char (c AND NOT 0x20)" using 3 c(2) kywd_IdChar [of c] by auto
    then have "keyword_lookup s = TK_ID" by (intro lookup_not_keyword) (simp add: sc)
    then show ?thesis unfolding sqlite3GetToken_def Let_def c(1) 3 kw using id [of 1] sc by simp
  qed
qed

section \<open>Properties\<close>

text \<open>
  C35: Every token of a non-empty text has at least one byte and ends before the terminator, so the
  tokens, one after the other, end and make up the whole text.
\<close>

theorem tokens_partition:
  assumes "cstring z"
  shows "(z \<noteq> [] \<longrightarrow> 1 \<le> snd (sqlite3GetToken z) \<and> snd (sqlite3GetToken z) \<le> length z) \<and>
    concat (map snd (lex z)) = z \<and> [] \<notin> snd ` set (lex z)"
  using getToken_in_text [of z] cstring_cget [OF assms, of 0] lex_concat [OF assms]
  by (auto simp: in_text_def)

lemma tokens_partition_witness:
  "concat (map snd (lex (ascii ''SELECT /* x */ y''))) = ascii ''SELECT /* x */ y'' \<and>
   snd (sqlite3GetToken (ascii ''SELECT /* x */ y'')) \<ge> 1"
proof -
  have "cstring (ascii ''SELECT /* x */ y'')" by code_simp
  from tokens_partition [OF this] show ?thesis by (simp add: ascii_def)
qed



text \<open>
  C38: A run of identifier characters that does not start with a digit or a dollar sign, is not
  followed by another one, and does not start a blob, is one token: the keyword it spells in any
  case, or an identifier.
\<close>

theorem identifier_token:
  assumes "s \<noteq> []" "list_all IdChar s" "\<not> sqlite3Isdigit (hd s)" "hd s \<noteq> 36"
    and "rest = [] \<or> \<not> IdChar (hd rest)" and "\<not> (s = [88] \<or> s = [120]) \<or> rest = [] \<or> hd rest \<noteq> 39"
  shows "sqlite3GetToken (s @ rest) = (keyword_lookup s, length s)"
  using getToken_identifier [OF assms] keywordCode_eq [OF assms(2)] by simp

lemma identifier_token_witness:
  "sqlite3GetToken (ascii ''Group by'') = (keyword_lookup (ascii ''Group''), 5)"
proof -
  have *: "ascii ''Group'' \<noteq> []" "list_all IdChar (ascii ''Group'')" "\<not> sqlite3Isdigit (hd (ascii ''Group''))"
    "hd (ascii ''Group'') \<noteq> 36" "ascii '' by'' = [] \<or> \<not> IdChar (hd (ascii '' by''))"
    "\<not> (ascii ''Group'' = [88] \<or> ascii ''Group'' = [120]) \<or> ascii '' by'' = [] \<or> hd (ascii '' by'') \<noteq> 39"
    by code_simp+
  show ?thesis using identifier_token [OF *] by (simp add: ascii_def)
qed

text \<open>
  C37: \<open>sqlite3RunParser\<close> ends, and on a text without illegal tokens that is not too long, it gives the
  parser the tokens of the text but spaces and comments, in order, then \<open>TK_SEMI\<close> unless that was the
  last token, and 0, until the parser stops it; if it is not stopped the tail is the end of the text.
\<close>

theorem run_parser_stream:
  assumes "cstring z" "TK_ILLEGAL \<notin> fst ` set (lex z)" "int (length z) \<le> mxSqlLen"
  shows "\<exists>tail. run_parser parse ok (\<lambda>i. False) z 0 0 mxSqlLen None e =
      (fst (feed parse ok (stream None [] (lex z)) e), tail, snd (feed parse ok (stream None [] (lex z)) e)) \<and>
    (fst (feed parse ok (stream None [] (lex z)) e) = FINISHED \<longrightarrow> tail = length z)"
  using run_parser_stream_aux [of z 0 0 None mxSqlLen parse ok e] assms by simp

lemma run_parser_stream_witness:
  "\<exists>tail. run_parser (\<lambda>ts t s. ts @ [(t, s)]) (\<lambda>ts. length ts < 3) (\<lambda>i. False) (ascii ''a;'') 0 0 100 None [] =
     (PARSER_STOP, tail, [(TK_ID, ascii ''a''), (TK_SEMI, ascii '';''), (0, ascii '';'')])"
proof -
  let ?z = "ascii ''a;''"
  have z: "cstring ?z" by code_simp
  have l: "lex ?z = [(TK_ID, ascii ''a''), (TK_SEMI, ascii '';'')]" by code_simp
  have i: "TK_ILLEGAL \<notin> fst ` set (lex ?z)" unfolding l by simp
  have m: "int (length ?z) \<le> 100" by (simp add: ascii_def)
  show ?thesis
    using run_parser_stream [OF z i m, of "\<lambda>ts t s. ts @ [(t, s)]" "\<lambda>ts. length ts < 3" "[]"]
    unfolding l by (auto simp: Let_def)
qed

end
