(* ===== verification/Callbacks.thy ===== *)
theory Callbacks
  imports Strings "HOL-Library.Multiset"
begin

text \<open>
  The callbacks an application registers with a connection: collating sequences, functions and the
  trace callback (main.c, callback.c), with the destructors of their user data. The destructor calls
  are an observable effect: \<open>destroyed\<close> lists the user data they were called on.
\<close>

section \<open>The part of a connection that holds callbacks\<close>

datatype api_rc = RC_OK | RC_ERROR | RC_BUSY | RC_NOMEM | RC_MISUSE

abbreviation (input) E_UTF8 :: nat where "E_UTF8 \<equiv> 1"
abbreviation (input) E_UTF16LE :: nat where "E_UTF16LE \<equiv> 2"
abbreviation (input) E_UTF16BE :: nat where "E_UTF16BE \<equiv> 3"
abbreviation (input) E_UTF16 :: nat where "E_UTF16 \<equiv> 4"
abbreviation (input) E_ANY :: nat where "E_ANY \<equiv> 5"
abbreviation (input) E_UTF16_ALIGNED :: nat where "E_UTF16_ALIGNED \<equiv> 8"
abbreviation (input) E_UTF16NATIVE :: nat where "E_UTF16NATIVE \<equiv> 2"

text \<open>
  User data and functions are named by numbers. \<open>xCmp\<close> is \<open>None\<close> for a null pointer; \<open>xDel\<close> tells
  whether there is a destructor. \<open>ce_enc\<close> has the encoding and the flag for aligned text.
\<close>

record CollSeq =
  ce_enc :: nat
  xCmp :: "nat option"
  ce_user :: nat
  xDel :: bool

text \<open>\<open>fd_destr\<close> names the destructor object the definition shares, if any.\<close>

record FuncDef =
  fd_nArg :: cint
  fd_enc :: nat
  fd_flags :: nat
  xSFunc :: "nat option"
  xFinalize :: "nat option"
  fd_user :: nat
  fd_destr :: "nat option"

record FuncDestructor =
  nRef :: nat
  d_user :: nat

text \<open>
  The hash tables \<open>aCollSeq\<close> and \<open>aFunc\<close> are association lists on names with their case folded;
  theory \<open>HashTable\<close> shows that the tables of hash.c behave as such maps. An entry of \<open>aFunc\<close> is the
  chain of \<open>pNext\<close>. The destructor objects are those allocated, by number; \<open>nextDestr\<close> is the next.
  \<open>nStmt\<close> counts the statements that are not finalized (\<open>connectionIsBusy\<close>); \<open>traced\<close> lists the calls
  of the trace callback with its argument.
\<close>

record conn =
  aCollSeq :: "(u8 list \<times> CollSeq list) list"
  aFunc :: "(u8 list \<times> FuncDef list) list"
  destructors :: "(nat \<times> FuncDestructor) list"
  nextDestr :: nat
  mTrace :: nat
  xTrace :: "nat option"
  pTraceArg :: nat
  nVdbeActive :: nat
  nVdbeExec :: nat
  nStmt :: nat
  zombie :: bool
  closed :: bool
  expired :: bool
  isInterrupted :: bool
  bDisable :: nat
  bBenignMalloc :: bool
  mallocFailed :: bool
  destroyed :: "nat list"
  traced :: "(nat \<times> nat) list"

text \<open>Replacing and removing what an association list has for a key.\<close>

definition alist_set :: "'k \<Rightarrow> 'v \<Rightarrow> ('k \<times> 'v) list \<Rightarrow> ('k \<times> 'v) list" where
  "alist_set k v xs = map (\<lambda>(k', v'). (k', if k' = k then v else v')) xs"

definition alist_del :: "'k \<Rightarrow> ('k \<times> 'v) list \<Rightarrow> ('k \<times> 'v) list" where
  "alist_del k xs = filter (\<lambda>(k', v'). k' \<noteq> k) xs"

definition sqlite3OomFault :: "conn \<Rightarrow> conn" where
  "sqlite3OomFault db =
     (if \<not> mallocFailed db \<and> \<not> bBenignMalloc db
      then db\<lparr>mallocFailed := True, isInterrupted := (nVdbeExec db > 0 \<or> isInterrupted db), bDisable := bDisable db + 1\<rparr>
      else db)"

definition sqlite3OomClear :: "conn \<Rightarrow> conn" where
  "sqlite3OomClear db =
     (if mallocFailed db \<and> nVdbeExec db = 0
      then db\<lparr>mallocFailed := False, isInterrupted := False, bDisable := bDisable db - 1\<rparr> else db)"

definition sqlite3ApiExit :: "conn \<Rightarrow> api_rc \<Rightarrow> api_rc \<times> conn" where
  "sqlite3ApiExit db rc = (if mallocFailed db then (RC_NOMEM, sqlite3OomClear db) else (rc, db))"

definition sqlite3ExpirePreparedStatements :: "conn \<Rightarrow> conn" where
  "sqlite3ExpirePreparedStatements db = db\<lparr>expired := True\<rparr>"

section \<open>Collating sequences\<close>

text \<open>
  \<open>am\<close> tells whether the entry can be allocated and put into the hash table. The result of the
  lookup is the array of three sequences.
\<close>

definition new_entry :: "CollSeq list" where
  "new_entry =
     [\<lparr>ce_enc = E_UTF8, xCmp = None, ce_user = 0, xDel = False\<rparr>,
      \<lparr>ce_enc = E_UTF16LE, xCmp = None, ce_user = 0, xDel = False\<rparr>,
      \<lparr>ce_enc = E_UTF16BE, xCmp = None, ce_user = 0, xDel = False\<rparr>]"

definition findCollSeqEntry :: "bool \<Rightarrow> conn \<Rightarrow> u8 list \<Rightarrow> bool \<Rightarrow> CollSeq list option \<times> conn" where
  "findCollSeqEntry am db zName create =
     (case map_of (aCollSeq db) (fold_case zName) of
        Some pColl \<Rightarrow> (Some pColl, db)
      | None \<Rightarrow>
          if create then
            if am then (Some new_entry, db\<lparr>aCollSeq := (fold_case zName, new_entry) # aCollSeq db\<rparr>)
            else (None, sqlite3OomFault db)
          else (None, db))"

definition sqlite3FindCollSeq :: "bool \<Rightarrow> conn \<Rightarrow> nat \<Rightarrow> u8 list \<Rightarrow> bool \<Rightarrow> CollSeq option \<times> conn" where
  "sqlite3FindCollSeq am db enc zName create =
     (case findCollSeqEntry am db zName create of
        (None, db) \<Rightarrow> (None, db)
      | (Some pColl, db) \<Rightarrow> (Some (pColl ! (enc - 1)), db))"

text \<open>Assigning to the fields of a sequence or of all three.\<close>

definition set_entry :: "u8 list \<Rightarrow> CollSeq list \<Rightarrow> conn \<Rightarrow> conn" where
  "set_entry zName aColl db =
     db\<lparr>aCollSeq := alist_set (fold_case zName) aColl (aCollSeq db)\<rparr>"

definition set_coll :: "u8 list \<Rightarrow> nat \<Rightarrow> CollSeq \<Rightarrow> conn \<Rightarrow> conn" where
  "set_coll zName i p db =
     (case map_of (aCollSeq db) (fold_case zName) of
        None \<Rightarrow> db
      | Some aColl \<Rightarrow> set_entry zName (aColl[i := p]) db)"

definition synthCollSeq :: "conn \<Rightarrow> u8 list \<Rightarrow> nat \<Rightarrow> api_rc \<times> conn" where
  "synthCollSeq db z i =
     (case map_of (aCollSeq db) (fold_case z) of
        None \<Rightarrow> (RC_ERROR, db)
      | Some aColl \<Rightarrow>
          (case List.find (\<lambda>enc. xCmp (aColl ! (enc - 1)) \<noteq> None) [E_UTF16BE, E_UTF16LE, E_UTF8] of
             None \<Rightarrow> (RC_ERROR, db)
           | Some enc \<Rightarrow> (RC_OK, set_coll z i ((aColl ! (enc - 1))\<lparr>xDel := False\<rparr>) db)))"

text \<open>
  The loop over the three sequences that have the encoding of the one replaced: it calls their
  destructors and forgets their functions.
\<close>

fun destroy_loop :: "nat \<Rightarrow> CollSeq list \<Rightarrow> CollSeq list \<times> nat list" where
  "destroy_loop e [] = ([], [])"
| "destroy_loop e (p # ps) =
     (let (qs, ds) = destroy_loop e ps
      in if ce_enc p = e
         then (p\<lparr>xCmp := None\<rparr> # qs, (if xDel p then [ce_user p] else []) @ ds)
         else (p # qs, ds))"

definition unaligned :: "nat \<Rightarrow> nat" where
  "unaligned e = e - (e AND E_UTF16_ALIGNED)"

definition createCollation ::
  "bool \<Rightarrow> conn \<Rightarrow> u8 list \<Rightarrow> nat \<Rightarrow> nat \<Rightarrow> nat option \<Rightarrow> bool \<Rightarrow> api_rc \<times> conn" where
  "createCollation am db zName enc pCtx xCompare del =
     (let enc2 = (if enc = E_UTF16 \<or> enc = E_UTF16_ALIGNED then E_UTF16NATIVE else enc)
      in if enc2 < E_UTF8 \<or> enc2 > E_UTF16BE then (RC_MISUSE, db)
         else
           (let old = fst (sqlite3FindCollSeq am db enc2 zName False);
                replaces = (case old of None \<Rightarrow> False | Some pColl \<Rightarrow> xCmp pColl \<noteq> None)
            in if replaces \<and> nVdbeActive db > 0 then (RC_BUSY, db)
               else
                 (let db = (if replaces then sqlite3ExpirePreparedStatements db else db);
                      db = (if replaces \<and> unaligned (ce_enc (the old)) = enc2
                            then (let (aColl, ds) = destroy_loop (ce_enc (the old))
                                        (the (map_of (aCollSeq db) (fold_case zName)))
                                  in set_entry zName aColl (db\<lparr>destroyed := destroyed db @ ds\<rparr>))
                            else db)
                  in case sqlite3FindCollSeq am db enc2 zName True of
                       (None, db) \<Rightarrow> (RC_NOMEM, db)
                     | (Some pColl, db) \<Rightarrow>
                         (RC_OK, set_coll zName (enc2 - 1)
                            (pColl\<lparr>xCmp := xCompare, ce_user := pCtx, xDel := del,
                                   ce_enc := enc2 OR (enc AND E_UTF16_ALIGNED)\<rparr>) db))))"

definition sqlite3_create_collation_v2 ::
  "bool \<Rightarrow> conn \<Rightarrow> u8 list \<Rightarrow> nat \<Rightarrow> nat \<Rightarrow> nat option \<Rightarrow> bool \<Rightarrow> api_rc \<times> conn" where
  "sqlite3_create_collation_v2 am db zName enc pCtx xCompare del =
     (let (rc, db) = createCollation am db zName (enc mod 256) pCtx xCompare del
      in sqlite3ApiExit db rc)"

section \<open>Functions\<close>

definition FUNC_PERFECT_MATCH :: nat where
  "FUNC_PERFECT_MATCH = 6"

definition matchQuality :: "FuncDef \<Rightarrow> cint \<Rightarrow> nat \<Rightarrow> nat" where
  "matchQuality p nArg enc =
     (if nArg = - 2 then (if xSFunc p = None then 0 else FUNC_PERFECT_MATCH)
      else if fd_nArg p \<noteq> nArg \<and> fd_nArg p \<ge> 0 then 0
      else
        (if fd_nArg p = nArg then 4 else 1) +
        (if enc = fd_enc p then 2 else if enc AND fd_enc p AND 2 \<noteq> 0 then 1 else 0))"

text \<open>
  \<open>while( p ){ int score = matchQuality(p, nArg, enc); if( score>bestScore ){ \<dots> } p = p->pNext; }\<close>:
  the index of the best definition and its score.
\<close>

fun best_match :: "FuncDef list \<Rightarrow> cint \<Rightarrow> nat \<Rightarrow> nat \<Rightarrow> nat option \<times> nat \<Rightarrow> nat option \<times> nat" where
  "best_match [] nArg enc i best = best"
| "best_match (p # ps) nArg enc i best =
     best_match ps nArg enc (i + 1)
       (if matchQuality p nArg enc > snd best then (Some i, matchQuality p nArg enc) else best)"

definition func_chain :: "conn \<Rightarrow> u8 list \<Rightarrow> FuncDef list" where
  "func_chain db zName = (case map_of (aFunc db) (fold_case zName) of None \<Rightarrow> [] | Some c \<Rightarrow> c)"

text \<open>
  The lookup without \<open>createFlag\<close>; \<open>builtin\<close> gives the chain of built-in definitions of a name, and
  \<open>prefer\<close> is the flag \<open>SQLITE_PreferBuiltin\<close>.
\<close>

definition sqlite3FindFunction ::
  "(u8 list \<Rightarrow> FuncDef list) \<Rightarrow> bool \<Rightarrow> conn \<Rightarrow> u8 list \<Rightarrow> cint \<Rightarrow> nat \<Rightarrow> FuncDef option" where
  "sqlite3FindFunction builtin prefer db zName nArg enc =
     (let app = map_option (\<lambda>i. func_chain db zName ! i)
                  (fst (best_match (func_chain db zName) nArg enc 0 (None, 0)));
          pBest = (if app = None \<or> prefer
                   then (case fst (best_match (builtin zName) nArg enc 0 (None, 0)) of
                           None \<Rightarrow> app | Some i \<Rightarrow> Some (builtin zName ! i))
                   else app)
      in case pBest of None \<Rightarrow> None | Some p \<Rightarrow> if xSFunc p \<noteq> None then Some p else None)"

text \<open>
  The lookup with \<open>createFlag\<close>: the index of the definition in the chain of its name, where a new
  one is the first. \<open>am\<close> tells whether the definition can be allocated, \<open>am'\<close> whether the hash
  table can take a new name.
\<close>

definition set_chain :: "u8 list \<Rightarrow> FuncDef list \<Rightarrow> conn \<Rightarrow> conn" where
  "set_chain zName c db =
     db\<lparr>aFunc := (if fold_case zName \<in> fst ` set (aFunc db)
                 then alist_set (fold_case zName) c (aFunc db)
                 else (fold_case zName, c) # aFunc db)\<rparr>"

definition sqlite3FindFunction_create ::
  "bool \<Rightarrow> bool \<Rightarrow> conn \<Rightarrow> u8 list \<Rightarrow> cint \<Rightarrow> nat \<Rightarrow> nat option \<times> conn" where
  "sqlite3FindFunction_create am am' db zName nArg enc =
     (let (pBest, bestScore) = best_match (func_chain db zName) nArg enc 0 (None, 0)
      in if bestScore < FUNC_PERFECT_MATCH \<and> am then
           (if func_chain db zName = [] \<and> \<not> am' then (None, sqlite3OomFault db)
            else (Some 0,
                  set_chain zName
                    (\<lparr>fd_nArg = nArg, fd_enc = enc mod 4, fd_flags = 0, xSFunc = None, xFinalize = None,
                      fd_user = 0, fd_destr = None\<rparr> # func_chain db zName) db))
         else if bestScore < FUNC_PERFECT_MATCH then (None, sqlite3OomFault db)
         else (pBest, db))"


text \<open>The destructor object loses a reference; without any it is called and freed.\<close>

definition functionDestroy :: "conn \<Rightarrow> FuncDef \<Rightarrow> conn" where
  "functionDestroy db p =
     (case fd_destr p of
        None \<Rightarrow> db
      | Some d \<Rightarrow>
          (case map_of (destructors db) d of
             None \<Rightarrow> db
           | Some pDestructor \<Rightarrow>
               (if nRef pDestructor - 1 = 0
                then db\<lparr>destroyed := destroyed db @ [d_user pDestructor],
                        destructors := alist_del d (destructors db)\<rparr>
                else db\<lparr>destructors := alist_set d (pDestructor\<lparr>nRef := nRef pDestructor - 1\<rparr>) (destructors db)\<rparr>)))"

definition destr_incr :: "conn \<Rightarrow> nat option \<Rightarrow> conn" where
  "destr_incr db pDestructor =
     (case pDestructor of
        None \<Rightarrow> db
      | Some d \<Rightarrow>
          (case map_of (destructors db) d of
             None \<Rightarrow> db
           | Some v \<Rightarrow> db\<lparr>destructors := alist_set d (v\<lparr>nRef := nRef v + 1\<rparr>) (destructors db)\<rparr>))"

text \<open>What a caller passes: number of arguments, user data, functions and destructor object.\<close>

record fun_args =
  a_nArg :: cint
  a_user :: nat
  a_SFunc :: "nat option"
  a_Step :: "nat option"
  a_Final :: "nat option"
  a_destr :: "nat option"

text \<open>\<open>sqlite3CreateFunc\<close> for one of the encodings.\<close>

definition createFunc1 ::
  "(u8 list \<Rightarrow> FuncDef list) \<Rightarrow> bool \<Rightarrow> bool \<Rightarrow> bool \<Rightarrow> conn \<Rightarrow> u8 list \<Rightarrow> nat \<Rightarrow> nat \<Rightarrow> fun_args \<Rightarrow> api_rc \<times> conn" where
  "createFunc1 builtin prefer am am' db zName enc extraFlags a =
     (let overrides = (case sqlite3FindFunction builtin prefer db zName (a_nArg a) enc of
                         None \<Rightarrow> False | Some p \<Rightarrow> fd_enc p = enc \<and> fd_nArg p = a_nArg a)
      in if overrides \<and> nVdbeActive db > 0 then (RC_BUSY, db)
         else
           (let db = (if overrides then sqlite3ExpirePreparedStatements db else db)
            in case sqlite3FindFunction_create am am' db zName (a_nArg a) enc of
                 (None, db) \<Rightarrow> (RC_NOMEM, db)
               | (Some i, db) \<Rightarrow>
                   (let p = func_chain db zName ! i;
                        db = destr_incr (functionDestroy db p) (a_destr a);
                        p = p\<lparr>fd_destr := a_destr a, fd_flags := extraFlags,
                              xSFunc := (if a_SFunc a \<noteq> None then a_SFunc a else a_Step a),
                              xFinalize := a_Final a, fd_user := a_user a, fd_nArg := a_nArg a\<rparr>
                    in (RC_OK, set_chain zName ((func_chain db zName)[i := p]) db))))"

definition sqlite3CreateFunc ::
  "(u8 list \<Rightarrow> FuncDef list) \<Rightarrow> bool \<Rightarrow> (nat \<Rightarrow> bool) \<Rightarrow> (nat \<Rightarrow> bool) \<Rightarrow> conn \<Rightarrow> u8 list \<Rightarrow> nat \<Rightarrow> fun_args \<Rightarrow> api_rc \<times> conn" where
  "sqlite3CreateFunc builtin prefer am am' db zName encFlags a =
     (if a_SFunc a \<noteq> None \<and> (a_Final a \<noteq> None \<or> a_Step a \<noteq> None)
         \<or> a_SFunc a = None \<and> a_Final a \<noteq> None \<and> a_Step a = None
         \<or> a_SFunc a = None \<and> a_Final a = None \<and> a_Step a \<noteq> None
         \<or> a_nArg a < - 1 \<or> a_nArg a > 127 \<or> 255 < length zName
      then (RC_MISUSE, db)
      else
        (let extraFlags = encFlags AND 0x800;
             enc = encFlags AND 7;
             create = (\<lambda>db e. createFunc1 builtin prefer (am e) (am' e) db zName e extraFlags a)
         in if enc = E_UTF16 then create db E_UTF16NATIVE
            else if enc = E_ANY then
              (case create db E_UTF8 of
                 (RC_OK, db) \<Rightarrow>
                   (case create db E_UTF16LE of
                      (RC_OK, db) \<Rightarrow> create db E_UTF16BE
                    | r \<Rightarrow> r)
               | r \<Rightarrow> r)
            else create db enc))"

definition sqlite3_create_function_v2 ::
  "(u8 list \<Rightarrow> FuncDef list) \<Rightarrow> bool \<Rightarrow> (nat \<Rightarrow> bool) \<Rightarrow> (nat \<Rightarrow> bool) \<Rightarrow> conn \<Rightarrow> u8 list \<Rightarrow> nat \<Rightarrow> fun_args \<Rightarrow> bool \<Rightarrow>
     api_rc \<times> conn" where
  "sqlite3_create_function_v2 builtin prefer am am' db zFunc enc a xDestroy =
     (let (rc, db) =
        (if xDestroy then
           if \<not> am 0 then (RC_ERROR, (sqlite3OomFault db)\<lparr>destroyed := destroyed db @ [a_user a]\<rparr>)
           else
             (let pArg = nextDestr db;
                  db = db\<lparr>destructors := (pArg, \<lparr>nRef = 0, d_user = a_user a\<rparr>) # destructors db,
                          nextDestr := pArg + 1\<rparr>;
                  (rc, db) = sqlite3CreateFunc builtin prefer am am' db zFunc enc (a\<lparr>a_destr := Some pArg\<rparr>)
              in if map_option nRef (map_of (destructors db) pArg) = Some 0
                 then (rc, db\<lparr>destroyed := destroyed db @ [a_user a],
                              destructors := alist_del pArg (destructors db)\<rparr>)
                 else (rc, db))
         else sqlite3CreateFunc builtin prefer am am' db zFunc enc (a\<lparr>a_destr := None\<rparr>))
      in sqlite3ApiExit db rc)"

section \<open>Tracing and closing\<close>

abbreviation (input) SQLITE_TRACE_STMT :: nat where "SQLITE_TRACE_STMT \<equiv> 1"
abbreviation (input) SQLITE_TRACE_CLOSE :: nat where "SQLITE_TRACE_CLOSE \<equiv> 8"

definition sqlite3_trace_v2 :: "conn \<Rightarrow> nat \<Rightarrow> nat option \<Rightarrow> nat \<Rightarrow> api_rc \<times> conn" where
  "sqlite3_trace_v2 db evts x pArg =
     (let x = (if evts = 0 then None else x);
          evts = (if x = None then 0 else evts)
      in (RC_OK, db\<lparr>mTrace := evts, xTrace := x, pTraceArg := pArg\<rparr>))"

text \<open>The callbacks that are freed with the connection, in the order of the two loops.\<close>

definition close_functions :: "conn \<Rightarrow> conn" where
  "close_functions db = (fold (\<lambda>p db. functionDestroy db p) (concat (map snd (aFunc db))) db)\<lparr>aFunc := []\<rparr>"

definition close_collations :: "conn \<Rightarrow> conn" where
  "close_collations db =
     db\<lparr>destroyed := destroyed db @ map ce_user (filter xDel (concat (map snd (aCollSeq db)))), aCollSeq := []\<rparr>"

definition sqlite3LeaveMutexAndCloseZombie :: "conn \<Rightarrow> conn" where
  "sqlite3LeaveMutexAndCloseZombie db =
     (if \<not> zombie db \<or> nStmt db > 0 then db else (close_collations (close_functions db))\<lparr>closed := True\<rparr>)"

definition sqlite3Close :: "conn \<Rightarrow> bool \<Rightarrow> api_rc \<times> conn" where
  "sqlite3Close db forceZombie =
     (let db = (if mTrace db AND SQLITE_TRACE_CLOSE \<noteq> 0
                then db\<lparr>traced := traced db @ [(SQLITE_TRACE_CLOSE, pTraceArg db)]\<rparr> else db)
      in if \<not> forceZombie \<and> nStmt db > 0 then (RC_BUSY, db)
         else (RC_OK, sqlite3LeaveMutexAndCloseZombie (db\<lparr>zombie := True\<rparr>)))"

definition sqlite3_close :: "conn \<Rightarrow> api_rc \<times> conn" where
  "sqlite3_close db = sqlite3Close db False"

definition sqlite3_close_v2 :: "conn \<Rightarrow> api_rc \<times> conn" where
  "sqlite3_close_v2 db = sqlite3Close db True"


section \<open>Association lists\<close>

lemma fst_alist_set [simp]: "map fst (alist_set k v xs) = map fst xs"
  by (induction xs) (auto simp: alist_set_def)

lemma fst_set_alist_set [simp]: "fst ` set (alist_set k v xs) = fst ` set xs"
proof -
  have "set (map fst (alist_set k v xs)) = set (map fst xs)" by (simp only: fst_alist_set)
  then show ?thesis by (simp only: list.set_map)
qed

lemma map_of_alist_set:
  "map_of (alist_set k v xs) k' = (if k' = k \<and> k \<in> fst ` set xs then Some v else map_of xs k')"
proof (induction xs)
  case (Cons x xs)
  then show ?case by (cases x; cases "fst x = k"; cases "k' = k") (simp_all add: alist_set_def)
qed (simp add: alist_set_def)

lemma map_of_alist_del: "map_of (alist_del k xs) k' = (if k' = k then None else map_of xs k')"
  by (induction xs) (auto simp: alist_del_def)

lemma distinct_alist_del: "distinct (map fst xs) \<Longrightarrow> distinct (map fst (alist_del k xs))"
  by (induction xs) (auto simp: alist_del_def)

lemma set_alist_del: "set (alist_del k xs) = {x \<in> set xs. fst x \<noteq> k}"
  by (auto simp: alist_del_def)

lemma alist_del_absent: "k \<notin> fst ` set xs \<Longrightarrow> alist_del k xs = xs"
  by (induction xs) (auto simp: alist_del_def)

lemma mset_alist:
  "distinct (map fst xs) \<Longrightarrow> map_of xs k = Some v \<Longrightarrow> mset xs = add_mset (k, v) (mset (alist_del k xs))"
proof (induction xs)
  case (Cons x xs)
  show ?case
  proof (cases "fst x = k")
    case True
    then have "k \<notin> fst ` set xs" "x = (k, v)" using Cons.prems by (cases x; auto)+
    then show ?thesis using alist_del_absent [of k xs] by (simp add: alist_del_def)
  next
    case False
    then show ?thesis using Cons by (cases x) (auto simp: alist_del_def)
  qed
qed simp

lemma mset_alist_set:
  "distinct (map fst xs) \<Longrightarrow> k \<in> fst ` set xs \<Longrightarrow> mset (alist_set k v xs) = add_mset (k, v) (mset (alist_del k xs))"
proof -
  assume a: "distinct (map fst xs)" "k \<in> fst ` set xs"
  have d: "alist_del k (alist_set k v xs) = alist_del k xs"
    by (induction xs) (auto simp: alist_set_def alist_del_def)
  have "map_of (alist_set k v xs) k = Some v" using a(2) by (simp add: map_of_alist_set)
  from mset_alist [OF _ this] a(1) d show ?thesis by simp
qed

lemma set_alist_set_subset: "(k', v') \<in> set (alist_set k v xs) \<Longrightarrow> (k', v') \<in> set xs \<or> v' = v"
  by (auto simp: alist_set_def split: if_splits)

section \<open>The ledger of user data\<close>

text \<open>User data whose destructor is still to be called, and together with those it was called on.\<close>

definition coll_owned :: "conn \<Rightarrow> nat multiset" where
  "coll_owned db = image_mset ce_user (filter_mset xDel (\<Sum>(k, e)\<in>#mset (aCollSeq db). mset e))"

definition owned :: "conn \<Rightarrow> nat multiset" where
  "owned db = coll_owned db + image_mset (d_user \<circ> snd) (mset (destructors db))"

definition ledger :: "conn \<Rightarrow> nat multiset" where
  "ledger db = mset (destroyed db) + owned db"

text \<open>The references from function definitions to destructor objects.\<close>

definition frefs :: "conn \<Rightarrow> nat option multiset" where
  "frefs db = image_mset fd_destr (\<Sum>(k, c)\<in>#mset (aFunc db). mset c)"

definition wf_coll :: "conn \<Rightarrow> bool" where
  "wf_coll db \<longleftrightarrow> distinct (map fst (aCollSeq db)) \<and>
     (\<forall>(k, e) \<in> set (aCollSeq db). length e = 3 \<and>
        (\<forall>i < 3. xDel (e ! i) \<longrightarrow> xCmp (e ! i) \<noteq> None \<and> unaligned (ce_enc (e ! i)) = i + 1))"

lemma frefs_set_chain:
  assumes "distinct (map fst (aFunc db))"
  shows "frefs (set_chain z c db) + mset (map fd_destr (func_chain db z)) = frefs db + mset (map fd_destr c)"
proof (cases "map_of (aFunc db) (fold_case z)")
  case None
  then have "fold_case z \<notin> fst ` set (aFunc db)" by (simp add: map_of_eq_None_iff)
  then show ?thesis using None by (simp add: set_chain_def frefs_def func_chain_def)
next
  case (Some e)
  then have k: "fold_case z \<in> fst ` set (aFunc db)" by (force dest: map_of_SomeD)
  show ?thesis
    using mset_alist [OF assms Some] mset_alist_set [OF assms k, of c] k Some
    by (simp add: set_chain_def frefs_def func_chain_def)
qed


lemma frefs_other [simp]:
  "frefs (db\<lparr>destroyed := x\<rparr>) = frefs db" "frefs (db\<lparr>destructors := y\<rparr>) = frefs db"
  "frefs (db\<lparr>nextDestr := n\<rparr>) = frefs db" "frefs (db\<lparr>expired := b\<rparr>) = frefs db"
  "frefs (sqlite3OomFault db) = frefs db" "frefs (sqlite3OomClear db) = frefs db"
  by (simp_all add: frefs_def sqlite3OomFault_def sqlite3OomClear_def)

section \<open>Functions keep the ledger\<close>

text \<open>
  Counting is exact up to a pending reference: \<open>off\<close> is what the destructor objects count more than
  the definitions refer to.
\<close>

definition counts :: "nat option multiset \<Rightarrow> conn \<Rightarrow> bool" where
  "counts off db \<longleftrightarrow>
     (\<forall>d v. map_of (destructors db) d = Some v \<longrightarrow> nRef v + count off (Some d) = count (frefs db) (Some d)) \<and>
     (\<forall>d. count (frefs db) (Some d) > count off (Some d) \<longrightarrow> map_of (destructors db) d \<noteq> None)"

definition destr_ids :: "conn \<Rightarrow> bool" where
  "destr_ids db \<longleftrightarrow> distinct (map fst (destructors db)) \<and> (\<forall>d \<in> fst ` set (destructors db). d < nextDestr db)"

lemma functionDestroy_frame [simp]:
  "aFunc (functionDestroy db p) = aFunc db" "aCollSeq (functionDestroy db p) = aCollSeq db"
  "nextDestr (functionDestroy db p) = nextDestr db" "frefs (functionDestroy db p) = frefs db"
  by (auto simp: functionDestroy_def frefs_def split: option.split)

lemma ledger_functionDestroy:
  assumes "distinct (map fst (destructors db))"
  shows "ledger (functionDestroy db p) = ledger db"
proof (cases "fd_destr p")
  case (Some d)
  show ?thesis
  proof (cases "map_of (destructors db) d")
    case v: (Some v)
    then have "d \<in> fst ` set (destructors db)" by (force dest: map_of_SomeD)
    with Some v show ?thesis
      using mset_alist [OF assms v] mset_alist_set [OF assms, of d "v\<lparr>nRef := nRef v - 1\<rparr>"]
      by (simp add: functionDestroy_def ledger_def owned_def coll_owned_def)
  qed (simp add: functionDestroy_def Some)
qed (simp add: functionDestroy_def)

lemma fst_alist_del_subset: "fst ` set (alist_del k xs) \<subseteq> fst ` set xs"
  by (auto simp: alist_del_def)

lemma ids_functionDestroy: "destr_ids db \<Longrightarrow> destr_ids (functionDestroy db p)"
proof (cases "fd_destr p")
  case (Some d)
  assume "destr_ids db"
  moreover have "fst ` set (destructors (functionDestroy db p)) \<subseteq> fst ` set (destructors db)"
    using fst_alist_del_subset [of d "destructors db"] Some
    by (cases "map_of (destructors db) d") (simp_all add: functionDestroy_def)
  moreover from calculation(1) have "distinct (map fst (destructors (functionDestroy db p)))"
    using Some by (cases "map_of (destructors db) d") (simp_all add: functionDestroy_def destr_ids_def distinct_alist_del)
  ultimately show ?thesis unfolding destr_ids_def by (simp only: functionDestroy_frame) blast
qed (simp add: functionDestroy_def)

lemma counts_functionDestroy:
  assumes "counts off db" "count (frefs db) (fd_destr p) > count off (fd_destr p)"
  shows "counts (add_mset (fd_destr p) off) (functionDestroy db p)"
proof (cases "fd_destr p")
  case None
  with assms(1) show ?thesis by (simp add: functionDestroy_def counts_def)
next
  case (Some d)
  then obtain v where v: "map_of (destructors db) d = Some v" "nRef v + count off (Some d) = count (frefs db) (Some d)"
    using assms unfolding counts_def by (metis not_None_eq)
  have n: "0 < nRef v" using v(2) assms(2) unfolding Some by linarith
  have k: "d \<in> fst ` set (destructors db)" using v(1) by (force dest: map_of_SomeD)
  show ?thesis
  proof (cases "nRef v = 1")
    case True
    then have "count (frefs db) (Some d) = Suc (count off (Some d))" using v(2) by simp
    with assms(1) True v(1) Some show ?thesis
      unfolding counts_def functionDestroy_def by (auto simp: map_of_alist_del)
  next
    case False
    have f: "functionDestroy db p = db\<lparr>destructors := alist_set d (v\<lparr>nRef := nRef v - 1\<rparr>) (destructors db)\<rparr>"
      using False n v(1) Some by (simp add: functionDestroy_def)
    have m: "map_of (destructors (functionDestroy db p)) e =
        (if e = d then Some (v\<lparr>nRef := nRef v - 1\<rparr>) else map_of (destructors db) e)" for e
      using k by (simp add: f map_of_alist_set)
    show ?thesis
      unfolding counts_def
    proof (intro conjI allI impI)
      fix e w
      assume "map_of (destructors (functionDestroy db p)) e = Some w"
      then show "nRef w + count (add_mset (fd_destr p) off) (Some e) = count (frefs (functionDestroy db p)) (Some e)"
        using assms(1) v(2) n Some unfolding m counts_def by (auto split: if_splits)
    next
      fix e
      assume "count (add_mset (fd_destr p) off) (Some e) < count (frefs (functionDestroy db p)) (Some e)"
      then show "map_of (destructors (functionDestroy db p)) e \<noteq> None"
        using assms(1) unfolding m counts_def by (auto split: if_splits)
    qed
  qed
qed


definition wf_func :: "conn \<Rightarrow> bool" where
  "wf_func db \<longleftrightarrow> distinct (map fst (aFunc db)) \<and> [] \<notin> snd ` set (aFunc db) \<and> destr_ids db \<and> counts {#} db"

text \<open>Every destructor object but \<open>D\<close> has a reference.\<close>

definition referenced :: "nat set \<Rightarrow> conn \<Rightarrow> bool" where
  "referenced D db \<longleftrightarrow> (\<forall>d v. map_of (destructors db) d = Some v \<longrightarrow> nRef v > 0 \<or> d \<in> D)"

definition wf_conn :: "conn \<Rightarrow> bool" where
  "wf_conn db \<longleftrightarrow> wf_coll db \<and> wf_func db \<and> referenced {} db"

lemma referenced_functionDestroy: "referenced D db \<Longrightarrow> referenced D (functionDestroy db p)"
  unfolding referenced_def functionDestroy_def
  by (auto simp: map_of_alist_del map_of_alist_set split: option.split if_splits)

lemma functionDestroy_other:
  "fd_destr p \<noteq> Some d \<Longrightarrow> map_of (destructors (functionDestroy db p)) d = map_of (destructors db) d"
  by (auto simp: functionDestroy_def map_of_alist_del map_of_alist_set split: option.split)

lemma destr_incr_frame [simp]:
  "aFunc (destr_incr db x) = aFunc db" "aCollSeq (destr_incr db x) = aCollSeq db"
  "nextDestr (destr_incr db x) = nextDestr db" "frefs (destr_incr db x) = frefs db"
  "destroyed (destr_incr db x) = destroyed db"
  by (auto simp: destr_incr_def frefs_def split: option.split)

lemma destr_incr_map_of:
  "map_of (destructors (destr_incr db x)) d =
     (if x = Some d then map_option (\<lambda>v. v\<lparr>nRef := nRef v + 1\<rparr>) (map_of (destructors db) d) else map_of (destructors db) d)"
  by (auto simp: destr_incr_def map_of_alist_set dest: map_of_SomeD split: option.split) (force dest: map_of_SomeD)

lemma fst_destr_incr: "map fst (destructors (destr_incr db x)) = map fst (destructors db)"
  by (simp add: destr_incr_def split: option.split)

lemma ids_destr_incr: "destr_ids db \<Longrightarrow> destr_ids (destr_incr db x)"
  unfolding destr_ids_def list.set_map [symmetric] fst_destr_incr destr_incr_frame .

lemma ledger_destr_incr: "distinct (map fst (destructors db)) \<Longrightarrow> ledger (destr_incr db x) = ledger db"
proof (cases x)
  case (Some d)
  assume dis: "distinct (map fst (destructors db))"
  show ?thesis
  proof (cases "map_of (destructors db) d")
    case v: (Some v)
    then have "d \<in> fst ` set (destructors db)" by (force dest: map_of_SomeD)
    with Some v show ?thesis
      using mset_alist [OF dis v] mset_alist_set [OF dis, of d "v\<lparr>nRef := nRef v + 1\<rparr>"]
      by (simp add: destr_incr_def ledger_def owned_def coll_owned_def)
  qed (simp add: destr_incr_def Some)
qed (simp add: destr_incr_def)

lemma set_chain_frame [simp]:
  "destructors (set_chain z c db) = destructors db" "aCollSeq (set_chain z c db) = aCollSeq db"
  "nextDestr (set_chain z c db) = nextDestr db" "destroyed (set_chain z c db) = destroyed db"
  "ledger (set_chain z c db) = ledger db" "destr_ids (set_chain z c db) = destr_ids db"
  by (simp_all add: set_chain_def ledger_def owned_def coll_owned_def destr_ids_def)

lemma set_chain_keys:
  assumes "distinct (map fst (aFunc db))" "[] \<notin> snd ` set (aFunc db)" "c \<noteq> []"
  shows "distinct (map fst (aFunc (set_chain z c db)))" "[] \<notin> snd ` set (aFunc (set_chain z c db))"
proof -
  show "distinct (map fst (aFunc (set_chain z c db)))" using assms(1) by (auto simp: set_chain_def)
  show "[] \<notin> snd ` set (aFunc (set_chain z c db))"
    using assms(2,3) by (auto simp: set_chain_def dest!: set_alist_set_subset)
qed

lemma func_chain_set_chain:
  "func_chain (set_chain z c db) z' = (if fold_case z' = fold_case z then c else func_chain db z')"
  by (auto simp: func_chain_def set_chain_def map_of_alist_set)

lemma func_chain_in_frefs: "i < length (func_chain db z) \<Longrightarrow> fd_destr (func_chain db z ! i) \<in># frefs db"
proof -
  assume i: "i < length (func_chain db z)"
  then obtain c where c: "map_of (aFunc db) (fold_case z) = Some c" "c = func_chain db z"
    by (auto simp: func_chain_def split: option.splits)
  then have "(fold_case z, c) \<in> set (aFunc db)" by (blast dest: map_of_SomeD)
  moreover have "c ! i \<in> set c" using i c(2) by simp
  ultimately show ?thesis unfolding frefs_def c(2) [symmetric] by (auto intro!: imageI bexI)
qed


text \<open>
  Installing a definition: the one at index \<open>i\<close> of a chain gives up its destructor object, the new one
  takes another.
\<close>

definition install :: "conn \<Rightarrow> u8 list \<Rightarrow> nat \<Rightarrow> nat option \<Rightarrow> FuncDef \<Rightarrow> conn" where
  "install db z i x p' =
     set_chain z ((func_chain db z)[i := p']) (destr_incr (functionDestroy db (func_chain db z ! i)) x)"

lemma mset_swap:
  fixes A C F C2 P X :: "'a multiset"
  assumes "A + C = F + C2" "C2 + P = C + X"
  shows "A + P = F + X"
proof -
  have "(A + P) + C = (A + C) + P" by (simp add: ac_simps)
  also have "\<dots> = F + (C2 + P)" unfolding assms(1) by (simp only: add.assoc)
  also have "\<dots> = (F + X) + C" unfolding assms(2) by (simp add: ac_simps)
  finally show ?thesis by (rule add_right_imp_eq)
qed

lemma frefs_install:
  assumes "distinct (map fst (aFunc db))" "i < length (func_chain db z)"
  shows "frefs (install db z i x p') + {#fd_destr (func_chain db z ! i)#} = frefs db + {#fd_destr p'#}"
proof -
  let ?c = "func_chain db z" and ?db = "destr_incr (functionDestroy db (func_chain db z ! i)) x"
  have c: "func_chain ?db z = ?c" by (simp add: func_chain_def)
  have "frefs (set_chain z (?c[i := p']) ?db) + mset (map fd_destr ?c) = frefs db + mset (map fd_destr (?c[i := p']))"
    using frefs_set_chain [of ?db z "?c[i := p']"] assms(1) unfolding c by simp
  moreover have "mset (map fd_destr (?c[i := p'])) + {#fd_destr (?c ! i)#} = mset (map fd_destr ?c) + {#fd_destr p'#}"
    using assms(2) by (simp add: map_update mset_update)
  ultimately show ?thesis
    unfolding install_def by (rule mset_swap)
qed

lemma wf_install:
  assumes wf: "wf_func db" and i: "i < length (func_chain db z)" and p': "fd_destr p' = x"
    and x': "\<forall>d. x = Some d \<longrightarrow> map_of (destructors db) d \<noteq> None \<and> fd_destr (func_chain db z ! i) \<noteq> Some d"
  shows "wf_func (install db z i x p')" "ledger (install db z i x p') = ledger db"
    "aCollSeq (install db z i x p') = aCollSeq db" "nextDestr (install db z i x p') = nextDestr db"
    "referenced D db \<Longrightarrow> referenced D (install db z i x p')"
    "x = Some d \<Longrightarrow> map_option nRef (map_of (destructors (install db z i x p')) d) =
       map_option (\<lambda>v. nRef v + 1) (map_of (destructors db) d)"
proof -
  note x = x' [rule_format]
  let ?p = "func_chain db z ! i"
  define db1 where "db1 = functionDestroy db ?p"
  define db2 where "db2 = destr_incr db1 x"
  define db3 where "db3 = set_chain z ((func_chain db z)[i := p']) db2"
  have inst: "install db z i x p' = db3" by (simp add: install_def db1_def db2_def db3_def)
  have wf': "distinct (map fst (aFunc db))" "[] \<notin> snd ` set (aFunc db)" "destr_ids db" "counts {#} db"
    using wf by (simp_all add: wf_func_def)
  have ids: "destr_ids db1" "destr_ids db2"
    using ids_functionDestroy [OF wf'(3)] ids_destr_incr unfolding db1_def db2_def by blast+
  have in_refs: "fd_destr ?p \<in># frefs db" by (rule func_chain_in_frefs [OF i])
  have c1: "counts {#fd_destr ?p#} db1"
    using counts_functionDestroy [OF wf'(4), of ?p] in_refs by (simp add: db1_def)
  have fr: "frefs db3 + {#fd_destr ?p#} = frefs db + {#x#}"
    using frefs_install [OF wf'(1) i, of x p'] unfolding inst p' .
  have f1: "frefs db1 = frefs db" by (simp add: db1_def)
  have cnt: "count (frefs db3) (Some d) + (if fd_destr ?p = Some d then 1 else 0) = count (frefs db) (Some d) + (if x = Some d then 1 else 0)" for d
    using arg_cong [OF fr, of "\<lambda>M. count M (Some d)"] by (cases "fd_destr ?p = Some d"; cases "x = Some d") simp_all
  have c3: "counts {#} db3"
    unfolding counts_def
  proof (intro conjI allI impI)
    fix d v
    assume "map_of (destructors db3) d = Some v"
    then obtain w where w: "map_of (destructors db1) d = Some w" "nRef v = nRef w + (if x = Some d then 1 else 0)"
      by (auto simp: db3_def db2_def destr_incr_map_of split: if_splits)
    then have "nRef w + count {#fd_destr ?p#} (Some d) = count (frefs db) (Some d)"
      using c1 unfolding counts_def f1 by blast
    then show "nRef v + count {#} (Some d) = count (frefs db3) (Some d)"
      using w(2) cnt [of d] by (auto split: if_splits)
  next
    fix d
    assume a: "count {#} (Some d) < count (frefs db3) (Some d)"
    show "map_of (destructors db3) d \<noteq> None"
    proof (cases "x = Some d")
      case True
      then have "map_of (destructors db1) d \<noteq> None" using x [OF True] functionDestroy_other [of ?p d db] by (simp add: db1_def)
      then show ?thesis using True by (simp add: db3_def db2_def destr_incr_map_of)
    next
      case False
      then have "count {#fd_destr ?p#} (Some d) < count (frefs db1) (Some d)"
        using a cnt [of d] unfolding f1
        by (cases "fd_destr ?p = Some d") (auto simp del: count_greater_zero_iff)
      then have "map_of (destructors db1) d \<noteq> None" using c1 unfolding counts_def by blast
      then show ?thesis by (simp add: db3_def db2_def destr_incr_map_of split: if_splits)
    qed
  qed
  have "(func_chain db z)[i := p'] \<noteq> []" using i by auto
  from set_chain_keys [OF _ _ this, of db2 z] have "distinct (map fst (aFunc db3))" "[] \<notin> snd ` set (aFunc db3)"
    using wf'(1,2) by (simp_all add: db3_def db2_def db1_def)
  then show "wf_func (install db z i x p')" unfolding inst wf_func_def using c3 ids(2) by (simp add: db3_def)
  have dis: "distinct (map fst (destructors db))" "distinct (map fst (destructors db1))"
    using wf'(3) ids(1) by (simp_all add: destr_ids_def)
  show "ledger (install db z i x p') = ledger db"
    unfolding inst db3_def set_chain_frame db2_def unfolding ledger_destr_incr [OF dis(2)]
    unfolding db1_def ledger_functionDestroy [OF dis(1)] ..
  show "aCollSeq (install db z i x p') = aCollSeq db" "nextDestr (install db z i x p') = nextDestr db"
    by (simp_all add: install_def)
  show "referenced D (install db z i x p')" if "referenced D db"
    using referenced_functionDestroy [OF that, of ?p]
    by (auto simp: install_def referenced_def destr_incr_map_of split: if_splits)
  show "map_option nRef (map_of (destructors (install db z i x p')) d) = map_option (\<lambda>v. nRef v + 1) (map_of (destructors db) d)"
    if "x = Some d"
    using functionDestroy_other [of ?p d db] x [OF that] that
    by (simp add: install_def destr_incr_map_of option.map_comp comp_def)
qed


text \<open>The lookup with \<open>createFlag\<close>.\<close>

lemma best_match_index:
  "best_match ps n e i b = (r, s) \<Longrightarrow> (r, s) = b \<or> (\<exists>j < length ps. r = Some (i + j) \<and> s = matchQuality (ps ! j) n e)"
proof (induction ps arbitrary: i b)
  case (Cons p ps)
  from Cons.IH [OF Cons.prems [unfolded best_match.simps]]
  show ?case
  proof
    assume "(r, s) = (if snd b < matchQuality p n e then (Some i, matchQuality p n e) else b)"
    then show ?thesis by (auto split: if_splits intro: exI [of _ 0])
  next
    assume "\<exists>j<length ps. r = Some (i + 1 + j) \<and> s = matchQuality (ps ! j) n e"
    then obtain j where "j < length ps" "r = Some (i + 1 + j)" "s = matchQuality (ps ! j) n e" by blast
    then show ?thesis by (intro disjI2 exI [of _ "Suc j"]) simp
  qed
qed simp

lemma matchQuality_le: "matchQuality p n e \<le> FUNC_PERFECT_MATCH"
  by (simp add: matchQuality_def FUNC_PERFECT_MATCH_def)

lemma matchQuality_perfect:
  "- 1 \<le> n \<Longrightarrow> matchQuality p n e = FUNC_PERFECT_MATCH \<longleftrightarrow> fd_nArg p = n \<and> fd_enc p = e"
  by (auto simp: matchQuality_def FUNC_PERFECT_MATCH_def split: if_splits)

lemma find_create_cases:
  assumes "sqlite3FindFunction_create am am' db z n e = (r, db')" "- 1 \<le> n"
  obtains (oom) "r = None" "db' = sqlite3OomFault db"
  | (fresh) p where "r = Some 0" "db' = set_chain z (p # func_chain db z) db" "fd_destr p = None" "fd_nArg p = n" "fd_enc p = e mod 4"
  | (found) i where "r = Some i" "db' = db" "i < length (func_chain db z)" "fd_nArg (func_chain db z ! i) = n" "fd_enc (func_chain db z ! i) = e"
proof -
  obtain b s where bs: "best_match (func_chain db z) n e 0 (None, 0) = (b, s)" by fastforce
  note d = assms(1) [unfolded sqlite3FindFunction_create_def bs Let_def prod.case]
  show thesis
  proof (cases "s < FUNC_PERFECT_MATCH")
    case True
    then show thesis using d by (auto split: if_splits intro: oom fresh)
  next
    case False
    then have "(b, s) \<noteq> (None, 0)" by (auto simp: FUNC_PERFECT_MATCH_def)
    with best_match_index [OF bs] obtain j where j: "j < length (func_chain db z)" "b = Some j" "s = matchQuality (func_chain db z ! j) n e"
      by auto
    then have "s = FUNC_PERFECT_MATCH" using False matchQuality_le le_neq_implies_less by metis
    then show thesis using d False j matchQuality_perfect [OF assms(2)] by (intro found [of j]) auto
  qed
qed

lemma wf_new_def:
  assumes "wf_func db" "fd_destr p = None"
  shows "wf_func (set_chain z (p # func_chain db z) db)"
proof -
  have k: "distinct (map fst (aFunc db))" "[] \<notin> snd ` set (aFunc db)" using assms(1) by (simp_all add: wf_func_def)
  have "frefs (set_chain z (p # func_chain db z) db) = add_mset None (frefs db)"
    using frefs_set_chain [OF k(1), of z "p # func_chain db z"] assms(2) by simp
  then show ?thesis
    using assms set_chain_keys [OF k, of "p # func_chain db z" z] by (simp add: wf_func_def counts_def)
qed

lemma oom_frame [simp]:
  "wf_func (sqlite3OomFault db) = wf_func db" "ledger (sqlite3OomFault db) = ledger db" "aCollSeq (sqlite3OomFault db) = aCollSeq db"
  "nextDestr (sqlite3OomFault db) = nextDestr db" "destructors (sqlite3OomFault db) = destructors db" "aFunc (sqlite3OomFault db) = aFunc db"
  "wf_func (sqlite3OomClear db) = wf_func db" "ledger (sqlite3OomClear db) = ledger db" "aCollSeq (sqlite3OomClear db) = aCollSeq db"
  "nextDestr (sqlite3OomClear db) = nextDestr db" "destructors (sqlite3OomClear db) = destructors db" "aFunc (sqlite3OomClear db) = aFunc db"
  "wf_func (sqlite3ExpirePreparedStatements db) = wf_func db" "ledger (sqlite3ExpirePreparedStatements db) = ledger db"
  "aCollSeq (sqlite3ExpirePreparedStatements db) = aCollSeq db" "nextDestr (sqlite3ExpirePreparedStatements db) = nextDestr db"
  "destructors (sqlite3ExpirePreparedStatements db) = destructors db" "aFunc (sqlite3ExpirePreparedStatements db) = aFunc db"
  by (simp_all add: sqlite3OomFault_def sqlite3OomClear_def sqlite3ExpirePreparedStatements_def wf_func_def destr_ids_def
      counts_def ledger_def owned_def coll_owned_def frefs_def)


text \<open>Destructor objects keep their user data as long as they exist.\<close>

definition same_users :: "conn \<Rightarrow> conn \<Rightarrow> bool" where
  "same_users db db' \<longleftrightarrow>
     (\<forall>d v'. map_of (destructors db') d = Some v' \<longrightarrow> (\<exists>v. map_of (destructors db) d = Some v \<and> d_user v' = d_user v))"

lemma same_users_functionDestroy: "same_users db (functionDestroy db p)"
  by (auto simp: same_users_def functionDestroy_def map_of_alist_del map_of_alist_set split: option.split if_splits)

lemma same_users_install: "same_users db (install db z i x p')"
  using same_users_functionDestroy [of db "func_chain db z ! i"]
  by (auto simp: same_users_def install_def destr_incr_map_of split: if_splits)

text \<open>What a step of the creation of a function preserves.\<close>

definition fstep :: "conn \<Rightarrow> conn \<Rightarrow> bool" where
  "fstep db db' \<longleftrightarrow> wf_func db' \<and> ledger db' = ledger db \<and> aCollSeq db' = aCollSeq db \<and>
     nextDestr db' = nextDestr db \<and> (\<forall>D. referenced D db \<longrightarrow> referenced D db') \<and> same_users db db'"

lemma fstep_refl: "wf_func db \<Longrightarrow> fstep db db"
  by (simp add: fstep_def same_users_def)

lemma same_users_trans: "same_users a b \<Longrightarrow> same_users b c \<Longrightarrow> same_users a c"
  unfolding same_users_def by metis

lemma fstep_trans: "fstep a b \<Longrightarrow> fstep b c \<Longrightarrow> fstep a c"
  unfolding fstep_def using same_users_trans [of a b c] by (elim conjE) simp

text \<open>The definitions of a name that use destructor object \<open>d\<close> are for the encodings \<open>E\<close>.\<close>

definition uses :: "conn \<Rightarrow> u8 list \<Rightarrow> nat option \<Rightarrow> nat set \<Rightarrow> bool" where
  "uses db z x E \<longleftrightarrow> x = None \<or> (\<forall>p \<in> set (func_chain db z). fd_destr p = x \<longrightarrow> fd_enc p \<in> E)"

definition refs_of :: "conn \<Rightarrow> nat option \<Rightarrow> nat option" where
  "refs_of db x = (case x of None \<Rightarrow> None | Some d \<Rightarrow> map_option nRef (map_of (destructors db) d))"

lemma createFunc1_step:
  assumes r: "createFunc1 builtin prefer am am' db z e fl a = (rc, db')"
    and wf: "wf_func db" and n: "- 1 \<le> a_nArg a"
    and x: "\<And>d. a_destr a = Some d \<Longrightarrow> map_of (destructors db) d \<noteq> None" and u: "uses db z (a_destr a) E" "e \<notin> E"
  shows "fstep db db'" "uses db' z (a_destr a) ({e, e mod 4} \<union> E)"
    "rc = RC_OK \<Longrightarrow> refs_of db' (a_destr a) = map_option Suc (refs_of db (a_destr a))"
    "rc \<noteq> RC_OK \<Longrightarrow> refs_of db' (a_destr a) = refs_of db (a_destr a)"
proof -
  define ov where "ov = (case sqlite3FindFunction builtin prefer db z (a_nArg a) e of
                         None \<Rightarrow> False | Some p \<Rightarrow> fd_enc p = e \<and> fd_nArg p = a_nArg a)"
  define db0 where "db0 = (if ov then sqlite3ExpirePreparedStatements db else db)"
  have db0 [simp]: "wf_func db0" "func_chain db0 = func_chain db" "destructors db0 = destructors db" "aCollSeq db0 = aCollSeq db"
    "nextDestr db0 = nextDestr db" "ledger db0 = ledger db"
    using wf by (simp_all add: db0_def func_chain_def fun_eq_iff)
  obtain ri db1 where f: "sqlite3FindFunction_create am am' db0 z (a_nArg a) e = (ri, db1)" by fastforce
  define P where "P p = p\<lparr>fd_destr := a_destr a, fd_flags := fl,
      xSFunc := (if a_SFunc a \<noteq> None then a_SFunc a else a_Step a), xFinalize := a_Final a,
      fd_user := a_user a, fd_nArg := a_nArg a\<rparr>" for p :: FuncDef
  have P: "fd_destr (P p) = a_destr a" "fd_enc (P p) = fd_enc p" for p :: FuncDef by (simp_all add: P_def)
  have body: "createFunc1 builtin prefer am am' db z e fl a =
      (if ov \<and> nVdbeActive db > 0 then (RC_BUSY, db)
       else (case ri of None \<Rightarrow> (RC_NOMEM, db1) | Some i \<Rightarrow> (RC_OK, install db1 z i (a_destr a) (P (func_chain db1 z ! i)))))"
    unfolding createFunc1_def Let_def ov_def [symmetric] db0_def [symmetric] f
    by (simp add: install_def P_def func_chain_def split: option.split)
  have ok: "fstep db db' \<and> uses db' z (a_destr a) ({e, e mod 4} \<union> E) \<and> refs_of db' (a_destr a) = map_option Suc (refs_of db (a_destr a))"
    if i: "ri = Some i" "rc = RC_OK" "db' = install db1 z i (a_destr a) (P (func_chain db1 z ! i))"
      and w1: "wf_func db1" "ledger db1 = ledger db" "aCollSeq db1 = aCollSeq db" "nextDestr db1 = nextDestr db" "destructors db1 = destructors db"
      and len: "i < length (func_chain db1 z)" and enc: "fd_enc (func_chain db1 z ! i) \<in> {e, e mod 4}"
      and nd: "\<forall>d. a_destr a = Some d \<longrightarrow> fd_destr (func_chain db1 z ! i) \<noteq> Some d"
      and u1: "uses db1 z (a_destr a) E" for i
  proof -
    have x2: "\<forall>d. a_destr a = Some d \<longrightarrow> map_of (destructors db1) d \<noteq> None \<and> fd_destr (func_chain db1 z ! i) \<noteq> Some d"
      unfolding w1(5) using x nd by blast
    note inst = wf_install [where p' = "P (func_chain db1 z ! i)", OF w1(1) len P(1) x2, folded i(3)]
    have "referenced D db \<Longrightarrow> referenced D db'" for D
      using inst(5) [of D] unfolding referenced_def w1(5) by blast
    moreover have "same_users db db'"
      using same_users_install [of db1 z i "a_destr a" "P (func_chain db1 z ! i)", folded i(3)] unfolding same_users_def w1(5) .
    ultimately have "fstep db db'" using inst(1-4) w1 by (simp add: fstep_def)
    moreover have "func_chain db' z = (func_chain db1 z)[i := P (func_chain db1 z ! i)]"
      by (simp add: i(3) install_def func_chain_set_chain)
    then have "uses db' z (a_destr a) ({e, e mod 4} \<union> E)"
      using u1 enc P(2) by (auto simp: uses_def dest!: set_update_subset_insert [THEN subsetD])
    moreover have "refs_of db' (a_destr a) = map_option Suc (refs_of db (a_destr a))"
      using inst(6) w1(5) by (auto simp: refs_of_def option.map_comp comp_def split: option.split)
    ultimately show ?thesis by blast
  qed
  have "fstep db db' \<and> uses db' z (a_destr a) ({e, e mod 4} \<union> E) \<and>
      (rc = RC_OK \<longrightarrow> refs_of db' (a_destr a) = map_option Suc (refs_of db (a_destr a))) \<and>
      (rc \<noteq> RC_OK \<longrightarrow> refs_of db' (a_destr a) = refs_of db (a_destr a))"
  proof (cases "ov \<and> nVdbeActive db > 0")
    case True
    then have "rc = RC_BUSY" "db' = db" using r body by auto
    then show ?thesis using fstep_refl [OF wf] u(1) by (auto simp: uses_def)
  next
    case False
    then have r': "(rc, db') = (case ri of None \<Rightarrow> (RC_NOMEM, db1) | Some i \<Rightarrow> (RC_OK, install db1 z i (a_destr a) (P (func_chain db1 z ! i))))"
      using r body by auto
    from f n show ?thesis
    proof (cases rule: find_create_cases)
      case oom
      then have "rc = RC_NOMEM" "db' = sqlite3OomFault db0" using r' by auto
      then show ?thesis using u(1)
        by (auto simp: wf fstep_def same_users_def uses_def refs_of_def referenced_def func_chain_def db0_def split: option.split)
    next
      case (fresh p)
      then have i: "ri = Some 0" "rc = RC_OK" "db' = install db1 z 0 (a_destr a) (P (func_chain db1 z ! 0))" using r' by auto
      have c: "func_chain db1 z = p # func_chain db z" by (simp add: fresh(2) func_chain_set_chain)
      have "uses db1 z (a_destr a) E" using u(1) fresh(3) by (auto simp: uses_def c)
      moreover have "wf_func db1" unfolding fresh(2) by (rule wf_new_def [OF _ fresh(3)]) simp
      ultimately show ?thesis using ok [OF i] fresh i(2) by (simp add: func_chain_set_chain)
    next
      case (found i)
      then have i: "ri = Some i" "rc = RC_OK" "db' = install db1 z i (a_destr a) (P (func_chain db1 z ! i))" using r' by auto
      have "\<forall>d. a_destr a = Some d \<longrightarrow> fd_destr (func_chain db1 z ! i) \<noteq> Some d"
        using u nth_mem [OF found(3)] found(2,5) by (auto simp: uses_def)
      moreover have "uses db0 z (a_destr a) E" using u(1) by (simp add: uses_def)
      ultimately show ?thesis using ok [OF i] found i(2) by simp
    qed
  qed
  then show "fstep db db'" "uses db' z (a_destr a) ({e, e mod 4} \<union> E)"
    "rc = RC_OK \<Longrightarrow> refs_of db' (a_destr a) = map_option Suc (refs_of db (a_destr a))"
    "rc \<noteq> RC_OK \<Longrightarrow> refs_of db' (a_destr a) = refs_of db (a_destr a)" by blast+
qed



lemma uses_mono: "uses db z x E \<Longrightarrow> E \<subseteq> F \<Longrightarrow> uses db z x F"
  by (auto simp: uses_def)

lemma fresh_uses: "wf_func db \<Longrightarrow> map_of (destructors db) d = None \<Longrightarrow> uses db z (Some d) E"
proof -
  assume wf: "wf_func db" and d: "map_of (destructors db) d = None"
  have "fd_destr p \<noteq> Some d" if p: "p \<in> set (func_chain db z)" for p
  proof
    assume "fd_destr p = Some d"
    with p func_chain_in_frefs [of _ db z] have "Some d \<in># frefs db" by (metis in_set_conv_nth)
    then have "count {#} (Some d) < count (frefs db) (Some d)" by simp
    then show False using wf d unfolding wf_func_def counts_def by blast
  qed
  then show ?thesis by (auto simp: uses_def)
qed

text \<open>
  The whole of \<open>sqlite3CreateFunc\<close>: the ledger is kept, and the destructor object has references as
  soon as one encoding succeeded.
\<close>

lemma CreateFunc_step:
  assumes r: "sqlite3CreateFunc builtin prefer am am' db z ef a = (rc, db')"
    and wf: "wf_func db" and x: "\<And>d. a_destr a = Some d \<Longrightarrow> map_of (destructors db) d \<noteq> None" and u: "uses db z (a_destr a) {}"
  shows "fstep db db' \<and> (rc = RC_OK \<longrightarrow> (\<forall>d. a_destr a = Some d \<longrightarrow> (\<exists>n. refs_of db' (Some d) = Some (Suc n))))"
proof -
  define c where "c db e = createFunc1 builtin prefer (am e) (am' e) db z e (ef AND 0x800) a" for db e
  have step: "fstep db1 db2 \<and> uses db2 z (a_destr a) ({e, e mod 4} \<union> E) \<and>
      (rc = RC_OK \<longrightarrow> (\<forall>d. a_destr a = Some d \<longrightarrow> (\<exists>n. refs_of db2 (Some d) = Some (Suc n))))"
    if "c db1 e = (rc, db2)" "wf_func db1" "\<And>d. a_destr a = Some d \<Longrightarrow> \<exists>n. refs_of db1 (Some d) = Some n"
      "uses db1 z (a_destr a) E" "e \<notin> E" "- 1 \<le> a_nArg a" for e E db1 db2 rc
  proof -
    have y: "map_of (destructors db1) d \<noteq> None" if "a_destr a = Some d" for d
      using \<open>\<And>d. a_destr a = Some d \<Longrightarrow> \<exists>n. refs_of db1 (Some d) = Some n\<close> [OF that] by (auto simp: refs_of_def)
    note s = createFunc1_step [OF that(1) [unfolded c_def] that(2,6) y that(4,5)]
    show ?thesis using s(1-3) that(3) by force
  qed
  have x0: "\<And>d. a_destr a = Some d \<Longrightarrow> \<exists>n. refs_of db (Some d) = Some n" using x by (force simp: refs_of_def)
  let ?bad = "a_SFunc a \<noteq> None \<and> (a_Final a \<noteq> None \<or> a_Step a \<noteq> None)
         \<or> a_SFunc a = None \<and> a_Final a \<noteq> None \<and> a_Step a = None
         \<or> a_SFunc a = None \<and> a_Final a = None \<and> a_Step a \<noteq> None
         \<or> a_nArg a < - 1 \<or> a_nArg a > 127 \<or> 255 < length z"
  note body = r [unfolded sqlite3CreateFunc_def Let_def c_def [symmetric]]
  show ?thesis
  proof (cases ?bad)
    case True
    then have "rc = RC_MISUSE" "db' = db" using body by (simp_all only: if_True prod.inject)
    then show ?thesis using fstep_refl [OF wf] by simp
  next
    case False
    then have n: "- 1 \<le> a_nArg a" by simp
    note body' = body [unfolded if_not_P [OF False]]
    show ?thesis
    proof (cases "ef AND 7 = E_ANY")
      case any: True
      obtain rc1 db1 where 1: "c db E_UTF8 = (rc1, db1)" by fastforce
      note s1 = step [OF 1 wf x0 u _ n, simplified]
      show ?thesis
      proof (cases "rc1 = RC_OK")
        case True
        obtain rc2 db2 where 2: "c db1 E_UTF16LE = (rc2, db2)" by fastforce
        have w1: "wf_func db1" "fstep db db1" using s1 by (simp_all add: fstep_def)
        have x1: "\<And>d. a_destr a = Some d \<Longrightarrow> \<exists>n. refs_of db1 (Some d) = Some n" using s1 True by blast
        have u1: "uses db1 z (a_destr a) {1}" using s1 by simp
        note s2 = step [OF 2 w1(1) x1 u1 _ n, simplified]
        show ?thesis
        proof (cases "rc2 = RC_OK")
          case ok2: True
          have w2: "wf_func db2" "fstep db1 db2" using s2 by (simp_all add: fstep_def)
          have x2: "\<And>d. a_destr a = Some d \<Longrightarrow> \<exists>n. refs_of db2 (Some d) = Some n" using s2 ok2 by blast
          have u2: "uses db2 z (a_destr a) {1, 2}" using s2 by simp
          have 3: "c db2 E_UTF16BE = (rc, db')" using body' any 1 2 True ok2 by simp
          note s3 = step [OF 3 w2(1) x2 u2 _ n, simplified]
          then show ?thesis using fstep_trans [OF fstep_trans [OF w1(2) w2(2)]] by blast
        next
          case False
          then have "(rc, db') = (rc2, db2)" using body' any 1 2 True by (simp split: api_rc.splits)
          then show ?thesis using s2 False fstep_trans [OF w1(2)] by simp
        qed
      next
        case False
        then have "(rc, db') = (rc1, db1)" using body' any 1 by (simp split: api_rc.splits)
        then show ?thesis using s1 False by simp
      qed
    next
      case False
      then obtain e where "c db e = (rc, db')" using body' by (auto split: if_splits)
      from step [OF this wf x0 u _ n, simplified] show ?thesis by blast
    qed
  qed
qed

section \<open>Collations keep the ledger\<close>

definition dels :: "CollSeq list \<Rightarrow> nat multiset" where
  "dels e = image_mset ce_user (filter_mset xDel (mset e))"

lemma dels_simps [simp]:
  "dels [] = {#}" "dels (p # e) = (if xDel p then add_mset (ce_user p) (dels e) else dels e)"
  by (simp_all add: dels_def)

lemma coll_owned_alist:
  "coll_owned db = (\<Sum>(k, e)\<in>#mset (aCollSeq db). dels e)"
proof -
  have "image_mset ce_user (filter_mset xDel (\<Sum>(k, e)\<in>#mset cs. mset e)) = (\<Sum>(k, e)\<in>#mset cs. dels e)"
    for cs :: "(u8 list \<times> CollSeq list) list"
    by (induction cs) (auto simp: dels_def)
  then show ?thesis by (simp add: coll_owned_def)
qed

lemma coll_owned_set_entry:
  assumes "distinct (map fst (aCollSeq db))" "map_of (aCollSeq db) (fold_case z) = Some e"
  shows "coll_owned (set_entry z e' db) + dels e = coll_owned db + dels e'"
proof -
  have k: "fold_case z \<in> fst ` set (aCollSeq db)" using assms(2) by (force dest: map_of_SomeD)
  show ?thesis
    using mset_alist [OF assms] mset_alist_set [OF assms(1) k, of e']
    by (simp add: coll_owned_alist set_entry_def)
qed

lemma destroy_loop_eq:
  "destroy_loop x e = (map (\<lambda>p. if ce_enc p = x then p\<lparr>xCmp := None\<rparr> else p) e,
     map ce_user (filter (\<lambda>p. ce_enc p = x \<and> xDel p) e))"
  by (induction e) (auto simp: Let_def)

definition entry_ok :: "CollSeq list \<Rightarrow> bool" where
  "entry_ok e \<longleftrightarrow> length e = 3 \<and> (\<forall>i < 3. xDel (e ! i) \<longrightarrow> xCmp (e ! i) \<noteq> None \<and> unaligned (ce_enc (e ! i)) = i + 1)"

lemma wf_coll_iff: "wf_coll db \<longleftrightarrow> distinct (map fst (aCollSeq db)) \<and> (\<forall>(k, e) \<in> set (aCollSeq db). entry_ok e)"
  by (simp add: wf_coll_def entry_ok_def)

lemma all_less_3: "(\<forall>i < 3. P i) \<longleftrightarrow> P 0 \<and> P 1 \<and> P (2 :: nat)"
  by (auto simp: less_Suc_eq numeral_3_eq_3 numeral_2_eq_2)

text \<open>
  Replacing the sequence for an encoding: the loop destroys the one replaced, if it has a destructor,
  and nothing else.
\<close>

lemma destroy_loop_replaced:
  assumes e: "entry_ok e" and k: "k < 3" and x: "unaligned (ce_enc (e ! k)) = k + 1"
  shows "mset (snd (destroy_loop (ce_enc (e ! k)) e)) = (if xDel (e ! k) then {#ce_user (e ! k)#} else {#})"
    "dels (fst (destroy_loop (ce_enc (e ! k)) e)) = dels e"
    "entry_ok ((fst (destroy_loop (ce_enc (e ! k)) e))[k := p]) \<longleftrightarrow> entry_ok (e[k := p])"
proof -
  obtain a b c where abc: "e = [a, b, c]"
    using e unfolding entry_ok_def by (auto simp: length_Suc_conv numeral_3_eq_3)
  have k3: "k = 0 \<or> k = 1 \<or> k = 2" using k by linarith
  have ne: "ce_enc (e ! j) \<noteq> ce_enc (e ! k)" if "j < 3" "j \<noteq> k" "xDel (e ! j)" for j
    using e that x unfolding entry_ok_def by auto
  have d: "destroy_loop (ce_enc (e ! k)) e = (map (\<lambda>p. if ce_enc p = ce_enc (e ! k) then p\<lparr>xCmp := None\<rparr> else p) e,
     map ce_user (filter (\<lambda>p. ce_enc p = ce_enc (e ! k) \<and> xDel p) e))" by (rule destroy_loop_eq)
  have n: "xDel a \<and> k \<noteq> 0 \<longrightarrow> ce_enc a \<noteq> ce_enc (e ! k)" "xDel b \<and> k \<noteq> 1 \<longrightarrow> ce_enc b \<noteq> ce_enc (e ! k)"
    "xDel c \<and> k \<noteq> 2 \<longrightarrow> ce_enc c \<noteq> ce_enc (e ! k)"
    using ne [of 0] ne [of 1] ne [of 2] by (auto simp: abc)
  show "mset (snd (destroy_loop (ce_enc (e ! k)) e)) = (if xDel (e ! k) then {#ce_user (e ! k)#} else {#})"
    using k3 n unfolding d snd_conv by (elim disjE) (auto simp: abc)
  show "dels (fst (destroy_loop (ce_enc (e ! k)) e)) = dels e"
    unfolding d fst_conv by (simp add: abc)
  show "entry_ok ((fst (destroy_loop (ce_enc (e ! k)) e))[k := p]) \<longleftrightarrow> entry_ok (e[k := p])"
    using k3 n unfolding d fst_conv entry_ok_def all_less_3 by (elim disjE) (auto simp: abc)
qed

lemma entry_ok_update:
  "entry_ok e \<Longrightarrow> k < 3 \<Longrightarrow> (xDel p \<longrightarrow> xCmp p \<noteq> None \<and> unaligned (ce_enc p) = k + 1) \<Longrightarrow> entry_ok (e[k := p])"
  by (auto simp: entry_ok_def nth_list_update)

lemma dels_update:
  "k < length e \<Longrightarrow> dels (e[k := p]) + (if xDel (e ! k) then {#ce_user (e ! k)#} else {#}) =
     dels e + (if xDel p then {#ce_user p#} else {#})"
proof (induction e arbitrary: k)
  case (Cons a e)
  show ?case
  proof (cases k)
    case (Suc j)
    with Cons.prems Cons.IH [of j] show ?thesis by (auto split: if_splits)
  qed (simp add: ac_simps)
qed simp

lemma set_entry_frame [simp]:
  "aFunc (set_entry z e db) = aFunc db" "destructors (set_entry z e db) = destructors db"
  "nextDestr (set_entry z e db) = nextDestr db" "destroyed (set_entry z e db) = destroyed db"
  by (simp_all add: set_entry_def)

lemma map_of_set_entry:
  "map_of (aCollSeq (set_entry z e db)) (fold_case z) = map_option (\<lambda>_. e) (map_of (aCollSeq db) (fold_case z))"
proof (cases "map_of (aCollSeq db) (fold_case z)")
  case None
  then have "fold_case z \<notin> fst ` set (aCollSeq db)" by (simp add: map_of_eq_None_iff)
  with None show ?thesis by (simp add: set_entry_def map_of_alist_set)
next
  case (Some e')
  then have "fold_case z \<in> fst ` set (aCollSeq db)" by (force dest: map_of_SomeD)
  with Some show ?thesis by (simp add: set_entry_def map_of_alist_set)
qed

lemma alist_set_twice: "alist_set k v (alist_set k u xs) = alist_set k v xs"
  by (induction xs) (auto simp: alist_set_def)

lemma set_entry_set_entry: "set_entry z e' (set_entry z e db) = set_entry z e' db"
  by (simp add: set_entry_def alist_set_twice)

lemma wf_coll_set_entry: "wf_coll db \<Longrightarrow> entry_ok e \<Longrightarrow> wf_coll (set_entry z e db)"
  by (auto simp: wf_coll_iff set_entry_def dest!: set_alist_set_subset)

lemma entry_ok_new: "entry_ok new_entry"
  unfolding entry_ok_def all_less_3 by (simp add: new_entry_def)

lemma wf_coll_entry: "wf_coll db \<Longrightarrow> map_of (aCollSeq db) k = Some e \<Longrightarrow> entry_ok e"
  by (auto simp: wf_coll_iff dest: map_of_SomeD)

text \<open>What the registration of a collation changes: nothing but the collations and the ledger.\<close>

definition cstep :: "nat multiset \<Rightarrow> conn \<Rightarrow> conn \<Rightarrow> bool" where
  "cstep new db db' \<longleftrightarrow> wf_coll db' \<and> mset (destroyed db') + coll_owned db' = mset (destroyed db) + coll_owned db + new \<and>
     aFunc db' = aFunc db \<and> destructors db' = destructors db \<and> nextDestr db' = nextDestr db"

lemma coll_frame [simp]:
  "wf_coll (db\<lparr>destroyed := ds\<rparr>) = wf_coll db" "coll_owned (db\<lparr>destroyed := ds\<rparr>) = coll_owned db"
  "wf_coll (sqlite3OomFault db) = wf_coll db" "coll_owned (sqlite3OomFault db) = coll_owned db" "destroyed (sqlite3OomFault db) = destroyed db"
  "wf_coll (sqlite3OomClear db) = wf_coll db" "coll_owned (sqlite3OomClear db) = coll_owned db" "destroyed (sqlite3OomClear db) = destroyed db"
  "wf_coll (sqlite3ExpirePreparedStatements db) = wf_coll db" "coll_owned (sqlite3ExpirePreparedStatements db) = coll_owned db"
  "destroyed (sqlite3ExpirePreparedStatements db) = destroyed db"
  by (simp_all add: wf_coll_def coll_owned_def sqlite3OomFault_def sqlite3OomClear_def sqlite3ExpirePreparedStatements_def)

text \<open>Putting a sequence into an entry of which the one replaced has been destroyed.\<close>

lemma replace_step:
  assumes wf: "wf_coll db" and e: "map_of (aCollSeq db) (fold_case z) = Some e" and k: "k < 3"
    and q: "xDel q \<longrightarrow> xCmp q \<noteq> None \<and> unaligned (ce_enc q) = k + 1"
    and r: "xCmp (e ! k) \<noteq> None \<and> unaligned (ce_enc (e ! k)) = k + 1 \<longleftrightarrow> rep"
  shows "cstep (if xDel q then {#ce_user q#} else {#}) db
     (if rep then set_entry z ((fst (destroy_loop (ce_enc (e ! k)) e))[k := q])
                    (db\<lparr>destroyed := destroyed db @ snd (destroy_loop (ce_enc (e ! k)) e)\<rparr>)
      else set_entry z (e[k := q]) db)"
proof -
  have ok: "entry_ok e" using wf e by (rule wf_coll_entry)
  then have len: "k < length e" using k by (simp add: entry_ok_def)
  have dist: "distinct (map fst (aCollSeq db))" using wf by (simp add: wf_coll_def)
  note up = entry_ok_update [OF ok k q]
  show ?thesis
  proof (cases rep)
    case True
    let ?d = "destroy_loop (ce_enc (e ! k)) e"
    have u: "unaligned (ce_enc (e ! k)) = k + 1" using r True by blast
    note d = destroy_loop_replaced [OF ok k u]
    have l: "length (fst ?d) = length e" by (simp add: destroy_loop_eq)
    have x: "xDel (fst ?d ! k) = xDel (e ! k)" "ce_user (fst ?d ! k) = ce_user (e ! k)"
      using len by (simp_all add: destroy_loop_eq)
    have 1: "coll_owned (set_entry z ((fst ?d)[k := q]) db) + dels e = coll_owned db + dels ((fst ?d)[k := q])"
      by (rule coll_owned_set_entry [OF dist e])
    have 2: "dels ((fst ?d)[k := q]) + mset (snd ?d) = dels e + (if xDel q then {#ce_user q#} else {#})"
      using dels_update [of k "fst ?d" q] len unfolding l x d(1,2) by simp
    from mset_swap [OF 1 2] have "coll_owned (set_entry z ((fst ?d)[k := q]) db) + mset (snd ?d) =
        coll_owned db + (if xDel q then {#ce_user q#} else {#})" .
    moreover have "coll_owned (set_entry z ((fst ?d)[k := q]) (db\<lparr>destroyed := ds\<rparr>)) =
        coll_owned (set_entry z ((fst ?d)[k := q]) db)" for ds
      by (simp add: coll_owned_def set_entry_def)
    moreover have "wf_coll (set_entry z ((fst ?d)[k := q]) (db\<lparr>destroyed := destroyed db @ snd ?d\<rparr>))"
      by (rule wf_coll_set_entry) (simp_all add: wf d(3) up)
    ultimately show ?thesis using True unfolding cstep_def by (simp add: ac_simps)
  next
    case False
    then have n: "\<not> xDel (e ! k)" using r ok k unfolding entry_ok_def by blast
    have 1: "coll_owned (set_entry z (e[k := q]) db) + dels e = coll_owned db + dels (e[k := q])"
      by (rule coll_owned_set_entry [OF dist e])
    have 2: "dels (e[k := q]) + {#} = dels e + (if xDel q then {#ce_user q#} else {#})"
      using dels_update [OF len, of q] n by simp
    from mset_swap [OF 1 2] show ?thesis
      using False wf_coll_set_entry [OF wf up] unfolding cstep_def by (simp add: ac_simps)
  qed
qed

text \<open>The encodings \<open>createCollation\<close> accepts, and the one it uses for each.\<close>

definition coll_enc :: "nat \<Rightarrow> nat" where
  "coll_enc enc = (if enc = E_UTF16 \<or> enc = E_UTF16_ALIGNED then E_UTF16NATIVE else enc)"

lemma coll_enc_unaligned:
  "\<not> (coll_enc enc < E_UTF8 \<or> coll_enc enc > E_UTF16BE) \<Longrightarrow>
     unaligned (coll_enc enc OR (enc AND E_UTF16_ALIGNED)) = coll_enc enc"
proof -
  assume a: "\<not> (coll_enc enc < E_UTF8 \<or> coll_enc enc > E_UTF16BE)"
  then consider "enc = 1" | "enc = 2" | "enc = 3" | "enc = 4" | "enc = 8"
    unfolding coll_enc_def by (cases "enc = 4"; cases "enc = 8") fastforce+
  then show ?thesis by cases (simp_all add: coll_enc_def unaligned_def)
qed

lemma cstep_refl: "wf_coll db \<Longrightarrow> cstep {#} db db"
  by (simp add: cstep_def)

lemma cstep_cong: "cstep n db0 db' \<Longrightarrow> destroyed db0 = destroyed db \<Longrightarrow> coll_owned db0 = coll_owned db \<Longrightarrow>
    aFunc db0 = aFunc db \<Longrightarrow> destructors db0 = destructors db \<Longrightarrow> nextDestr db0 = nextDestr db \<Longrightarrow> cstep n db db'"
  by (simp add: cstep_def)

lemma createCollation_step:
  assumes r: "createCollation am db z enc pCtx xc del = (rc, db')" and wf: "wf_coll db" and x: "del \<longrightarrow> xc \<noteq> None"
  shows "cstep (if rc = RC_OK \<and> del then {#pCtx#} else {#}) db db'"
proof (cases "coll_enc enc < E_UTF8 \<or> coll_enc enc > E_UTF16BE")
  case True
  then show ?thesis using r cstep_refl [OF wf] by (auto simp: createCollation_def Let_def coll_enc_def)
next
  case False
  define k where "k = coll_enc enc - 1"
  have k: "k < 3" "coll_enc enc = k + 1" using False unfolding k_def by linarith+
  note un = coll_enc_unaligned [OF False]
  define q where "q p = p\<lparr>xCmp := xc, ce_user := pCtx, xDel := del, ce_enc := coll_enc enc OR (enc AND E_UTF16_ALIGNED)\<rparr>" for p :: CollSeq
  have q: "xDel (q p) \<longrightarrow> xCmp (q p) \<noteq> None \<and> unaligned (ce_enc (q p)) = k + 1" "xDel (q p) = del" "ce_user (q p) = pCtx" for p
    using x un k(2) by (simp_all add: q_def)
  note body = r [unfolded createCollation_def Let_def coll_enc_def [symmetric] if_not_P [OF False] sqlite3FindCollSeq_def findCollSeqEntry_def]
  show ?thesis
  proof (cases "map_of (aCollSeq db) (fold_case z)")
    case None
    then have n: "fold_case z \<notin> fst ` set (aCollSeq db)" by (simp add: map_of_eq_None_iff)
    show ?thesis
    proof (cases am)
      case True
      define db1 where "db1 = db\<lparr>aCollSeq := (fold_case z, new_entry) # aCollSeq db\<rparr>"
      have e1: "map_of (aCollSeq db1) (fold_case z) = Some new_entry" by (simp add: db1_def)
      have wf1: "wf_coll db1" using wf n entry_ok_new by (simp add: wf_coll_iff db1_def)
      have d: "rc = RC_OK" "db' = set_entry z (new_entry[k := q (new_entry ! k)]) db1"
        using body None True by (simp_all add: set_coll_def q_def k_def db1_def)
      have "\<not> (xCmp (new_entry ! k) \<noteq> None \<and> unaligned (ce_enc (new_entry ! k)) = k + 1)"
        using k(1) all_less_3 [of "\<lambda>k. xCmp (new_entry ! k) = None"] by (simp add: new_entry_def)
      then have "cstep (if del then {#pCtx#} else {#}) db1 db'"
        using replace_step [OF wf1 e1 k(1) q(1) [of "new_entry ! k"], of False] unfolding d(2) q(2,3) by simp
      then show ?thesis using d(1) by (auto intro: cstep_cong simp: db1_def coll_owned_alist dels_def new_entry_def)
    next
      case False
      then have "rc = RC_NOMEM" "db' = sqlite3OomFault db" using body None by simp_all
      then show ?thesis using wf by (simp add: cstep_def)
    qed
  next
    case (Some e)
    define rp where "rp \<longleftrightarrow> xCmp (e ! k) \<noteq> None"
    show ?thesis
    proof (cases "rp \<and> nVdbeActive db > 0")
      case True
      then have "rc = RC_BUSY" "db' = db" using body Some by (auto simp: rp_def k_def)
      then show ?thesis using cstep_refl [OF wf] by simp
    next
      case nb: False
      define db0 where "db0 = (if rp then sqlite3ExpirePreparedStatements db else db)"
      have f0: "aFunc db0 = aFunc db" "destructors db0 = destructors db" "nextDestr db0 = nextDestr db"
        "destroyed db0 = destroyed db" "coll_owned db0 = coll_owned db" "wf_coll db0" "aCollSeq db0 = aCollSeq db"
        using wf by (simp_all add: db0_def)
      have e0: "map_of (aCollSeq db0) (fold_case z) = Some e" by (simp add: f0 Some)
      define rep where "rep \<longleftrightarrow> rp \<and> unaligned (ce_enc (e ! k)) = k + 1"
      let ?d = "destroy_loop (ce_enc (e ! k)) e"
      define db1 where "db1 = (if rep then set_entry z (fst ?d) (db0\<lparr>destroyed := destroyed db0 @ snd ?d\<rparr>) else db0)"
      define e1 where "e1 = (if rep then fst ?d else e)"
      have m1: "map_of (aCollSeq db1) (fold_case z) = Some e1"
        using e0 by (simp add: db1_def e1_def map_of_set_entry)
      have old: "fst (sqlite3FindCollSeq am db (coll_enc enc) z False) = Some (e ! k)"
        using Some by (simp add: sqlite3FindCollSeq_def findCollSeqEntry_def k_def)
      have new: "sqlite3FindCollSeq am db1 (coll_enc enc) z True = (Some (e1 ! k), db1)"
        using m1 by (simp add: sqlite3FindCollSeq_def findCollSeqEntry_def k_def)
      have rp: "(case Some (e ! k) of None \<Rightarrow> False | Some pColl \<Rightarrow> xCmp pColl \<noteq> None) = rp" by (simp add: rp_def)
      have db1: "(if rp \<and> unaligned (ce_enc (the (Some (e ! k)))) = coll_enc enc
                   then (case destroy_loop (ce_enc (the (Some (e ! k)))) (the (map_of (aCollSeq db0) (fold_case z))) of
                           (aColl, ds) \<Rightarrow> set_entry z aColl (db0\<lparr>destroyed := destroyed db0 @ ds\<rparr>))
                   else db0) = db1"
        using e0 k(2) by (simp add: db1_def rep_def split: prod.split)
      have "createCollation am db z enc pCtx xc del = (RC_OK, set_coll z k (q (e1 ! k)) db1)"
        unfolding createCollation_def Let_def coll_enc_def [symmetric] if_not_P [OF False] old
        unfolding rp unfolding if_not_P [OF nb] db0_def [symmetric] unfolding db1
        unfolding new by (simp add: q_def k_def)
      moreover have "set_coll z k p db1 = set_entry z (e1[k := p]) db1" for p by (simp add: set_coll_def m1)
      ultimately have "(rc, db') = (RC_OK, set_entry z (e1[k := q (e1 ! k)]) db1)" using r by simp
      then have d: "rc = RC_OK" "db' = (if rep then set_entry z ((fst ?d)[k := q (e1 ! k)]) (db0\<lparr>destroyed := destroyed db0 @ snd ?d\<rparr>)
                                 else set_entry z (e[k := q (e1 ! k)]) db0)"
        by (simp_all add: db1_def e1_def set_entry_set_entry)
      have "cstep (if del then {#pCtx#} else {#}) db0 db'"
        using replace_step [OF f0(6) e0 k(1) q(1) [of "e1 ! k"], of rep] unfolding d(2) q(2,3) rep_def rp_def by blast
      then show ?thesis using d(1) f0 by (auto intro: cstep_cong)
    qed
  qed
qed

section \<open>Closing destroys everything\<close>

lemma frefs_concat: "frefs db = mset (map fd_destr (concat (map snd (aFunc db))))"
proof -
  have "(\<Sum>(k, c)\<in>#mset cs. mset c) = mset (concat (map snd cs))" for cs :: "(u8 list \<times> FuncDef list) list"
    by (induction cs) auto
  then show ?thesis by (simp add: frefs_def)
qed

lemma destroy_all:
  "destr_ids db \<Longrightarrow> referenced {} db \<Longrightarrow> counts off db \<Longrightarrow> mset (map fd_destr ps) + off \<subseteq># frefs db \<Longrightarrow>
     (let db' = fold (\<lambda>p db. functionDestroy db p) ps db
      in destr_ids db' \<and> referenced {} db' \<and> counts (mset (map fd_destr ps) + off) db' \<and> ledger db' = ledger db \<and>
         frefs db' = frefs db \<and> aCollSeq db' = aCollSeq db)"
proof (induction ps arbitrary: db off)
  case (Cons p ps)
  let ?db = "functionDestroy db p"
  have sub: "mset (map fd_destr ps) + add_mset (fd_destr p) off \<subseteq># frefs db" using Cons.prems(4) by simp
  from mset_subset_eq_count [OF sub, of "fd_destr p"]
  have "count off (fd_destr p) < count (frefs db) (fd_destr p)" by simp
  from Cons.IH [of ?db "add_mset (fd_destr p) off", OF ids_functionDestroy [OF Cons.prems(1)]
      referenced_functionDestroy [OF Cons.prems(2)] counts_functionDestroy [OF Cons.prems(3) this]]
  show ?case using sub ledger_functionDestroy [of db p] Cons.prems(1) by (simp add: Let_def destr_ids_def)
qed simp

lemma close_functions_ok:
  assumes "wf_func db" "referenced {} db"
  shows "destructors (close_functions db) = []" "ledger (close_functions db) = ledger db"
    "aCollSeq (close_functions db) = aCollSeq db" "aFunc (close_functions db) = []"
proof -
  define db1 where "db1 = fold (\<lambda>p db. functionDestroy db p) (concat (map snd (aFunc db))) db"
  have c: "close_functions db = db1\<lparr>aFunc := []\<rparr>" by (simp add: close_functions_def db1_def)
  have 1: "referenced {} db1" "counts (frefs db) db1" "ledger db1 = ledger db" "frefs db1 = frefs db" "aCollSeq db1 = aCollSeq db"
    using destroy_all [of db "{#}" "concat (map snd (aFunc db))"] assms
    unfolding db1_def [symmetric] frefs_concat [symmetric] by (simp_all add: wf_func_def Let_def)
  have "map_of (destructors db1) d = None" for d
  proof (cases "map_of (destructors db1) d")
    case (Some v)
    then have "nRef v + count (frefs db) (Some d) = count (frefs db1) (Some d)" using 1(2) unfolding counts_def by blast
    then show ?thesis using Some 1(1,4) unfolding referenced_def by fastforce
  qed
  then have "map_of (destructors db1) = Map.empty" by (rule ext)
  then have "destructors db1 = []" by (simp only: map_of_eq_empty_iff)
  then show "destructors (close_functions db) = []" "ledger (close_functions db) = ledger db"
    "aCollSeq (close_functions db) = aCollSeq db" "aFunc (close_functions db) = []"
    using 1 by (simp_all add: c ledger_def owned_def coll_owned_def)
qed

lemma coll_owned_list: "coll_owned db = mset (map ce_user (filter xDel (concat (map snd (aCollSeq db)))))"
proof -
  have "(\<Sum>(k, c)\<in>#mset cs. mset c) = mset (concat (map snd cs))" for cs :: "(u8 list \<times> CollSeq list) list"
    by (induction cs) auto
  then show ?thesis by (simp add: coll_owned_def)
qed

lemma close_ok:
  assumes "wf_conn db" "zombie db" "nStmt db = 0"
  shows "closed (sqlite3LeaveMutexAndCloseZombie db)" "mset (destroyed (sqlite3LeaveMutexAndCloseZombie db)) = ledger db"
    "owned (sqlite3LeaveMutexAndCloseZombie db) = {#}"
proof -
  let ?db = "close_functions db"
  have f: "destructors ?db = []" "ledger ?db = ledger db" "aCollSeq ?db = aCollSeq db"
    using close_functions_ok [of db] assms(1) by (simp_all add: wf_conn_def)
  show "closed (sqlite3LeaveMutexAndCloseZombie db)" using assms(2,3) by (simp add: sqlite3LeaveMutexAndCloseZombie_def)
  show "mset (destroyed (sqlite3LeaveMutexAndCloseZombie db)) = ledger db"
    unfolding f(2) [symmetric] using assms(2,3) f(1)
    by (simp add: sqlite3LeaveMutexAndCloseZombie_def close_collations_def ledger_def owned_def coll_owned_list)
  show "owned (sqlite3LeaveMutexAndCloseZombie db) = {#}"
    using assms(2,3) f(1) by (simp add: sqlite3LeaveMutexAndCloseZombie_def close_collations_def owned_def coll_owned_def)
qed

section \<open>The interface keeps the ledger\<close>

lemma wf_conn_cong:
  "aCollSeq db' = aCollSeq db \<Longrightarrow> aFunc db' = aFunc db \<Longrightarrow> destructors db' = destructors db \<Longrightarrow> nextDestr db' = nextDestr db \<Longrightarrow>
     wf_conn db' = wf_conn db"
  by (simp add: wf_conn_def wf_coll_def wf_func_def counts_def frefs_def destr_ids_def referenced_def)

lemma ledger_cong:
  "aCollSeq db' = aCollSeq db \<Longrightarrow> destructors db' = destructors db \<Longrightarrow> destroyed db' = destroyed db \<Longrightarrow> ledger db' = ledger db"
  by (simp add: ledger_def owned_def coll_owned_def)

lemma ApiExit_frame:
  assumes "sqlite3ApiExit db rc = (rc', db')"
  shows "aCollSeq db' = aCollSeq db" "aFunc db' = aFunc db" "destructors db' = destructors db" "nextDestr db' = nextDestr db"
    "destroyed db' = destroyed db" "rc' = RC_OK \<Longrightarrow> rc = RC_OK \<and> \<not> mallocFailed db"
  using assms by (auto simp: sqlite3ApiExit_def sqlite3OomClear_def split: if_splits)

lemma createCollation_malloc:
  "createCollation am db z enc pCtx xc del = (RC_OK, db') \<Longrightarrow> mallocFailed db' = mallocFailed db"
proof -
  assume r: "createCollation am db z enc pCtx xc del = (RC_OK, db')"
  have f: "mallocFailed (set_entry z e db) = mallocFailed db" "mallocFailed (set_coll z k p db) = mallocFailed db"
    "mallocFailed (sqlite3ExpirePreparedStatements db) = mallocFailed db" for z e k p db
    by (simp_all add: set_entry_def set_coll_def sqlite3ExpirePreparedStatements_def split: option.split)
  have find: "(q :: CollSeq option) \<noteq> None \<Longrightarrow> sqlite3FindCollSeq am db e z c = (q, db2) \<Longrightarrow> mallocFailed db2 = mallocFailed db" for q db e z c db2
    by (auto simp: sqlite3FindCollSeq_def findCollSeqEntry_def split: option.splits if_splits)
  define old where "old = fst (sqlite3FindCollSeq am db (coll_enc enc) z False)"
  define rp where "rp = (case old of None \<Rightarrow> False | Some pColl \<Rightarrow> xCmp pColl \<noteq> None)"
  define db0 where "db0 = (if rp then sqlite3ExpirePreparedStatements db else db)"
  define db1 where "db1 = (if rp \<and> unaligned (ce_enc (the old)) = coll_enc enc
                   then (case destroy_loop (ce_enc (the old)) (the (map_of (aCollSeq db0) (fold_case z))) of
                           (aColl, ds) \<Rightarrow> set_entry z aColl (db0\<lparr>destroyed := destroyed db0 @ ds\<rparr>))
                   else db0)"
  have m: "mallocFailed db1 = mallocFailed db" by (simp add: db1_def db0_def f split: prod.split)
  obtain q db2 where 2: "sqlite3FindCollSeq am db1 (coll_enc enc) z True = (q, db2)" by fastforce
  note body = r [unfolded createCollation_def Let_def coll_enc_def [symmetric] old_def [symmetric]]
  note body = body [unfolded rp_def [symmetric]]
  note body = body [unfolded db0_def [symmetric]]
  note body = body [unfolded db1_def [symmetric] 2]
  have "q \<noteq> None" using body by (auto split: if_splits option.splits)
  with find [OF _ 2] have "mallocFailed db2 = mallocFailed db" using m by simp
  with body show ?thesis by (auto simp: f split: if_splits option.splits)
qed

lemma collation_v2_ok:
  assumes r: "sqlite3_create_collation_v2 am db z enc pCtx xc del = (rc, db')" and wf: "wf_conn db" and x: "del \<longrightarrow> xc \<noteq> None"
    and m: "\<not> mallocFailed db"
  shows "wf_conn db' \<and> ledger db' = ledger db + (if rc = RC_OK \<and> del then {#pCtx#} else {#})"
proof -
  obtain rc1 db1 where 1: "createCollation am db z (enc mod 256) pCtx xc del = (rc1, db1)" by fastforce
  have 2: "sqlite3ApiExit db1 rc1 = (rc, db')" using r 1 by (simp add: sqlite3_create_collation_v2_def)
  have "cstep (if rc1 = RC_OK \<and> del then {#pCtx#} else {#}) db db1"
    using createCollation_step [OF 1 _ x] wf by (simp add: wf_conn_def)
  then have s: "wf_coll db1" "mset (destroyed db1) + coll_owned db1 = mset (destroyed db) + coll_owned db + (if rc1 = RC_OK \<and> del then {#pCtx#} else {#})"
    "aFunc db1 = aFunc db" "destructors db1 = destructors db" "nextDestr db1 = nextDestr db"
    by (simp_all add: cstep_def)
  have "wf_func db1 = wf_func db" "referenced {} db1 = referenced {} db"
    unfolding wf_func_def counts_def frefs_def destr_ids_def referenced_def s by (rule refl)+
  then have "wf_conn db1" using s(1) wf by (simp add: wf_conn_def)
  then have "wf_conn db'" using wf_conn_cong [OF ApiExit_frame(1-4) [OF 2]] by simp
  moreover have "ledger db1 = ledger db + (if rc1 = RC_OK \<and> del then {#pCtx#} else {#})"
    using s(2,4) by (simp add: ledger_def owned_def ac_simps) 
  moreover have "(rc1 = RC_OK) = (rc = RC_OK)"
    using ApiExit_frame(6) [OF 2] 2 m createCollation_malloc [of am db z "enc mod 256" pCtx xc del db1] 1
    by (cases "rc1 = RC_OK") (auto simp: sqlite3ApiExit_def)
  ultimately show ?thesis using ledger_cong [OF ApiExit_frame(1,3,5) [OF 2]] by simp
qed

lemma fstep_wf_conn: "fstep db db' \<Longrightarrow> wf_coll db \<Longrightarrow> referenced {} db' \<Longrightarrow> wf_conn db'"
  by (simp add: fstep_def wf_conn_def wf_coll_def)

lemma new_destructor:
  fixes u :: nat
  assumes "wf_func db" "referenced {} db"
  defines "db0 \<equiv> db\<lparr>destructors := (nextDestr db, \<lparr>nRef = 0, d_user = u\<rparr>) # destructors db, nextDestr := nextDestr db + 1\<rparr>"
  shows "wf_func db0" "referenced {nextDestr db} db0" "ledger db0 = ledger db + {#u#}" "uses db0 z (Some (nextDestr db)) {}"
    "wf_coll db0 = wf_coll db"
proof -
  have ids: "destr_ids db" "counts {#} db" using assms(1) by (simp_all add: wf_func_def)
  then have n: "nextDestr db \<notin> fst ` set (destructors db)" unfolding destr_ids_def by blast
  then have none: "map_of (destructors db) (nextDestr db) = None" by (simp add: map_of_eq_None_iff)
  have zero: "count (frefs db) (Some (nextDestr db)) = 0"
  proof (rule ccontr)
    assume "count (frefs db) (Some (nextDestr db)) \<noteq> 0"
    then have "count {#} (Some (nextDestr db)) < count (frefs db) (Some (nextDestr db))" by simp
    with ids(2) none show False unfolding counts_def by blast
  qed
  have f: "frefs db0 = frefs db" by (simp add: db0_def frefs_def)
  have c: "counts {#} db0"
    unfolding counts_def f
  proof (intro conjI allI impI)
    fix d v assume "map_of (destructors db0) d = Some v"
    then show "nRef v + count {#} (Some d) = count (frefs db) (Some d)"
      using ids(2) zero unfolding counts_def db0_def by (auto split: if_splits)
  next
    fix d assume "count {#} (Some d) < count (frefs db) (Some d)"
    then have "map_of (destructors db) d \<noteq> None" using ids(2) unfolding counts_def by blast
    then show "map_of (destructors db0) d \<noteq> None" by (simp add: db0_def)
  qed
  have i: "destr_ids db0" using ids(1) n by (auto simp: destr_ids_def db0_def)
  have "distinct (map fst (aFunc db0))" "[] \<notin> snd ` set (aFunc db0)" using assms(1) by (simp_all add: wf_func_def db0_def)
  then show "wf_func db0" unfolding wf_func_def using c i by blast
  show "referenced {nextDestr db} db0" using assms(2) by (auto simp: referenced_def db0_def split: if_splits)
  show "ledger db0 = ledger db + {#u#}" by (simp add: ledger_def owned_def coll_owned_def db0_def)
  have "uses db z (Some (nextDestr db)) {}" using fresh_uses [OF assms(1) none] .
  then show "uses db0 z (Some (nextDestr db)) {}" by (simp add: uses_def func_chain_def db0_def)
  show "wf_coll db0 = wf_coll db" by (simp add: wf_coll_def db0_def)
qed

text \<open>Freeing a destructor object without references.\<close>

lemma free_destructor:
  fixes v :: FuncDestructor
  assumes wf: "wf_func db" and v: "map_of (destructors db) d = Some v" "nRef v = 0"
  defines "db' \<equiv> db\<lparr>destroyed := destroyed db @ [d_user v], destructors := alist_del d (destructors db)\<rparr>"
  shows "wf_func db'" "ledger db' = ledger db" "referenced {d} db \<Longrightarrow> referenced {} db'" "wf_coll db' = wf_coll db"
proof -
  have ids: "destr_ids db" "counts {#} db" using wf by (simp_all add: wf_func_def)
  have zero: "count (frefs db) (Some d) = 0" using ids(2) v unfolding counts_def by fastforce
  have f: "frefs db' = frefs db" by (simp add: db'_def frefs_def)
  have c: "counts {#} db'"
    unfolding counts_def f
  proof (intro conjI allI impI)
    fix e w assume "map_of (destructors db') e = Some w"
    then show "nRef w + count {#} (Some e) = count (frefs db) (Some e)"
      using ids(2) unfolding counts_def db'_def by (auto simp: map_of_alist_del split: if_splits)
  next
    fix e assume a: "count {#} (Some e) < count (frefs db) (Some e)"
    then have "map_of (destructors db) e \<noteq> None" using ids(2) unfolding counts_def by blast
    moreover have "e \<noteq> d" using a zero by (cases "e = d") (simp_all del: count_greater_zero_iff)
    ultimately show "map_of (destructors db') e \<noteq> None" by (simp add: db'_def map_of_alist_del)
  qed
  have i: "destr_ids db'"
    using ids(1) distinct_alist_del [of "destructors db" d] by (auto simp: destr_ids_def db'_def set_alist_del)
  have "distinct (map fst (aFunc db'))" "[] \<notin> snd ` set (aFunc db')" using wf by (simp_all add: wf_func_def db'_def)
  then show "wf_func db'" unfolding wf_func_def using c i by blast
  show "ledger db' = ledger db"
    using mset_alist [OF _ v(1)] ids(1) by (simp add: ledger_def owned_def coll_owned_def db'_def destr_ids_def)
  show "referenced {} db'" if "referenced {d} db"
    using that by (auto simp: referenced_def db'_def map_of_alist_del)
  show "wf_coll db' = wf_coll db" by (simp add: wf_coll_def db'_def)
qed

lemma function_v2_ok:
  assumes r: "sqlite3_create_function_v2 builtin prefer am am' db z enc a del = (rc, db')" and wf: "wf_conn db"
  shows "wf_conn db' \<and> ledger db' = ledger db + (if del then {#a_user a#} else {#}) \<and>
    (rc = RC_OK \<and> del \<longrightarrow> (\<exists>v. map_of (destructors db') (nextDestr db) = Some v \<and> d_user v = a_user a))"
proof -
  have w: "wf_coll db" "wf_func db" "referenced {} db" using wf by (simp_all add: wf_conn_def)
  have main: "wf_conn db1 \<and> ledger db1 = ledger db + (if del then {#a_user a#} else {#}) \<and>
      (rc1 = RC_OK \<and> del \<longrightarrow> (\<exists>v. map_of (destructors db1) (nextDestr db) = Some v \<and> d_user v = a_user a)) \<Longrightarrow>
      sqlite3ApiExit db1 rc1 = (rc, db') \<Longrightarrow> ?thesis" for rc1 db1
    using wf_conn_cong [OF ApiExit_frame(1-4)] ledger_cong [OF ApiExit_frame(1,3,5)] ApiExit_frame(3,6) [of db1 rc1 rc db'] by auto
  show ?thesis
  proof (cases del)
    case False
    obtain rc1 db1 where 1: "sqlite3CreateFunc builtin prefer am am' db z enc (a\<lparr>a_destr := None\<rparr>) = (rc1, db1)" by fastforce
    have 2: "sqlite3ApiExit db1 rc1 = (rc, db')" using r 1 False by (simp add: sqlite3_create_function_v2_def)
    have s: "fstep db db1" using CreateFunc_step [OF 1 w(2)] by (simp add: uses_def)
    then have "wf_conn db1" "ledger db1 = ledger db"
      using fstep_wf_conn [OF s w(1)] w(3) by (simp_all add: fstep_def)
    then show ?thesis using main [OF _ 2] False by simp
  next
    case True
    show ?thesis
    proof (cases "am 0")
      case False
      let ?db = "(sqlite3OomFault db)\<lparr>destroyed := destroyed db @ [a_user a]\<rparr>"
      have 2: "sqlite3ApiExit ?db RC_ERROR = (rc, db')" using r True False by (simp add: sqlite3_create_function_v2_def)
      have "wf_conn ?db" using wf_conn_cong [of ?db db] wf by simp
      moreover have "ledger ?db = ledger db + {#a_user a#}" by (simp add: ledger_def owned_def coll_owned_def sqlite3OomFault_def)
      ultimately show ?thesis using main [OF _ 2] True by simp
    next
      case am: True
      let ?d = "nextDestr db"
      define db0 where "db0 = db\<lparr>destructors := (?d, \<lparr>nRef = 0, d_user = a_user a\<rparr>) # destructors db, nextDestr := ?d + 1\<rparr>"
      note n = new_destructor [OF w(2,3), of "a_user a", folded db0_def]
      obtain rc1 db1 where 1: "sqlite3CreateFunc builtin prefer am am' db0 z enc (a\<lparr>a_destr := Some ?d\<rparr>) = (rc1, db1)" by fastforce
      note body = r [unfolded sqlite3_create_function_v2_def Let_def if_P [OF True]]
      note body = body [unfolded db0_def [symmetric]]
      have d0: "map_of (destructors db0) ?d = Some \<lparr>nRef = 0, d_user = a_user a\<rparr>" by (simp add: db0_def)
      have s: "fstep db0 db1" "rc1 = RC_OK \<Longrightarrow> \<exists>n. refs_of db1 (Some ?d) = Some (Suc n)"
        using CreateFunc_step [OF 1 n(1) _ ] n(4) d0 by simp_all
      have u: "d_user v = a_user a" if "map_of (destructors db1) ?d = Some v" for v
        using s(1) that d0 unfolding fstep_def same_users_def by fastforce
      have ref1: "referenced {?d} db1" using s(1) n(2) by (simp add: fstep_def)
      have wf1: "wf_func db1" "wf_coll db1" "ledger db1 = ledger db + {#a_user a#}"
        using s(1) n(3,5) w(1) by (simp_all add: fstep_def wf_coll_def)
      show ?thesis
      proof (cases "map_option nRef (map_of (destructors db1) ?d) = Some 0")
        case z: True
        then obtain v where v: "map_of (destructors db1) ?d = Some v" "nRef v = 0" by auto
        note f = free_destructor [OF wf1(1) v]
        have no: "rc1 \<noteq> RC_OK" using s(2) v by (auto simp: refs_of_def)
        have 2: "sqlite3ApiExit (db1\<lparr>destroyed := destroyed db1 @ [d_user v], destructors := alist_del ?d (destructors db1)\<rparr>) rc1 = (rc, db')"
          using body 1 am z u [OF v(1)] by simp
        show ?thesis using main [OF _ 2] no f ref1 wf1 True by (simp add: wf_conn_def)
      next
        case nz: False
        have 2: "sqlite3ApiExit db1 rc1 = (rc, db')" using body 1 am unfolding if_not_P [OF nz] by (simp add: nz del: map_option_eq_Some)
        have "referenced {} db1" using ref1 nz unfolding referenced_def by fastforce
        moreover have "rc1 = RC_OK \<Longrightarrow> \<exists>v. map_of (destructors db1) ?d = Some v \<and> d_user v = a_user a"
          using s(2) u by (auto simp: refs_of_def)
        ultimately show ?thesis using main [OF _ 2] wf1 True by (simp add: wf_conn_def)
      qed
    qed
  qed
qed

section \<open>Looking up what was created\<close>

text \<open>The definition of a chain for a number of arguments and an encoding.\<close>

definition exact :: "FuncDef list \<Rightarrow> cint \<Rightarrow> nat \<Rightarrow> FuncDef option" where
  "exact c n e = List.find (\<lambda>p. fd_nArg p = n \<and> fd_enc p = e) c"

lemma best_match_done: "snd b = FUNC_PERFECT_MATCH \<Longrightarrow> best_match ps n e i b = b"
proof (induction ps arbitrary: i)
  case (Cons p ps)
  then show ?case using matchQuality_le [of p n e] by simp
qed simp

lemma best_match_exact:
  assumes "- 1 \<le> n"
  shows "snd b < FUNC_PERFECT_MATCH \<Longrightarrow>
     (case exact ps n e of
        None \<Rightarrow> snd (best_match ps n e i b) < FUNC_PERFECT_MATCH
      | Some p \<Rightarrow> \<exists>j < length ps. best_match ps n e i b = (Some (i + j), FUNC_PERFECT_MATCH) \<and> ps ! j = p \<and>
          (\<forall>k < j. \<not> (fd_nArg (ps ! k) = n \<and> fd_enc (ps ! k) = e)))"
proof (induction ps arbitrary: i b)
  case (Cons p ps)
  show ?case
  proof (cases "fd_nArg p = n \<and> fd_enc p = e")
    case True
    then have "matchQuality p n e = FUNC_PERFECT_MATCH" using matchQuality_perfect [OF assms] by blast
    then show ?thesis
      using Cons.prems True best_match_done [of "(Some i, FUNC_PERFECT_MATCH)" ps n e "i + 1"]
      by (auto simp: exact_def intro!: exI [of _ 0])
  next
    case False
    then have q: "matchQuality p n e < FUNC_PERFECT_MATCH"
      using matchQuality_perfect [OF assms, of p e] matchQuality_le [of p n e] by linarith
    define b' where "b' = (if matchQuality p n e > snd b then (Some i, matchQuality p n e) else b)"
    have "snd b' < FUNC_PERFECT_MATCH" using q Cons.prems by (simp add: b'_def)
    note IH = Cons.IH [OF this, of "i + 1"]
    have ex: "exact (p # ps) n e = exact ps n e" using False by (auto simp: exact_def)
    show ?thesis
    proof (cases "exact ps n e")
      case None
      then show ?thesis using IH by (simp add: ex b'_def)
    next
      case (Some r)
      then obtain j where j: "j < length ps" "best_match ps n e (i + 1) b' = (Some (i + 1 + j), FUNC_PERFECT_MATCH)" "ps ! j = r"
        "\<forall>k < j. \<not> (fd_nArg (ps ! k) = n \<and> fd_enc (ps ! k) = e)"
        using IH by auto
      have "\<forall>k < Suc j. \<not> (fd_nArg ((p # ps) ! k) = n \<and> fd_enc ((p # ps) ! k) = e)"
        using j(4) False by (auto simp: nth_Cons split: nat.split)
      then show ?thesis using j Some by (auto simp: ex b'_def intro!: exI [of _ "Suc j"])
    qed
  qed
qed (simp add: exact_def)

lemma best_match_find:
  "- 1 \<le> n \<Longrightarrow> exact c n e = Some p \<Longrightarrow>
     \<exists>i < length c. best_match c n e 0 (None, 0) = (Some i, FUNC_PERFECT_MATCH) \<and> c ! i = p \<and>
       (\<forall>k < i. \<not> (fd_nArg (c ! k) = n \<and> fd_enc (c ! k) = e))"
  using best_match_exact [of n "(None, 0)" c e 0] by (simp add: FUNC_PERFECT_MATCH_def)

lemma best_match_none:
  "- 1 \<le> n \<Longrightarrow> exact c n e = None \<Longrightarrow> snd (best_match c n e 0 (None, 0)) < FUNC_PERFECT_MATCH"
  using best_match_exact [of n "(None, 0)" c e 0] by (simp add: FUNC_PERFECT_MATCH_def)

lemma FindFunction_exact:
  "- 1 \<le> n \<Longrightarrow> exact (func_chain db z) n e = Some p \<Longrightarrow> xSFunc p \<noteq> None \<Longrightarrow>
     sqlite3FindFunction builtin False db z n e = Some p"
  by (frule best_match_find) (auto simp: sqlite3FindFunction_def)

lemma find_update_first:
  "i < length c \<Longrightarrow> (\<forall>k < i. \<not> Q (c ! k)) \<Longrightarrow> Q p \<Longrightarrow> List.find Q (c[i := p]) = Some p"
proof (induction c arbitrary: i)
  case (Cons x c)
  then show ?case by (cases i) (auto simp: All_less_Suc2)
qed simp

lemma find_update_other:
  "i < length c \<Longrightarrow> \<not> Q (c ! i) \<Longrightarrow> \<not> Q p \<Longrightarrow> List.find Q (c[i := p]) = List.find Q c"
proof (induction c arbitrary: i)
  case (Cons x c)
  then show ?case by (cases i) auto
qed simp

text \<open>A definition has the callbacks the caller passed.\<close>

definition installed :: "fun_args \<Rightarrow> FuncDef \<Rightarrow> bool" where
  "installed a p \<longleftrightarrow> fd_nArg p = a_nArg a \<and> xSFunc p = (if a_SFunc a \<noteq> None then a_SFunc a else a_Step a) \<and>
     xFinalize p = a_Final a \<and> fd_user p = a_user a"

text \<open>What the successful creation for the encodings \<open>E\<close> does to the definitions.\<close>

definition defines_fun :: "fun_args \<Rightarrow> u8 list \<Rightarrow> nat set \<Rightarrow> conn \<Rightarrow> conn \<Rightarrow> bool" where
  "defines_fun a z E db db' \<longleftrightarrow>
     (\<forall>e \<in> E. \<exists>p. exact (func_chain db' z) (a_nArg a) e = Some p \<and> installed a p) \<and>
     (\<forall>z' n e. \<not> (fold_case z' = fold_case z \<and> n = a_nArg a \<and> e \<in> E) \<longrightarrow>
        exact (func_chain db' z') n e = exact (func_chain db z') n e)"

lemma defines_fun_trans:
  "defines_fun a z E db db1 \<Longrightarrow> defines_fun a z F db1 db2 \<Longrightarrow> defines_fun a z (E \<union> F) db db2"
  unfolding defines_fun_def by (metis UnCI UnE)

lemma createFunc1_defines:
  assumes r: "createFunc1 builtin prefer am am' db z e fl a = (RC_OK, db')" and n: "- 1 \<le> a_nArg a" and e: "e < 4"
  shows "defines_fun a z {e} db db'"
proof -
  define ov where "ov = (case sqlite3FindFunction builtin prefer db z (a_nArg a) e of
                         None \<Rightarrow> False | Some p \<Rightarrow> fd_enc p = e \<and> fd_nArg p = a_nArg a)"
  define db0 where "db0 = (if ov then sqlite3ExpirePreparedStatements db else db)"
  have c0: "func_chain db0 = func_chain db" by (simp add: db0_def func_chain_def fun_eq_iff)
  obtain ri db1 where f: "sqlite3FindFunction_create am am' db0 z (a_nArg a) e = (ri, db1)" by fastforce
  define P where "P p = p\<lparr>fd_destr := a_destr a, fd_flags := fl,
      xSFunc := (if a_SFunc a \<noteq> None then a_SFunc a else a_Step a), xFinalize := a_Final a,
      fd_user := a_user a, fd_nArg := a_nArg a\<rparr>" for p :: FuncDef
  have P: "installed a (P p)" "fd_enc (P p) = fd_enc p" "fd_nArg (P p) = a_nArg a" for p by (simp_all add: P_def installed_def)
  note body = r [unfolded createFunc1_def Let_def ov_def [symmetric]]
  note body = body [unfolded db0_def [symmetric] f]
  obtain i where i: "ri = Some i" "db' = install db1 z i (a_destr a) (P (func_chain db1 z ! i))"
    using body by (auto simp: install_def P_def func_chain_def split: if_splits option.splits)
  have c': "func_chain db' z' = (if fold_case z' = fold_case z then (func_chain db1 z)[i := P (func_chain db1 z ! i)]
      else func_chain db1 z')" for z'
    unfolding i(2) install_def func_chain_set_chain by (simp add: func_chain_def)
  obtain b s where bs: "best_match (func_chain db z) (a_nArg a) e 0 (None, 0) = (b, s)" by fastforce
  note fc = f [unfolded sqlite3FindFunction_create_def c0 bs Let_def prod.case]
  show ?thesis
  proof (cases "exact (func_chain db z) (a_nArg a) e")
    case None
    then have "s < FUNC_PERFECT_MATCH" using best_match_none [OF n None] bs by simp
    then obtain p where p: "ri = Some 0" "db1 = set_chain z (p # func_chain db z) db0" "fd_nArg p = a_nArg a" "fd_enc p = e"
      using fc i(1) e by (auto split: if_splits)
    have c: "func_chain db' z' = (if fold_case z' = fold_case z then P p # func_chain db z else func_chain db z')" for z'
      using i(1) p(1) unfolding c' p(2) by (simp add: func_chain_set_chain c0)
    show ?thesis
      unfolding defines_fun_def
    proof (intro conjI ballI allI impI)
      fix e' assume "e' \<in> {e}"
      then show "\<exists>p. exact (func_chain db' z) (a_nArg a) e' = Some p \<and> installed a p"
        using P p by (simp add: c exact_def)
    next
      fix z' n' e' assume ne: "\<not> (fold_case z' = fold_case z \<and> n' = a_nArg a \<and> e' \<in> {e})"
      show "exact (func_chain db' z') n' e' = exact (func_chain db z') n' e'"
      proof (cases "fold_case z' = fold_case z")
        case True
        then have "func_chain db z' = func_chain db z" by (simp add: func_chain_def)
        then show ?thesis using ne P p True by (auto simp: c exact_def)
      qed (simp add: c)
    qed
  next
    case (Some p)
    from best_match_find [OF n this] obtain j where j: "j < length (func_chain db z)" "b = Some j" "s = FUNC_PERFECT_MATCH"
      "func_chain db z ! j = p" "\<forall>k < j. \<not> (fd_nArg (func_chain db z ! k) = a_nArg a \<and> fd_enc (func_chain db z ! k) = e)"
      using bs by auto
    have ij: "i = j" "db1 = db0" using fc j(2,3) i(1) by auto
    have pe: "fd_nArg p = a_nArg a" "fd_enc p = e" using Some by (auto simp: exact_def find_Some_iff)
    have c: "func_chain db' z' = (if fold_case z' = fold_case z then (func_chain db z)[j := P p] else func_chain db z')" for z'
      unfolding c' ij by (simp add: c0 j(4))
    show ?thesis
      unfolding defines_fun_def
    proof (intro conjI ballI allI impI)
      fix e' assume "e' \<in> {e}"
      then show "\<exists>p. exact (func_chain db' z) (a_nArg a) e' = Some p \<and> installed a p"
        using find_update_first [OF j(1,5), of "P p"] P pe by (auto simp: c exact_def)
    next
      fix z' n' e' assume ne: "\<not> (fold_case z' = fold_case z \<and> n' = a_nArg a \<and> e' \<in> {e})"
      show "exact (func_chain db' z') n' e' = exact (func_chain db z') n' e'"
      proof (cases "fold_case z' = fold_case z")
        case True
        then have same: "func_chain db z' = func_chain db z" by (simp add: func_chain_def)
        show ?thesis
          using find_update_other [OF j(1), of "\<lambda>p. fd_nArg p = n' \<and> fd_enc p = e'" "P p"] True ne P pe j(4)
          by (auto simp: c exact_def same)
      qed (simp add: c)
    qed
  qed
qed

text \<open>The encodings \<open>sqlite3CreateFunc\<close> creates a definition for.\<close>

definition encs :: "nat \<Rightarrow> nat set" where
  "encs ef = (if ef AND 7 = E_UTF16 then {E_UTF16NATIVE} else if ef AND 7 = E_ANY then {E_UTF8, E_UTF16LE, E_UTF16BE}
              else {ef AND 7})"

lemma CreateFunc_defines:
  assumes r: "sqlite3CreateFunc builtin prefer am am' db z ef a = (RC_OK, db')" and e: "ef AND 7 \<le> E_ANY"
  shows "defines_fun a z (encs ef) db db' \<and> - 1 \<le> a_nArg a"
proof -
  define c where "c db e = createFunc1 builtin prefer (am e) (am' e) db z e (ef AND 0x800) a" for db e
  let ?bad = "a_SFunc a \<noteq> None \<and> (a_Final a \<noteq> None \<or> a_Step a \<noteq> None)
         \<or> a_SFunc a = None \<and> a_Final a \<noteq> None \<and> a_Step a = None
         \<or> a_SFunc a = None \<and> a_Final a = None \<and> a_Step a \<noteq> None
         \<or> a_nArg a < - 1 \<or> a_nArg a > 127 \<or> 255 < length z"
  note body = r [unfolded sqlite3CreateFunc_def Let_def c_def [symmetric]]
  have nbad: "\<not> ?bad" using body by (cases ?bad) (simp_all only: if_True prod.inject api_rc.distinct simp_thms)
  then have n: "- 1 \<le> a_nArg a" by simp
  have step: "c db1 e = (RC_OK, db2) \<Longrightarrow> e < 4 \<Longrightarrow> defines_fun a z {e} db1 db2" for db1 db2 e
    unfolding c_def using createFunc1_defines n by blast
  note body = body [unfolded if_not_P [OF nbad]]
  show ?thesis
  proof (cases "ef AND 7 = E_ANY")
    case any: True
    obtain rc1 db1 where 1: "c db E_UTF8 = (rc1, db1)" by fastforce
    obtain rc2 db2 where 2: "c db1 E_UTF16LE = (rc2, db2)" by fastforce
    have ok: "rc1 = RC_OK" "rc2 = RC_OK" "c db2 E_UTF16BE = (RC_OK, db')"
      using body any 1 2 by (auto split: api_rc.splits)
    have "defines_fun a z ({E_UTF8} \<union> {E_UTF16LE} \<union> {E_UTF16BE}) db db'"
      using defines_fun_trans [OF defines_fun_trans [OF step [OF 1 [unfolded ok]] step [OF 2 [unfolded ok]]] step [OF ok(3)]] by simp
    then show ?thesis using any n by (simp add: encs_def insert_commute)
  next
    case False
    then have "c db (if ef AND 7 = E_UTF16 then E_UTF16NATIVE else ef AND 7) = (RC_OK, db')"
      using body by (simp split: if_splits)
    then show ?thesis using step n e False by (simp add: encs_def split: if_splits)
  qed
qed

lemma defines_fun_cong:
  "aFunc db0 = aFunc db \<Longrightarrow> aFunc db1' = aFunc db' \<Longrightarrow> defines_fun a z E db0 db' \<Longrightarrow> defines_fun a z E db db1'"
  by (simp add: defines_fun_def func_chain_def)

lemma function_v2_defines:
  assumes r: "sqlite3_create_function_v2 builtin prefer am am' db z ef a del = (RC_OK, db')" and e: "ef AND 7 \<le> E_ANY"
  shows "defines_fun a z (encs ef) db db' \<and> - 1 \<le> a_nArg a"
proof -
  have d: "defines_fun (a\<lparr>a_destr := x\<rparr>) z E db1 db2 = defines_fun a z E db1 db2" for x E db1 db2
    by (simp add: defines_fun_def installed_def)
  show ?thesis
  proof (cases del)
    case False
    obtain rc1 db1 where 1: "sqlite3CreateFunc builtin prefer am am' db z ef (a\<lparr>a_destr := None\<rparr>) = (rc1, db1)" by fastforce
    have 2: "sqlite3ApiExit db1 rc1 = (RC_OK, db')" using r 1 False by (simp add: sqlite3_create_function_v2_def)
    have ok: "rc1 = RC_OK" using ApiExit_frame(6) [OF 2] by simp
    from CreateFunc_defines [OF 1 [unfolded ok] e] show ?thesis
      using defines_fun_cong [OF refl ApiExit_frame(2) [OF 2]] by (simp add: d)
  next
    case True
    have am: "am 0" using r True ApiExit_frame(6) by (fastforce simp: sqlite3_create_function_v2_def split: if_splits)
    let ?d = "nextDestr db"
    define db0 where "db0 = db\<lparr>destructors := (?d, \<lparr>nRef = 0, d_user = a_user a\<rparr>) # destructors db, nextDestr := ?d + 1\<rparr>"
    obtain rc1 db1 where 1: "sqlite3CreateFunc builtin prefer am am' db0 z ef (a\<lparr>a_destr := Some ?d\<rparr>) = (rc1, db1)" by fastforce
    note body = r [unfolded sqlite3_create_function_v2_def Let_def if_P [OF True]]
    note body = body [unfolded db0_def [symmetric]]
    obtain db2 where 2: "sqlite3ApiExit db2 rc1 = (RC_OK, db')" "aFunc db2 = aFunc db1"
      using body 1 am by (simp split: if_splits)
    have ok: "rc1 = RC_OK" using ApiExit_frame(6) [OF 2(1)] by simp
    have f: "aFunc db' = aFunc db1" using ApiExit_frame(2) [OF 2(1)] 2(2) by simp
    from CreateFunc_defines [OF 1 [unfolded ok] e] show ?thesis
      using defines_fun_cong [of db0 db db' db1 a z "encs ef"] f by (simp add: d db0_def)
  qed
qed

section \<open>The life of a connection\<close>

text \<open>A connection before anything is registered, as the allocation zeroes it.\<close>

definition new_conn :: conn where
  "new_conn = \<lparr>aCollSeq = [], aFunc = [], destructors = [], nextDestr = 0, mTrace = 0, xTrace = None, pTraceArg = 0,
     nVdbeActive = 0, nVdbeExec = 0, nStmt = 0, zombie = False, closed = False, expired = False, isInterrupted = False,
     bDisable = 0, bBenignMalloc = False, mallocFailed = False, destroyed = [], traced = []\<rparr>"

text \<open>
  The connections an application can reach, with the user data it handed over: with every function
  that has a destructor, whether it was created or not, and with every collation that was created.
  The statements come and go; the last one of a zombie closes it.
\<close>

inductive lives :: "conn \<Rightarrow> nat multiset \<Rightarrow> bool" where
  opened: "lives new_conn {#}"
| create_function:
    "lives db G \<Longrightarrow> \<not> closed db \<Longrightarrow> sqlite3_create_function_v2 builtin prefer am am' db z ef a del = (rc, db') \<Longrightarrow>
       lives db' (G + (if del then {#a_user a#} else {#}))"
| create_collation:
    "lives db G \<Longrightarrow> \<not> closed db \<Longrightarrow> \<not> mallocFailed db \<Longrightarrow> (del \<longrightarrow> xc \<noteq> None) \<Longrightarrow>
       sqlite3_create_collation_v2 am' db z enc u xc del = (rc, db') \<Longrightarrow>
       lives db' (G + (if rc = RC_OK \<and> del then {#u#} else {#}))"
| find_collation:
    "lives db G \<Longrightarrow> \<not> closed db \<Longrightarrow> i < 3 \<Longrightarrow> (\<forall>e. map_of (aCollSeq db) (fold_case z) = Some e \<longrightarrow> xCmp (e ! i) = None) \<Longrightarrow>
       lives (snd (synthCollSeq db z i)) G"
| trace: "lives db G \<Longrightarrow> \<not> closed db \<Longrightarrow> lives (snd (sqlite3_trace_v2 db evts x u)) G"
| statements:
    "lives db G \<Longrightarrow> \<not> closed db \<Longrightarrow> lives (db\<lparr>nStmt := n, nVdbeActive := m, nVdbeExec := k, mallocFailed := b\<rparr>) G"
| finalize:
    "lives db G \<Longrightarrow> \<not> closed db \<Longrightarrow> zombie db \<Longrightarrow> lives (sqlite3LeaveMutexAndCloseZombie (db\<lparr>nStmt := n\<rparr>)) G"
| close: "lives db G \<Longrightarrow> \<not> closed db \<Longrightarrow> lives (snd (sqlite3Close db force)) G"

lemma synth_ok:
  assumes wf: "wf_conn db" and i: "i < 3" and e0: "\<forall>e. map_of (aCollSeq db) (fold_case z) = Some e \<longrightarrow> xCmp (e ! i) = None"
  shows "wf_conn (snd (synthCollSeq db z i)) \<and> ledger (snd (synthCollSeq db z i)) = ledger db"
proof (cases "fst (synthCollSeq db z i) = RC_OK")
  case True
  then obtain e enc where e: "map_of (aCollSeq db) (fold_case z) = Some e"
    "snd (synthCollSeq db z i) = set_coll z i ((e ! (enc - 1))\<lparr>xDel := False\<rparr>) db"
    by (auto simp: synthCollSeq_def split: option.splits)
  define db' where "db' = set_entry z (e[i := (e ! (enc - 1))\<lparr>xDel := False\<rparr>]) db"
  have s: "snd (synthCollSeq db z i) = db'" by (simp add: e set_coll_def db'_def)
  have "cstep {#} db db'"
    using replace_step [of db z e i "(e ! (enc - 1))\<lparr>xDel := False\<rparr>" False] wf e(1) i e0 by (simp add: wf_conn_def db'_def)
  then have c: "wf_coll db'" "mset (destroyed db') + coll_owned db' = mset (destroyed db) + coll_owned db"
    "aFunc db' = aFunc db" "destructors db' = destructors db" "nextDestr db' = nextDestr db" by (simp_all add: cstep_def)
  have "wf_func db' = wf_func db" "referenced {} db' = referenced {} db"
    unfolding wf_func_def counts_def frefs_def destr_ids_def referenced_def c by (rule refl)+
  then have "wf_conn db'" using c(1) wf by (simp add: wf_conn_def)
  moreover have "ledger db' = ledger db" using c(2,4) by (simp add: ledger_def owned_def ac_simps)
  ultimately show ?thesis by (simp add: s)
next
  case False
  then have "snd (synthCollSeq db z i) = db" by (auto simp: synthCollSeq_def split: option.splits)
  then show ?thesis using wf by simp
qed

lemma close_zombie_ok:
  assumes "wf_conn db" "\<not> closed db"
  defines "db' \<equiv> sqlite3LeaveMutexAndCloseZombie db"
  shows "wf_conn db' \<and> ledger db' = ledger db"
proof (cases "zombie db \<and> nStmt db = 0")
  case True
  note c = close_ok [of db, folded db'_def]
  have "wf_conn db'"
  proof -
    have "aCollSeq db' = []" "aFunc db' = []" "destructors db' = []"
      using True close_functions_ok [of db] assms(1)
      by (simp_all add: db'_def sqlite3LeaveMutexAndCloseZombie_def close_collations_def wf_conn_def)
    then show ?thesis by (simp add: wf_conn_def wf_coll_def wf_func_def destr_ids_def counts_def frefs_def referenced_def)
  qed
  then show ?thesis using c True assms(1) by (simp add: ledger_def)
next
  case False
  then have "db' = db" by (auto simp: db'_def sqlite3LeaveMutexAndCloseZombie_def)
  then show ?thesis using assms by simp
qed

lemma lives_ok: "lives db G \<Longrightarrow> wf_conn db \<and> ledger db = G"
proof (induction rule: lives.induct)
  case opened
  show ?case by (simp add: new_conn_def wf_conn_def wf_coll_def wf_func_def destr_ids_def counts_def frefs_def referenced_def
      ledger_def owned_def coll_owned_def)
next
  case (create_function db G bi pr am am' z ef a del rc db')
  then show ?case using function_v2_ok [OF create_function(3)] by simp
next
  case (create_collation db G del xc am' z enc u rc db')
  then show ?case using collation_v2_ok [OF create_collation(5) _ create_collation(4,3)] by simp
next
  case (find_collation db G i z)
  then show ?case using synth_ok [of db i z] by simp
next
  case (trace db G evts x u)
  have "wf_conn (snd (sqlite3_trace_v2 db evts x u)) = wf_conn db"
    by (rule wf_conn_cong) (simp_all add: sqlite3_trace_v2_def)
  moreover have "ledger (snd (sqlite3_trace_v2 db evts x u)) = ledger db"
    by (rule ledger_cong) (simp_all add: sqlite3_trace_v2_def)
  ultimately show ?case using trace by (simp add: sqlite3_trace_v2_def)
next
  case (statements db G b k m n)
  let ?db = "db\<lparr>nStmt := n, nVdbeActive := m, nVdbeExec := k, mallocFailed := b\<rparr>"
  have "wf_conn ?db = wf_conn db" "ledger ?db = ledger db" by (rule wf_conn_cong ledger_cong; simp)+
  then show ?case using statements by simp
next
  case (finalize db G n)
  let ?db = "db\<lparr>nStmt := n\<rparr>"
  have "wf_conn ?db = wf_conn db" "ledger ?db = ledger db" by (rule wf_conn_cong ledger_cong; simp)+
  then show ?case using finalize close_zombie_ok [of ?db] by simp
next
  case (close db G force)
  define db1 where "db1 = (if mTrace db AND SQLITE_TRACE_CLOSE \<noteq> 0
                then db\<lparr>traced := traced db @ [(SQLITE_TRACE_CLOSE, pTraceArg db)]\<rparr> else db)"
  have 1: "wf_conn db1 = wf_conn db" "ledger db1 = ledger db" "closed db1 = closed db"
    unfolding db1_def by (rule wf_conn_cong ledger_cong; simp)+ simp
  let ?db = "db1\<lparr>zombie := True\<rparr>"
  have 2: "wf_conn ?db = wf_conn db1" "ledger ?db = ledger db1" by (rule wf_conn_cong ledger_cong; simp)+
  show ?case
    unfolding sqlite3Close_def Let_def db1_def [symmetric]
    using close 1 2 close_zombie_ok [of ?db] by simp
qed

lemma Close_ok:
  assumes "lives db G" "\<not> closed db"
  shows "\<not> force \<and> nStmt db > 0 \<Longrightarrow>
      fst (sqlite3Close db force) = RC_BUSY \<and> \<not> closed (snd (sqlite3Close db force)) \<and> destroyed (snd (sqlite3Close db force)) = destroyed db"
    and "nStmt db = 0 \<Longrightarrow>
      fst (sqlite3Close db force) = RC_OK \<and> closed (snd (sqlite3Close db force)) \<and> mset (destroyed (snd (sqlite3Close db force))) = G"
    and "force \<and> nStmt db > 0 \<Longrightarrow> fst (sqlite3Close db force) = RC_OK \<and> \<not> closed (snd (sqlite3Close db force)) \<and>
      destroyed (snd (sqlite3Close db force)) = destroyed db \<and>
      closed (sqlite3LeaveMutexAndCloseZombie ((snd (sqlite3Close db force))\<lparr>nStmt := 0\<rparr>)) \<and>
      mset (destroyed (sqlite3LeaveMutexAndCloseZombie ((snd (sqlite3Close db force))\<lparr>nStmt := 0\<rparr>))) = G"
proof -
  define db1 where "db1 = (if mTrace db AND SQLITE_TRACE_CLOSE \<noteq> 0
                then db\<lparr>traced := traced db @ [(SQLITE_TRACE_CLOSE, pTraceArg db)]\<rparr> else db)"
  have 1: "wf_conn db1" "ledger db1 = G"
    using lives_ok [OF assms(1)] wf_conn_cong [of db1 db] ledger_cong [of db1 db] by (simp_all add: db1_def)
  have f: "closed db1 = closed db" "nStmt db1 = nStmt db" "destroyed db1 = destroyed db" by (simp_all add: db1_def)
  define db2 where "db2 = db1\<lparr>zombie := True\<rparr>"
  have 2: "wf_conn db2" "ledger db2 = G" "zombie db2" "nStmt db2 = nStmt db" "closed db2 = closed db" "destroyed db2 = destroyed db"
    using 1 f wf_conn_cong [of db2 db1] ledger_cong [of db2 db1] by (simp_all add: db2_def)
  have c: "sqlite3Close db force =
      (if \<not> force \<and> nStmt db > 0 then (RC_BUSY, db1) else (RC_OK, sqlite3LeaveMutexAndCloseZombie db2))" for force
    unfolding sqlite3Close_def Let_def db1_def [symmetric] db2_def by (simp add: f)
  show "\<not> force \<and> nStmt db > 0 \<Longrightarrow>
      fst (sqlite3Close db force) = RC_BUSY \<and> \<not> closed (snd (sqlite3Close db force)) \<and> destroyed (snd (sqlite3Close db force)) = destroyed db"
    using assms(2) f by (simp add: c)
  show "nStmt db = 0 \<Longrightarrow>
      fst (sqlite3Close db force) = RC_OK \<and> closed (snd (sqlite3Close db force)) \<and> mset (destroyed (snd (sqlite3Close db force))) = G"
    using close_ok [of db2] 2 by (simp add: c)
  define db3 where "db3 = db2\<lparr>nStmt := 0\<rparr>"
  have 3: "wf_conn db3" "ledger db3 = G" "zombie db3" "nStmt db3 = 0"
    using 2 wf_conn_cong [of db3 db2] ledger_cong [of db3 db2] by (simp_all add: db3_def)
  have z: "sqlite3LeaveMutexAndCloseZombie db2 = db2" if "nStmt db > 0"
    using that 2(4) by (simp add: sqlite3LeaveMutexAndCloseZombie_def)
  show "force \<and> nStmt db > 0 \<Longrightarrow> fst (sqlite3Close db force) = RC_OK \<and> \<not> closed (snd (sqlite3Close db force)) \<and>
      destroyed (snd (sqlite3Close db force)) = destroyed db \<and>
      closed (sqlite3LeaveMutexAndCloseZombie ((snd (sqlite3Close db force))\<lparr>nStmt := 0\<rparr>)) \<and>
      mset (destroyed (sqlite3LeaveMutexAndCloseZombie ((snd (sqlite3Close db force))\<lparr>nStmt := 0\<rparr>))) = G"
    using close_ok [OF 3(1,3,4)] 2 3(2) assms(2) by (simp add: c z db3_def [symmetric])
qed


definition wit_args :: fun_args where
  "wit_args = \<lparr>a_nArg = 1, a_user = 7, a_SFunc = Some 1, a_Step = None, a_Final = None, a_destr = None\<rparr>"

definition wit_fun :: conn where
  "wit_fun = new_conn\<lparr>aFunc := [([102], [\<lparr>fd_nArg = 1, fd_enc = 1, fd_flags = 0, xSFunc = Some 1, xFinalize = None,
      fd_user = 7, fd_destr = Some 0\<rparr>])], destructors := [(0, \<lparr>nRef = 1, d_user = 7\<rparr>)], nextDestr := 1\<rparr>"

definition wit_coll :: "nat \<Rightarrow> nat list \<Rightarrow> conn" where
  "wit_coll u ds = wit_fun\<lparr>aCollSeq := [([99], [\<lparr>ce_enc = 1, xCmp = Some 2, ce_user = u, xDel = True\<rparr>,
      \<lparr>ce_enc = 2, xCmp = None, ce_user = 0, xDel = False\<rparr>, \<lparr>ce_enc = 3, xCmp = None, ce_user = 0, xDel = False\<rparr>])],
      expired := (ds \<noteq> []), destroyed := ds\<rparr>"

lemma wit_fold: "sqlite3UpperToLower 67 = 99" "sqlite3UpperToLower 99 = 99" "sqlite3UpperToLower 102 = 102" "sqlite3UpperToLower 70 = 102"
  by code_simp+

lemma wit_steps:
  "sqlite3_create_function_v2 (\<lambda>z. []) False (\<lambda>_. True) (\<lambda>_. True) new_conn [102] E_UTF8 wit_args True = (RC_OK, wit_fun)"
  "sqlite3_create_collation_v2 True wit_fun [67] E_UTF8 8 (Some 2) True = (RC_OK, wit_coll 8 [])"
  "sqlite3_create_collation_v2 True (wit_coll 8 []) [99] E_UTF8 9 (Some 2) True = (RC_OK, wit_coll 9 [8])"
  by (simp_all add: wit_fun_def wit_coll_def wit_args_def new_conn_def sqlite3_create_function_v2_def sqlite3CreateFunc_def
      createFunc1_def sqlite3FindFunction_def sqlite3FindFunction_create_def func_chain_def set_chain_def alist_set_def
      functionDestroy_def destr_incr_def wit_fold FUNC_PERFECT_MATCH_def sqlite3ApiExit_def sqlite3_create_collation_v2_def
      createCollation_def sqlite3FindCollSeq_def findCollSeqEntry_def new_entry_def set_coll_def set_entry_def unaligned_def
      sqlite3ExpirePreparedStatements_def)


text \<open>
  C15: A function that was created is found: after success, the lookup for its name in any case, its
  number of arguments and each of its encodings gives the callbacks that were passed, and the
  definitions for all others are the same as before.
\<close>

theorem created_function_found:
  assumes "sqlite3_create_function_v2 builtin prefer am am' db z ef a del = (RC_OK, db')" "ef AND 7 \<le> E_ANY"
    and "a_SFunc a \<noteq> None \<or> a_Step a \<noteq> None"
  shows "(\<forall>e \<in> encs ef. \<forall>z'. fold_case z' = fold_case z \<longrightarrow>
      (\<exists>p. sqlite3FindFunction builtin False db' z' (a_nArg a) e = Some p \<and> installed a p)) \<and>
    (\<forall>z' n e. \<not> (fold_case z' = fold_case z \<and> n = a_nArg a \<and> e \<in> encs ef) \<longrightarrow>
      exact (func_chain db' z') n e = exact (func_chain db z') n e)"
proof (intro conjI ballI allI impI)
  note d = function_v2_defines [OF assms(1,2)]
  fix e z' assume e: "e \<in> encs ef" and z: "fold_case z' = fold_case z"
  then obtain p where p: "exact (func_chain db' z') (a_nArg a) e = Some p" "installed a p"
    using d unfolding defines_fun_def func_chain_def by auto
  then have "xSFunc p \<noteq> None" using assms(3) by (auto simp: installed_def)
  with FindFunction_exact [OF conjunct2 [OF d] p(1)] p(2)
  show "\<exists>p. sqlite3FindFunction builtin False db' z' (a_nArg a) e = Some p \<and> installed a p" by blast
next
  fix z' n e assume "\<not> (fold_case z' = fold_case z \<and> n = a_nArg a \<and> e \<in> encs ef)"
  then show "exact (func_chain db' z') n e = exact (func_chain db z') n e"
    using function_v2_defines [OF assms(1,2)] unfolding defines_fun_def by blast
qed

lemma created_function_found_witness:
  "\<exists>p. sqlite3FindFunction (\<lambda>z. []) False wit_fun [70] 1 E_UTF8 = Some p \<and> fd_user p = 7"
proof -
  note c = created_function_found [OF wit_steps(1)]
  have "E_UTF8 \<in> encs E_UTF8" "fold_case [70] = fold_case [102]" by (simp_all add: encs_def wit_fold)
  with conjunct1 [OF c] have "\<exists>p. sqlite3FindFunction (\<lambda>z. []) False wit_fun [70] (a_nArg wit_args) E_UTF8 = Some p \<and> installed wit_args p"
    by (simp add: wit_args_def)
  then show ?thesis by (auto simp: installed_def wit_args_def)
qed

end
