(* ===== verification/JniBridge.thy ===== *)
theory JniBridge
  imports Callbacks "HOL-Library.Monad_Syntax"
begin

text \<open>
  The JNI layer (sqlite3_jni.cc): the native methods of the Java classes, over the connections of
  theory \<open>Callbacks\<close>. What matters here is what they do with global references and with pointers:
  a method whose pointer or reference is not valid any more has no result.
\<close>

section \<open>The state behind the Java objects\<close>

text \<open>
  References and pointers are numbers, 0 is null. \<open>globals\<close> are the global references that exist;
  \<open>wrappers\<close> the \<open>SQLiteDb\<close> objects, \<open>conns\<close> the connections and \<open>stmts\<close> the statements that are
  allocated, by their addresses. A statement has the address of its connection. \<open>pending\<close> tells
  whether an exception has been thrown.
\<close>

record SQLiteDb =
  handle :: nat
  trace_ref :: nat

record jvm =
  globals :: "nat list"
  nextGlobal :: nat
  wrappers :: "(nat \<times> SQLiteDb) list"
  conns :: "(nat \<times> conn) list"
  stmts :: "(nat \<times> nat) list"
  nextPtr :: nat
  pending :: bool

text \<open>The functions of the JNI environment that the methods use, as its specification has them.\<close>

definition NewGlobalRef :: "nat \<Rightarrow> jvm \<Rightarrow> nat \<times> jvm" where
  "NewGlobalRef j st =
     (if j = 0 then (0, st)
      else (nextGlobal st, st\<lparr>globals := nextGlobal st # globals st, nextGlobal := nextGlobal st + 1\<rparr>))"

definition DeleteGlobalRef :: "nat \<Rightarrow> jvm \<Rightarrow> jvm option" where
  "DeleteGlobalRef r st =
     (if r = 0 then Some st
      else if r \<in> set (globals st) then Some (st\<lparr>globals := remove1 r (globals st)\<rparr>)
      else None)"

definition NewLocalRef :: "nat \<Rightarrow> jvm \<Rightarrow> jvm option" where
  "NewLocalRef r st = (if r = 0 \<or> r \<in> set (globals st) then Some st else None)"

definition throw_sqlite_exception :: "jvm \<Rightarrow> jvm" where
  "throw_sqlite_exception st = st\<lparr>pending := True\<rparr>"

section \<open>The callbacks\<close>

text \<open>They run on a thread that is attached to the virtual machine, as the methods do.\<close>

definition java_trace :: "nat \<Rightarrow> nat \<Rightarrow> jvm \<Rightarrow> jvm option" where
  "java_trace ev jfunc st = (if jfunc \<noteq> 0 \<and> ev = SQLITE_TRACE_STMT then NewLocalRef jfunc st else Some st)"

definition java_destroy :: "nat \<Rightarrow> jvm \<Rightarrow> jvm option" where
  "java_destroy data st = (if data \<noteq> 0 then DeleteGlobalRef data st else Some st)"

fun run_destructors :: "nat list \<Rightarrow> jvm \<Rightarrow> jvm option" where
  "run_destructors [] st = Some st"
| "run_destructors (u # us) st = Option.bind (java_destroy u st) (run_destructors us)"

text \<open>A call of the engine on a connection: the destructors it calls are \<open>java_destroy\<close>.\<close>

definition engine :: "nat \<Rightarrow> (conn \<Rightarrow> api_rc \<times> conn) \<Rightarrow> jvm \<Rightarrow> (api_rc \<times> jvm) option" where
  "engine h f st =
     do {
       db \<leftarrow> map_of (conns st) h;
       let (rc, db') = f db;
       st' \<leftarrow> run_destructors (destroyed db')
         (st\<lparr>conns := (if closed db' then alist_del h (conns st)
                       else alist_set h (db'\<lparr>destroyed := []\<rparr>) (conns st))\<rparr>);
       Some (rc, st')
     }"

section \<open>Connections\<close>

text \<open>\<open>sqlite3_busy_timeout\<close> sets a handler and succeeds.\<close>

definition sqlite3_busy_timeout :: "conn \<Rightarrow> api_rc \<times> conn" where
  "sqlite3_busy_timeout db = (RC_OK, db)"

text \<open>
  \<open>rc\<close> is the result of \<open>sqlite3_open_v2\<close>, which allocates a connection even when it fails; \<open>rw\<close> is
  the flag \<open>SQLITE_OPEN_READWRITE\<close>, \<open>ro\<close> the answer of \<open>sqlite3_db_readonly\<close>.
\<close>

definition nativeOpen :: "api_rc \<Rightarrow> bool \<Rightarrow> bool \<Rightarrow> jvm \<Rightarrow> (nat \<times> jvm) option" where
  "nativeOpen rc rw ro st =
     (let h = nextPtr st;
          st = st\<lparr>conns := (h, new_conn) # conns st, nextPtr := h + 1\<rparr>
      in if rc \<noteq> RC_OK then Some (0, throw_sqlite_exception st)
         else if rw \<and> ro then
           do {
             (r, st) \<leftarrow> engine h sqlite3_close_v2 st;
             Some (0, throw_sqlite_exception st)
           }
         else
           do {
             (ret, st) \<leftarrow> engine h sqlite3_busy_timeout st;
             if ret \<noteq> RC_OK then
               do {
                 (r, st) \<leftarrow> engine h sqlite3_close (throw_sqlite_exception st);
                 Some (0, st)
               }
             else
               Some (nextPtr st,
                 st\<lparr>wrappers := (nextPtr st, \<lparr>handle = h, trace_ref = 0\<rparr>) # wrappers st, nextPtr := nextPtr st + 1\<rparr>)
           })"

definition nativeClose :: "nat \<Rightarrow> jvm \<Rightarrow> jvm option" where
  "nativeClose jptr st =
     do {
       db \<leftarrow> map_of (wrappers st) jptr;
       st \<leftarrow> (if trace_ref db \<noteq> 0 then DeleteGlobalRef (trace_ref db) st else Some st);
       (r, st) \<leftarrow> engine (handle db) sqlite3_close_v2 st;
       Some (st\<lparr>wrappers := alist_del jptr (wrappers st)\<rparr>)
     }"

definition nativeTrace :: "nat \<Rightarrow> nat \<Rightarrow> jvm \<Rightarrow> jvm option" where
  "nativeTrace jptr jfunc st =
     do {
       db \<leftarrow> map_of (wrappers st) jptr;
       st \<leftarrow> (if trace_ref db \<noteq> 0 then
                 do {
                   st \<leftarrow> DeleteGlobalRef (trace_ref db) st;
                   Some (st\<lparr>wrappers := alist_set jptr (db\<lparr>trace_ref := 0\<rparr>) (wrappers st)\<rparr>)
                 }
               else Some st);
       if jfunc \<noteq> 0 then
         do {
           let (ref, st) = NewGlobalRef jfunc st;
           let st = st\<lparr>wrappers := alist_set jptr (db\<lparr>trace_ref := ref\<rparr>) (wrappers st)\<rparr>;
           (ret, st) \<leftarrow> engine (handle db) (\<lambda>c. sqlite3_trace_v2 c SQLITE_TRACE_STMT (Some 1) ref) st;
           Some (if ret \<noteq> RC_OK then throw_sqlite_exception st else st)
         }
       else Some st
     }"

text \<open>\<open>am\<close> and \<open>am'\<close> tell which allocations of the engine succeed.\<close>

definition nativeCreateCollation :: "bool \<Rightarrow> nat \<Rightarrow> u8 list \<Rightarrow> nat \<Rightarrow> jvm \<Rightarrow> jvm option" where
  "nativeCreateCollation am jptr name jcomparator st =
     do {
       db \<leftarrow> map_of (wrappers st) jptr;
       let (comparator, st) = NewGlobalRef jcomparator st;
       (ret, st) \<leftarrow> engine (handle db)
         (\<lambda>c. sqlite3_create_collation_v2 am c name E_UTF8 comparator (Some 1) True) st;
       Some (if ret \<noteq> RC_OK then throw_sqlite_exception st else st)
     }"

definition nativeCreateFunction ::
  "(u8 list \<Rightarrow> FuncDef list) \<Rightarrow> bool \<Rightarrow> (nat \<Rightarrow> bool) \<Rightarrow> (nat \<Rightarrow> bool) \<Rightarrow> nat \<Rightarrow> u8 list \<Rightarrow> cint \<Rightarrow> nat \<Rightarrow> jvm \<Rightarrow> jvm option" where
  "nativeCreateFunction builtin prefer am am' jptr name numArgs jfunc st =
     do {
       db \<leftarrow> map_of (wrappers st) jptr;
       let (func, st) = NewGlobalRef jfunc st;
       (ret, st) \<leftarrow> engine (handle db)
         (\<lambda>c. sqlite3_create_function_v2 builtin prefer am am' c name E_UTF8
            \<lparr>a_nArg = numArgs, a_user = func, a_SFunc = Some 1, a_Step = None, a_Final = None, a_destr = None\<rparr> True) st;
       Some (if ret \<noteq> RC_OK then throw_sqlite_exception st else st)
     }"

section \<open>Statements\<close>

text \<open>
  What the engine answers is given: whether the text was prepared and had a statement in it; the
  result of a step, whether the trace callback was called at its start, and how many statements
  are active after it.
\<close>

datatype prepared = PrepareError | NoStatement | Statement
datatype step_rc = ROW | DONE | FAILED

definition sqlite3_prepare_v2 :: "prepared \<Rightarrow> nat \<Rightarrow> jvm \<Rightarrow> (nat \<times> jvm) option" where
  "sqlite3_prepare_v2 out h st =
     (if out = Statement then
        do {
          (r, st) \<leftarrow> engine h (\<lambda>c. (RC_OK, c\<lparr>nStmt := nStmt c + 1\<rparr>)) st;
          Some (nextPtr st, st\<lparr>stmts := (nextPtr st, h) # stmts st, nextPtr := nextPtr st + 1\<rparr>)
        }
      else if map_of (conns st) h = None then None else Some (0, st))"

definition sqlite3_step :: "step_rc \<Rightarrow> bool \<Rightarrow> nat \<Rightarrow> nat \<Rightarrow> jvm \<Rightarrow> (step_rc \<times> jvm) option" where
  "sqlite3_step out traces active s st =
     (if s = 0 then Some (FAILED, st)
      else
        do {
          h \<leftarrow> map_of (stmts st) s;
          db \<leftarrow> map_of (conns st) h;
          st \<leftarrow> (if traces \<and> mTrace db AND SQLITE_TRACE_STMT \<noteq> 0
                  then java_trace SQLITE_TRACE_STMT (pTraceArg db) st else Some st);
          (r, st) \<leftarrow> engine h (\<lambda>c. (RC_OK, c\<lparr>nVdbeActive := active\<rparr>)) st;
          Some (out, st)
        })"

definition sqlite3_finalize :: "nat \<Rightarrow> jvm \<Rightarrow> jvm option" where
  "sqlite3_finalize s st =
     (if s = 0 then Some st
      else
        do {
          h \<leftarrow> map_of (stmts st) s;
          (r, st) \<leftarrow> engine h
            (\<lambda>c. (RC_OK, sqlite3LeaveMutexAndCloseZombie (snd (sqlite3ApiExit (c\<lparr>nStmt := nStmt c - 1\<rparr>) RC_OK)))) st;
          Some (st\<lparr>stmts := alist_del s (stmts st)\<rparr>)
        })"

definition nativePrepare :: "prepared \<Rightarrow> nat \<Rightarrow> jvm \<Rightarrow> (nat \<times> jvm) option" where
  "nativePrepare out jptr st =
     do {
       db \<leftarrow> map_of (wrappers st) jptr;
       (s, st) \<leftarrow> sqlite3_prepare_v2 out (handle db) st;
       Some (s, if out = PrepareError then throw_sqlite_exception st else st)
     }"

definition nativeFinalize :: "nat \<Rightarrow> jvm \<Rightarrow> jvm option" where
  "nativeFinalize jptr st = sqlite3_finalize jptr st"

text \<open>\<open>nativeInsert\<close> and \<open>nativeExecute\<close> differ in what they return on success, \<open>v\<close> here.\<close>

definition nativeExecute :: "step_rc \<Rightarrow> bool \<Rightarrow> nat \<Rightarrow> int \<Rightarrow> nat \<Rightarrow> jvm \<Rightarrow> (int \<times> jvm) option" where
  "nativeExecute out traces active v jptr st =
     do {
       db \<leftarrow> (if jptr = 0 then Some 0 else map_of (stmts st) jptr);
       (ret, st) \<leftarrow> sqlite3_step out traces active jptr st;
       if ret \<noteq> DONE then
         do {
           st \<leftarrow> sqlite3_finalize jptr st;
           if db \<noteq> 0 \<and> map_of (conns st) db = None then None
           else Some (- 1, throw_sqlite_exception st)
         }
       else Some (v, st)
     }"

definition nativeStep :: "step_rc \<Rightarrow> bool \<Rightarrow> nat \<Rightarrow> nat \<Rightarrow> jvm \<Rightarrow> (step_rc \<times> jvm) option" where
  "nativeStep out traces active jptr st = sqlite3_step out traces active jptr st"

definition nativeExecForDouble :: "prepared \<Rightarrow> step_rc \<Rightarrow> bool \<Rightarrow> nat \<Rightarrow> 'd \<Rightarrow> 'd \<Rightarrow> nat \<Rightarrow> jvm \<Rightarrow> ('d \<times> jvm) option" where
  "nativeExecForDouble pout out traces active v zero jptr st =
     do {
       db \<leftarrow> map_of (wrappers st) jptr;
       (s, st) \<leftarrow> sqlite3_prepare_v2 pout (handle db) st;
       let st = (if pout = PrepareError then throw_sqlite_exception st else st);
       (ret, st) \<leftarrow> sqlite3_step out traces active s st;
       st \<leftarrow> sqlite3_finalize s st;
       Some (if ret = ROW then v else zero, st)
     }"

section \<open>What the engine leaves alone\<close>

definition rest :: "conn \<Rightarrow> nat \<times> nat option \<times> nat \<times> nat \<times> nat \<times> bool \<times> bool" where
  "rest db = (mTrace db, xTrace db, pTraceArg db, nVdbeExec db, nStmt db, zombie db, closed db)"

lemma rest_simps [simp]:
  "rest (sqlite3OomFault db) = rest db" "rest (sqlite3OomClear db) = rest db" "rest (sqlite3ExpirePreparedStatements db) = rest db"
  "rest (set_entry z e db) = rest db" "rest (set_chain z c db) = rest db" "rest (db\<lparr>destroyed := ds\<rparr>) = rest db"
  "rest (db\<lparr>aCollSeq := cs\<rparr>) = rest db" "rest (db\<lparr>destructors := x\<rparr>) = rest db" "rest (db\<lparr>nextDestr := n\<rparr>) = rest db"
  by (simp_all add: rest_def sqlite3OomFault_def sqlite3OomClear_def sqlite3ExpirePreparedStatements_def set_entry_def set_chain_def)

lemma rest_more [simp]:
  "rest (set_coll z k p db) = rest db" "rest (functionDestroy db q) = rest db" "rest (destr_incr db x) = rest db"
  by (simp_all add: set_coll_def functionDestroy_def destr_incr_def split: option.split)

lemma rest_find_coll: "sqlite3FindCollSeq am db e z c = (q, db') \<Longrightarrow> rest db' = rest db"
  by (auto simp: sqlite3FindCollSeq_def findCollSeqEntry_def split: option.splits if_splits)

lemma rest_find_fun: "sqlite3FindFunction_create am am' db z n e = (q, db') \<Longrightarrow> rest db' = rest db"
  by (auto simp: sqlite3FindFunction_create_def Let_def split: prod.splits if_splits)

lemma rest_createFunc1: "createFunc1 builtin prefer am am' db z e fl a = (rc, db') \<Longrightarrow> rest db' = rest db"
proof -
  assume r: "createFunc1 builtin prefer am am' db z e fl a = (rc, db')"
  define ov where "ov = (case sqlite3FindFunction builtin prefer db z (a_nArg a) e of
                         None \<Rightarrow> False | Some p \<Rightarrow> fd_enc p = e \<and> fd_nArg p = a_nArg a)"
  define db0 where "db0 = (if ov then sqlite3ExpirePreparedStatements db else db)"
  obtain ri db1 where f: "sqlite3FindFunction_create am am' db0 z (a_nArg a) e = (ri, db1)" by fastforce
  note body = r [unfolded createFunc1_def Let_def ov_def [symmetric]]
  note body = body [unfolded db0_def [symmetric] f]
  have "rest db1 = rest db" using rest_find_fun [OF f] by (simp add: db0_def)
  with body show ?thesis by (auto split: if_splits option.splits)
qed

lemma rest_CreateFunc: "sqlite3CreateFunc builtin prefer am am' db z ef a = (rc, db') \<Longrightarrow> rest db' = rest db"
proof -
  assume r: "sqlite3CreateFunc builtin prefer am am' db z ef a = (rc, db')"
  define c where "c db e = createFunc1 builtin prefer (am e) (am' e) db z e (ef AND 0x800) a" for db e
  have c: "c db e = (rc, db') \<Longrightarrow> rest db' = rest db" for db e rc db'
    unfolding c_def by (rule rest_createFunc1)
  note body = r [unfolded sqlite3CreateFunc_def Let_def c_def [symmetric]]
  obtain rc1 db1 where 1: "c db E_UTF8 = (rc1, db1)" by fastforce
  obtain rc2 db2 where 2: "c db1 E_UTF16LE = (rc2, db2)" by fastforce
  show ?thesis
    using body c [OF 1] c [OF 2] c [of db2 E_UTF16BE rc db'] c [of db E_UTF16NATIVE rc db'] c [of db "ef AND 7" rc db']
    unfolding 1 2 by (auto simp: 2 split: if_splits api_rc.splits)
qed

lemma rest_ApiExit: "sqlite3ApiExit db rc = (rc', db') \<Longrightarrow> rest db' = rest db"
  by (auto simp: sqlite3ApiExit_def split: if_splits)

lemma ApiExit_cleared: "sqlite3ApiExit db rc = (rc', db') \<Longrightarrow> nVdbeExec db = 0 \<Longrightarrow> \<not> mallocFailed db'"
  by (auto simp: sqlite3ApiExit_def sqlite3OomClear_def split: if_splits)

lemma rest_function_v2:
  assumes r: "sqlite3_create_function_v2 builtin prefer am am' db z ef a del = (rc, db')"
  shows "rest db' = rest db" "nVdbeExec db = 0 \<Longrightarrow> \<not> mallocFailed db'"
proof -
  obtain rc1 db1 where 1: "sqlite3ApiExit db1 rc1 = (rc, db')" "rest db1 = rest db"
  proof (cases "del \<and> am 0")
    case True
    let ?db = "db\<lparr>destructors := (nextDestr db, \<lparr>nRef = 0, d_user = a_user a\<rparr>) # destructors db, nextDestr := nextDestr db + 1\<rparr>"
    obtain rc1 db1 where c: "sqlite3CreateFunc builtin prefer am am' ?db z ef (a\<lparr>a_destr := Some (nextDestr db)\<rparr>) = (rc1, db1)" by fastforce
    have rest: "rest db1 = rest db" using rest_CreateFunc [OF c] by simp
    define db2 where "db2 = (if map_option nRef (map_of (destructors db1) (nextDestr db)) = Some 0
        then db1\<lparr>destroyed := destroyed db1 @ [a_user a], destructors := alist_del (nextDestr db) (destructors db1)\<rparr> else db1)"
    have "sqlite3ApiExit db2 rc1 = (rc, db')"
      using r True c by (auto simp: sqlite3_create_function_v2_def Let_def db2_def split: if_splits)
    moreover have "rest db2 = rest db" using rest by (simp add: db2_def)
    ultimately show thesis by (rule that)
  next
    case False
    obtain rc1 db1 where c: "sqlite3CreateFunc builtin prefer am am' db z ef (a\<lparr>a_destr := None\<rparr>) = (rc1, db1)" by fastforce
    show thesis
    proof (cases del)
      case True
      then show thesis using that [of "(sqlite3OomFault db)\<lparr>destroyed := destroyed db @ [a_user a]\<rparr>" RC_ERROR] r False
        by (simp add: sqlite3_create_function_v2_def)
    next
      case no: False
      then show thesis using that [of db1 rc1] r c rest_CreateFunc [OF c] by (simp add: sqlite3_create_function_v2_def)
    qed
  qed
  show "rest db' = rest db" using rest_ApiExit [OF 1(1)] 1(2) by simp
  show "nVdbeExec db = 0 \<Longrightarrow> \<not> mallocFailed db'" using ApiExit_cleared [OF 1(1)] 1(2) by (simp add: rest_def)
qed

lemma rest_createCollation: "createCollation am db z enc pCtx xc del = (rc, db') \<Longrightarrow> rest db' = rest db"
proof -
  assume r: "createCollation am db z enc pCtx xc del = (rc, db')"
  define old where "old = fst (sqlite3FindCollSeq am db (coll_enc enc) z False)"
  define rp where "rp = (case old of None \<Rightarrow> False | Some pColl \<Rightarrow> xCmp pColl \<noteq> None)"
  define db0 where "db0 = (if rp then sqlite3ExpirePreparedStatements db else db)"
  define db1 where "db1 = (if rp \<and> unaligned (ce_enc (the old)) = coll_enc enc
                   then (case destroy_loop (ce_enc (the old)) (the (map_of (aCollSeq db0) (fold_case z))) of
                           (aColl, ds) \<Rightarrow> set_entry z aColl (db0\<lparr>destroyed := destroyed db0 @ ds\<rparr>))
                   else db0)"
  have m: "rest db1 = rest db" by (simp add: db1_def db0_def split: prod.split)
  obtain q db2 where 2: "sqlite3FindCollSeq am db1 (coll_enc enc) z True = (q, db2)" by fastforce
  note body = r [unfolded createCollation_def Let_def coll_enc_def [symmetric] old_def [symmetric]]
  note body = body [unfolded rp_def [symmetric]]
  note body = body [unfolded db0_def [symmetric]]
  note body = body [unfolded db1_def [symmetric] 2]
  show ?thesis using body rest_find_coll [OF 2] m by (auto split: if_splits option.splits)
qed

lemma rest_collation_v2:
  assumes r: "sqlite3_create_collation_v2 am db z enc pCtx xc del = (rc, db')"
  shows "rest db' = rest db" "nVdbeExec db = 0 \<Longrightarrow> \<not> mallocFailed db'"
proof -
  obtain rc1 db1 where c: "createCollation am db z (enc mod 256) pCtx xc del = (rc1, db1)" by fastforce
  then have x: "sqlite3ApiExit db1 rc1 = (rc, db')" using r by (simp add: sqlite3_create_collation_v2_def)
  show "rest db' = rest db" using rest_ApiExit [OF x] rest_createCollation [OF c] by simp
  show "nVdbeExec db = 0 \<Longrightarrow> \<not> mallocFailed db'"
    using ApiExit_cleared [OF x] rest_createCollation [OF c] by (simp add: rest_def)
qed

section \<open>The accounting of global references\<close>

definition held :: "jvm \<Rightarrow> nat multiset" where
  "held st = (\<Sum>(h, db)\<in>#mset (conns st). owned db)"

definition trace_refs :: "jvm \<Rightarrow> nat multiset" where
  "trace_refs st = filter_mset (\<lambda>r. r \<noteq> 0) (image_mset (trace_ref \<circ> snd) (mset (wrappers st)))"

text \<open>
  The references that exist are those the connections hold, those of the trace callbacks, those that
  were lost, \<open>L\<close>, and those just created, \<open>N\<close>; each once.
\<close>

definition refs_inv :: "nat multiset \<Rightarrow> jvm \<Rightarrow> nat multiset \<Rightarrow> bool" where
  "refs_inv N st L \<longleftrightarrow> mset (globals st) = held st + trace_refs st + L + N \<and>
     distinct (globals st) \<and> (\<forall>r \<in> set (globals st). 0 < r \<and> r < nextGlobal st) \<and> 0 < nextGlobal st"

text \<open>What is known of each connection between two calls.\<close>

definition conn_ok :: "(nat \<times> nat) list \<Rightarrow> (nat \<times> SQLiteDb) list \<Rightarrow> nat \<Rightarrow> conn \<Rightarrow> bool" where
  "conn_ok ss ws h db \<longleftrightarrow> wf_conn db \<and> destroyed db = [] \<and> \<not> closed db \<and> \<not> zombie db \<and> \<not> mallocFailed db \<and> nVdbeExec db = 0 \<and>
     nStmt db = length (filter (\<lambda>(s, h'). h' = h) ss) \<and>
     (mTrace db = 0 \<or> mTrace db = SQLITE_TRACE_STMT \<and> pTraceArg db \<noteq> 0 \<and>
        (\<exists>(p, w) \<in> set ws. handle w = h \<and> trace_ref w = pTraceArg db))"

definition struct_inv :: "jvm \<Rightarrow> bool" where
  "struct_inv st \<longleftrightarrow>
     distinct (map fst (conns st)) \<and> distinct (map fst (wrappers st)) \<and> distinct (map fst (stmts st)) \<and>
     distinct (map (handle \<circ> snd) (wrappers st)) \<and>
     (\<forall>(p, w) \<in> set (wrappers st). p < nextPtr st \<and> handle w \<in> fst ` set (conns st)) \<and>
     (\<forall>(s, h) \<in> set (stmts st). 0 < s \<and> s < nextPtr st \<and> h \<in> fst ` set (conns st)) \<and>
     (\<forall>(h, db) \<in> set (conns st). 0 < h \<and> h < nextPtr st \<and> conn_ok (stmts st) (wrappers st) h db) \<and> 0 < nextPtr st"

definition bridge :: "jvm \<Rightarrow> nat multiset \<Rightarrow> bool" where
  "bridge st L \<longleftrightarrow> struct_inv st \<and> refs_inv {#} st L"

lemma distinct_submset: "mset ys \<subseteq># mset xs \<Longrightarrow> distinct xs \<Longrightarrow> distinct ys"
proof -
  assume a: "mset ys \<subseteq># mset xs" "distinct xs"
  from a(1) obtain D where "mset xs = mset ys + D" by (auto simp: subset_mset.le_iff_add)
  moreover obtain ds where "mset ds = D" using ex_mset by blast
  ultimately have "mset xs = mset (ys @ ds)" by simp
  from mset_eq_imp_distinct_iff [OF this] a(2) show ?thesis by simp
qed

lemma run_destructors_ok:
  "0 \<notin> set us \<Longrightarrow> mset us \<subseteq># mset (globals st) \<Longrightarrow> distinct (globals st) \<Longrightarrow>
     \<exists>g. run_destructors us st = Some (st\<lparr>globals := g\<rparr>) \<and> mset g + mset us = mset (globals st)"
proof (induction us arbitrary: st)
  case Nil
  show ?case by (rule exI [of _ "globals st"]) simp
next
  case (Cons u us)
  have u: "u \<in> set (globals st)" using Cons.prems(2) by (auto dest: mset_subset_eq_insertD)
  let ?st = "st\<lparr>globals := remove1 u (globals st)\<rparr>"
  have m: "mset (globals st) = add_mset u (mset (globals ?st))" using u by simp
  then have "mset us \<subseteq># mset (globals ?st)" using Cons.prems(2) by (metis mset.simps(2) mset_subset_eq_add_mset_cancel)
  with Cons.IH [of ?st] Cons.prems obtain g where g: "run_destructors us ?st = Some (?st\<lparr>globals := g\<rparr>)"
    "mset g + mset us = mset (globals ?st)" by auto
  have "java_destroy u st = Some ?st" using u Cons.prems(1) by (auto simp: java_destroy_def DeleteGlobalRef_def)
  with g show ?case unfolding m by auto
qed

lemma held_set:
  assumes "distinct (map fst (conns st))" "map_of (conns st) h = Some db"
  shows "held (st\<lparr>conns := alist_set h db' (conns st)\<rparr>) + owned db = held st + owned db'"
    "held (st\<lparr>conns := alist_del h (conns st)\<rparr>) + owned db = held st"
proof -
  have h: "h \<in> fst ` set (conns st)" using assms(2) by (force dest: map_of_SomeD)
  show "held (st\<lparr>conns := alist_set h db' (conns st)\<rparr>) + owned db = held st + owned db'"
    "held (st\<lparr>conns := alist_del h (conns st)\<rparr>) + owned db = held st"
    using mset_alist [OF assms] mset_alist_set [OF assms(1) h, of db'] by (simp_all add: held_def)
qed

lemma held_simps [simp]:
  "held (st\<lparr>globals := g\<rparr>) = held st" "held (st\<lparr>wrappers := w\<rparr>) = held st" "held (st\<lparr>stmts := s\<rparr>) = held st"
  "held (st\<lparr>nextPtr := n\<rparr>) = held st" "held (st\<lparr>nextGlobal := n\<rparr>) = held st" "held (st\<lparr>pending := b\<rparr>) = held st"
  "trace_refs (st\<lparr>globals := g\<rparr>) = trace_refs st" "trace_refs (st\<lparr>conns := c\<rparr>) = trace_refs st" "trace_refs (st\<lparr>stmts := s\<rparr>) = trace_refs st"
  "trace_refs (st\<lparr>nextPtr := n\<rparr>) = trace_refs st" "trace_refs (st\<lparr>nextGlobal := n\<rparr>) = trace_refs st" "trace_refs (st\<lparr>pending := b\<rparr>) = trace_refs st"
  by (simp_all add: held_def trace_refs_def)

lemma owned_destroyed [simp]: "owned (db\<lparr>destroyed := ds\<rparr>) = owned db"
  by (simp add: owned_def coll_owned_def)

text \<open>
  A call of the engine that keeps the ledger of the connection: of the new references \<open>N\<close> it takes
  all but \<open>N'\<close>.
\<close>

lemma engine_step:
  assumes inv: "refs_inv N st L" "distinct (map fst (conns st))" and db: "map_of (conns st) h = Some db"
    and f: "f db = (rc, db')" and led: "mset (destroyed db') + owned db' + N' = owned db + N"
    and cl: "closed db' \<Longrightarrow> owned db' = {#}"
  defines "c \<equiv> (if closed db' then alist_del h (conns st) else alist_set h (db'\<lparr>destroyed := []\<rparr>) (conns st))"
  shows "\<exists>g. engine h f st = Some (rc, st\<lparr>conns := c, globals := g\<rparr>) \<and> refs_inv N' (st\<lparr>conns := c, globals := g\<rparr>) L"
proof -
  let ?st = "st\<lparr>conns := c\<rparr>"
  have h: "held ?st + owned db = held st + owned db'"
    using held_set(1) [OF inv(2) db, of "db'\<lparr>destroyed := []\<rparr>"] held_set(2) [OF inv(2) db] cl by (auto simp: c_def)
  have g: "mset (globals st) = held st + trace_refs st + L + N" "distinct (globals st)"
    "\<forall>r \<in> set (globals st). 0 < r \<and> r < nextGlobal st" "0 < nextGlobal st"
    using inv(1) by (simp_all add: refs_inv_def)
  have eq: "mset (globals st) = held ?st + trace_refs ?st + L + N' + mset (destroyed db')"
  proof -
    have "mset (globals st) + owned db' + owned db = (held st + owned db') + (owned db + N) + trace_refs st + L"
      by (simp add: g(1) ac_simps)
    also have "\<dots> = (held ?st + owned db) + (mset (destroyed db') + owned db' + N') + trace_refs st + L"
      unfolding h led ..
    also have "\<dots> = held ?st + trace_refs ?st + L + N' + mset (destroyed db') + owned db' + owned db"
      by (simp add: ac_simps)
    finally show ?thesis by simp
  qed
  have "set (destroyed db') \<subseteq> set (globals st)" using arg_cong [OF eq, of set_mset] by auto
  then have "0 \<notin> set (destroyed db')" using g(3) by auto
  with run_destructors_ok [of "destroyed db'" ?st] g(2) eq obtain g' where
    r: "run_destructors (destroyed db') ?st = Some (?st\<lparr>globals := g'\<rparr>)" "mset g' + mset (destroyed db') = mset (globals st)"
    by auto
  have m: "mset g' = held ?st + trace_refs ?st + L + N'" using r(2) unfolding eq by simp
  have sub: "mset g' \<subseteq># mset (globals st)" unfolding r(2) [symmetric] by simp
  have "distinct g'" by (rule distinct_submset [OF sub g(2)])
  moreover have "set g' \<subseteq> set (globals st)" using set_mset_mono [OF sub] by simp
  ultimately have "refs_inv N' (?st\<lparr>globals := g'\<rparr>) L" using m g(3,4) by (auto simp: refs_inv_def)
  moreover have "engine h f st = Some (rc, ?st\<lparr>globals := g'\<rparr>)"
    using db f r(1) by (simp add: engine_def c_def)
  ultimately show ?thesis by auto
qed

lemma ledger_add: "destroyed db = [] \<Longrightarrow> ledger db' = ledger db + N \<Longrightarrow> mset (destroyed db') + owned db' = owned db + N"
  by (simp add: ledger_def)

lemma conn_of:
  "struct_inv st \<Longrightarrow> map_of (conns st) h = Some db \<Longrightarrow> 0 < h \<and> h < nextPtr st \<and> conn_ok (stmts st) (wrappers st) h db"
  by (auto simp: struct_inv_def dest!: map_of_SomeD)

lemma wrapper_conn:
  "struct_inv st \<Longrightarrow> map_of (wrappers st) p = Some w \<Longrightarrow> \<exists>db. map_of (conns st) (handle w) = Some db"
proof -
  assume a: "struct_inv st" "map_of (wrappers st) p = Some w"
  from map_of_SomeD [OF a(2)] a(1) have "handle w \<in> fst ` set (conns st)" by (auto simp: struct_inv_def)
  then show ?thesis by (metis map_of_eq_None_iff not_None_eq)
qed

lemma stmt_conn:
  "struct_inv st \<Longrightarrow> map_of (stmts st) s = Some h \<Longrightarrow> 0 < s \<and> (\<exists>db. map_of (conns st) h = Some db)"
proof -
  assume a: "struct_inv st" "map_of (stmts st) s = Some h"
  from map_of_SomeD [OF a(2)] a(1) have "0 < s" "h \<in> fst ` set (conns st)" by (auto simp: struct_inv_def)
  then show ?thesis by (metis map_of_eq_None_iff not_None_eq)
qed

lemma ball_alist_set:
  "(\<forall>(k', v') \<in> set (alist_set k v xs). P k' v') \<longleftrightarrow> (\<forall>(k', u) \<in> set xs. P k' (if k' = k then v else u))"
  by (auto simp: alist_set_def)

text \<open>Changing one connection, the references and the exception.\<close>

lemma struct_set:
  assumes "struct_inv st" "conn_ok (stmts st) (wrappers st) h db"
  shows "struct_inv (st\<lparr>conns := alist_set h db (conns st), globals := g, nextGlobal := n, pending := b\<rparr>)"
proof -
  let ?st = "st\<lparr>conns := alist_set h db (conns st), globals := g, nextGlobal := n, pending := b\<rparr>"
  have "\<forall>(h', d) \<in> set (conns ?st). 0 < h' \<and> h' < nextPtr ?st \<and> conn_ok (stmts ?st) (wrappers ?st) h' d"
    using assms by (auto simp: struct_inv_def ball_alist_set)
  then show ?thesis using assms(1) unfolding struct_inv_def by simp
qed

text \<open>A new global reference.\<close>

lemma NewGlobalRef_inv:
  assumes "refs_inv {#} st L" "j \<noteq> 0"
  shows "NewGlobalRef j st = (nextGlobal st, st\<lparr>globals := nextGlobal st # globals st, nextGlobal := nextGlobal st + 1\<rparr>)"
    "refs_inv {#nextGlobal st#} (st\<lparr>globals := nextGlobal st # globals st, nextGlobal := nextGlobal st + 1\<rparr>) L"
    "nextGlobal st \<noteq> 0"
  using assms by (auto simp: NewGlobalRef_def refs_inv_def)

lemma DeleteGlobalRef_inv:
  assumes "refs_inv N st L" "r \<in># trace_refs st"
  shows "DeleteGlobalRef r st = Some (st\<lparr>globals := remove1 r (globals st)\<rparr>)"
    "mset (globals st) = add_mset r (mset (remove1 r (globals st)))"
proof -
  have "r \<in> set_mset (mset (globals st))" using assms unfolding refs_inv_def by simp
  then have r: "r \<in> set (globals st)" by simp
  then show "DeleteGlobalRef r st = Some (st\<lparr>globals := remove1 r (globals st)\<rparr>)"
    using assms(1) by (auto simp: DeleteGlobalRef_def refs_inv_def)
  show "mset (globals st) = add_mset r (mset (remove1 r (globals st)))" using r by simp
qed

lemma rest_ok:
  assumes "conn_ok ss ws h db" "wf_conn db'" "rest db' = rest db" "\<not> mallocFailed db'"
  shows "conn_ok ss ws h (db'\<lparr>destroyed := []\<rparr>)" "\<not> closed db'"
proof -
  have "wf_conn (db'\<lparr>destroyed := []\<rparr>)" using wf_conn_cong [of "db'\<lparr>destroyed := []\<rparr>" db'] assms(2) by simp
  then show "conn_ok ss ws h (db'\<lparr>destroyed := []\<rparr>)" "\<not> closed db'"
    using assms by (simp_all add: conn_ok_def rest_def)
qed

text \<open>A call that keeps the rest of the connection, and takes the references \<open>M\<close> of the new ones.\<close>

lemma engine_conn:
  assumes s: "struct_inv st" and r: "refs_inv (N + M) st L" and db: "map_of (conns st) h = Some db" and f: "f db = (rc, db')"
    and led: "wf_conn db \<Longrightarrow> \<not> mallocFailed db \<Longrightarrow> wf_conn db' \<and> ledger db' = ledger db + M"
    and re: "rest db' = rest db" "nVdbeExec db = 0 \<Longrightarrow> \<not> mallocFailed db'"
  shows "\<exists>g cs. engine h f st = Some (rc, st\<lparr>conns := cs, globals := g\<rparr>) \<and> struct_inv (st\<lparr>conns := cs, globals := g\<rparr>) \<and>
    refs_inv N (st\<lparr>conns := cs, globals := g\<rparr>) L"
proof -
  have ok: "conn_ok (stmts st) (wrappers st) h db" using conn_of [OF s db] by simp
  then have l: "wf_conn db'" "ledger db' = ledger db + M" using led by (simp_all add: conn_ok_def)
  have nc: "conn_ok (stmts st) (wrappers st) h (db'\<lparr>destroyed := []\<rparr>)" "\<not> closed db'"
    using rest_ok [OF ok l(1) re(1)] re(2) ok by (simp_all add: conn_ok_def)
  have eq: "mset (destroyed db') + owned db' + N = owned db + (N + M)"
    using ledger_add [OF _ l(2)] ok by (simp add: conn_ok_def ac_simps)
  have "distinct (map fst (conns st))" using s by (simp add: struct_inv_def)
  from engine_step [where f = f, OF r this db f eq] nc(2) obtain g where
    g: "engine h f st = Some (rc, st\<lparr>conns := alist_set h (db'\<lparr>destroyed := []\<rparr>) (conns st), globals := g\<rparr>)"
    "refs_inv N (st\<lparr>conns := alist_set h (db'\<lparr>destroyed := []\<rparr>) (conns st), globals := g\<rparr>) L"
    by auto
  have "struct_inv (st\<lparr>conns := alist_set h (db'\<lparr>destroyed := []\<rparr>) (conns st), globals := g\<rparr>)"
    using struct_set [where g = g and n = "nextGlobal st" and b = "pending st", OF s nc(1)] by simp
  with g show ?thesis by blast
qed

lemma bridge_pending [simp]:
  "struct_inv (st\<lparr>pending := b\<rparr>) = struct_inv st" "refs_inv N (st\<lparr>pending := b\<rparr>) L = refs_inv N st L"
  "struct_inv (st\<lparr>globals := g, nextGlobal := n\<rparr>) = struct_inv st"
  by (simp_all add: struct_inv_def refs_inv_def)

section \<open>Every method keeps the accounts\<close>

lemma nativeCreateFunction_ok:
  assumes inv: "bridge st L" and p: "map_of (wrappers st) p = Some w" and j: "j \<noteq> 0"
  shows "\<exists>st'. nativeCreateFunction builtin prefer am am' p z n j st = Some st' \<and> bridge st' L"
proof -
  have s: "struct_inv st" "refs_inv {#} st L" using inv by (simp_all add: bridge_def)
  obtain db where db: "map_of (conns st) (handle w) = Some db" using wrapper_conn [OF s(1) p] by blast
  let ?f = "nextGlobal st"
  define st1 where "st1 = st\<lparr>globals := ?f # globals st, nextGlobal := ?f + 1\<rparr>"
  note new = NewGlobalRef_inv [OF s(2) j, folded st1_def]
  define call where "call = (\<lambda>c. sqlite3_create_function_v2 builtin prefer am am' c z E_UTF8
      \<lparr>a_nArg = n, a_user = ?f, a_SFunc = Some 1, a_Step = None, a_Final = None, a_destr = None\<rparr> True)"
  obtain rc db' where c: "call db = (rc, db')" by fastforce
  note fo = function_v2_ok [OF c [unfolded call_def]] and fr = rest_function_v2 [OF c [unfolded call_def]]
  have 1: "struct_inv st1" "map_of (conns st1) (handle w) = Some db" "refs_inv ({#} + {#?f#}) st1 L"
    using s(1) db new(2) by (simp_all add: st1_def)
  have "wf_conn db \<Longrightarrow> \<not> mallocFailed db \<Longrightarrow> wf_conn db' \<and> ledger db' = ledger db + {#?f#}" using fo by simp
  from engine_conn [where f = call, OF 1(1,3,2) c this fr] obtain g cs where
    e: "engine (handle w) call st1 = Some (rc, st1\<lparr>conns := cs, globals := g\<rparr>)"
    "struct_inv (st1\<lparr>conns := cs, globals := g\<rparr>)" "refs_inv {#} (st1\<lparr>conns := cs, globals := g\<rparr>) L" by blast
  have "nativeCreateFunction builtin prefer am am' p z n j st =
      Some (if rc \<noteq> RC_OK then throw_sqlite_exception (st1\<lparr>conns := cs, globals := g\<rparr>) else st1\<lparr>conns := cs, globals := g\<rparr>)"
    using e(1) [unfolded call_def] unfolding nativeCreateFunction_def p new(1) by simp
  then show ?thesis using e(2,3) by (simp add: bridge_def throw_sqlite_exception_def)
qed

text \<open>A collation that was not created leaves its reference without an owner.\<close>

lemma nativeCreateCollation_ok:
  assumes inv: "bridge st L" and p: "map_of (wrappers st) p = Some w" and j: "j \<noteq> 0" and np: "\<not> pending st"
  shows "\<exists>st'. nativeCreateCollation am p z j st = Some st' \<and>
    bridge st' (L + (if pending st' then {#nextGlobal st#} else {#}))"
proof -
  have s: "struct_inv st" "refs_inv {#} st L" using inv by (simp_all add: bridge_def)
  obtain db where db: "map_of (conns st) (handle w) = Some db" using wrapper_conn [OF s(1) p] by blast
  let ?f = "nextGlobal st"
  define st1 where "st1 = st\<lparr>globals := ?f # globals st, nextGlobal := ?f + 1\<rparr>"
  note new = NewGlobalRef_inv [OF s(2) j, folded st1_def]
  define call where "call = (\<lambda>c. sqlite3_create_collation_v2 am c z E_UTF8 ?f (Some 1) True)"
  obtain rc db' where c: "call db = (rc, db')" by fastforce
  note fo = collation_v2_ok [OF c [unfolded call_def]] and fr = rest_collation_v2 [OF c [unfolded call_def]]
  define M where "M = (if rc = RC_OK then {#?f#} else {#})"
  define N where "N = {#?f#} - M"
  have NM: "N + M = {#?f#}" by (simp add: N_def M_def)
  have 1: "struct_inv st1" "map_of (conns st1) (handle w) = Some db" "refs_inv (N + M) st1 L"
    using s(1) db new(2) by (simp_all add: st1_def NM)
  have "wf_conn db \<Longrightarrow> \<not> mallocFailed db \<Longrightarrow> wf_conn db' \<and> ledger db' = ledger db + M"
    using fo by (simp add: M_def)
  from engine_conn [where f = call, OF 1(1,3,2) c this fr] obtain g cs where
    e: "engine (handle w) call st1 = Some (rc, st1\<lparr>conns := cs, globals := g\<rparr>)"
    "struct_inv (st1\<lparr>conns := cs, globals := g\<rparr>)" "refs_inv N (st1\<lparr>conns := cs, globals := g\<rparr>) L" by blast
  have lost: "refs_inv {#} st' (L + N)" if "refs_inv N st' L" for st' using that by (simp add: refs_inv_def ac_simps)
  have r: "nativeCreateCollation am p z j st =
      Some (if rc \<noteq> RC_OK then st1\<lparr>conns := cs, globals := g, pending := True\<rparr> else st1\<lparr>conns := cs, globals := g\<rparr>)"
    using e(1) [unfolded call_def] unfolding nativeCreateCollation_def p new(1) by (simp add: throw_sqlite_exception_def)
  show ?thesis
  proof (cases "rc = RC_OK")
    case True
    then show ?thesis using r e(2) lost [OF e(3)] np by (simp add: bridge_def st1_def N_def M_def)
  next
    case False
    have "struct_inv (st1\<lparr>conns := cs, globals := g, pending := True\<rparr>)" "refs_inv {#} (st1\<lparr>conns := cs, globals := g, pending := True\<rparr>) (L + N)"
      using e(2) lost [OF e(3)] by simp_all
    then show ?thesis using r False by (simp add: bridge_def N_def M_def)
  qed
qed

text \<open>Calls that destroy nothing, and calls whose connection goes.\<close>

lemma engine_simple:
  "map_of (conns st) h = Some db \<Longrightarrow> f db = (rc, db') \<Longrightarrow> destroyed db' = [] \<Longrightarrow> \<not> closed db' \<Longrightarrow>
     engine h f st = Some (rc, st\<lparr>conns := alist_set h db' (conns st)\<rparr>)"
proof -
  assume a: "map_of (conns st) h = Some db" "f db = (rc, db')" "destroyed db' = []" "\<not> closed db'"
  have "db'\<lparr>destroyed := []\<rparr> = db'" using a(3) by (cases db') simp
  then have "alist_set h (db'\<lparr>destroyed := []\<rparr>) (conns st) = alist_set h db' (conns st)" by (simp only:)
  with a show ?thesis by (simp add: engine_def)
qed

lemma run_destructors_wrappers:
  "run_destructors us (st\<lparr>wrappers := ws\<rparr>) = map_option (\<lambda>s. s\<lparr>wrappers := ws\<rparr>) (run_destructors us st)"
proof (induction us arbitrary: st)
  case (Cons u us)
  have "java_destroy u (st\<lparr>wrappers := ws\<rparr>) = map_option (\<lambda>s. s\<lparr>wrappers := ws\<rparr>) (java_destroy u st)"
    by (simp add: java_destroy_def DeleteGlobalRef_def)
  then show ?case using Cons.IH by (cases "java_destroy u st") simp_all
qed simp

lemma run_destructors_keeps:
  "run_destructors us st = Some s \<Longrightarrow> wrappers s = wrappers st \<and> stmts s = stmts st \<and> conns s = conns st \<and>
     nextPtr s = nextPtr st \<and> nextGlobal s = nextGlobal st \<and> pending s = pending st"
proof (induction us arbitrary: st)
  case (Cons u us)
  from Cons.prems obtain s1 where s1: "java_destroy u st = Some s1" "run_destructors us s1 = Some s"
    by (cases "java_destroy u st") auto
  from s1(1) have "wrappers s1 = wrappers st \<and> stmts s1 = stmts st \<and> conns s1 = conns st \<and>
     nextPtr s1 = nextPtr st \<and> nextGlobal s1 = nextGlobal st \<and> pending s1 = pending st"
    by (auto simp: java_destroy_def DeleteGlobalRef_def split: if_splits)
  then show ?case using Cons.IH [OF s1(2)] by simp
qed simp

lemma engine_wrappers:
  "engine h f (st\<lparr>wrappers := ws\<rparr>) = map_option (\<lambda>(rc, s). (rc, s\<lparr>wrappers := ws\<rparr>)) (engine h f st)"
proof (cases "map_of (conns st) h")
  case (Some db)
  obtain rc db' where f: "f db = (rc, db')" by fastforce
  let ?c = "if closed db' then alist_del h (conns st) else alist_set h (db'\<lparr>destroyed := []\<rparr>) (conns st)"
  have sw: "(st\<lparr>wrappers := ws\<rparr>)\<lparr>conns := c\<rparr> = (st\<lparr>conns := c\<rparr>)\<lparr>wrappers := ws\<rparr>" for c by simp
  have "run_destructors (destroyed db') ((st\<lparr>wrappers := ws\<rparr>)\<lparr>conns := ?c\<rparr>) =
      map_option (\<lambda>s. s\<lparr>wrappers := ws\<rparr>) (run_destructors (destroyed db') (st\<lparr>conns := ?c\<rparr>))"
    using run_destructors_wrappers [where us = "destroyed db'" and st = "st\<lparr>conns := ?c\<rparr>" and ws = ws] unfolding sw .
  then show ?thesis using Some f
    by (cases "closed db'"; cases "run_destructors (destroyed db') (st\<lparr>conns := ?c\<rparr>)") (simp_all add: engine_def sw)
qed (simp add: engine_def)

lemma engine_keeps:
  "engine h f st = Some (rc, s) \<Longrightarrow> wrappers s = wrappers st \<and> stmts s = stmts st \<and>
     nextPtr s = nextPtr st \<and> nextGlobal s = nextGlobal st \<and> pending s = pending st"
proof -
  assume e: "engine h f st = Some (rc, s)"
  then obtain db where db: "map_of (conns st) h = Some db" by (cases "map_of (conns st) h") (simp_all add: engine_def)
  obtain r db' where f: "f db = (r, db')" by fastforce
  from e db f obtain c where "run_destructors (destroyed db') (st\<lparr>conns := c\<rparr>) = Some s"
    by (auto simp: engine_def Option.bind_eq_Some_conv)
  from run_destructors_keeps [OF this] show ?thesis by simp
qed

lemma trace_refs_set:
  assumes "distinct (map fst (wrappers st))" "map_of (wrappers st) p = Some w"
  defines "tr \<equiv> \<lambda>w. if trace_ref w = 0 then {#} else {#trace_ref w#}"
  shows "trace_refs (st\<lparr>wrappers := alist_set p w' (wrappers st)\<rparr>) + tr w = trace_refs st + tr w'"
    "trace_refs (st\<lparr>wrappers := alist_del p (wrappers st)\<rparr>) + tr w = trace_refs st"
proof -
  have p: "p \<in> fst ` set (wrappers st)" using assms(2) by (force dest: map_of_SomeD)
  show "trace_refs (st\<lparr>wrappers := alist_set p w' (wrappers st)\<rparr>) + tr w = trace_refs st + tr w'"
    "trace_refs (st\<lparr>wrappers := alist_del p (wrappers st)\<rparr>) + tr w = trace_refs st"
    using mset_alist [OF assms(1,2)] mset_alist_set [OF assms(1) p, of w'] by (simp_all add: trace_refs_def tr_def)
qed

lemma trace_in_refs: "map_of (wrappers st) p = Some w \<Longrightarrow> trace_ref w \<noteq> 0 \<Longrightarrow> trace_ref w \<in># trace_refs st"
  by (force simp: trace_refs_def dest: map_of_SomeD)

lemma handle_unique:
  assumes "struct_inv st" "(p, w) \<in> set (wrappers st)" "(p', w') \<in> set (wrappers st)" "handle w = handle w'"
  shows "p = p'" "w = w'"
proof -
  have "distinct (map (handle \<circ> snd) (wrappers st))" using assms(1) by (simp add: struct_inv_def)
  then have "inj_on (handle \<circ> snd) (set (wrappers st))" by (simp add: distinct_map)
  from inj_onD [OF this _ assms(2,3)] assms(4) show "p = p'" "w = w'" by simp_all
qed

lemma nativeTrace_ok:
  assumes inv: "bridge st L" and p: "map_of (wrappers st) p = Some w" and j: "j \<noteq> 0"
  shows "\<exists>st' db'. nativeTrace p j st = Some st' \<and> bridge st' L \<and> stmts st' = stmts st \<and>
     map_of (wrappers st') p = Some (w\<lparr>trace_ref := nextGlobal st\<rparr>) \<and> map_of (conns st') (handle w) = Some db' \<and>
     mTrace db' = SQLITE_TRACE_STMT \<and> pTraceArg db' = nextGlobal st"
proof -
  have s: "struct_inv st" "refs_inv {#} st L" using inv by (simp_all add: bridge_def)
  let ?f = "nextGlobal st" and ?h = "handle w" and ?w = "w\<lparr>trace_ref := nextGlobal st\<rparr>"
  obtain db where db: "map_of (conns st) ?h = Some db" using wrapper_conn [OF s(1) p] by blast
  have ok: "conn_ok (stmts st) (wrappers st) ?h db" using conn_of [OF s(1) db] by simp
  have dis: "distinct (map fst (conns st))" "distinct (map fst (wrappers st))" using s(1) by (simp_all add: struct_inv_def)
  have f0: "?f \<noteq> 0" using s(2) by (simp add: refs_inv_def)
  define tr where "tr w = (if trace_ref w = 0 then {#} else {#trace_ref w#})" for w :: SQLiteDb
  define g where "g = (if trace_ref w \<noteq> 0 then remove1 (trace_ref w) (globals st) else globals st)"
  note del = DeleteGlobalRef_inv [OF s(2) trace_in_refs [OF p]]
  have g1: "mset (globals st) = mset g + tr w" using del(2) by (cases "trace_ref w = 0") (simp_all add: g_def tr_def)
  have g2: "(if trace_ref w \<noteq> 0 then DeleteGlobalRef (trace_ref w) st else Some st) = Some (st\<lparr>globals := g\<rparr>)"
    using del(1) by (cases "trace_ref w = 0") (simp_all add: g_def)
  define db' where "db' = db\<lparr>mTrace := SQLITE_TRACE_STMT, xTrace := Some 1, pTraceArg := ?f\<rparr>"
  define st' where "st' = st\<lparr>globals := ?f # g, nextGlobal := ?f + 1, wrappers := alist_set p ?w (wrappers st), conns := alist_set ?h db' (conns st)\<rparr>"
  have "nativeTrace p j st = Some st'"
  proof -
    define st1 where "st1 = st\<lparr>globals := g, wrappers := (if trace_ref w \<noteq> 0 then alist_set p (w\<lparr>trace_ref := 0\<rparr>) (wrappers st) else wrappers st)\<rparr>"
    define st2 where "st2 = st\<lparr>globals := ?f # g, nextGlobal := ?f + 1, wrappers := alist_set p ?w (wrappers st)\<rparr>"
    have 1: "(if trace_ref w \<noteq> 0 then
                 do {
                   st \<leftarrow> DeleteGlobalRef (trace_ref w) st;
                   Some (st\<lparr>wrappers := alist_set p (w\<lparr>trace_ref := 0\<rparr>) (wrappers st)\<rparr>)
                 }
               else Some st) = Some st1"
      using del(1) by (cases "trace_ref w = 0") (simp_all add: st1_def g_def)
    have 2: "NewGlobalRef j st1 = (?f, st1\<lparr>globals := ?f # g, nextGlobal := ?f + 1\<rparr>)"
      using j by (simp add: NewGlobalRef_def st1_def)
    have 3: "(st1\<lparr>globals := ?f # g, nextGlobal := ?f + 1\<rparr>)\<lparr>wrappers := alist_set p ?w (wrappers (st1\<lparr>globals := ?f # g, nextGlobal := ?f + 1\<rparr>))\<rparr> = st2"
      by (simp add: st1_def st2_def alist_set_twice)
    have 4: "engine ?h (\<lambda>c. sqlite3_trace_v2 c SQLITE_TRACE_STMT (Some 1) ?f) st2 = Some (RC_OK, st')"
    proof -
      have "map_of (conns st2) ?h = Some db" using db by (simp add: st2_def)
      from engine_simple [where f = "\<lambda>c. sqlite3_trace_v2 c SQLITE_TRACE_STMT (Some 1) ?f", OF this, of RC_OK db'] ok
      show ?thesis by (simp add: sqlite3_trace_v2_def db'_def st2_def st'_def conn_ok_def)
    qed
    show ?thesis
      unfolding nativeTrace_def p using 1 2 3 4 j by (simp add: Let_def)
  qed
  moreover have "refs_inv {#} st' L"
  proof -
    have h: "held (st\<lparr>conns := alist_set ?h db' (conns st)\<rparr>) = held st"
      using held_set(1) [OF dis(1) db, of db'] by (simp add: db'_def owned_def coll_owned_def)
    have t: "trace_refs (st\<lparr>wrappers := alist_set p ?w (wrappers st)\<rparr>) + tr w = trace_refs st + {#?f#}"
      using trace_refs_set(1) [OF dis(2) p, of ?w] f0 by (simp add: tr_def)
    have hs: "held st' = held st" "trace_refs st' = trace_refs (st\<lparr>wrappers := alist_set p ?w (wrappers st)\<rparr>)"
      using h by (simp_all add: st'_def held_def trace_refs_def)
    have r: "mset (globals st) = held st + trace_refs st + L" "distinct (globals st)" "\<forall>r \<in> set (globals st). 0 < r \<and> r < ?f" "0 < ?f"
      using s(2) by (simp_all add: refs_inv_def)
    have "add_mset ?f (mset g) + tr w = held st + (trace_refs st + {#?f#}) + L"
      using r(1) unfolding g1 by (simp add: ac_simps)
    also have "\<dots> = held st' + trace_refs st' + L + tr w" unfolding t [symmetric] hs by (simp add: ac_simps)
    finally have "mset (globals st') = held st' + trace_refs st' + L" by (simp add: st'_def)
    moreover have sub: "distinct g" "set g \<subseteq> set (globals st)"
      using r(2) set_remove1_subset [of "trace_ref w" "globals st"] by (simp_all add: g_def)
    have "\<forall>x \<in> set g. 0 < x \<and> x < ?f" using sub(2) r(3) by blast
    then have "distinct (globals st')" "\<forall>x \<in> set (globals st'). 0 < x \<and> x < nextGlobal st'" "0 < nextGlobal st'"
      using sub(1) r(4) by (auto simp: st'_def)
    ultimately show ?thesis unfolding refs_inv_def by simp
  qed
  moreover have "struct_inv st'"
  proof -
    have wp: "(p, w) \<in> set (wrappers st)" by (rule map_of_SomeD [OF p])
    have in': "(p, ?w) \<in> set (wrappers st')" using wp by (force simp: st'_def alist_set_def)
    have wf: "wf_conn db'" using ok wf_conn_cong [of db' db] by (simp add: conn_ok_def db'_def)
    have c1: "conn_ok (stmts st') (wrappers st') ?h db'"
      using ok in' f0 wf by (auto simp: conn_ok_def db'_def st'_def intro!: bexI [of _ "(p, ?w)"])
    have c2: "conn_ok (stmts st') (wrappers st') h d" if "conn_ok (stmts st) (wrappers st) h d" "h \<noteq> ?h" for h d
    proof -
      have "(p', w') \<in> set (wrappers st')" if "(p', w') \<in> set (wrappers st)" "handle w' = h" for p' w'
      proof -
        have "p' \<noteq> p" using that \<open>h \<noteq> ?h\<close> wp dis(2) by (metis map_of_is_SomeI option.sel)
        with that(1) show ?thesis by (force simp: st'_def alist_set_def)
      qed
      with that(1) show ?thesis by (fastforce simp: conn_ok_def st'_def)
    qed
    have same: "w' = w" if "(p, w') \<in> set (wrappers st)" for w'
      using that wp dis(2) by (metis map_of_is_SomeI option.sel)
    have hs: "map (handle \<circ> snd) (wrappers st') = map (handle \<circ> snd) (wrappers st)"
      using same by (auto simp: st'_def alist_set_def)
    have b1: "\<forall>(h, d) \<in> set (conns st'). 0 < h \<and> h < nextPtr st' \<and> conn_ok (stmts st') (wrappers st') h d"
      using s(1) c1 c2 conn_of [OF s(1) db] unfolding struct_inv_def by (auto simp: st'_def ball_alist_set)
    have b2: "\<forall>(p, w) \<in> set (wrappers st'). p < nextPtr st' \<and> handle w \<in> fst ` set (conns st')"
      using s(1) wp unfolding struct_inv_def by (auto simp: st'_def ball_alist_set)
    have b3: "\<forall>(s, h) \<in> set (stmts st'). 0 < s \<and> s < nextPtr st' \<and> h \<in> fst ` set (conns st')"
      using s(1) unfolding struct_inv_def by (simp add: st'_def)
    show ?thesis unfolding struct_inv_def hs using s(1) b1 b2 b3 by (simp add: struct_inv_def st'_def)
  qed
  moreover have "map_of (wrappers st') p = Some ?w" "map_of (conns st') ?h = Some db'"
    using p db by (auto simp: st'_def map_of_alist_set dest: map_of_SomeD intro: rev_image_eqI)
  moreover have "stmts st' = stmts st" "mTrace db' = SQLITE_TRACE_STMT" "pTraceArg db' = ?f" by (simp_all add: st'_def db'_def)
  ultimately show ?thesis unfolding bridge_def by blast
qed

text \<open>Statements.\<close>

lemma struct_upd:
  assumes s: "struct_inv st" and db: "map_of (conns st) h = Some db"
    and ss: "distinct (map fst ss)" "\<forall>(s, h') \<in> set ss. 0 < s \<and> s < n \<and> h' \<in> fst ` set (conns st)" "nextPtr st \<le> n"
    and other: "\<And>h'. h' \<noteq> h \<Longrightarrow> length (filter (\<lambda>(s, k). k = h') ss) = length (filter (\<lambda>(s, k). k = h') (stmts st))"
    and ok: "conn_ok ss (wrappers st) h db'"
  shows "struct_inv (st\<lparr>conns := alist_set h db' (conns st), stmts := ss, nextPtr := n\<rparr>)"
proof -
  let ?st = "st\<lparr>conns := alist_set h db' (conns st), stmts := ss, nextPtr := n\<rparr>"
  have o: "conn_ok ss (wrappers st) h' d" if "conn_ok (stmts st) (wrappers st) h' d" "h' \<noteq> h" for h' d
    using that other [of h'] by (simp add: conn_ok_def)
  have a: "0 < h' \<and> h' < nextPtr st \<and> conn_ok (stmts st) (wrappers st) h' d" if "(h', d) \<in> set (conns st)" for h' d
    using s that unfolding struct_inv_def by blast
  have w: "p < nextPtr st \<and> handle w \<in> fst ` set (conns st)" if "(p, w) \<in> set (wrappers st)" for p w
    using s that unfolding struct_inv_def by blast
  have "\<forall>(h', d) \<in> set (alist_set h db' (conns st)). 0 < h' \<and> h' < n \<and> conn_ok ss (wrappers st) h' d"
    unfolding ball_alist_set using a o ok ss(3) by (auto intro: less_le_trans)
  moreover have "\<forall>(p, w) \<in> set (wrappers st). p < n \<and> handle w \<in> fst ` set (conns st)"
    using w ss(3) by (auto intro: less_le_trans)
  ultimately show ?thesis using s ss unfolding struct_inv_def by simp
qed

lemma refs_upd:
  assumes "refs_inv N st L" "distinct (map fst (conns st))" "map_of (conns st) h = Some db" "owned db' = owned db"
  shows "refs_inv N (st\<lparr>conns := alist_set h db' (conns st), stmts := ss, nextPtr := n\<rparr>) L"
proof -
  have "held (st\<lparr>conns := alist_set h db' (conns st)\<rparr>) = held st"
    using held_set(1) [OF assms(2,3), of db'] assms(4) by simp
  then show ?thesis using assms(1) by (simp add: refs_inv_def)
qed

lemma prepare_ok:
  assumes inv: "bridge st L" and db: "map_of (conns st) h = Some db"
  shows "\<exists>s st'. sqlite3_prepare_v2 out h st = Some (s, st') \<and> bridge st' L \<and> (s = 0 \<or> map_of (stmts st') s = Some h)"
proof (cases "out = Statement")
  case True
  have s: "struct_inv st" "refs_inv {#} st L" using inv by (simp_all add: bridge_def)
  have ok: "0 < h" "h < nextPtr st" "conn_ok (stmts st) (wrappers st) h db" using conn_of [OF s(1) db] by simp_all
  let ?p = "nextPtr st" and ?db = "db\<lparr>nStmt := nStmt db + 1\<rparr>"
  let ?st = "st\<lparr>conns := alist_set h ?db (conns st), stmts := (?p, h) # stmts st, nextPtr := ?p + 1\<rparr>"
  have e: "engine h (\<lambda>c. (RC_OK, c\<lparr>nStmt := nStmt c + 1\<rparr>)) st = Some (RC_OK, st\<lparr>conns := alist_set h ?db (conns st)\<rparr>)"
    using ok(3) by (intro engine_simple [OF db]) (simp_all add: conn_ok_def)
  have n: "?p \<notin> fst ` set (stmts st)"
  proof
    assume "?p \<in> fst ` set (stmts st)"
    then obtain h' where "(?p, h') \<in> set (stmts st)" by auto
    then have "?p < ?p" using s(1) unfolding struct_inv_def by blast
    then show False by simp
  qed
  have "wf_conn ?db" using ok(3) wf_conn_cong [of ?db db] by (simp add: conn_ok_def)
  then have ok': "conn_ok ((?p, h) # stmts st) (wrappers st) h ?db" using ok(3) by (simp add: conn_ok_def)
  have h: "h \<in> fst ` set (conns st)" using db by (force dest: map_of_SomeD)
  have old: "0 < s \<and> s < ?p \<and> h' \<in> fst ` set (conns st)" if "(s, h') \<in> set (stmts st)" for s h'
    using s(1) that unfolding struct_inv_def by blast
  have dis: "distinct (map fst (stmts st))" "0 < ?p" using s(1) by (simp_all add: struct_inv_def)
  have ss: "distinct (map fst ((?p, h) # stmts st))"
    "\<forall>(s, h') \<in> set ((?p, h) # stmts st). 0 < s \<and> s < ?p + 1 \<and> h' \<in> fst ` set (conns st)" "?p \<le> ?p + 1"
    using n dis h old by (auto intro: less_SucI)
  have "struct_inv ?st" by (rule struct_upd [OF s(1) db ss _ ok']) simp
  moreover have "refs_inv {#} ?st L"
    using refs_upd [OF s(2) _ db, of ?db] s(1) by (simp add: struct_inv_def owned_def coll_owned_def)
  ultimately show ?thesis using True e by (simp add: sqlite3_prepare_v2_def bridge_def)
qed (use inv db in \<open>simp add: sqlite3_prepare_v2_def\<close>)

text \<open>The reference the engine would call at a step exists.\<close>

lemma trace_callback_ok:
  assumes "struct_inv st" "refs_inv N st L" "map_of (conns st) h = Some db" "mTrace db AND SQLITE_TRACE_STMT \<noteq> 0"
  shows "java_trace SQLITE_TRACE_STMT (pTraceArg db) st = Some st"
proof -
  from conn_of [OF assms(1,3)] assms(4) obtain p w where w: "(p, w) \<in> set (wrappers st)" "trace_ref w = pTraceArg db" "pTraceArg db \<noteq> 0"
    by (auto simp: conn_ok_def)
  then have "pTraceArg db \<in># trace_refs st" by (force simp: trace_refs_def)
  then have "pTraceArg db \<in># mset (globals st)" using assms(2) unfolding refs_inv_def by simp
  then show ?thesis by (simp add: java_trace_def NewLocalRef_def)
qed

lemma step_ok:
  assumes inv: "bridge st L" and s0: "s = 0 \<or> map_of (stmts st) s \<noteq> None"
  shows "\<exists>r st'. sqlite3_step out traces active s st = Some (r, st') \<and> bridge st' L \<and> stmts st' = stmts st"
proof (cases "s = 0")
  case False
  have i: "struct_inv st" "refs_inv {#} st L" using inv by (simp_all add: bridge_def)
  obtain h where h: "map_of (stmts st) s = Some h" using s0 False by blast
  obtain db where db: "map_of (conns st) h = Some db" using stmt_conn [OF i(1) h] by blast
  have ok: "conn_ok (stmts st) (wrappers st) h db" using conn_of [OF i(1) db] by simp
  let ?db = "db\<lparr>nVdbeActive := active\<rparr>"
  let ?st = "st\<lparr>conns := alist_set h ?db (conns st)\<rparr>"
  have e: "engine h (\<lambda>c. (RC_OK, c\<lparr>nVdbeActive := active\<rparr>)) st = Some (RC_OK, ?st)"
    using ok by (intro engine_simple [OF db]) (simp_all add: conn_ok_def)
  have t: "(if traces \<and> mTrace db AND SQLITE_TRACE_STMT \<noteq> 0
                  then java_trace SQLITE_TRACE_STMT (pTraceArg db) st else Some st) = Some st"
    using trace_callback_ok [OF i db] by simp
  have "wf_conn ?db" using ok wf_conn_cong [of ?db db] by (simp add: conn_ok_def)
  then have ok': "conn_ok (stmts st) (wrappers st) h ?db" using ok by (simp add: conn_ok_def)
  have "struct_inv ?st" using struct_set [where g = "globals st" and n = "nextGlobal st" and b = "pending st", OF i(1) ok'] by simp
  moreover have "refs_inv {#} ?st L"
    using refs_upd [where ss = "stmts st" and n = "nextPtr st", OF i(2) _ db, of ?db] i(1) by (simp add: struct_inv_def owned_def coll_owned_def)
  moreover have "sqlite3_step out traces active s st = Some (out, ?st)"
    using False h db e t by (simp add: sqlite3_step_def)
  ultimately show ?thesis by (simp add: bridge_def)
qed (use inv in \<open>simp add: sqlite3_step_def\<close>)

lemma finalize_ok:
  assumes inv: "bridge st L" and s0: "s = 0 \<or> map_of (stmts st) s \<noteq> None"
  shows "\<exists>st'. sqlite3_finalize s st = Some st' \<and> bridge st' L \<and> fst ` set (conns st') = fst ` set (conns st)"
proof (cases "s = 0")
  case False
  have i: "struct_inv st" "refs_inv {#} st L" using inv by (simp_all add: bridge_def)
  obtain h where h: "map_of (stmts st) s = Some h" using s0 False by blast
  obtain db where db: "map_of (conns st) h = Some db" using stmt_conn [OF i(1) h] by blast
  have ok: "conn_ok (stmts st) (wrappers st) h db" using conn_of [OF i(1) db] by simp
  let ?db = "db\<lparr>nStmt := nStmt db - 1\<rparr>" and ?ss = "alist_del s (stmts st)"
  let ?f = "\<lambda>c. (RC_OK, sqlite3LeaveMutexAndCloseZombie (snd (sqlite3ApiExit (c\<lparr>nStmt := nStmt c - 1\<rparr>) RC_OK)))"
  let ?st = "st\<lparr>conns := alist_set h ?db (conns st), stmts := ?ss\<rparr>"
  have "?f db = (RC_OK, ?db)" using ok by (simp add: conn_ok_def sqlite3ApiExit_def sqlite3LeaveMutexAndCloseZombie_def)
  then have e: "engine h ?f st = Some (RC_OK, st\<lparr>conns := alist_set h ?db (conns st)\<rparr>)"
    using ok by (intro engine_simple [OF db]) (simp_all add: conn_ok_def)
  have dis: "distinct (map fst (stmts st))" using i(1) by (simp add: struct_inv_def)
  have "size (filter_mset (\<lambda>(s, k). k = h') (mset (stmts st))) =
      size (filter_mset (\<lambda>(s, k). k = h') (mset ?ss)) + (if h' = h then 1 else 0)" for h'
    using mset_alist [OF dis h] by simp
  then have len: "length (filter (\<lambda>(s, k). k = h') (stmts st)) = length (filter (\<lambda>(s, k). k = h') ?ss) + (if h' = h then 1 else 0)" for h'
    by (simp add: size_mset [symmetric] del: size_mset)
  have "wf_conn ?db" using ok wf_conn_cong [of ?db db] by (simp add: conn_ok_def)
  then have ok': "conn_ok ?ss (wrappers st) h ?db" using ok len [of h] by (simp add: conn_ok_def)
  have ss: "distinct (map fst ?ss)" "\<forall>(s, h') \<in> set ?ss. 0 < s \<and> s < nextPtr st \<and> h' \<in> fst ` set (conns st)"
    using i(1) distinct_alist_del [OF dis] unfolding struct_inv_def by (auto simp: set_alist_del)
  have "struct_inv (st\<lparr>conns := alist_set h ?db (conns st), stmts := ?ss, nextPtr := nextPtr st\<rparr>)"
    by (rule struct_upd [OF i(1) db ss le_refl _ ok']) (simp add: len)
  then have "struct_inv ?st" by simp
  moreover have "refs_inv {#} ?st L"
    using refs_upd [where ss = ?ss and n = "nextPtr st", OF i(2) _ db, of ?db] i(1) by (simp add: struct_inv_def owned_def coll_owned_def)
  moreover have "sqlite3_finalize s st = Some ?st" using False h e by (simp add: sqlite3_finalize_def)
  ultimately show ?thesis by (simp add: bridge_def)
qed (use inv in \<open>simp add: sqlite3_finalize_def\<close>)

lemma bridge_throw: "bridge st L \<Longrightarrow> bridge (throw_sqlite_exception st) L"
  by (simp add: bridge_def throw_sqlite_exception_def)

lemma nativePrepare_ok:
  assumes inv: "bridge st L" and p: "map_of (wrappers st) p = Some w"
  shows "\<exists>s st'. nativePrepare out p st = Some (s, st') \<and> bridge st' L"
proof -
  obtain db where "map_of (conns st) (handle w) = Some db" using wrapper_conn [OF _ p] inv by (auto simp: bridge_def)
  from prepare_ok [OF inv this, of out] obtain s st' where "sqlite3_prepare_v2 out (handle w) st = Some (s, st')" "bridge st' L" by blast
  then show ?thesis using p bridge_throw by (simp add: nativePrepare_def)
qed

lemma nativeExecute_ok:
  assumes inv: "bridge st L" and s: "s = 0 \<or> map_of (stmts st) s \<noteq> None"
  shows "\<exists>r st'. nativeExecute out tr active v s st = Some (r, st') \<and> bridge st' L"
proof -
  from step_ok [OF inv s, of out tr active] obtain r st1 where
    1: "sqlite3_step out tr active s st = Some (r, st1)" "bridge st1 L" "stmts st1 = stmts st" by blast
  obtain db where db: "(if s = 0 then Some 0 else map_of (stmts st) s) = Some db" using s by (cases "s = 0") auto
  show ?thesis
  proof (cases "r = DONE")
    case False
    from finalize_ok [OF 1(2), of s] s 1(3) obtain st2 where
      2: "sqlite3_finalize s st1 = Some st2" "bridge st2 L" "fst ` set (conns st2) = fst ` set (conns st1)" by auto
    have "db \<noteq> 0 \<Longrightarrow> map_of (conns st2) db \<noteq> None"
    proof -
      assume "db \<noteq> 0"
      then have "map_of (stmts st1) s = Some db" using db s 1(3) by (auto split: if_splits)
      from stmt_conn [OF _ this] 1(2) have "db \<in> fst ` set (conns st1)" by (force simp: bridge_def dest: map_of_SomeD)
      then show ?thesis unfolding 2(3) [symmetric] by (simp add: map_of_eq_None_iff)
    qed
    then show ?thesis using db 1(1) 2(1) bridge_throw [OF 2(2)] False by (auto simp: nativeExecute_def)
  qed (use db 1 in \<open>simp add: nativeExecute_def\<close>)
qed

lemma nativeExecForDouble_ok:
  assumes inv: "bridge st L" and p: "map_of (wrappers st) p = Some w"
  shows "\<exists>r st'. nativeExecForDouble pout out tr active v zero p st = Some (r, st') \<and> bridge st' L"
proof -
  obtain db where "map_of (conns st) (handle w) = Some db" using wrapper_conn [OF _ p] inv by (auto simp: bridge_def)
  from prepare_ok [OF inv this, of pout] obtain s st1 where
    1: "sqlite3_prepare_v2 pout (handle w) st = Some (s, st1)" "bridge st1 L" "s = 0 \<or> map_of (stmts st1) s = Some (handle w)" by blast
  define st2 where "st2 = (if pout = PrepareError then throw_sqlite_exception st1 else st1)"
  have 2: "bridge st2 L" "s = 0 \<or> map_of (stmts st2) s \<noteq> None"
    using 1(2,3) bridge_throw [OF 1(2)] by (auto simp: st2_def throw_sqlite_exception_def)
  from step_ok [OF 2] obtain r st3 where 3: "sqlite3_step out tr active s st2 = Some (r, st3)" "bridge st3 L" "stmts st3 = stmts st2" by blast
  from finalize_ok [OF 3(2), of s] 2(2) 3(3) obtain st4 where 4: "sqlite3_finalize s st3 = Some st4" "bridge st4 L" by auto
  show ?thesis using p 1(1) 3(1) 4 by (simp add: nativeExecForDouble_def st2_def [symmetric])
qed

text \<open>Opening and closing.\<close>

lemma new_conn_ok: "wf_conn new_conn" "owned new_conn = {#}"
  using lives_ok [OF lives.opened] by (simp_all add: ledger_def new_conn_def)

lemma new_conn_struct:
  assumes "struct_inv st"
  defines "h \<equiv> nextPtr st"
  shows "struct_inv (st\<lparr>conns := (h, new_conn) # conns st, nextPtr := h + 1\<rparr>)" "h \<notin> fst ` set (conns st)" "0 < h"
proof -
  have a: "0 < h' \<and> h' < h \<and> conn_ok (stmts st) (wrappers st) h' d" if "(h', d) \<in> set (conns st)" for h' d
    using assms(1) that unfolding struct_inv_def h_def by blast
  have w: "p < h \<and> handle w \<in> fst ` set (conns st)" if "(p, w) \<in> set (wrappers st)" for p w
    using assms(1) that unfolding struct_inv_def h_def by blast
  have ss: "0 < s \<and> s < h \<and> k \<in> fst ` set (conns st)" if "(s, k) \<in> set (stmts st)" for s k
    using assms(1) that unfolding struct_inv_def h_def by blast
  show n: "h \<notin> fst ` set (conns st)"
  proof
    assume "h \<in> fst ` set (conns st)"
    then obtain d where "(h, d) \<in> set (conns st)" by auto
    from a [OF this] show False by simp
  qed
  show "0 < h" using assms(1) by (simp add: h_def struct_inv_def)
  have "filter (\<lambda>(s, k). k = h) (stmts st) = []"
    using ss n by (auto simp: filter_empty_conv)
  then have c: "conn_ok (stmts st) (wrappers st) h new_conn" using new_conn_ok by (simp add: conn_ok_def new_conn_def)
  show "struct_inv (st\<lparr>conns := (h, new_conn) # conns st, nextPtr := h + 1\<rparr>)"
    using assms(1) a w ss n c \<open>0 < h\<close> unfolding struct_inv_def by (auto intro: less_SucI)
qed

lemma open_refs:
  "refs_inv N st L \<Longrightarrow> refs_inv N (st\<lparr>conns := (h, new_conn) # conns st, nextPtr := n\<rparr>) L"
  using new_conn_ok(2) by (simp add: refs_inv_def held_def)

lemma struct_next: "struct_inv st \<Longrightarrow> nextPtr st \<le> n \<Longrightarrow> struct_inv (st\<lparr>nextPtr := n\<rparr>)"
  by (auto simp: struct_inv_def intro: less_le_trans)

lemma conn_ok_more: "conn_ok ss ws h db \<Longrightarrow> conn_ok ss (x # ws) h db"
  by (auto simp: conn_ok_def)

lemma alist_set_absent: "k \<notin> fst ` set xs \<Longrightarrow> alist_set k v xs = xs"
  by (induction xs) (auto simp: alist_set_def)

lemma add_wrapper_struct:
  assumes s: "struct_inv st" and h: "h \<in> fst ` set (conns st)" "\<forall>(p, w) \<in> set (wrappers st). handle w \<noteq> h"
  shows "struct_inv (st\<lparr>wrappers := (nextPtr st, \<lparr>handle = h, trace_ref = 0\<rparr>) # wrappers st, nextPtr := nextPtr st + 1\<rparr>)"
proof -
  let ?p = "nextPtr st" and ?w = "\<lparr>handle = h, trace_ref = 0\<rparr>"
  have a: "0 < h' \<and> h' < ?p \<and> conn_ok (stmts st) (wrappers st) h' d" if "(h', d) \<in> set (conns st)" for h' d
    using s that unfolding struct_inv_def by blast
  have w: "p < ?p \<and> handle w \<in> fst ` set (conns st)" if "(p, w) \<in> set (wrappers st)" for p w
    using s that unfolding struct_inv_def by blast
  have ss: "0 < s \<and> s < ?p \<and> k \<in> fst ` set (conns st)" if "(s, k) \<in> set (stmts st)" for s k
    using s that unfolding struct_inv_def by blast
  have "?p \<notin> fst ` set (wrappers st)" using w by fastforce
  moreover have "h \<notin> (handle \<circ> snd) ` set (wrappers st)" using h(2) by auto
  moreover have "\<forall>(h', d) \<in> set (conns st). 0 < h' \<and> h' < ?p + 1 \<and> conn_ok (stmts st) ((?p, ?w) # wrappers st) h' d"
    using a conn_ok_more by (auto intro: less_SucI)
  moreover have "\<forall>(p, w) \<in> set ((?p, ?w) # wrappers st). p < ?p + 1 \<and> handle w \<in> fst ` set (conns st)"
    using w h(1) by (auto intro: less_SucI)
  moreover have "\<forall>(s, k) \<in> set (stmts st). 0 < s \<and> s < ?p + 1 \<and> k \<in> fst ` set (conns st)"
    using ss by (auto intro: less_SucI)
  ultimately show ?thesis using s unfolding struct_inv_def by simp
qed

lemma nativeOpen_ok:
  assumes inv: "bridge st L"
  shows "\<exists>p st'. nativeOpen rc rw ro st = Some (p, st') \<and> bridge st' L"
proof -
  have s: "struct_inv st" "refs_inv {#} st L" using inv by (simp_all add: bridge_def)
  define h where "h = nextPtr st"
  define st1 where "st1 = st\<lparr>conns := (h, new_conn) # conns st, nextPtr := h + 1\<rparr>"
  note n = new_conn_struct [OF s(1), folded h_def, folded st1_def]
  have b1: "bridge st1 L" using n(1) open_refs [OF s(2)] by (simp add: bridge_def st1_def)
  have db: "map_of (conns st1) h = Some new_conn" by (simp add: st1_def)
  consider "rc \<noteq> RC_OK" | "rc = RC_OK" "rw \<and> ro" | "rc = RC_OK" "\<not> (rw \<and> ro)" by blast
  then show ?thesis
  proof cases
    case 1
    then have "nativeOpen rc rw ro st = Some (0, throw_sqlite_exception st1)"
      by (simp add: nativeOpen_def Let_def st1_def h_def)
    then show ?thesis using bridge_throw [OF b1] by blast
  next
    case 2
    have "fst (sqlite3_close_v2 new_conn) = RC_OK \<and> closed (snd (sqlite3_close_v2 new_conn)) \<and> destroyed (snd (sqlite3_close_v2 new_conn)) = []"
      by (simp add: sqlite3_close_v2_def sqlite3Close_def new_conn_def sqlite3LeaveMutexAndCloseZombie_def
          close_functions_def close_collations_def)
    then obtain db' where c: "sqlite3_close_v2 new_conn = (RC_OK, db')" "closed db'" "destroyed db' = []"
      by (cases "sqlite3_close_v2 new_conn") simp
    let ?st = "st\<lparr>nextPtr := h + 1\<rparr>"
    have "engine h sqlite3_close_v2 st1 = Some (RC_OK, st1\<lparr>conns := conns st\<rparr>)"
      using db c alist_del_absent [OF n(2)] by (simp add: engine_def st1_def alist_del_def)
    moreover have "st1\<lparr>conns := conns st\<rparr> = ?st" by (simp add: st1_def)
    ultimately have "nativeOpen rc rw ro st = Some (0, throw_sqlite_exception ?st)"
      using 2 by (simp add: nativeOpen_def Let_def st1_def h_def)
    moreover have "bridge ?st L" using struct_next [OF s(1), of "h + 1"] s(2) by (simp add: bridge_def h_def refs_inv_def)
    ultimately show ?thesis using bridge_throw by blast
  next
    case 3
    let ?st = "st1\<lparr>wrappers := (nextPtr st1, \<lparr>handle = h, trace_ref = 0\<rparr>) # wrappers st1, nextPtr := nextPtr st1 + 1\<rparr>"
    have "engine h sqlite3_busy_timeout st1 = Some (RC_OK, st1\<lparr>conns := alist_set h new_conn (conns st1)\<rparr>)"
      by (rule engine_simple [OF db]) (simp_all add: sqlite3_busy_timeout_def new_conn_def)
    moreover have "st1\<lparr>conns := alist_set h new_conn (conns st1)\<rparr> = st1"
      using alist_set_absent [OF n(2), of new_conn] by (simp add: st1_def alist_set_def)
    ultimately have e: "engine h sqlite3_busy_timeout st1 = Some (RC_OK, st1)" by simp
    have "nativeOpen rc rw ro st = Some (nextPtr st1, ?st)"
      using 3 e by (cases rw; cases ro) (simp_all add: nativeOpen_def Let_def st1_def h_def)
    moreover have "struct_inv ?st"
    proof (rule add_wrapper_struct [OF n(1)])
      show "h \<in> fst ` set (conns st1)" by (simp add: st1_def)
      have "handle w \<in> fst ` set (conns st)" if "(p, w) \<in> set (wrappers st)" for p w
        using s(1) that unfolding struct_inv_def by blast
      then show "\<forall>(p, w) \<in> set (wrappers st1). handle w \<noteq> h" using n(2) by (auto simp: st1_def)
    qed
    moreover have "refs_inv {#} ?st L" using b1 by (simp add: bridge_def refs_inv_def trace_refs_def)
    ultimately show ?thesis by (auto simp: bridge_def)
  qed
qed

lemma nativeClose_ok:
  assumes inv: "bridge st L" and p: "map_of (wrappers st) p = Some w" and no: "handle w \<notin> snd ` set (stmts st)"
  shows "\<exists>st'. nativeClose p st = Some st' \<and> bridge st' L"
proof -
  have s: "struct_inv st" "refs_inv {#} st L" using inv by (simp_all add: bridge_def)
  let ?h = "handle w" and ?ws = "alist_del p (wrappers st)"
  obtain db where db: "map_of (conns st) ?h = Some db" using wrapper_conn [OF s(1) p] by blast
  have ok: "conn_ok (stmts st) (wrappers st) ?h db" using conn_of [OF s(1) db] by simp
  have dis: "distinct (map fst (conns st))" "distinct (map fst (wrappers st))" using s(1) by (simp_all add: struct_inv_def)
  define tr where "tr w = (if trace_ref w = 0 then {#} else {#trace_ref w#})" for w :: SQLiteDb
  define g where "g = (if trace_ref w \<noteq> 0 then remove1 (trace_ref w) (globals st) else globals st)"
  note del = DeleteGlobalRef_inv [OF s(2) trace_in_refs [OF p]]
  have g1: "mset (globals st) = mset g + tr w" using del(2) by (cases "trace_ref w = 0") (simp_all add: g_def tr_def)
  define st1 where "st1 = st\<lparr>globals := g\<rparr>"
  have 1: "(if trace_ref w \<noteq> 0 then DeleteGlobalRef (trace_ref w) st else Some st) = Some st1"
    using del(1) by (cases "trace_ref w = 0") (simp_all add: g_def st1_def)
  have refs1: "refs_inv {#} (st1\<lparr>wrappers := ?ws\<rparr>) L"
  proof -
    have "trace_refs (st\<lparr>wrappers := ?ws\<rparr>) + tr w = trace_refs st"
      using trace_refs_set(2) [OF dis(2) p] by (simp add: tr_def)
    then have "mset g + tr w = held st + trace_refs (st\<lparr>wrappers := ?ws\<rparr>) + L + tr w"
      using s(2) unfolding g1 [symmetric] refs_inv_def by (metis add.commute add.left_commute empty_neutral(2))
    then have "mset g = held st + trace_refs (st\<lparr>wrappers := ?ws\<rparr>) + L" by simp
    moreover have "distinct g" "set g \<subseteq> set (globals st)"
      using s(2) set_remove1_subset [of "trace_ref w" "globals st"] by (simp_all add: g_def refs_inv_def)
    ultimately show ?thesis using s(2) unfolding refs_inv_def by (auto simp: st1_def trace_refs_def)
  qed
  obtain rc db' where c: "sqlite3_close_v2 db = (rc, db')" by fastforce
  have "filter (\<lambda>(s, h'). h' = ?h) (stmts st) = []" using no by (force simp: filter_empty_conv)
  then have nst: "nStmt db = 0" using ok by (simp add: conn_ok_def)
  have cl: "closed db'" "mset (destroyed db') = ledger db" "owned db' = {#}"
  proof -
    have m: "mTrace db AND SQLITE_TRACE_CLOSE = 0" using ok by (auto simp: conn_ok_def)
    let ?z = "db\<lparr>zombie := True\<rparr>"
    have "db' = sqlite3LeaveMutexAndCloseZombie ?z"
      using c nst m by (simp add: sqlite3_close_v2_def sqlite3Close_def)
    moreover have "wf_conn ?z" "ledger ?z = ledger db" using ok wf_conn_cong [of ?z db] ledger_cong [of ?z db] by (simp_all add: conn_ok_def)
    ultimately show "closed db'" "mset (destroyed db') = ledger db" "owned db' = {#}"
      using close_ok [of ?z] nst by simp_all
  qed
  have led: "mset (destroyed db') + owned db' + {#} = owned db + {#}"
    using cl ok by (simp add: ledger_def conn_ok_def)
  have db1: "map_of (conns (st1\<lparr>wrappers := ?ws\<rparr>)) ?h = Some db" "distinct (map fst (conns (st1\<lparr>wrappers := ?ws\<rparr>)))"
    using db dis by (simp_all add: st1_def)
  let ?cs = "alist_del ?h (conns st)"
  from engine_step [where f = sqlite3_close_v2, OF refs1 db1(2,1) c led] cl obtain g' where
    e: "engine ?h sqlite3_close_v2 (st1\<lparr>wrappers := ?ws\<rparr>) = Some (rc, st1\<lparr>wrappers := ?ws, conns := ?cs, globals := g'\<rparr>)"
    "refs_inv {#} (st1\<lparr>wrappers := ?ws, conns := ?cs, globals := g'\<rparr>) L"
    by (auto simp: st1_def)
  from e(1) obtain s2 where s2: "engine ?h sqlite3_close_v2 st1 = Some (rc, s2)"
    "s2\<lparr>wrappers := ?ws\<rparr> = st1\<lparr>wrappers := ?ws, conns := ?cs, globals := g'\<rparr>"
    unfolding engine_wrappers by (auto simp: map_option_case split: option.splits)
  have "wrappers s2 = wrappers st" using engine_keeps [OF s2(1)] by (simp add: st1_def)
  then have r: "nativeClose p st = Some (s2\<lparr>wrappers := ?ws\<rparr>)" using p 1 s2(1) by (simp add: nativeClose_def)
  let ?st = "st1\<lparr>wrappers := ?ws, conns := ?cs, globals := g'\<rparr>"
  have "struct_inv ?st"
  proof -
    have a: "0 < h' \<and> h' < nextPtr st \<and> conn_ok (stmts st) (wrappers st) h' d" if "(h', d) \<in> set (conns st)" for h' d
      using s(1) that unfolding struct_inv_def by blast
    have wr: "p' < nextPtr st \<and> handle w' \<in> fst ` set (conns st)" if "(p', w') \<in> set (wrappers st)" for p' w'
      using s(1) that unfolding struct_inv_def by blast
    have ss: "0 < s \<and> s < nextPtr st \<and> k \<in> fst ` set (conns st)" if "(s, k) \<in> set (stmts st)" for s k
      using s(1) that unfolding struct_inv_def by blast
    have wp: "(p, w) \<in> set (wrappers st)" by (rule map_of_SomeD [OF p])
    have keys: "fst ` set ?cs = fst ` set (conns st) - {?h}" by (force simp: set_alist_del)
    have other: "handle w' \<noteq> ?h" if "(p', w') \<in> set (wrappers st)" "p' \<noteq> p" for p' w'
      using handle_unique [OF s(1) that(1) wp] that(2) by auto
    have "conn_ok (stmts st) ?ws h' d" if "(h', d) \<in> set (conns st)" "h' \<noteq> ?h" for h' d
    proof -
      have "(p', w') \<in> set ?ws" if "(p', w') \<in> set (wrappers st)" "handle w' = h'" for p' w'
      proof -
        have "p' \<noteq> p" using that \<open>h' \<noteq> ?h\<close> wp dis(2) by (metis map_of_is_SomeI option.sel)
        then show ?thesis using that(1) by (simp add: set_alist_del)
      qed
      with a [OF that(1)] show ?thesis by (fastforce simp: conn_ok_def)
    qed
    then have "\<forall>(h', d) \<in> set ?cs. 0 < h' \<and> h' < nextPtr st \<and> conn_ok (stmts st) ?ws h' d"
      using a by (auto simp: set_alist_del)
    moreover have "\<forall>(p', w') \<in> set ?ws. p' < nextPtr st \<and> handle w' \<in> fst ` set ?cs"
      unfolding keys using wr other by (auto simp: set_alist_del)
    moreover have "\<forall>(s, k) \<in> set (stmts st). 0 < s \<and> s < nextPtr st \<and> k \<in> fst ` set ?cs"
      unfolding keys using ss no by (auto simp: image_iff)
    moreover have "distinct (map (handle \<circ> snd) ?ws)"
      using s(1) by (simp add: struct_inv_def alist_del_def distinct_map_filter)
    ultimately show ?thesis
      using s(1) distinct_alist_del [OF dis(1)] distinct_alist_del [OF dis(2)] unfolding struct_inv_def by (simp add: st1_def)
  qed
  then show ?thesis using r e(2) unfolding s2(2) by (simp add: bridge_def)
qed

section \<open>Sessions\<close>

definition start :: jvm where
  "start = \<lparr>globals = [], nextGlobal = 1, wrappers = [], conns = [], stmts = [], nextPtr = 1, pending = False\<rparr>"

definition valid_stmt :: "jvm \<Rightarrow> nat \<Rightarrow> bool" where
  "valid_stmt st s \<longleftrightarrow> s = 0 \<or> map_of (stmts st) s \<noteq> None"

text \<open>
  What a Java program may do: open databases, use the objects it has not closed, and close a database
  after its statements. The arguments that must not be null are not null. \<open>L\<close> collects the references of
  the collations that could not be created.
\<close>

inductive session :: "jvm \<Rightarrow> nat multiset \<Rightarrow> bool" where
  begin_session: "session start {#}"
| catch: "session st L \<Longrightarrow> session (st\<lparr>pending := False\<rparr>) L"
| open_db: "session st L \<Longrightarrow> \<not> pending st \<Longrightarrow> nativeOpen rc rw ro st = Some (p, st') \<Longrightarrow> session st' L"
| close_db:
    "session st L \<Longrightarrow> \<not> pending st \<Longrightarrow> map_of (wrappers st) p = Some w \<Longrightarrow> handle w \<notin> snd ` set (stmts st) \<Longrightarrow>
       nativeClose p st = Some st' \<Longrightarrow> session st' L"
| set_trace:
    "session st L \<Longrightarrow> \<not> pending st \<Longrightarrow> map_of (wrappers st) p = Some w \<Longrightarrow> j \<noteq> 0 \<Longrightarrow> nativeTrace p j st = Some st' \<Longrightarrow>
       session st' L"
| add_collation:
    "session st L \<Longrightarrow> \<not> pending st \<Longrightarrow> map_of (wrappers st) p = Some w \<Longrightarrow> j \<noteq> 0 \<Longrightarrow>
       nativeCreateCollation am p z j st = Some st' \<Longrightarrow> session st' (L + (if pending st' then {#nextGlobal st#} else {#}))"
| add_function:
    "session st L \<Longrightarrow> \<not> pending st \<Longrightarrow> map_of (wrappers st) p = Some w \<Longrightarrow> j \<noteq> 0 \<Longrightarrow>
       nativeCreateFunction builtin prefer am' am'' p z n j st = Some st' \<Longrightarrow> session st' L"
| prepare_stmt:
    "session st L \<Longrightarrow> \<not> pending st \<Longrightarrow> map_of (wrappers st) p = Some w \<Longrightarrow> nativePrepare out p st = Some (s, st') \<Longrightarrow> session st' L"
| step_stmt:
    "session st L \<Longrightarrow> \<not> pending st \<Longrightarrow> valid_stmt st s \<Longrightarrow> nativeStep rc' tr n' s st = Some (r, st') \<Longrightarrow> session st' L"
| execute_stmt:
    "session st L \<Longrightarrow> \<not> pending st \<Longrightarrow> valid_stmt st s \<Longrightarrow> nativeExecute rc' tr n' v s st = Some (i, st') \<Longrightarrow> session st' L"
| finalize_stmt:
    "session st L \<Longrightarrow> \<not> pending st \<Longrightarrow> valid_stmt st s \<Longrightarrow> nativeFinalize s st = Some st' \<Longrightarrow> session st' L"

lemma session_bridge: "session st L \<Longrightarrow> bridge st L"
proof (induction rule: session.induct)
  case begin_session
  show ?case by (simp add: bridge_def start_def struct_inv_def refs_inv_def held_def trace_refs_def)
next
  case (catch st L)
  then show ?case by (simp add: bridge_def)
next
  case (open_db st L rc rw ro p st')
  then show ?case using nativeOpen_ok [of st L rc rw ro] by auto
next
  case (close_db st L p w st')
  then show ?case using nativeClose_ok [of st L p w] by auto
next
  case (set_trace st L p w j st')
  then show ?case using nativeTrace_ok [of st L p w j] by auto
next
  case (add_collation st L p w j am z st')
  then show ?case using nativeCreateCollation_ok [of st L p w j am z] by auto
next
  case (add_function st L p w j bi pr am' am'' z n st')
  then show ?case using nativeCreateFunction_ok [of st L p w j bi pr am' am'' z n] by auto
next
  case (prepare_stmt st L p w out s st')
  then show ?case using nativePrepare_ok [of st L p w out] by auto
next
  case (step_stmt st L s rc' tr n' r st')
  then show ?case using step_ok [of st L s rc' tr n'] by (auto simp: valid_stmt_def nativeStep_def)
next
  case (execute_stmt st L s rc' tr n' v i st')
  then show ?case using nativeExecute_ok [of st L s rc' tr n' v] by (auto simp: valid_stmt_def)
next
  case (finalize_stmt st L s st')
  then show ?case using finalize_ok [of st L s] by (auto simp: valid_stmt_def nativeFinalize_def)
qed

text \<open>A session that opens a database, sets a trace callback and prepares a statement.\<close>

definition wit_conn :: conn where
  "wit_conn = new_conn\<lparr>mTrace := 1, xTrace := Some 1, pTraceArg := 1\<rparr>"

definition wit_open :: jvm where
  "wit_open = \<lparr>globals = [], nextGlobal = 1, wrappers = [(2, \<lparr>handle = 1, trace_ref = 0\<rparr>)], conns = [(1, new_conn)],
     stmts = [], nextPtr = 3, pending = False\<rparr>"

definition wit_trace :: jvm where
  "wit_trace = \<lparr>globals = [1], nextGlobal = 2, wrappers = [(2, \<lparr>handle = 1, trace_ref = 1\<rparr>)], conns = [(1, wit_conn)],
     stmts = [], nextPtr = 3, pending = False\<rparr>"

definition wit_stmt :: jvm where
  "wit_stmt = \<lparr>globals = [1], nextGlobal = 2, wrappers = [(2, \<lparr>handle = 1, trace_ref = 1\<rparr>)],
     conns = [(1, wit_conn\<lparr>nStmt := 1\<rparr>)], stmts = [(3, 1)], nextPtr = 4, pending = False\<rparr>"

lemma wit_session: "session wit_stmt {#}"
proof -
  have 1: "nativeOpen RC_OK True False start = Some (2, wit_open)"
    by (simp add: nativeOpen_def start_def engine_def wit_open_def sqlite3_busy_timeout_def new_conn_def alist_set_def)
  have 2: "nativeTrace 2 9 wit_open = Some wit_trace"
    by (simp add: nativeTrace_def wit_open_def wit_trace_def wit_conn_def engine_def NewGlobalRef_def sqlite3_trace_v2_def new_conn_def alist_set_def)
  have 3: "nativePrepare Statement 2 wit_trace = Some (3, wit_stmt)"
    by (simp add: nativePrepare_def sqlite3_prepare_v2_def wit_trace_def wit_stmt_def wit_conn_def engine_def new_conn_def alist_set_def)
  have s1: "session wit_open {#}" by (rule session.open_db [OF session.begin_session _ 1]) (simp add: start_def)
  have s2: "session wit_trace {#}" by (rule session.set_trace [OF s1 _ _ _ 2]) (simp_all add: wit_open_def)
  show ?thesis by (rule session.prepare_stmt [OF s2 _ _ 3]) (simp_all add: wit_trace_def)
qed

text \<open>
  C8: In every session the global references that exist are exactly those the open connections hold for
  functions and collations, those of the trace callbacks, and those of the collations that could not
  be created, each once: none is deleted while it is in use, none twice, and when the connections are
  gone only the last kind is left.
\<close>

theorem jni_references:
  assumes "session st L"
  shows "mset (globals st) = held st + trace_refs st + L \<and> distinct (globals st) \<and>
    (conns st = [] \<longrightarrow> mset (globals st) = L)"
proof -
  have b: "struct_inv st" "refs_inv {#} st L" using session_bridge [OF assms] by (simp_all add: bridge_def)
  have "wrappers st = []" if "conns st = []"
    using b(1) that unfolding struct_inv_def by (cases "wrappers st") auto
  then show ?thesis using b(2) by (auto simp: refs_inv_def held_def trace_refs_def)
qed

lemma jni_references_witness: "mset [1] = held wit_stmt + trace_refs wit_stmt"
  using jni_references [OF wit_session] by (simp add: wit_stmt_def)



text \<open>
  C12: What the layer does not protect against. After \<open>nativeInsert\<close> or \<open>nativeExecute\<close> has failed and
  thrown, the statement is freed, so closing its Java object frees it again. After the trace callback
  has been cleared, the engine still has it, so the next statement calls a reference that does not
  exist.
\<close>

theorem jni_dangling:
  assumes "session st L" "map_of (stmts st) s = Some h" "map_of (wrappers st) p = Some w" "handle w = h"
  shows "(rc \<noteq> DONE \<longrightarrow> (\<exists>st'. nativeExecute rc tr n v s st = Some (- 1, st') \<and> pending st' \<and> nativeFinalize s st' = None)) \<and>
    (j \<noteq> 0 \<longrightarrow> (\<exists>st1 st2. nativeTrace p j st = Some st1 \<and> nativeTrace p 0 st1 = Some st2 \<and> nativeStep rc True n s st2 = None))"
proof (intro conjI impI)
  note b = session_bridge [OF assms(1)]
  have i: "struct_inv st" using b by (simp add: bridge_def)
  have s0: "s \<noteq> 0" "s = 0 \<or> map_of (stmts st) s \<noteq> None" using stmt_conn [OF i assms(2)] assms(2) by auto
  show "\<exists>st'. nativeExecute rc tr n v s st = Some (- 1, st') \<and> pending st' \<and> nativeFinalize s st' = None" if rc: "rc \<noteq> DONE"
  proof -
    from nativeExecute_ok [OF b s0(2), of rc tr n v] obtain r st' where r: "nativeExecute rc tr n v s st = Some (r, st')" by blast
    from step_ok [OF b s0(2), of rc tr n] obtain r1 st1 where
      1: "sqlite3_step rc tr n s st = Some (r1, st1)" "bridge st1 L" "stmts st1 = stmts st" by blast
    have r1: "r1 = rc" using 1(1) s0(1) by (auto simp: sqlite3_step_def Option.bind_eq_Some_conv split: prod.splits)
    from finalize_ok [OF 1(2), of s] 1(3) s0(2) obtain st2 where 2: "sqlite3_finalize s st1 = Some st2" by auto
    then obtain st3 where "st2 = st3\<lparr>stmts := alist_del s (stmts st3)\<rparr>"
      using s0(1) by (auto simp: sqlite3_finalize_def Option.bind_eq_Some_conv split: prod.splits)
    then have gone: "map_of (stmts st2) s = None" by (simp add: map_of_alist_del)
    have "r = - 1" "st' = throw_sqlite_exception st2"
      using r 1(1) 2 rc r1 by (auto simp: nativeExecute_def Option.bind_eq_Some_conv split: if_splits)
    then show ?thesis using r gone s0(1) by (simp add: throw_sqlite_exception_def nativeFinalize_def sqlite3_finalize_def)
  qed
  show "\<exists>st1 st2. nativeTrace p j st = Some st1 \<and> nativeTrace p 0 st1 = Some st2 \<and> nativeStep rc True n s st2 = None" if "j \<noteq> 0"
  proof -
    let ?f = "nextGlobal st"
    from nativeTrace_ok [OF b assms(3) that] obtain st1 db' where
      1: "nativeTrace p j st = Some st1" "bridge st1 L" "stmts st1 = stmts st" "map_of (wrappers st1) p = Some (w\<lparr>trace_ref := ?f\<rparr>)"
      "map_of (conns st1) (handle w) = Some db'" "mTrace db' = SQLITE_TRACE_STMT" "pTraceArg db' = ?f" by blast
    have r: "refs_inv {#} st1 L" "?f \<noteq> 0" using b 1(2) by (auto simp: bridge_def refs_inv_def)
    have d: "DeleteGlobalRef ?f st1 = Some (st1\<lparr>globals := remove1 ?f (globals st1)\<rparr>)"
      using DeleteGlobalRef_inv(1) [OF r(1) trace_in_refs [OF 1(4)]] r(2) by simp
    let ?st2 = "st1\<lparr>globals := remove1 ?f (globals st1), wrappers := alist_set p (w\<lparr>trace_ref := 0\<rparr>) (wrappers st1)\<rparr>"
    have 2: "nativeTrace p 0 st1 = Some ?st2" using 1(4) d r(2) by (simp add: nativeTrace_def)
    have "distinct (globals st1)" using r(1) by (simp add: refs_inv_def)
    then have "?f \<notin> set (remove1 ?f (globals st1))" by simp
    then have "java_trace SQLITE_TRACE_STMT ?f ?st2 = None" using r(2) by (simp add: java_trace_def NewLocalRef_def)
    then have "nativeStep rc True n s ?st2 = None"
      using 1(3,5,6,7) assms(2,4) s0(1) by (simp add: nativeStep_def sqlite3_step_def)
    then show ?thesis using 1(1) 2 by blast
  qed
qed

lemma jni_dangling_witness:
  "\<exists>st'. nativeExecute FAILED False 0 7 3 wit_stmt = Some (- 1, st') \<and> nativeFinalize 3 st' = None"
proof -
  have "map_of (stmts wit_stmt) 3 = Some 1" "map_of (wrappers wit_stmt) 2 = Some \<lparr>handle = 1, trace_ref = 1\<rparr>"
    by (simp_all add: wit_stmt_def)
  from jni_dangling [OF wit_session this, of FAILED False 0 7] show ?thesis by auto
qed

end
