(* ===== verification/Spec2Isabelle.thy ===== *)
theory Spec2Isabelle
  imports Varint Numeric HashTable BitvecProgram RowSet Utf LikeGlob WalCheckpoint Tokenize JniBridge
begin

text \<open>
  Verification of sqlite4a, a JNI wrapper for SQLite on Android. The repository is the SQLite 3.18
  amalgamation (src/sqlite4a/src/main/cpp/sqlite3.c, cited below by the names of the files it
  was put together from), the native methods of the Java classes (sqlite3_jni.cc), and thin Java
  classes over them. The models are those of the build of CMakeLists.txt: \<open>SQLITE_THREADSAFE=2\<close>,
  little-endian processors, no debugging code.

  \<^bold>\<open>Parts and theories.\<close> From the bottom up:

  \<^item> \<open>Prelude\<close>: the C integer types as words, memory as a function from offsets to bytes, and
    lemmas on words and lists that several theories share.
  \<^item> \<open>Varint\<close> (util.c): \<open>sqlite3PutVarint\<close>, \<open>sqlite3GetVarint\<close>, \<open>sqlite3GetVarint32\<close>,
    \<open>sqlite3VarintLen\<close>, the 4-byte accessors. Round trip, equality of the unrolled readers with a
    byte-wise decoder, exact lengths.
  \<^item> \<open>Numeric\<close> (util.c): overflow-checked 64-bit arithmetic, shown exact, and the logarithmic
    estimates of the planner, with bounds.
  \<^item> \<open>Ctype\<close> (global.c), \<open>TextInt\<close>, \<open>Strings\<close> (util.c): character tables; text to integers in
    three encodings against a grammar of decimal texts; comparison, dequoting and the \<open>VList\<close>
    array, which is shown to implement a list of pairs.
  \<^item> \<open>HashTable\<close> (hash.c): the hash table on an explicit heap of linked elements. Every operation
    keeps the well-formedness of list and buckets, and the table implements a map, stated as a
    locale that the model interprets.
  \<^item> \<open>Bitvec\<close>, \<open>BitvecProgram\<close> (bitvec.c): the three representations of a set of page numbers
    against a set, and the self-test program.
  \<^item> \<open>RowSet\<close> (rowset.c): lists, merge sort and the forest of trees against a set of rowids.
  \<^item> \<open>Utf\<close> (utf.c): reading, writing, counting and translating UTF-8 and UTF-16: round trips and
    the bounds of the buffers.
  \<^item> \<open>LikeGlob\<close> (func.c): LIKE and GLOB against the declarative meaning of a pattern.
  \<^item> \<open>TokenCodes\<close>, \<open>Keywords\<close>, \<open>Tokenize\<close> (parse.h, keywordhash.h, tokenize.c): the tokenizer,
    the generated keyword recogniser against the list of keywords, and the token loop of
    \<open>sqlite3RunParser\<close> with the generated parser as a parameter.
  \<^item> \<open>WalIndex\<close>, \<open>WalLog\<close> (wal.c): the hash tables in shared memory that find the frame of a
    page, against the list of frames; the log file, its checksums, and recovery after a crash.
  \<^item> \<open>WalTrans\<close>, \<open>WalCommit\<close> (wal.c): snapshots, the write lock, and \<open>sqlite3WalFrames\<close> with all
    its paths, every operation on the file being one that may fail; a transaction is atomic and
    durable, and succeeds when nothing fails.
  \<^item> \<open>WalIterator\<close>, \<open>WalCheckpoint\<close> (wal.c): the merge sort and the iterator that visit every page
    of the log once, with its last frame, and \<open>sqlite3WalCheckpoint\<close>, which copies these frames
    into the database file: no connection that reads meanwhile sees a page change.
  \<^item> \<open>Callbacks\<close> (main.c, callback.c): collations, functions, trace and close of a connection;
    the user data of callbacks is destroyed exactly once.
  \<^item> \<open>JniBridge\<close> (sqlite3_jni.cc): the native methods over \<open>Callbacks\<close>; global references, and the
    calls that have no defined result.

  \<^bold>\<open>How the code is represented.\<close> A struct is a record, an enumeration a datatype; integers
  whose wrap-around matters are words, frame numbers and sizes are natural numbers. A pointer is
  an address where aliasing matters (\<open>HashTable\<close>) and the value it points to elsewhere. Errors are
  result codes or options. Loops are recursive functions; where a loop is not
  structural it has a measure, and where the code counts (\<open>nCollide\<close>, the five retries and the
  hundred attempts) the model counts too. A run that never ends is \<open>None\<close> of a
  \<open>partial_function\<close>, and the theorems show that it does not happen. What the code asks of its
  surroundings is a parameter: whether memory can be allocated, whether a lock is granted, the
  result of the system calls, random bytes.

  \<^bold>\<open>Interfaces.\<close> The locales state what one part relies on in another and are interpreted on the
  models: \<open>string_map\<close> for the hash table, \<open>number_set\<close> for the bit vector (the self-test is proved
  from its laws), and \<open>probing\<close> for the hash tables of the wal-index.

  \<^bold>\<open>Not modelled.\<close> The B-tree, pager and page cache, the virtual machine, the code
  generator and planner, the generated parser tables, the other SQL functions, the operating system
  layer (a parameter of the models), the extensions and the Java classes. They are listed in
  PROJECT.json with the reason. Floating point has no counterpart here, so \<open>sqlite3AtoF\<close> and the
  estimates from doubles are left out. Of the write-ahead log, \<open>sqlite3WalOpen\<close>,
  \<open>sqlite3WalClose\<close> and snapshot handles are left out. The calls of the log run one after the
  other: what other connections hold appears as the answers of the locks and as the read marks,
  not as steps of theirs between two steps of a call.
\<close>

end
